(* ===== verification/Prelude.thy ===== *)
theory Prelude
  imports Main "HOL-Library.Word"
begin

text \<open>
  Shared vocabulary of the development: the ways in which a C++ operation of the repository can
  fail, the two result types (with and without a state that survives the failure), the machine
  integers of the protocol and generic lemmas. Every component imports this theory.
\<close>

section \<open>Bytes and machine integers\<close>

unbundle bit_operations_syntax

type_synonym byte = "8 word"

section \<open>Failures\<close>

text \<open>
  What can end a C++ operation early:
  \<^item> a failed \<^verbatim>\<open>assert\<close> (the process aborts),
  \<^item> the exception class \<^verbatim>\<open>socket_disconnection\<close> with its errno,
  \<^item> \<^verbatim>\<open>throw "..."\<close> of a string literal,
  \<^item> \<^verbatim>\<open>std::out_of_range\<close> (from \<^verbatim>\<open>map::at\<close>),
  \<^item> undefined behaviour (an access outside an object, a null dereference),
  \<^item> a call of \<^verbatim>\<open>exit\<close>.
\<close>

datatype exn =
    AssertFailed
  | SocketDisconnection int
  | ThrownString string
  | OutOfRange
  | Undefined
  | Exited

type_synonym 'a result = "exn + 'a"

text \<open>The failures that are C++ exceptions: \<^verbatim>\<open>catch(...)\<close> gets these, the others end the process.\<close>

fun is_exception :: "exn \<Rightarrow> bool" where
  "is_exception (SocketDisconnection _) = True"
| "is_exception (ThrownString _) = True"
| "is_exception OutOfRange = True"
| "is_exception _ = False"

text \<open>An outcome with which the process goes on.\<close>

definition goes_on :: "'a result \<Rightarrow> bool" where
  "goes_on r \<longleftrightarrow> (case r of Inl e \<Rightarrow> is_exception e | Inr _ \<Rightarrow> True)"

lemma goes_on_simps [simp]: "goes_on (Inr x)" "goes_on (Inl e) \<longleftrightarrow> is_exception e"
  by (simp_all add: goes_on_def)

definition check_assert :: "bool \<Rightarrow> 'a result \<Rightarrow> 'a result" where
  "check_assert b r = (if b then r else Inl AssertFailed)"

lemma check_assert_simps [simp]:
  "check_assert True r = r"
  "check_assert False r = Inl AssertFailed"
  by (simp_all add: check_assert_def)

lemma check_assert_Inr_iff: "check_assert b r = Inr x \<longleftrightarrow> b \<and> r = Inr x"
  by (simp add: check_assert_def)

section \<open>Operations on a state that survives a failure\<close>

text \<open>
  A member function that may throw after it has changed its object is a function from the state
  to the outcome and the state at that moment. \<open>andThen\<close> is the sequencing of C++ statements:
  a failure skips what follows and keeps the state reached.
\<close>

type_synonym ('s, 'a) stm = "'s \<Rightarrow> 'a result \<times> 's"

definition retS :: "'a \<Rightarrow> ('s, 'a) stm" where
  "retS x s = (Inr x, s)"

definition failS :: "exn \<Rightarrow> ('s, 'a) stm" where
  "failS e s = (Inl e, s)"

definition modS :: "('s \<Rightarrow> 's) \<Rightarrow> ('s, unit) stm" where
  "modS f s = (Inr (), f s)"

definition andThen :: "('s, 'a) stm \<Rightarrow> ('a \<Rightarrow> ('s, 'b) stm) \<Rightarrow> ('s, 'b) stm" where
  "andThen m k s = (case m s of (Inl e, s') \<Rightarrow> (Inl e, s') | (Inr x, s') \<Rightarrow> k x s')"

definition assertS :: "('s \<Rightarrow> bool) \<Rightarrow> ('s, unit) stm" where
  "assertS P s = (if P s then (Inr (), s) else (Inl AssertFailed, s))"

lemma retS_apply [simp]: "retS x s = (Inr x, s)"
  by (simp add: retS_def)

lemma failS_apply [simp]: "failS e s = (Inl e, s)"
  by (simp add: failS_def)

lemma modS_apply [simp]: "modS f s = (Inr (), f s)"
  by (simp add: modS_def)

lemma assertS_simps [simp]:
  "P s \<Longrightarrow> assertS P s = (Inr (), s)"
  "\<not> P s \<Longrightarrow> assertS P s = (Inl AssertFailed, s)"
  by (simp_all add: assertS_def)

lemma andThen_Inr [simp]: "m s = (Inr x, s') \<Longrightarrow> andThen m k s = k x s'"
  by (simp add: andThen_def)

lemma andThen_False [simp]: "m s = (Inr False, s') \<Longrightarrow> andThen m k s = k False s'"
  by (simp add: andThen_def)

lemma andThen_Inl [simp]: "m s = (Inl e, s') \<Longrightarrow> andThen m k s = (Inl e, s')"
  by (simp add: andThen_def)

lemma andThen_InrE:
  assumes "andThen m k s = (Inr y, t)"
  obtains x s' where "m s = (Inr x, s')" and "k x s' = (Inr y, t)"
  using assms by (auto simp: andThen_def split: prod.splits sum.splits)

text \<open>A property kept by both halves is kept by the sequence, whatever the outcome.\<close>

lemma andThen_keeps:
  assumes "\<And>r s'. m s = (r, s') \<Longrightarrow> I s'"
    and "\<And>x s' r t. m s = (Inr x, s') \<Longrightarrow> I s' \<Longrightarrow> k x s' = (r, t) \<Longrightarrow> I t"
    and "andThen m k s = (r, t)"
  shows "I t"
  using assms by (auto simp: andThen_def split: prod.splits sum.splits)

text \<open>The result of a loop that may not end, followed by another statement.\<close>

definition thenO :: "('a result \<times> 's) option \<Rightarrow> ('a \<Rightarrow> 's \<Rightarrow> ('b result \<times> 's) option) \<Rightarrow> ('b result \<times> 's) option"
where
  "thenO m k = (case m of
      None \<Rightarrow> None
    | Some (Inl e, s) \<Rightarrow> Some (Inl e, s)
    | Some (Inr x, s) \<Rightarrow> k x s)"

lemma thenO_simps [simp]:
  "thenO None k = None" "thenO (Some (Inl e, s)) k = Some (Inl e, s)" "thenO (Some (Inr x, s)) k = k x s"
  by (simp_all add: thenO_def)

end
