(* ===== verification/DbleList.thy ===== *)
theory DbleList
  imports Prelude
begin

text \<open>
  \<^verbatim>\<open>util/dbleList.h\<close>: the list with a head of one pointer, ported from the kernel's \<^verbatim>\<open>hlist\<close>. The text of the file is
  disabled by \<^verbatim>\<open>#if 0\<close> and part of no program; it is modelled as it is written. A node has a pointer to the next node
  and, in \<^verbatim>\<open>pprev\<close>, the address of the pointer that points to it, which is the \<^verbatim>\<open>first\<close> of a head or the \<^verbatim>\<open>next\<close> of
  another node. The structures themselves and the poison constants are declared nowhere in the repository: the constants are
  arguments. The abstraction relates the memory to the sequences of nodes of all heads.
\<close>

section \<open>Memory\<close>

type_synonym node = nat
type_synonym hlist_head = nat

datatype slot = First hlist_head | Next node

record hmem =
  first_ptr :: "hlist_head \<Rightarrow> node option"
  next_ptr :: "node \<Rightarrow> node option"
  pprev :: "node \<Rightarrow> slot option"

fun deref :: "slot \<Rightarrow> hmem \<Rightarrow> node option" where
  "deref (First h) m = first_ptr m h"
| "deref (Next n) m = next_ptr m n"

fun assign :: "slot \<Rightarrow> node option \<Rightarrow> hmem \<Rightarrow> hmem" where
  "assign (First h) v m = m\<lparr>first_ptr := (first_ptr m)(h := v)\<rparr>"
| "assign (Next n) v m = m\<lparr>next_ptr := (next_ptr m)(n := v)\<rparr>"

definition set_pprev :: "node \<Rightarrow> slot option \<Rightarrow> hmem \<Rightarrow> hmem" where
  "set_pprev n p m = m\<lparr>pprev := (pprev m)(n := p)\<rparr>"

section \<open>Operations\<close>

definition INIT_HLIST_HEAD :: "hlist_head \<Rightarrow> hmem \<Rightarrow> hmem" where
  "INIT_HLIST_HEAD p m = assign (First p) None m"

definition INIT_HLIST_NODE :: "node \<Rightarrow> hmem \<Rightarrow> hmem" where
  "INIT_HLIST_NODE h m = set_pprev h None (assign (Next h) None m)"

definition hlist_unhashed :: "node \<Rightarrow> hmem \<Rightarrow> bool" where
  "hlist_unhashed h m \<longleftrightarrow> pprev m h = None"

definition hlist_empty :: "hlist_head \<Rightarrow> hmem \<Rightarrow> bool" where
  "hlist_empty h m \<longleftrightarrow> first_ptr m h = None"

text \<open>A null \<^verbatim>\<open>pprev\<close> is dereferenced.\<close>

definition hlist_del_raw :: "node \<Rightarrow> hmem \<Rightarrow> hmem result" where
  "hlist_del_raw n m = (case pprev m n of
      None \<Rightarrow> Inl Undefined
    | Some p \<Rightarrow> let nx = next_ptr m n; m1 = assign p nx m in
        Inr (case nx of None \<Rightarrow> m1 | Some x \<Rightarrow> set_pprev x (Some p) m1))"

definition hlist_del :: "node option \<Rightarrow> slot option \<Rightarrow> node \<Rightarrow> hmem \<Rightarrow> hmem result" where
  "hlist_del LIST_POISON1 LIST_POISON2 n m = (case hlist_del_raw n m of
      Inl e \<Rightarrow> Inl e
    | Inr m1 \<Rightarrow> Inr (set_pprev n LIST_POISON2 (assign (Next n) LIST_POISON1 m1)))"

definition hlist_del_init :: "node \<Rightarrow> hmem \<Rightarrow> hmem result" where
  "hlist_del_init n m = (if \<not> hlist_unhashed n m then (case hlist_del_raw n m of
      Inl e \<Rightarrow> Inl e
    | Inr m1 \<Rightarrow> Inr (INIT_HLIST_NODE n m1)) else Inr m)"

definition hlist_add_head :: "node \<Rightarrow> hlist_head \<Rightarrow> hmem \<Rightarrow> hmem" where
  "hlist_add_head n h m =
    (let fst_node = first_ptr m h;
         m1 = assign (Next n) fst_node m;
         m2 = (case fst_node of None \<Rightarrow> m1 | Some x \<Rightarrow> set_pprev x (Some (Next n)) m1);
         m3 = assign (First h) (Some n) m2
     in set_pprev n (Some (First h)) m3)"

definition hlist_add_before :: "node \<Rightarrow> node \<Rightarrow> hmem \<Rightarrow> hmem result" where
  "hlist_add_before n nx m =
    (let m1 = set_pprev n (pprev m nx) m;
         m2 = assign (Next n) (Some nx) m1;
         m3 = set_pprev nx (Some (Next n)) m2
     in case pprev m3 n of None \<Rightarrow> Inl Undefined | Some p \<Rightarrow> Inr (assign p (Some n) m3))"

definition hlist_add_behind :: "node \<Rightarrow> node \<Rightarrow> hmem \<Rightarrow> hmem" where
  "hlist_add_behind n pv m =
    (let m1 = assign (Next n) (next_ptr m pv) m;
         m2 = assign (Next pv) (Some n) m1;
         m3 = set_pprev n (Some (Next pv)) m2
     in case next_ptr m3 n of None \<Rightarrow> m3 | Some x \<Rightarrow> set_pprev x (Some (Next n)) m3)"

definition hlist_add_fake :: "node \<Rightarrow> hmem \<Rightarrow> hmem" where
  "hlist_add_fake n m = set_pprev n (Some (Next n)) m"

definition hlist_move_list :: "hlist_head \<Rightarrow> hlist_head \<Rightarrow> hmem \<Rightarrow> hmem" where
  "hlist_move_list old newElt m =
    (let m1 = assign (First newElt) (first_ptr m old) m;
         m2 = (case first_ptr m1 newElt of None \<Rightarrow> m1 | Some x \<Rightarrow> set_pprev x (Some (First newElt)) m1)
     in assign (First old) None m2)"

section \<open>Loops\<close>

text \<open>
  The macros over nodes and those over the structures that contain them are the same loops: the address of a structure
  stands for that of its node. \<open>hlist_loop\<close> goes on from a position, the \<^verbatim>\<open>_continue\<close> and \<^verbatim>\<open>_from\<close> forms; the safe
  ones read the link before the body.
\<close>

type_synonym 'a node_body = "node \<Rightarrow> 'a \<times> hmem \<Rightarrow> ('a \<times> hmem) result"

partial_function (option) hlist_loop :: "'a node_body \<Rightarrow> node option \<Rightarrow> 'a \<times> hmem \<Rightarrow> ('a \<times> hmem) result option" where
  "hlist_loop body pos s = (case pos of
      None \<Rightarrow> Some (Inr s)
    | Some n \<Rightarrow> (case body n s of
          Inl e \<Rightarrow> Some (Inl e)
        | Inr t \<Rightarrow> hlist_loop body (next_ptr (snd t) n) t))"

partial_function (option) hlist_loop_safe :: "'a node_body \<Rightarrow> node option \<Rightarrow> 'a \<times> hmem \<Rightarrow> ('a \<times> hmem) result option" where
  "hlist_loop_safe body pos s = (case pos of
      None \<Rightarrow> Some (Inr s)
    | Some p \<Rightarrow> let n = next_ptr (snd s) p in
        (case body p s of
          Inl e \<Rightarrow> Some (Inl e)
        | Inr t \<Rightarrow> hlist_loop_safe body n t))"

definition hlist_for_each :: "'a node_body \<Rightarrow> hlist_head \<Rightarrow> 'a \<times> hmem \<Rightarrow> ('a \<times> hmem) result option" where
  "hlist_for_each body h s = hlist_loop body (first_ptr (snd s) h) s"

definition hlist_for_each_continue :: "'a node_body \<Rightarrow> node \<Rightarrow> 'a \<times> hmem \<Rightarrow> ('a \<times> hmem) result option" where
  "hlist_for_each_continue body pos s = hlist_loop body (next_ptr (snd s) pos) s"

definition hlist_for_each_from :: "'a node_body \<Rightarrow> node option \<Rightarrow> 'a \<times> hmem \<Rightarrow> ('a \<times> hmem) result option" where
  "hlist_for_each_from body pos s = hlist_loop body pos s"

definition hlist_for_each_safe :: "'a node_body \<Rightarrow> hlist_head \<Rightarrow> 'a \<times> hmem \<Rightarrow> ('a \<times> hmem) result option" where
  "hlist_for_each_safe body h s = hlist_loop_safe body (first_ptr (snd s) h) s"

section \<open>The abstraction\<close>

text \<open>The nodes that follow a pointer.\<close>

fun linked :: "hmem \<Rightarrow> slot \<Rightarrow> node list \<Rightarrow> bool" where
  "linked m p [] \<longleftrightarrow> deref p m = None"
| "linked m p (n # ns) \<longleftrightarrow> deref p m = Some n \<and> pprev m n = Some p \<and> linked m (Next n) ns"

text \<open>The lists \<open>L\<close> of the heads; every node outside them is free.\<close>

definition lists_ok :: "hmem \<Rightarrow> (hlist_head \<Rightarrow> node list option) \<Rightarrow> bool" where
  "lists_ok m L \<longleftrightarrow> (\<forall>h ns. L h = Some ns \<longrightarrow> linked m (First h) ns \<and> distinct ns)
     \<and> (\<forall>h h' ns ns'. L h = Some ns \<longrightarrow> L h' = Some ns' \<longrightarrow> h \<noteq> h' \<longrightarrow> set ns \<inter> set ns' = {})"

definition free_node :: "(hlist_head \<Rightarrow> node list option) \<Rightarrow> node \<Rightarrow> bool" where
  "free_node L n \<longleftrightarrow> (\<forall>h ns. L h = Some ns \<longrightarrow> n \<notin> set ns)"

lemma memory_sel [simp]:
  "deref p (set_pprev n q m) = deref p m" "pprev (assign p v m) = pprev m"
  "pprev (set_pprev n q m) = (pprev m)(n := q)"
  "next_ptr (set_pprev n q m) = next_ptr m" "first_ptr (set_pprev n q m) = first_ptr m"
  by (cases p; simp add: set_pprev_def)+

lemma deref_assign [simp]: "deref p (assign q v m) = (if p = q then v else deref p m)"
  by (cases p; cases q) auto

lemma next_ptr_assign [simp]: "next_ptr (assign q v m) n = (if q = Next n then v else next_ptr m n)"
  by (cases q) auto

lemma first_ptr_assign [simp]: "first_ptr (assign q v m) h = (if q = First h then v else first_ptr m h)"
  by (cases q) auto

declare assign.simps [simp del]

lemma linked_cong:
  assumes "deref p m' = deref p m" "\<And>n. n \<in> set ns \<Longrightarrow> next_ptr m' n = next_ptr m n \<and> pprev m' n = pprev m n"
  shows "linked m' p ns = linked m p ns"
  using assms by (induction ns arbitrary: p) simp_all

section \<open>Insertion and removal at a place of a list\<close>

text \<open>The nodes \<open>ns\<close> lead from a pointer to the pointer \<open>slot_end p ns\<close>.\<close>

fun path :: "hmem \<Rightarrow> slot \<Rightarrow> node list \<Rightarrow> bool" where
  "path m p [] \<longleftrightarrow> True"
| "path m p (n # ns) \<longleftrightarrow> deref p m = Some n \<and> pprev m n = Some p \<and> path m (Next n) ns"

definition slot_end :: "slot \<Rightarrow> node list \<Rightarrow> slot" where
  "slot_end p ns = (if ns = [] then p else Next (last ns))"

lemma slot_end_simps [simp]:
  "slot_end p [] = p" "slot_end p (n # ns) = slot_end (Next n) ns" "slot_end p (ns @ [n]) = Next n"
  by (simp_all add: slot_end_def)

lemma linked_append: "linked m p (as @ bs) \<longleftrightarrow> path m p as \<and> linked m (slot_end p as) bs"
  by (induction as arbitrary: p) auto

lemma path_cong:
  assumes "as \<noteq> [] \<Longrightarrow> deref p m' = deref p m" "\<And>n. n \<in> set (butlast as) \<Longrightarrow> next_ptr m' n = next_ptr m n"
    and "\<And>n. n \<in> set as \<Longrightarrow> pprev m' n = pprev m n"
  shows "path m' p as = path m p as"
  using assms
proof (induction as arbitrary: p)
  case (Cons a as)
  have "path m' (Next a) as = path m (Next a) as"
    using Cons.prems by (intro Cons.IH) (cases as; simp)+
  then show ?case using Cons.prems(1,3) by simp
qed simp

lemma linked_places:
  assumes "linked m p (as @ n # bs)"
  shows "deref (slot_end p as) m = Some n" "pprev m n = Some (slot_end p as)"
    "next_ptr m n = (case bs of [] \<Rightarrow> None | b # _ \<Rightarrow> Some b)" "bs = b # bs' \<Longrightarrow> pprev m b = Some (Next n)"
  using assms by (cases bs; simp add: linked_append)+

lemma linked_first: "linked m p ns \<Longrightarrow> deref p m = (case ns of [] \<Rightarrow> None | n # _ \<Rightarrow> Some n)"
  by (cases ns) simp_all

lemma lists_okD:
  assumes "lists_ok m L" "L h = Some ns"
  shows "linked m (First h) ns" "distinct ns" "L h' = Some ns' \<Longrightarrow> h \<noteq> h' \<Longrightarrow> set ns \<inter> set ns' = {}"
  using assms unfolding lists_ok_def by blast+

text \<open>
  What an operation on one list has to show: the list itself, and that it touches neither the heads nor the nodes of the
  others.
\<close>

lemma lists_ok_update:
  assumes ok: "lists_ok m L" and L: "L h = Some ns"
    and own: "linked m' (First h) ns'" "distinct ns'" "set ns' \<subseteq> set ns \<union> N" "\<forall>n\<in>N. free_node L n"
    and rest: "\<And>h'. h' \<noteq> h \<Longrightarrow> first_ptr m' h' = first_ptr m h'"
      "\<And>n. n \<notin> set ns \<union> N \<Longrightarrow> next_ptr m' n = next_ptr m n \<and> pprev m' n = pprev m n"
  shows "lists_ok m' (L(h \<mapsto> ns'))"
proof -
  have other: "linked m' (First h') xs \<and> distinct xs \<and> set ns' \<inter> set xs = {}" if "L h' = Some xs" "h' \<noteq> h" for h' xs
  proof -
    have d: "set ns \<inter> set xs = {}" "N \<inter> set xs = {}"
      using lists_okD(3) [OF ok L that(1)] that own(4) by (auto simp: free_node_def)
    have "linked m' (First h') xs = linked m (First h') xs"
      using rest that(2) d by (intro linked_cong) auto
    then show ?thesis using lists_okD(1,2) [OF ok that(1)] d own(3) by blast
  qed
  show ?thesis
    unfolding lists_ok_def
  proof (intro conjI allI impI)
    fix k xs assume k: "(L(h \<mapsto> ns')) k = Some xs"
    show "linked m' (First k) xs" "distinct xs" using k own(1,2) other by (cases "k = h"; simp)+
    fix k' xs' assume k': "(L(h \<mapsto> ns')) k' = Some xs'" "k \<noteq> k'"
    show "set xs \<inter> set xs' = {}"
    proof (cases "k = h \<or> k' = h")
      case True
      then show ?thesis using k k' other [of k' xs'] other [of k xs] by (auto split: if_splits)
    next
      case False
      then show ?thesis using k k' lists_okD(3) [OF ok] by simp
    qed
  qed
qed

definition insert_at :: "slot \<Rightarrow> node \<Rightarrow> hmem \<Rightarrow> hmem" where
  "insert_at q n m =
    (let m1 = set_pprev n (Some q) (assign q (Some n) (assign (Next n) (deref q m) m))
     in case deref q m of None \<Rightarrow> m1 | Some x \<Rightarrow> set_pprev x (Some (Next n)) m1)"

lemma insert_at_sel:
  "Next n \<noteq> q \<Longrightarrow> deref p (insert_at q n m) = (if p = q then Some n else if p = Next n then deref q m else deref p m)"
  "pprev (insert_at q n m) x = (if deref q m = Some x then Some (Next n) else if x = n then Some q else pprev m x)"
  by (simp_all add: insert_at_def Let_def split: option.split)

lemma insert_at_ok:
  assumes ok: "lists_ok m L" and L: "L h = Some (as @ bs)" and n: "free_node L n"
  shows "lists_ok (insert_at (slot_end (First h) as) n m) (L(h \<mapsto> as @ n # bs))"
proof -
  let ?q = "slot_end (First h) as" and ?m = "insert_at (slot_end (First h) as) n m"
  have l: "path m (First h) as" "linked m ?q bs" using lists_okD(1) [OF ok L] by (simp_all add: linked_append)
  have "n \<notin> set (as @ bs)" using n L unfolding free_node_def by blast
  then have d: "distinct (as @ bs)" "n \<notin> set as" "n \<notin> set bs" using lists_okD(2) [OF ok L] by simp_all
  have q: "Next n \<noteq> ?q" "as \<noteq> [] \<Longrightarrow> First h \<noteq> ?q" "x \<in> set (butlast as) \<Longrightarrow> Next x \<noteq> ?q" "x \<in> set bs \<Longrightarrow> Next x \<noteq> ?q" for x
  proof -
    show "Next n \<noteq> ?q" "as \<noteq> [] \<Longrightarrow> First h \<noteq> ?q" "x \<in> set bs \<Longrightarrow> Next x \<noteq> ?q"
      using d by (cases as rule: rev_cases; auto)+
    show "Next x \<noteq> ?q" if "x \<in> set (butlast as)"
      using d(1) that by (cases as rule: rev_cases) auto
  qed
  have first: "deref ?q m = (case bs of [] \<Rightarrow> None | b # _ \<Rightarrow> Some b)" by (rule linked_first [OF l(2)])
  have m: "deref p ?m = (if p = ?q then Some n else if p = Next n then deref ?q m else deref p m)"
    "pprev ?m x = (if bs \<noteq> [] \<and> x = hd bs then Some (Next n) else if x = n then Some ?q else pprev m x)" for p x
    using first by (simp_all add: insert_at_sel(1) [OF q(1)] insert_at_sel(2) split: list.split)
  have next_m: "next_ptr ?m x = (if Next x = ?q then Some n else if x = n then deref ?q m else next_ptr m x)" for x
    using m(1) [of "Next x"] by (simp only: deref.simps slot.inject)
  have "path ?m (First h) as = path m (First h) as"
  proof (rule path_cong)
    show "x \<in> set as \<Longrightarrow> pprev ?m x = pprev m x" for x using d hd_in_set [of bs] by (auto simp: m(2))
    show "x \<in> set (butlast as) \<Longrightarrow> next_ptr ?m x = next_ptr m x" for x
      using q(3) [of x] d(2) by (auto simp: next_m dest: in_set_butlastD)
  qed (use q(1,2) in \<open>simp add: m(1)\<close>)
  moreover have "linked ?m (Next n) bs"
  proof (cases bs)
    case Nil
    then show ?thesis using first q(1) by (simp add: next_m)
  next
    case (Cons b cs)
    have "linked ?m (Next b) cs = linked m (Next b) cs"
    proof (rule linked_cong)
      show "deref (Next b) ?m = deref (Next b) m" using q(4) [of b] d(3) Cons by (simp add: next_m)
      show "x \<in> set cs \<Longrightarrow> next_ptr ?m x = next_ptr m x \<and> pprev ?m x = pprev m x" for x
        using q(4) [of x] d Cons by (auto simp: next_m m(2))
    qed
    then show ?thesis using l(2) Cons first q(1) by (simp add: next_m m(2))
  qed
  moreover have "bs \<noteq> [] \<Longrightarrow> hd bs \<noteq> n" using d(3) hd_in_set by fastforce
  ultimately have own: "linked ?m (First h) (as @ n # bs)"
    using l(1) by (auto simp: linked_append m)
  show ?thesis
  proof (rule lists_ok_update [OF ok L own, of "{n}"])
    show "first_ptr ?m h' = first_ptr m h'" if "h' \<noteq> h" for h'
      using m(1) [of "First h'"] that by (simp add: slot_end_def)
    show "next_ptr ?m x = next_ptr m x \<and> pprev ?m x = pprev m x" if "x \<notin> set (as @ bs) \<union> {n}" for x
    proof -
      have "Next x \<noteq> ?q" using that by (cases as rule: rev_cases) auto
      moreover have "bs \<noteq> [] \<Longrightarrow> x \<noteq> hd bs" using that hd_in_set [of bs] by auto
      ultimately show ?thesis using that by (auto simp: next_m m(2))
    qed
  qed (use d n in auto)
qed

lemma add_head_insert: "first_ptr m h \<noteq> Some n \<Longrightarrow> hlist_add_head n h m = insert_at (First h) n m"
  by (cases "first_ptr m h") (auto simp: hlist_add_head_def insert_at_def set_pprev_def assign.simps fun_upd_twist)

lemma add_before_insert:
  assumes "pprev m x = Some q" "deref q m = Some x" "n \<noteq> x" "q \<noteq> Next n"
  shows "hlist_add_before n x m = Inr (insert_at q n m)"
  using assms by (cases q) (auto simp: hlist_add_before_def insert_at_def set_pprev_def assign.simps fun_upd_twist)

lemma add_behind_insert: "n \<noteq> p \<Longrightarrow> next_ptr m p \<noteq> Some n \<Longrightarrow> hlist_add_behind n p m = insert_at (Next p) n m"
  by (cases "next_ptr m p") (auto simp: hlist_add_behind_def insert_at_def set_pprev_def assign.simps fun_upd_twist)

lemma remove_ok:
  assumes ok: "lists_ok m L" and L: "L h = Some (as @ n # bs)"
  shows "\<exists>m'. hlist_del_raw n m = Inr m' \<and> lists_ok m' (L(h \<mapsto> as @ bs))
    \<and> next_ptr m' n = next_ptr m n \<and> pprev m' n = pprev m n"
proof -
  let ?q = "slot_end (First h) as"
  have l: "linked m (First h) (as @ n # bs)" by (rule lists_okD(1) [OF ok L])
  have l': "path m (First h) as" "linked m (Next n) bs" using l by (simp_all add: linked_append)
  have d: "distinct (as @ n # bs)" using lists_okD(2) [OF ok L] by simp
  note pl = linked_places [OF l]
  define m' where "m' = (case bs of [] \<Rightarrow> assign ?q None m | b # _ \<Rightarrow> set_pprev b (Some ?q) (assign ?q (Some b) m))"
  have del: "hlist_del_raw n m = Inr m'"
    using pl(2,3) by (cases bs) (simp_all add: hlist_del_raw_def m'_def)
  have q: "Next n \<noteq> ?q" "as \<noteq> [] \<Longrightarrow> First h \<noteq> ?q" "x \<in> set (butlast as) \<Longrightarrow> Next x \<noteq> ?q" "x \<in> set bs \<Longrightarrow> Next x \<noteq> ?q" for x
    using d by (cases as rule: rev_cases; auto)+
  have m: "deref p m' = (if p = ?q then (case bs of [] \<Rightarrow> None | b # _ \<Rightarrow> Some b) else deref p m)"
    "pprev m' x = (if bs \<noteq> [] \<and> x = hd bs then Some ?q else pprev m x)" for p x
    by (cases bs; simp add: m'_def)+
  have next_m: "next_ptr m' x = (if Next x = ?q then (case bs of [] \<Rightarrow> None | b # _ \<Rightarrow> Some b) else next_ptr m x)" for x
    using m(1) [of "Next x"] by (simp only: deref.simps)
  have "path m' (First h) as = path m (First h) as"
  proof (rule path_cong)
    show "x \<in> set as \<Longrightarrow> pprev m' x = pprev m x" for x using d hd_in_set [of bs] by (auto simp: m(2))
    show "x \<in> set (butlast as) \<Longrightarrow> next_ptr m' x = next_ptr m x" for x using q(3) [of x] by (simp add: next_m)
  qed (use q(2) in \<open>simp add: m(1)\<close>)
  moreover have "linked m' ?q bs"
  proof (cases bs)
    case Nil
    then show ?thesis by (simp add: m)
  next
    case (Cons b cs)
    have "linked m' (Next b) cs = linked m (Next b) cs"
    proof (rule linked_cong)
      show "deref (Next b) m' = deref (Next b) m" using q(4) [of b] Cons by (simp add: next_m)
      show "x \<in> set cs \<Longrightarrow> next_ptr m' x = next_ptr m x \<and> pprev m' x = pprev m x" for x
        using q(4) [of x] d Cons by (auto simp: next_m m(2))
    qed
    then show ?thesis using l'(2) Cons by (simp add: m)
  qed
  ultimately have own: "linked m' (First h) (as @ bs)" using l'(1) by (simp add: linked_append)
  have "lists_ok m' (L(h \<mapsto> as @ bs))"
  proof (rule lists_ok_update [OF ok L own, of "{}"])
    show "first_ptr m' h' = first_ptr m h'" if "h' \<noteq> h" for h'
      using m(1) [of "First h'"] that by (simp add: slot_end_def)
    show "next_ptr m' x = next_ptr m x \<and> pprev m' x = pprev m x" if "x \<notin> set (as @ n # bs) \<union> {}" for x
      using that hd_in_set [of bs] last_in_set [of as] by (auto simp: next_m m(2) slot_end_def)
  qed (use d in auto)
  moreover have "next_ptr m' n = next_ptr m n" using next_m [of n] q(1) by simp
  moreover have "pprev m' n = pprev m n" using d by (auto simp: m(2) dest: hd_in_set)
  ultimately show ?thesis using del by blast
qed

text \<open>A change of a node outside all lists keeps them.\<close>

lemma lists_ok_free:
  assumes "lists_ok m L" "free_node L n"
    and "\<And>h. first_ptr m' h = first_ptr m h" "\<And>x. x \<noteq> n \<Longrightarrow> next_ptr m' x = next_ptr m x \<and> pprev m' x = pprev m x"
  shows "lists_ok m' L"
proof -
  have "linked m' (First h) ns = linked m (First h) ns" if "L h = Some ns" for h ns
  proof (rule linked_cong)
    have "n \<notin> set ns" using assms(2) that unfolding free_node_def by blast
    then show "x \<in> set ns \<Longrightarrow> next_ptr m' x = next_ptr m x \<and> pprev m' x = pprev m x" for x
      using assms(4) [of x] by auto
  qed (simp add: assms(3))
  then show ?thesis using assms(1) by (simp add: lists_ok_def)
qed

lemma free_node_removed:
  assumes "lists_ok m L" "L h = Some (as @ n # bs)" shows "free_node (L(h \<mapsto> as @ bs)) n"
  using lists_okD(2) [OF assms] lists_okD(3) [OF assms] by (fastforce simp: free_node_def)

section \<open>Properties\<close>

text \<open>The three insertions put a free node at the place they name.\<close>

theorem hlist_insertions:
  assumes "lists_ok m L" and "L h = Some (as @ x # bs)" and "free_node L n"
  shows "lists_ok (hlist_add_head n h m) (L(h \<mapsto> n # as @ x # bs))"
    and "\<exists>m'. hlist_add_before n x m = Inr m' \<and> lists_ok m' (L(h \<mapsto> as @ n # x # bs))"
    and "lists_ok (hlist_add_behind n x m) (L(h \<mapsto> as @ x # n # bs))"
proof -
  have n: "n \<notin> set (as @ x # bs)" using assms(2,3) unfolding free_node_def by blast
  note pl = linked_places [OF lists_okD(1) [OF assms(1,2)]]
  have "first_ptr m h \<noteq> Some n"
    using linked_first [OF lists_okD(1) [OF assms(1,2)]] n by (cases as) auto
  then show "lists_ok (hlist_add_head n h m) (L(h \<mapsto> n # as @ x # bs))"
    using insert_at_ok [OF assms(1), of h "[]" "as @ x # bs" n] assms(2,3) by (simp add: add_head_insert)
  have "slot_end (First h) as \<noteq> Next n" using n by (cases as rule: rev_cases) auto
  then show "\<exists>m'. hlist_add_before n x m = Inr m' \<and> lists_ok m' (L(h \<mapsto> as @ n # x # bs))"
    using insert_at_ok [OF assms(1,2,3)] add_before_insert [OF pl(2,1)] n by auto
  have "next_ptr m x \<noteq> Some n" using pl(3) n by (cases bs) auto
  then show "lists_ok (hlist_add_behind n x m) (L(h \<mapsto> as @ x # n # bs))"
    using insert_at_ok [OF assms(1), of h "as @ [x]" bs n] assms(2,3) n by (simp add: add_behind_insert)
qed

text \<open>The removals take the node out; \<^verbatim>\<open>hlist_del_init\<close> leaves it unhashed, so that a second one does nothing.\<close>

theorem hlist_removals:
  assumes "lists_ok m L" and "L h = Some (as @ n # bs)"
  shows "\<exists>m'. hlist_del p1 p2 n m = Inr m' \<and> lists_ok m' (L(h \<mapsto> as @ bs))
      \<and> next_ptr m' n = p1 \<and> pprev m' n = p2"
    and "\<exists>m'. hlist_del_init n m = Inr m' \<and> lists_ok m' (L(h \<mapsto> as @ bs)) \<and> hlist_unhashed n m'
      \<and> hlist_del_init n m' = Inr m'"
proof -
  obtain m1 where m1: "hlist_del_raw n m = Inr m1" "lists_ok m1 (L(h \<mapsto> as @ bs))"
      "next_ptr m1 n = next_ptr m n" "pprev m1 n = pprev m n"
    using remove_ok [OF assms] by blast
  note free = lists_ok_free [OF m1(2) free_node_removed [OF assms]]
  show "\<exists>m'. hlist_del p1 p2 n m = Inr m' \<and> lists_ok m' (L(h \<mapsto> as @ bs)) \<and> next_ptr m' n = p1 \<and> pprev m' n = p2"
  proof (intro exI conjI)
    show "lists_ok (set_pprev n p2 (assign (Next n) p1 m1)) (L(h \<mapsto> as @ bs))" by (rule free) simp_all
  qed (simp_all add: hlist_del_def m1(1))
  have n: "pprev m n \<noteq> None" using linked_places(2) [OF lists_okD(1) [OF assms]] by simp
  show "\<exists>m'. hlist_del_init n m = Inr m' \<and> lists_ok m' (L(h \<mapsto> as @ bs)) \<and> hlist_unhashed n m'
      \<and> hlist_del_init n m' = Inr m'"
  proof (intro exI conjI)
    show "lists_ok (INIT_HLIST_NODE n m1) (L(h \<mapsto> as @ bs))" by (rule free) (simp_all add: INIT_HLIST_NODE_def)
  qed (use n in \<open>simp_all add: hlist_del_init_def hlist_unhashed_def INIT_HLIST_NODE_def m1(1)\<close>)
qed

text \<open>
  A list moves to another head, whose former nodes are left behind; a node prepared by \<^verbatim>\<open>hlist_add_fake\<close> can be
  deleted although it is in no list.
\<close>

theorem hlist_move_and_fake:
  assumes "lists_ok m L" and "L old = Some xs" and "L new_head = Some ys" and "old \<noteq> new_head"
  shows "lists_ok (hlist_move_list old new_head m) (L(old \<mapsto> [], new_head \<mapsto> xs))"
    and "next_ptr m n = None \<Longrightarrow> hlist_del_raw n (hlist_add_fake n m) = Inr (hlist_add_fake n m)"
proof -
  let ?m = "hlist_move_list old new_head m"
  have l: "linked m (First old) xs" "distinct xs" by (rule lists_okD [OF assms(1,2)])+
  have first: "first_ptr m old = (case xs of [] \<Rightarrow> None | x # _ \<Rightarrow> Some x)" using linked_first [OF l(1)] by simp
  have m: "first_ptr ?m h = (if h = old then None else if h = new_head then first_ptr m old else first_ptr m h)"
    "next_ptr ?m = next_ptr m" "pprev ?m x = (if xs \<noteq> [] \<and> x = hd xs then Some (First new_head) else pprev m x)" for h x
    using assms(4) first by (auto simp: hlist_move_list_def Let_def fun_eq_iff split: list.splits)
  have new_list: "linked ?m (First new_head) xs"
  proof (cases xs)
    case Nil
    then show ?thesis using first assms(4) by (simp add: m)
  next
    case (Cons x zs)
    have "linked ?m (Next x) zs = linked m (Next x) zs"
      using l(2) Cons by (intro linked_cong) (auto simp: m)
    then show ?thesis using l(1) Cons first assms(4) by (simp add: m)
  qed
  have other: "linked ?m (First h) zs \<and> distinct zs \<and> set xs \<inter> set zs = {}"
    if "L h = Some zs" "h \<noteq> old" "h \<noteq> new_head" for h zs
  proof -
    have d: "set xs \<inter> set zs = {}" using lists_okD(3) [OF assms(1,2) that(1)] that(2) by blast
    have "linked ?m (First h) zs = linked m (First h) zs"
    proof (rule linked_cong)
      show "x \<in> set zs \<Longrightarrow> next_ptr ?m x = next_ptr m x \<and> pprev ?m x = pprev m x" for x
        using d hd_in_set by (cases "xs = []") (fastforce simp: m)+
    qed (use that in \<open>simp add: m\<close>)
    then show ?thesis using lists_okD(1,2) [OF assms(1) that(1)] d by simp
  qed
  show "lists_ok ?m (L(old \<mapsto> [], new_head \<mapsto> xs))"
    unfolding lists_ok_def
  proof (intro conjI allI impI)
    fix h zs assume h: "(L(old \<mapsto> [], new_head \<mapsto> xs)) h = Some zs"
    show "linked ?m (First h) zs" "distinct zs"
      using h new_list l(2) other [of h zs] by (auto simp: m split: if_splits)
    fix k ws assume k: "(L(old \<mapsto> [], new_head \<mapsto> xs)) k = Some ws" "h \<noteq> k"
    show "set zs \<inter> set ws = {}"
      using h k other [of h zs] other [of k ws] lists_okD(3) [OF assms(1), of h zs k ws] by (auto split: if_splits)
  qed
  show "hlist_del_raw n (hlist_add_fake n m) = Inr (hlist_add_fake n m)" if "next_ptr m n = None"
    using that by (simp add: hlist_del_raw_def hlist_add_fake_def set_pprev_def assign.simps fun_upd_idem)
qed

text \<open>The loops visit the nodes in order; the safe one does so while its body deletes them, and leaves the list empty.\<close>

definition keep :: "node list node_body" where
  "keep n s = Inr (fst s @ [n], snd s)"

definition delete_it :: "node option \<Rightarrow> slot option \<Rightarrow> node list node_body" where
  "delete_it p1 p2 n s = (case hlist_del p1 p2 n (snd s) of Inl e \<Rightarrow> Inl e | Inr m \<Rightarrow> Inr (fst s @ [n], m))"

lemma keep_loop: "linked m p ns \<Longrightarrow> deref p m = pos \<Longrightarrow> hlist_loop keep pos (seen, m) = Some (Inr (seen @ ns, m))"
proof (induction ns arbitrary: p pos seen)
  case Nil
  then show ?case by (simp add: hlist_loop.simps)
next
  case (Cons n ns)
  have "hlist_loop keep (next_ptr m n) (seen @ [n], m) = Some (Inr ((seen @ [n]) @ ns, m))"
    using Cons.prems by (intro Cons.IH [of "Next n"]) simp_all
  moreover have "keep n (seen, m) = Inr (seen @ [n], m)" by (simp add: keep_def)
  ultimately show ?case using Cons.prems by (simp add: hlist_loop.simps [of keep "Some n"])
qed

lemma delete_loop_safe:
  assumes "lists_ok m L" "L h = Some ns" "pos = (case ns of [] \<Rightarrow> None | n # _ \<Rightarrow> Some n)"
  shows "\<exists>m'. hlist_loop_safe (delete_it p1 p2) pos (seen, m) = Some (Inr (seen @ ns, m')) \<and> lists_ok m' (L(h \<mapsto> []))"
  using assms
proof (induction ns arbitrary: m L pos seen)
  case Nil
  then show ?case by (simp add: hlist_loop_safe.simps fun_upd_idem)
next
  case (Cons n ns)
  have l: "linked m (First h) ([] @ n # ns)" using lists_okD(1) [OF Cons.prems(1,2)] by simp
  obtain m1 where m1: "hlist_del p1 p2 n m = Inr m1" "lists_ok m1 (L(h \<mapsto> ns))"
    using hlist_removals(1) [OF Cons.prems(1), of h "[]" n ns] Cons.prems(2) by auto
  have h: "(L(h \<mapsto> ns)) h = Some ns" by simp
  from Cons.IH [OF m1(2) h refl, of "seen @ [n]"] obtain m2 where
    m2: "hlist_loop_safe (delete_it p1 p2) (case ns of [] \<Rightarrow> None | n # _ \<Rightarrow> Some n) (seen @ [n], m1)
      = Some (Inr ((seen @ [n]) @ ns, m2))" "lists_ok m2 (L(h \<mapsto> []))"
    unfolding fun_upd_upd by blast
  have "delete_it p1 p2 n (seen, m) = Inr (seen @ [n], m1)" by (simp add: delete_it_def m1(1))
  then have "hlist_loop_safe (delete_it p1 p2) pos (seen, m) = Some (Inr (seen @ n # ns, m2))"
    using m2(1) Cons.prems(3) linked_places(3) [OF l] by (simp add: hlist_loop_safe.simps [of _ "Some n"])
  with m2(2) show ?case by blast
qed

theorem hlist_loops:
  assumes "lists_ok m L" and "L h = Some ns"
  shows "hlist_for_each keep h ([], m) = Some (Inr (ns, m))"
    and "ns = as @ n # bs \<Longrightarrow> hlist_for_each_continue keep n ([], m) = Some (Inr (bs, m))
      \<and> hlist_for_each_from keep (Some n) ([], m) = Some (Inr (n # bs, m))"
    and "\<exists>m'. hlist_for_each_safe (delete_it p1 p2) h ([], m) = Some (Inr (ns, m')) \<and> lists_ok m' (L(h \<mapsto> []))"
proof -
  have l: "linked m (First h) ns" by (rule lists_okD(1) [OF assms])
  show "hlist_for_each keep h ([], m) = Some (Inr (ns, m))"
    using keep_loop [OF l refl, of "[]"] by (simp add: hlist_for_each_def)
  show "hlist_for_each_continue keep n ([], m) = Some (Inr (bs, m))
      \<and> hlist_for_each_from keep (Some n) ([], m) = Some (Inr (n # bs, m))" if "ns = as @ n # bs"
    using l that keep_loop [of m "Next n" bs "next_ptr m n" "[]"]
      keep_loop [of m "slot_end (First h) as" "n # bs" "Some n" "[]"]
    by (simp add: hlist_for_each_continue_def hlist_for_each_from_def linked_append)
  have "first_ptr m h = (case ns of [] \<Rightarrow> None | n # _ \<Rightarrow> Some n)" using linked_first [OF l] by simp
  from delete_loop_safe [OF assms this, of p1 p2 "[]"]
  show "\<exists>m'. hlist_for_each_safe (delete_it p1 p2) h ([], m) = Some (Inr (ns, m')) \<and> lists_ok m' (L(h \<mapsto> []))"
    by (simp add: hlist_for_each_safe_def)
qed

end
