(* ===== verification/Bytes.thy ===== *)
theory Bytes
  imports Prelude
begin

text \<open>
  Raw memory as the C++ code sees it through \<^verbatim>\<open>reinterpret_cast\<close>: an object is a function from
  byte offsets to bytes, its size is checked where the code accesses it. The host is the
  little-endian x86-64 the program is built for; \<^verbatim>\<open>htons\<close>, \<^verbatim>\<open>htonl\<close> and their inverses are the
  byte swaps of that host. The last section has C strings and \<^verbatim>\<open>std::string::copy\<close>.
\<close>

section \<open>Loads and stores\<close>

type_synonym mem = "nat \<Rightarrow> byte"

definition load16 :: "mem \<Rightarrow> nat \<Rightarrow> 16 word" where
  "load16 m p = word_cat (m (p + 1)) (m p)"

definition load32 :: "mem \<Rightarrow> nat \<Rightarrow> 32 word" where
  "load32 m p = word_cat (load16 m (p + 2)) (load16 m p)"

definition store16 :: "mem \<Rightarrow> nat \<Rightarrow> 16 word \<Rightarrow> mem" where
  "store16 m p w = m(p := ucast w, p + 1 := ucast (drop_bit 8 w))"

definition store32 :: "mem \<Rightarrow> nat \<Rightarrow> 32 word \<Rightarrow> mem" where
  "store32 m p w = store16 (store16 m p (ucast w)) (p + 2) (ucast (drop_bit 16 w))"

definition htons :: "16 word \<Rightarrow> 16 word" where
  "htons w = word_cat (ucast w :: byte) (ucast (drop_bit 8 w) :: byte)"

definition htonl :: "32 word \<Rightarrow> 32 word" where
  "htonl w = word_cat (htons (ucast w)) (htons (ucast (drop_bit 16 w)))"

abbreviation ntohs :: "16 word \<Rightarrow> 16 word" where "ntohs \<equiv> htons"
abbreviation ntohl :: "32 word \<Rightarrow> 32 word" where "ntohl \<equiv> htonl"

lemma split_cat16: "word_cat (ucast (drop_bit 8 w) :: byte) (ucast w :: byte) = (w :: 16 word)"
  by (rule bit_word_eqI) (auto simp: bit_word_cat_iff bit_ucast_iff bit_drop_bit_eq)

lemma split_cat32:
  "word_cat (ucast (drop_bit 16 w) :: 16 word) (ucast w :: 16 word) = (w :: 32 word)"
  by (rule bit_word_eqI) (auto simp: bit_word_cat_iff bit_ucast_iff bit_drop_bit_eq)

lemma cat_low16 [simp]: "ucast (word_cat (a :: byte) (b :: byte) :: 16 word) = b"
  by (rule bit_word_eqI) (auto simp: bit_word_cat_iff bit_ucast_iff)

lemma cat_high16 [simp]: "ucast (drop_bit 8 (word_cat (a :: byte) (b :: byte) :: 16 word)) = a"
  by (rule bit_word_eqI) (auto simp: bit_word_cat_iff bit_ucast_iff bit_drop_bit_eq)

lemma cat_low32 [simp]: "ucast (word_cat (a :: 16 word) (b :: 16 word) :: 32 word) = b"
  by (rule bit_word_eqI) (auto simp: bit_word_cat_iff bit_ucast_iff)

lemma cat_high32 [simp]:
  "ucast (drop_bit 16 (word_cat (a :: 16 word) (b :: 16 word) :: 32 word)) = a"
  by (rule bit_word_eqI) (auto simp: bit_word_cat_iff bit_ucast_iff bit_drop_bit_eq)

lemma htons_htons [simp]: "htons (htons w) = w"
  by (simp add: htons_def split_cat16)

lemma htonl_htonl [simp]: "htonl (htonl w) = w"
  by (simp add: htonl_def split_cat32)

lemma load16_store16 [simp]: "load16 (store16 m p w) p = w"
  by (simp add: load16_def store16_def split_cat16)

lemma load32_store32 [simp]: "load32 (store32 m p w) p = w"
  by (simp add: load32_def store32_def load16_def store16_def split_cat16 split_cat32)

lemma store16_other: "i \<noteq> p \<Longrightarrow> i \<noteq> p + 1 \<Longrightarrow> store16 m p w i = m i"
  by (simp add: store16_def)

lemma store32_other: "i < p \<or> p + 4 \<le> i \<Longrightarrow> store32 m p w i = m i"
  by (auto simp: store32_def store16_def)

lemma load16_cong: "m p = m' p \<Longrightarrow> m (p + 1) = m' (p + 1) \<Longrightarrow> load16 m p = load16 m' p"
  by (simp add: load16_def)

lemma load32_cong: "(\<And>i. p \<le> i \<Longrightarrow> i < p + 4 \<Longrightarrow> m i = m' i) \<Longrightarrow> load32 m p = load32 m' p"
  by (simp add: load32_def load16_def)

lemma load32_store16_disjoint [simp]: "p + 4 \<le> q \<or> q + 2 \<le> p \<Longrightarrow> load32 (store16 m q w) p = load32 m p"
  by (rule load32_cong) (auto simp: store16_def)

lemma load16_store32_disjoint [simp]: "p + 2 \<le> q \<or> q + 4 \<le> p \<Longrightarrow> load16 (store32 m q w) p = load16 m p"
  by (rule load16_cong) (auto simp: store32_other)

lemma load32_store32_disjoint [simp]:
  "p + 4 \<le> q \<or> q + 4 \<le> p \<Longrightarrow> load32 (store32 m q w) p = load32 m p"
  by (rule load32_cong) (auto simp: store32_other)

lemma store16_load16 [simp]: "store16 m p (load16 m p) = m"
  by (simp add: store16_def load16_def fun_eq_iff)

lemma store16_store16 [simp]: "store16 (store16 m p v) p w = store16 m p w"
  by (simp add: store16_def fun_eq_iff)

lemma store32_store32 [simp]: "store32 (store32 m p v) p w = store32 m p w"
  by (simp add: store32_def store16_def fun_eq_iff)

lemma store16_store32_commute:
  "p + 4 \<le> q \<or> q + 2 \<le> p \<Longrightarrow> store16 (store32 m p v) q w = store32 (store16 m q w) p v"
  by (auto simp: store32_def store16_def fun_eq_iff)

section \<open>Blocks of bytes\<close>

definition read_bytes :: "mem \<Rightarrow> nat \<Rightarrow> nat \<Rightarrow> byte list" where
  "read_bytes m p n = map m [p ..< p + n]"

definition write_bytes :: "mem \<Rightarrow> nat \<Rightarrow> byte list \<Rightarrow> mem" where
  "write_bytes m p bs = (\<lambda>i. if p \<le> i \<and> i < p + length bs then bs ! (i - p) else m i)"

lemma length_read_bytes [simp]: "length (read_bytes m p n) = n"
  by (simp add: read_bytes_def)

lemma nth_read_bytes [simp]: "i < n \<Longrightarrow> read_bytes m p n ! i = m (p + i)"
  by (simp add: read_bytes_def)

lemma read_bytes_0 [simp]: "read_bytes m p 0 = []"
  by (simp add: read_bytes_def)

lemma read_bytes_cong:
  "(\<And>i. p \<le> i \<Longrightarrow> i < p + n \<Longrightarrow> m i = m' i) \<Longrightarrow> read_bytes m p n = read_bytes m' p n"
  by (simp add: read_bytes_def)

lemma read_bytes_eq_iff:
  "read_bytes m p n = bs \<longleftrightarrow> length bs = n \<and> (\<forall>i < n. m (p + i) = bs ! i)"
  by (auto simp: list_eq_iff_nth_eq)

lemma write_bytes_Nil [simp]: "write_bytes m p [] = m"
  by (rule ext) (auto simp: write_bytes_def)

lemma write_bytes_in: "p \<le> i \<Longrightarrow> i < p + length bs \<Longrightarrow> write_bytes m p bs i = bs ! (i - p)"
  by (simp add: write_bytes_def)

lemma write_bytes_out: "i < p \<or> p + length bs \<le> i \<Longrightarrow> write_bytes m p bs i = m i"
  by (auto simp: write_bytes_def)

lemma read_write_bytes [simp]: "read_bytes (write_bytes m p bs) p (length bs) = bs"
  by (simp add: read_bytes_eq_iff write_bytes_in)

lemma read_bytes_add: "read_bytes m p (a + b) = read_bytes m p a @ read_bytes m (p + a) b"
  by (simp add: read_bytes_eq_iff nth_append algebra_simps)

lemma take_read_bytes: "k \<le> n \<Longrightarrow> take k (read_bytes m p n) = read_bytes m p k"
  by (simp add: list_eq_iff_nth_eq)

lemma drop_read_bytes: "drop k (read_bytes m p n) = read_bytes m (p + k) (n - k)"
  by (simp add: list_eq_iff_nth_eq add.assoc)

lemma read_bytes_write_extend:
  "read_bytes (write_bytes m (p + n) bs) p (n + length bs) = read_bytes m p n @ bs"
  by (simp add: read_bytes_eq_iff nth_append write_bytes_def)

section \<open>C strings\<close>

text \<open>
  \<open>bytes_of\<close> is a string literal of the source as bytes. \<open>cstring m n p\<close> is the constructor
  \<^verbatim>\<open>std::string{p}\<close>: the bytes up to the first NUL; \<open>n\<close> is the number of bytes of the object from
  \<open>p\<close> on, \<open>None\<close> that the read leaves the object.
\<close>

definition bytes_of :: "string \<Rightarrow> byte list" where
  "bytes_of s = map of_char s"

fun cstring :: "mem \<Rightarrow> nat \<Rightarrow> nat \<Rightarrow> byte list option" where
  "cstring m 0 p = None"
| "cstring m (Suc n) p = (if m p = 0 then Some [] else map_option ((#) (m p)) (cstring m n (Suc p)))"

lemma cstring_eq_Some:
  assumes "read_bytes m p (length s) = s" and "0 \<notin> set s" and "m (p + length s) = 0"
    and "length s < n"
  shows "cstring m n p = Some s"
  using assms
proof (induction s arbitrary: p n)
  case Nil
  then show ?case by (cases n) auto
next
  case (Cons b s)
  then obtain n' where n: "n = Suc n'" by (cases n) auto
  have b: "m p = b" and s: "read_bytes m (Suc p) (length s) = s"
    using Cons.prems(1) by (auto simp: read_bytes_def upt_rec)
  have "cstring m n' (Suc p) = Some s"
    using Cons.prems n by (intro Cons.IH s) auto
  with Cons.prems b n show ?case by auto
qed

lemma cstring_SomeD:
  assumes "cstring m n p = Some s"
  shows "length s < n \<and> read_bytes m p (length s) = s \<and> 0 \<notin> set s \<and> m (p + length s) = 0"
  using assms
proof (induction s arbitrary: p n)
  case Nil
  then show ?case by (cases n) (auto split: if_splits)
next
  case (Cons b s)
  then obtain n' where n: "n = Suc n'" by (cases n) auto
  with Cons.prems have b: "m p = b" "b \<noteq> 0" and "cstring m n' (Suc p) = Some s"
    by (auto split: if_splits)
  with Cons.IH [of n' "Suc p"] n show ?case
    by (auto simp: read_bytes_def upt_conv_Cons simp del: upt_Suc)
qed

end
