(* ===== verification/FdSet.thy ===== *)
theory FdSet
  imports Bytes
begin

text \<open>
  The descriptor sets of \<^verbatim>\<open>select\<close> as \<^verbatim>\<open>sys/select.h\<close> lays them out, 1024 bits in 16 words of 64,
  with the macros the server uses and the two loops of \<^verbatim>\<open>ServerSocketsRouter\<close> that walk over the
  words by hand: \<open>fdsCopy\<close> and \<open>fdsExtractList\<close>. An access outside the 16 words, which the C++ code
  makes for \<open>nfds = 1024\<close> (index 16), is \<open>Undefined\<close>.
\<close>

section \<open>The macros\<close>

type_synonym fd_set = "64 word list"

definition FD_ZERO :: fd_set where
  "FD_ZERO = replicate 16 0"

definition fd_valid :: "int \<Rightarrow> bool" where
  "fd_valid fd \<longleftrightarrow> 0 \<le> fd \<and> fd < 1024"

definition FD_ISSET :: "int \<Rightarrow> fd_set \<Rightarrow> bool" where
  "FD_ISSET fd s = bit (s ! nat (fd div 64)) (nat (fd mod 64))"

definition FD_SET :: "int \<Rightarrow> fd_set \<Rightarrow> fd_set" where
  "FD_SET fd s = s[nat (fd div 64) := s ! nat (fd div 64) OR push_bit (nat (fd mod 64)) 1]"

definition FD_CLR :: "int \<Rightarrow> fd_set \<Rightarrow> fd_set" where
  "FD_CLR fd s = s[nat (fd div 64) := s ! nat (fd div 64) AND NOT (push_bit (nat (fd mod 64)) 1)]"

section \<open>The word loops of the router\<close>

text \<open>\<^verbatim>\<open>_fdsCopy\<close>: words \<open>0 .. nfds / 64\<close> are copied, the others keep their content.\<close>

fun fdsCopy_loop :: "nat \<Rightarrow> nat \<Rightarrow> fd_set \<Rightarrow> fd_set \<Rightarrow> fd_set result" where
  "fdsCopy_loop 0 i from to = Inr to"
| "fdsCopy_loop (Suc n) i from to =
    (if i < 16 then fdsCopy_loop n (Suc i) from (to[i := from ! i]) else Inl Undefined)"

definition fdsCopy :: "int \<Rightarrow> fd_set \<Rightarrow> fd_set \<Rightarrow> fd_set result" where
  "fdsCopy nfds from to = fdsCopy_loop (nat (nfds div 64) + 1) 0 from to"

text \<open>
  \<^verbatim>\<open>_fdsExtractList\<close>: the inner loop looks at the lowest bit of the mask and shifts it right, an
  arithmetic shift since \<^verbatim>\<open>__fd_mask\<close> is a signed \<^verbatim>\<open>long\<close>; a zero word is skipped.
\<close>

fun extract_bits :: "nat \<Rightarrow> 64 word \<Rightarrow> int \<Rightarrow> int list" where
  "extract_bits 0 m sock_id = []"
| "extract_bits (Suc n) m sock_id =
    (if m AND 1 \<noteq> 0 then sock_id # extract_bits n (signed_drop_bit 1 m) (sock_id + 1)
     else extract_bits n (signed_drop_bit 1 m) (sock_id + 1))"

fun extract_words :: "nat \<Rightarrow> nat \<Rightarrow> int \<Rightarrow> fd_set \<Rightarrow> int list result" where
  "extract_words 0 i sock_id s = Inr []"
| "extract_words (Suc n) i sock_id s =
    (if i < 16
     then map_sum id (\<lambda>xs. (if s ! i \<noteq> 0 then extract_bits 64 (s ! i) sock_id else []) @ xs)
            (extract_words n (Suc i) (sock_id + 64) s)
     else Inl Undefined)"

definition fdsExtractList :: "int \<Rightarrow> fd_set \<Rightarrow> int list result" where
  "fdsExtractList nfds s = extract_words (nat (nfds div 64) + 1) 0 0 s"

section \<open>The sets they stand for\<close>

definition fds :: "fd_set \<Rightarrow> int set" where
  "fds s = {fd. fd_valid fd \<and> FD_ISSET fd s}"

definition fd_set_ok :: "fd_set \<Rightarrow> bool" where
  "fd_set_ok s \<longleftrightarrow> length s = 16"

lemma word_index: "fd_valid fd \<Longrightarrow> nat (fd div 64) < 16 \<and> nat (fd mod 64) < 64"
  by (auto simp: fd_valid_def nat_less_iff)

lemma same_bit:
  "fd_valid a \<Longrightarrow> fd_valid b \<Longrightarrow> nat (a div 64) = nat (b div 64) \<Longrightarrow> nat (a mod 64) = nat (b mod 64)
     \<Longrightarrow> a = b"
  by (metis div_mult_mod_eq eq_nat_nat_iff fd_valid_def pos_imp_zdiv_nonneg_iff
        pos_mod_sign zero_less_numeral)

lemma fd_set_ok_ops [simp]:
  "fd_set_ok FD_ZERO" "fd_set_ok s \<Longrightarrow> fd_set_ok (FD_SET fd s)" "fd_set_ok s \<Longrightarrow> fd_set_ok (FD_CLR fd s)"
  by (simp_all add: fd_set_ok_def FD_ZERO_def FD_SET_def FD_CLR_def)

lemma FD_ISSET_ZERO: "fd_valid fd \<Longrightarrow> \<not> FD_ISSET fd FD_ZERO"
  using word_index by (auto simp: FD_ISSET_def FD_ZERO_def)

lemma FD_ISSET_SET:
  assumes "fd_set_ok s" "fd_valid a" "fd_valid b"
  shows "FD_ISSET a (FD_SET b s) \<longleftrightarrow> a = b \<or> FD_ISSET a s"
proof (cases "nat (a div 64) = nat (b div 64)")
  case True
  then show ?thesis
    using assms same_bit [OF assms(2,3) True] word_index [OF assms(2)] word_index [OF assms(3)]
    by (auto simp: FD_ISSET_def FD_SET_def fd_set_ok_def bit_or_iff bit_exp_iff possible_bit_word)
next
  case False
  then show ?thesis by (auto simp: FD_ISSET_def FD_SET_def)
qed

lemma FD_ISSET_CLR:
  assumes "fd_set_ok s" "fd_valid a" "fd_valid b"
  shows "FD_ISSET a (FD_CLR b s) \<longleftrightarrow> a \<noteq> b \<and> FD_ISSET a s"
proof (cases "nat (a div 64) = nat (b div 64)")
  case True
  then show ?thesis
    using assms same_bit [OF assms(2,3) True] word_index [OF assms(2)] word_index [OF assms(3)]
    by (auto simp: FD_ISSET_def FD_CLR_def fd_set_ok_def bit_and_iff bit_not_iff bit_exp_iff possible_bit_word)
next
  case False
  then show ?thesis by (auto simp: FD_ISSET_def FD_CLR_def)
qed

lemma fds_ZERO [simp]: "fds FD_ZERO = {}"
  by (auto simp: fds_def FD_ISSET_ZERO)

lemma fds_SET [simp]: "fd_set_ok s \<Longrightarrow> fd_valid fd \<Longrightarrow> fds (FD_SET fd s) = insert fd (fds s)"
  by (auto simp: fds_def FD_ISSET_SET)

lemma fds_CLR [simp]: "fd_set_ok s \<Longrightarrow> fd_valid fd \<Longrightarrow> fds (FD_CLR fd s) = fds s - {fd}"
  by (auto simp: fds_def FD_ISSET_CLR)

lemma in_fds: "fd_valid fd \<Longrightarrow> fd \<in> fds s \<longleftrightarrow> FD_ISSET fd s"
  by (simp add: fds_def)

lemma finite_fds [simp]: "finite (fds s)"
  by (rule finite_subset [of _ "{0..<1024}"]) (auto simp: fds_def fd_valid_def)

section \<open>What the loops compute\<close>

lemma fdsCopy_loop_eq:
  "length from = 16 \<Longrightarrow> length to = 16 \<Longrightarrow> i + n \<le> 16 \<Longrightarrow>
   fdsCopy_loop n i from to = Inr (take i to @ take n (drop i from) @ drop (i + n) to)"
proof (induction n arbitrary: i to)
  case (Suc n)
  then have "fdsCopy_loop (Suc n) i from to
      = Inr (take (Suc i) (to[i := from ! i]) @ take n (drop (Suc i) from) @ drop (Suc i + n) (to[i := from ! i]))"
    by (simp del: take_Suc_conv_app_nth)
  moreover have "take (Suc i) (to[i := from ! i]) = take i to @ [from ! i]"
    using Suc.prems by (simp add: take_Suc_conv_app_nth)
  moreover have "take (Suc n) (drop i from) = from ! i # take n (drop (Suc i) from)"
    using Suc.prems by (simp add: Cons_nth_drop_Suc [symmetric])
  ultimately show ?case by simp
qed simp

lemma fdsCopy_eq:
  assumes "fd_set_ok from" "fd_set_ok to" "0 \<le> nfds" "nfds < 1024"
  shows "fdsCopy nfds from to
    = Inr (take (nat (nfds div 64) + 1) from @ drop (nat (nfds div 64) + 1) to)"
  using assms fdsCopy_loop_eq [of "from" to 0 "nat (nfds div 64) + 1"]
  by (simp add: fdsCopy_def fd_set_ok_def nat_less_iff Suc_le_eq)

text \<open>Below \<open>nfds\<close> the copy has exactly the descriptors of the source.\<close>

lemma fdsCopy_fds:
  assumes "fd_set_ok from" "fd_set_ok to" "0 \<le> nfds" "nfds < 1024"
  shows "\<exists>to'. fdsCopy nfds from to = Inr to' \<and> fd_set_ok to'
    \<and> (\<forall>fd. 0 \<le> fd \<longrightarrow> fd < nfds \<longrightarrow> FD_ISSET fd to' = FD_ISSET fd from)"
proof -
  let ?w = "nat (nfds div 64) + 1"
  have w: "?w \<le> 16" using assms by (simp add: nat_less_iff Suc_le_eq)
  have "FD_ISSET fd (take ?w from @ drop ?w to) = FD_ISSET fd from" if "0 \<le> fd" "fd < nfds" for fd
  proof -
    have "nat (fd div 64) < ?w" using that by (simp add: zdiv_mono1 less_Suc_eq_le nat_mono)
    then show ?thesis using assms w by (simp add: FD_ISSET_def nth_append fd_set_ok_def)
  qed
  with fdsCopy_eq [OF assms] assms w show ?thesis by (simp add: fd_set_ok_def)
qed

lemma extract_bits_eq:
  "extract_bits n m k = map (\<lambda>j. k + int j) (filter (\<lambda>j. bit (signed_drop_bit j m) 0) [0..<n])"
proof (induction n arbitrary: m k)
  case (Suc n)
  have s: "signed_drop_bit j (signed_drop_bit 1 m) = signed_drop_bit (Suc j) m" for j
    by (simp add: signed_drop_bit_signed_drop_bit)
  have u: "[0..<Suc n] = 0 # map Suc [0..<n]"
    by (simp add: upt_conv_Cons map_Suc_upt del: upt_Suc)
  have b: "m AND 1 \<noteq> 0 \<longleftrightarrow> bit (signed_drop_bit 0 m) 0"
    by (simp add: and_one_eq odd_iff_mod_2_eq_one bit_0)
  show ?case
    unfolding extract_bits.simps Suc.IH s u b
    by (simp add: filter_map o_def algebra_simps)
qed simp

lemma extract_bits_64:
  "extract_bits 64 m k = map (\<lambda>j. k + int j) (filter (bit m) [0..<64])"
proof -
  have "bit (signed_drop_bit j m) 0 = bit m j" if "j < 64" for j
    using that by (simp add: bit_signed_drop_bit_iff)
  then have "filter (\<lambda>j. bit (signed_drop_bit j m) 0) [0..<64] = filter (bit m) [0..<64]"
    by (intro filter_cong) auto
  then show ?thesis by (simp add: extract_bits_eq)
qed

lemma word_span: "[64 * i ..< 64 * Suc i] = map (\<lambda>j. 64 * i + j) [0..<64]"
  by (simp add: map_add_upt [symmetric] add.commute del: map_add_upt)

lemma extract_words_eq:
  "i + n \<le> 16 \<Longrightarrow> extract_words n i (int (64 * i)) s
     = Inr (map int (filter (\<lambda>j. bit (s ! (j div 64)) (j mod 64)) [64 * i ..< 64 * (i + n)]))"
proof (induction n arbitrary: i)
  case (Suc n)
  let ?P = "\<lambda>j. bit (s ! (j div 64)) (j mod 64)"
  have IH: "extract_words n (Suc i) (int (64 * i) + 64) s
      = Inr (map int (filter ?P [64 * Suc i ..< 64 * (Suc i + n)]))"
    using Suc.IH [of "Suc i"] Suc.prems by (simp add: algebra_simps)
  have here: "map int (filter ?P [64 * i ..< 64 * Suc i])
      = (if s ! i \<noteq> 0 then extract_bits 64 (s ! i) (int (64 * i)) else [])"
  proof -
    have "filter (?P \<circ> (\<lambda>j. 64 * i + j)) [0..<64] = filter (bit (s ! i)) [0..<64]"
      by (intro filter_cong) auto
    then have "map int (filter ?P [64 * i ..< 64 * Suc i])
        = map (\<lambda>j. int (64 * i) + int j) (filter (bit (s ! i)) [0..<64])"
      unfolding word_span filter_map by simp
    then show ?thesis
      unfolding extract_bits_64 by (cases "s ! i = 0") simp_all
  qed
  have "[64 * i ..< 64 * (i + Suc n)] = [64 * i ..< 64 * Suc i] @ [64 * Suc i ..< 64 * (Suc i + n)]"
    using upt_add_eq_append [of "64 * i" "64 * Suc i" "64 * n"] by (simp add: algebra_simps)
  then have "map int (filter ?P [64 * i ..< 64 * (i + Suc n)])
      = map int (filter ?P [64 * i ..< 64 * Suc i]) @ map int (filter ?P [64 * Suc i ..< 64 * (Suc i + n)])"
    by (simp only: filter_append map_append)
  then show ?case
    using Suc.prems unfolding extract_words.simps IH here by (simp only: map_sum.simps) simp
qed simp

lemma fdsExtractList_eq:
  assumes "0 \<le> nfds" "nfds < 1024"
  shows "fdsExtractList nfds s
    = Inr (map int (filter (\<lambda>j. FD_ISSET (int j) s) [0 ..< 64 * (nat (nfds div 64) + 1)]))"
proof -
  have "FD_ISSET (int j) s = bit (s ! (j div 64)) (j mod 64)" for j
    by (simp add: FD_ISSET_def nat_div_distrib nat_mod_distrib)
  then show ?thesis
    using extract_words_eq [of 0 "nat (nfds div 64) + 1" s] assms
    by (simp add: fdsExtractList_def nat_less_iff Suc_le_eq)
qed

text \<open>
  When no member reaches \<open>nfds\<close> the list is the members of the set, each once, in increasing
  order.
\<close>

lemma fdsExtractList_fds:
  assumes "0 \<le> nfds" "nfds < 1024" "\<forall>fd \<in> fds s. fd < nfds"
  shows "\<exists>xs. fdsExtractList nfds s = Inr xs \<and> set xs = fds s \<and> sorted xs \<and> distinct xs"
proof -
  let ?n = "64 * (nat (nfds div 64) + 1)"
  let ?js = "filter (\<lambda>j. FD_ISSET (int j) s) [0 ..< ?n]"
  have n: "nfds \<le> int ?n" "?n \<le> 1024"
    using assms(1,2) by (auto simp: nat_less_iff Suc_le_eq intro: less_imp_le)
  have "set (map int ?js) = fds s"
  proof (intro set_eqI iffI)
    fix x assume "x \<in> set (map int ?js)"
    then show "x \<in> fds s" using n by (auto simp: fds_def fd_valid_def)
  next
    fix x assume x: "x \<in> fds s"
    then have "0 \<le> x" "nat x < ?n" "FD_ISSET x s" using assms(3) n by (fastforce simp: fds_def fd_valid_def)+
    then show "x \<in> set (map int ?js)" by (auto intro!: image_eqI [of _ _ "nat x"])
  qed
  moreover have "sorted (map int ?js)"
    using sorted_wrt_upt [of 0 ?n]
    by (simp add: sorted_map sorted_wrt_filter sorted_wrt_mono_rel [of _ "(<)"])
  moreover have "distinct (map int ?js)" by (simp add: distinct_map)
  ultimately show ?thesis using fdsExtractList_eq [OF assms(1,2), of s] by blast
qed

text \<open>With descriptor 1023 in use (\<open>nfds = 1024\<close>) both loops leave the array.\<close>

lemma fdsCopy_loop_overrun: "i \<le> 16 \<Longrightarrow> 16 < i + n \<Longrightarrow> fdsCopy_loop n i from to = Inl Undefined"
  by (induction n arbitrary: i to) auto

lemma extract_words_overrun: "i \<le> 16 \<Longrightarrow> 16 < i + n \<Longrightarrow> extract_words n i k s = Inl Undefined"
  by (induction n arbitrary: i k) auto

lemma fd_loops_overrun:
  "fdsCopy 1024 from to = Inl Undefined" "fdsExtractList 1024 s = Inl Undefined"
  by (simp_all add: fdsCopy_def fdsExtractList_def fdsCopy_loop_overrun extract_words_overrun)

end
