(* ===== verification/System_Calls.thy ===== *)
theory System_Calls
  imports FdSet
begin

text \<open>
  The operating system as the program uses it. Its code is not part of the repository, so every
  call is a field of the record \<open>os\<close>, a function on the kernel's own state \<open>'k\<close>, and the components
  take such a record as an argument. A call returns \<open>Inl\<close> of the error number where the C function
  returns \<open>-1\<close> with \<^verbatim>\<open>errno\<close> set, and \<open>Inr\<close> of its result otherwise. The file also has the error numbers
  and poll flags of the Linux headers and the part of a component's state that every call
  changes: the kernel and \<^verbatim>\<open>errno\<close>.
\<close>

section \<open>Constants of the system headers\<close>

abbreviation (input) "EIO \<equiv> 5 :: int"
abbreviation (input) "EINTR \<equiv> 4 :: int"
abbreviation (input) "ENOENT \<equiv> 2 :: int"
abbreviation (input) "EBADF \<equiv> 9 :: int"
abbreviation (input) "EWOULDBLOCK \<equiv> 11 :: int"
abbreviation (input) "ENOMEM \<equiv> 12 :: int"
abbreviation (input) "EACCES \<equiv> 13 :: int"
abbreviation (input) "ENOTDIR \<equiv> 20 :: int"
abbreviation (input) "EINVAL \<equiv> 22 :: int"
abbreviation (input) "EPIPE \<equiv> 32 :: int"
abbreviation (input) "ENAMETOOLONG \<equiv> 36 :: int"
abbreviation (input) "ELOOP \<equiv> 40 :: int"
abbreviation (input) "ENOTSOCK \<equiv> 88 :: int"
abbreviation (input) "EDESTADDRREQ \<equiv> 89 :: int"
abbreviation (input) "EMSGSIZE \<equiv> 90 :: int"
abbreviation (input) "EPROTOTYPE \<equiv> 91 :: int"
abbreviation (input) "EOPNOTSUPP \<equiv> 95 :: int"
abbreviation (input) "EAFNOSUPPORT \<equiv> 97 :: int"
abbreviation (input) "EADDRINUSE \<equiv> 98 :: int"
abbreviation (input) "EADDRNOTAVAIL \<equiv> 99 :: int"
abbreviation (input) "ENETDOWN \<equiv> 100 :: int"
abbreviation (input) "ENETUNREACH \<equiv> 101 :: int"
abbreviation (input) "ECONNRESET \<equiv> 104 :: int"
abbreviation (input) "ENOBUFS \<equiv> 105 :: int"
abbreviation (input) "EISCONN \<equiv> 106 :: int"
abbreviation (input) "ENOTCONN \<equiv> 107 :: int"
abbreviation (input) "ETIMEDOUT \<equiv> 110 :: int"
abbreviation (input) "ECONNREFUSED \<equiv> 111 :: int"
abbreviation (input) "EHOSTUNREACH \<equiv> 113 :: int"
abbreviation (input) "EALREADY \<equiv> 114 :: int"
abbreviation (input) "EINPROGRESS \<equiv> 115 :: int"

abbreviation (input) "POLLERR \<equiv> 0x008 :: 16 word"
abbreviation (input) "POLLHUP \<equiv> 0x010 :: 16 word"
abbreviation (input) "POLLRDNORM \<equiv> 0x040 :: 16 word"
abbreviation (input) "POLLWRNORM \<equiv> 0x100 :: 16 word"

section \<open>The calls\<close>

record sockaddr_in =
  s_addr :: "32 word"
  sin_port :: "16 word"

text \<open>
  \<open>os_new\<close> is \<^verbatim>\<open>operator new\<close>: the content of the fresh object is whatever the memory held.
  \<open>os_recv fd n peek\<close> returns at most \<open>n\<close> bytes, \<open>[]\<close> at the end of the stream.
  \<open>os_poll fd events\<close> returns \<open>None\<close> for the count 0 and the \<^verbatim>\<open>revents\<close> of the one entry otherwise;
  \<open>os_pselect\<close> returns the count and the three sets it has overwritten.
\<close>

datatype whence = SEEK_SET | SEEK_CUR | SEEK_END

record 'k os =
  os_new :: "'k \<Rightarrow> mem \<times> 'k"
  os_socket :: "'k \<Rightarrow> (int + int) \<times> 'k"
  os_bind :: "int \<Rightarrow> sockaddr_in \<Rightarrow> 'k \<Rightarrow> (int + unit) \<times> 'k"
  os_listen :: "int \<Rightarrow> int \<Rightarrow> 'k \<Rightarrow> (int + unit) \<times> 'k"
  os_accept :: "int \<Rightarrow> 'k \<Rightarrow> (int + int \<times> sockaddr_in) \<times> 'k"
  os_connect :: "int \<Rightarrow> sockaddr_in \<Rightarrow> 'k \<Rightarrow> (int + unit) \<times> 'k"
  os_nonblock :: "int \<Rightarrow> 'k \<Rightarrow> (int + unit) \<times> 'k"
  os_close :: "int \<Rightarrow> 'k \<Rightarrow> (int + unit) \<times> 'k"
  os_send :: "int \<Rightarrow> byte list \<Rightarrow> 'k \<Rightarrow> (int + nat) \<times> 'k"
  os_recv :: "int \<Rightarrow> nat \<Rightarrow> bool \<Rightarrow> 'k \<Rightarrow> (int + byte list) \<times> 'k"
  os_recvmsg_peek :: "int \<Rightarrow> 'k \<Rightarrow> (int + nat) \<times> 'k"
  os_poll :: "int \<Rightarrow> 16 word \<Rightarrow> 'k \<Rightarrow> (int + 16 word option) \<times> 'k"
  os_pselect :: "int \<Rightarrow> fd_set \<times> fd_set \<times> fd_set \<Rightarrow> 'k
    \<Rightarrow> (int + int \<times> fd_set \<times> fd_set \<times> fd_set) \<times> 'k"
  os_clock_gettime :: "'k \<Rightarrow> (int + int) \<times> 'k"
  os_nanosleep :: "int \<times> int \<Rightarrow> 'k \<Rightarrow> ((int \<times> int \<times> int) + unit) \<times> 'k"
  os_fopen :: "byte list \<Rightarrow> 'k \<Rightarrow> (int + int) \<times> 'k"
  os_fseek :: "int \<Rightarrow> int \<Rightarrow> whence \<Rightarrow> 'k \<Rightarrow> int \<times> 'k"
  os_ftell :: "int \<Rightarrow> 'k \<Rightarrow> int \<times> 'k"
  os_feof :: "int \<Rightarrow> 'k \<Rightarrow> bool \<times> 'k"
  os_read :: "int \<Rightarrow> nat \<Rightarrow> 'k \<Rightarrow> (int + byte list) \<times> 'k"
  os_fclose :: "int \<Rightarrow> 'k \<Rightarrow> (int + unit) \<times> 'k"
  os_sigfillset :: "'k \<Rightarrow> (int + unit) \<times> 'k"
  os_sigaction :: "'k \<Rightarrow> (int + unit) \<times> 'k"
  os_setown :: "int \<Rightarrow> 'k \<Rightarrow> (int + unit) \<times> 'k"
  os_async :: "int \<Rightarrow> 'k \<Rightarrow> (int + unit) \<times> 'k"

section \<open>Making a call\<close>

record 'k sys =
  kern :: 'k
  errno :: int

definition syscall :: "('k \<Rightarrow> (int + 'a) \<times> 'k) \<Rightarrow> (('k, 'z) sys_scheme, int + 'a) stm" where
  "syscall f s = (case f (kern s) of
      (Inl e, k) \<Rightarrow> (Inr (Inl e), s\<lparr>kern := k, errno := e\<rparr>)
    | (Inr x, k) \<Rightarrow> (Inr (Inr x), s\<lparr>kern := k\<rparr>))"

definition new_mem :: "'k os \<Rightarrow> (('k, 'z) sys_scheme, mem) stm" where
  "new_mem os s = (case os_new os (kern s) of (m, k) \<Rightarrow> (Inr m, s\<lparr>kern := k\<rparr>))"

text \<open>A call whose failure is an exception.\<close>

definition or_throw :: "('k \<Rightarrow> (int + 'a) \<times> 'k) \<Rightarrow> string \<Rightarrow> (('k, 'z) sys_scheme, 'a) stm" where
  "or_throw f msg = andThen (syscall f) (\<lambda>r. case r of Inl e \<Rightarrow> failS (ThrownString msg) | Inr x \<Rightarrow> retS x)"

lemma syscall_simps [simp]:
  "f (kern s) = (Inl e, k) \<Longrightarrow> syscall f s = (Inr (Inl e), s\<lparr>kern := k, errno := e\<rparr>)"
  "f (kern s) = (Inr x, k) \<Longrightarrow> syscall f s = (Inr (Inr x), s\<lparr>kern := k\<rparr>)"
  by (simp_all add: syscall_def)

lemma new_mem_simp [simp]: "os_new os (kern s) = (m, k) \<Longrightarrow> new_mem os s = (Inr m, s\<lparr>kern := k\<rparr>)"
  by (simp add: new_mem_def)

section \<open>A base for sample kernels\<close>

text \<open>Every call fails with \<^verbatim>\<open>EBADF\<close>; fresh memory is zero. The witnesses override the calls they use.\<close>

definition failing_os :: "'k os" where
  "failing_os = \<lparr>
     os_new = Pair (\<lambda>_. 0), os_socket = Pair (Inl EBADF), os_bind = (\<lambda>_ _. Pair (Inl EBADF)),
     os_listen = (\<lambda>_ _. Pair (Inl EBADF)), os_accept = (\<lambda>_. Pair (Inl EBADF)),
     os_connect = (\<lambda>_ _. Pair (Inl EBADF)), os_nonblock = (\<lambda>_. Pair (Inl EBADF)),
     os_close = (\<lambda>_. Pair (Inl EBADF)), os_send = (\<lambda>_ _. Pair (Inl EBADF)),
     os_recv = (\<lambda>_ _ _. Pair (Inl EBADF)), os_recvmsg_peek = (\<lambda>_. Pair (Inl EBADF)),
     os_poll = (\<lambda>_ _. Pair (Inl EBADF)), os_pselect = (\<lambda>_ _. Pair (Inl EBADF)),
     os_clock_gettime = Pair (Inl EINVAL), os_nanosleep = (\<lambda>_. Pair (Inr ())),
     os_fopen = (\<lambda>_. Pair (Inl ENOENT)), os_fseek = (\<lambda>_ _ _. Pair (-1)),
     os_ftell = (\<lambda>_. Pair (-1)), os_feof = (\<lambda>_. Pair False),
     os_read = (\<lambda>_ _. Pair (Inl EBADF)), os_fclose = (\<lambda>_. Pair (Inl EBADF)),
     os_sigfillset = Pair (Inl EINVAL), os_sigaction = Pair (Inl EINVAL),
     os_setown = (\<lambda>_. Pair (Inl EBADF)), os_async = (\<lambda>_. Pair (Inl EBADF))\<rparr>"

end
