(* ===== verification/Protocol.thy ===== *)
theory Protocol
  imports System_Calls
begin

text \<open>
  The protocol of \<^verbatim>\<open>ClientServerPrtcl.h\<close>: the message identities, the layout of the level 1
  message (an 8 byte header followed by the union of the bodies) and of every body, with the sizes
  the compiler gives the structs on x86-64, and the accessors the handlers use. A message under
  reception is its raw memory of 8200 bytes, a body to be sent the raw memory of the union.
\<close>

section \<open>Constants\<close>

abbreviation (input) CLIENTSERVER_MAX_L1_MSG_BODY_SIZE :: nat where "CLIENTSERVER_MAX_L1_MSG_BODY_SIZE \<equiv> 8192"
abbreviation (input) CLIENTSERVER_VERSION_STRING_LENGTH :: nat where "CLIENTSERVER_VERSION_STRING_LENGTH \<equiv> 32"
abbreviation (input) CLIENTSERVER_USER_NAME_LENGTH :: nat where "CLIENTSERVER_USER_NAME_LENGTH \<equiv> 32"
abbreviation (input) CLIENTSERVER_USER_PASSWD_STRING_LENGTH :: nat
  where "CLIENTSERVER_USER_PASSWD_STRING_LENGTH \<equiv> 32"
abbreviation (input) CLIENTSERVER_USER_MAIL_STRING_LENGTH :: nat
  where "CLIENTSERVER_USER_MAIL_STRING_LENGTH \<equiv> 128"
abbreviation (input) CLIENTSERVER_FILE_NAME_LENGTH :: nat where "CLIENTSERVER_FILE_NAME_LENGTH \<equiv> 256"
abbreviation (input) CLIENTSERVER_CIPHERING_KEY_LENGTH :: nat where "CLIENTSERVER_CIPHERING_KEY_LENGTH \<equiv> 128"

definition HEX1_IP_PORT :: "16 word" where
  "HEX1_IP_PORT = 53238"

section \<open>Message identities and causes\<close>

datatype TransferDirection = FROM_SERVER | FROM_CLIENT

fun direction_val :: "TransferDirection \<Rightarrow> byte" where
  "direction_val FROM_SERVER = 0"
| "direction_val FROM_CLIENT = 1"

datatype ClientServerL1MessageId =
    NONE
  | CONNECTION_REQ | CONNECTION_CNF | CONNECTION_REJ
  | USER_LOGGING_REQ | USER_LOGGING_CNF | USER_LOGGING_REJ
  | REGISTRATION_REQ | REGISTRATION_CNF | REGISTRATION_REJ
  | DISCONNECTION_REQ | DISCONNECTION_CNF
  | POLL_REQ | POLL_CNF
  | DATA_TRANSFER_REQ | TRANSFER_DATA_BLK
  | FILE_TRANSFER_REQ

fun id_val :: "ClientServerL1MessageId \<Rightarrow> 16 word" where
  "id_val NONE = 0"
| "id_val CONNECTION_REQ = 1"
| "id_val CONNECTION_CNF = 2"
| "id_val CONNECTION_REJ = 3"
| "id_val USER_LOGGING_REQ = 4"
| "id_val USER_LOGGING_CNF = 5"
| "id_val USER_LOGGING_REJ = 6"
| "id_val REGISTRATION_REQ = 7"
| "id_val REGISTRATION_CNF = 8"
| "id_val REGISTRATION_REJ = 9"
| "id_val DISCONNECTION_REQ = 10"
| "id_val DISCONNECTION_CNF = 11"
| "id_val POLL_REQ = 12"
| "id_val POLL_CNF = 13"
| "id_val DATA_TRANSFER_REQ = 14"
| "id_val TRANSFER_DATA_BLK = 15"
| "id_val FILE_TRANSFER_REQ = 16"

definition all_ids :: "ClientServerL1MessageId list" where
  "all_ids = [NONE, CONNECTION_REQ, CONNECTION_CNF, CONNECTION_REJ,
     USER_LOGGING_REQ, USER_LOGGING_CNF, USER_LOGGING_REJ,
     REGISTRATION_REQ, REGISTRATION_CNF, REGISTRATION_REJ,
     DISCONNECTION_REQ, DISCONNECTION_CNF, POLL_REQ, POLL_CNF,
     DATA_TRANSFER_REQ, TRANSFER_DATA_BLK, FILE_TRANSFER_REQ]"

text \<open>
  The identity read from a message is any 16 bit value: \<open>None\<close> for a value that is none of the
  enumerators, which a \<^verbatim>\<open>switch\<close> sends to its default.
\<close>

definition id_of :: "16 word \<Rightarrow> ClientServerL1MessageId option" where
  "id_of w = find (\<lambda>i. id_val i = w) all_ids"

lemma id_of_id_val [simp]: "id_of (id_val i) = Some i"
  by (cases i) (simp_all add: id_of_def all_ids_def)

lemma id_of_SomeD: "id_of w = Some i \<Longrightarrow> id_val i = w"
  by (auto simp: id_of_def find_Some_iff)

lemma id_val_inject [simp]: "id_val i = id_val j \<longleftrightarrow> i = j"
  by (metis id_of_id_val option.inject)

datatype Cyphering = NO_CICPHERING | CIPHERING_A

fun cyphering_val :: "Cyphering \<Rightarrow> 32 word" where
  "cyphering_val NO_CICPHERING = 0"
| "cyphering_val CIPHERING_A = 1"

datatype ConnectionRejCause = CR_NO_CAUSE | IP_ADDRESS_CONFLICT | BAD_CLIENT_VERSION | UNEXPECTED_CONN_REQ

fun connection_rej_val :: "ConnectionRejCause \<Rightarrow> 32 word" where
  "connection_rej_val CR_NO_CAUSE = 0"
| "connection_rej_val IP_ADDRESS_CONFLICT = 1"
| "connection_rej_val BAD_CLIENT_VERSION = 2"
| "connection_rej_val UNEXPECTED_CONN_REQ = 3"

definition connection_rej_of :: "32 word \<Rightarrow> ConnectionRejCause option" where
  "connection_rej_of w = find (\<lambda>c. connection_rej_val c = w)
     [CR_NO_CAUSE, IP_ADDRESS_CONFLICT, BAD_CLIENT_VERSION, UNEXPECTED_CONN_REQ]"

lemma connection_rej_of_val [simp]: "connection_rej_of (connection_rej_val c) = Some c"
  by (cases c) (simp_all add: connection_rej_of_def)

datatype UserLoginRejCause = UL_NO_CAUSE | USER_UNKNOWN | WRONG_PASSWORD | UNEXPECTED_LOGIN_PROC

fun user_login_rej_val :: "UserLoginRejCause \<Rightarrow> 32 word" where
  "user_login_rej_val UL_NO_CAUSE = 0"
| "user_login_rej_val USER_UNKNOWN = 1"
| "user_login_rej_val WRONG_PASSWORD = 2"
| "user_login_rej_val UNEXPECTED_LOGIN_PROC = 3"

datatype RegistrationRejCause = RR_NO_CAUSE | USER_ALREADY_EXISTING | INCORRECT_EMAIL | UNEXPECTED_REGISTRATION

fun registration_rej_val :: "RegistrationRejCause \<Rightarrow> 32 word" where
  "registration_rej_val RR_NO_CAUSE = 0"
| "registration_rej_val USER_ALREADY_EXISTING = 1"
| "registration_rej_val INCORRECT_EMAIL = 2"
| "registration_rej_val UNEXPECTED_REGISTRATION = 3"

datatype DisconnectionReqCause = DR_NO_CAUSE | USER_SHUTDOWN | SERVER_SHUTDOWN

fun disconnection_req_val :: "DisconnectionReqCause \<Rightarrow> 32 word" where
  "disconnection_req_val DR_NO_CAUSE = 0"
| "disconnection_req_val USER_SHUTDOWN = 1"
| "disconnection_req_val SERVER_SHUTDOWN = 2"

section \<open>Sizes of the bodies\<close>

abbreviation (input) sizeof_ConnectionReq :: int where "sizeof_ConnectionReq \<equiv> 32"
abbreviation (input) sizeof_ConnectionCnf :: int where "sizeof_ConnectionCnf \<equiv> 132"
abbreviation (input) sizeof_ConnectionRej :: int where "sizeof_ConnectionRej \<equiv> 36"
abbreviation (input) sizeof_UserLoginReq :: int where "sizeof_UserLoginReq \<equiv> 64"
abbreviation (input) sizeof_UserLoginRej :: int where "sizeof_UserLoginRej \<equiv> 4"
abbreviation (input) sizeof_UserLoginCnf :: int where "sizeof_UserLoginCnf \<equiv> 1"
abbreviation (input) sizeof_RegistrationReq :: int where "sizeof_RegistrationReq \<equiv> 192"
abbreviation (input) sizeof_RegistrationCnf :: int where "sizeof_RegistrationCnf \<equiv> 1"
abbreviation (input) sizeof_RegistrationRej :: int where "sizeof_RegistrationRej \<equiv> 4"
abbreviation (input) sizeof_DisconnectionReq :: int where "sizeof_DisconnectionReq \<equiv> 4"
abbreviation (input) sizeof_DisconnectionCnf :: int where "sizeof_DisconnectionCnf \<equiv> 1"
abbreviation (input) sizeof_FileTransferReqHeader :: nat where "sizeof_FileTransferReqHeader \<equiv> 280"
abbreviation (input) sizeof_DataTransferReqHeader :: nat where "sizeof_DataTransferReqHeader \<equiv> 24"
abbreviation (input) sizeof_DataTransferHeader :: nat where "sizeof_DataTransferHeader \<equiv> 16"
abbreviation (input) sizeof_ClientServerL1MsgHeader :: nat where "sizeof_ClientServerL1MsgHeader \<equiv> 8"
abbreviation (input) sizeof_ClientServerL1Msg :: nat where "sizeof_ClientServerL1Msg \<equiv> 8200"

section \<open>Fields of a body\<close>

text \<open>Every body that has a cause, a ciphering mode or a single enumerator has it at offset 0.\<close>

definition put_enum :: "32 word \<Rightarrow> mem \<Rightarrow> mem" where
  "put_enum w m = store32 m 0 w"

definition get_enum :: "mem \<Rightarrow> 32 word" where
  "get_enum m = load32 m 0"

definition off_cnf_key :: nat where "off_cnf_key = 4"
definition off_rej_version :: nat where "off_rej_version = 4"
definition off_password :: nat where "off_password = 32"
definition off_mail_address :: nat where "off_mail_address = 64"

text \<open>
  \<^verbatim>\<open>s.copy(p, n)\<close> of \<^verbatim>\<open>std::string\<close> writes at most \<open>n\<close> characters and no NUL; \<open>p\<close> is an offset in
  the body, a write that leaves the union is undefined.
\<close>

definition string_copy :: "byte list \<Rightarrow> nat \<Rightarrow> nat \<Rightarrow> mem \<Rightarrow> mem result" where
  "string_copy s p n m = (if p + min n (length s) \<le> CLIENTSERVER_MAX_L1_MSG_BODY_SIZE
     then Inr (write_bytes m p (take n s)) else Inl Undefined)"

definition put_char :: "nat \<Rightarrow> byte \<Rightarrow> mem \<Rightarrow> mem result" where
  "put_char p b m = (if p < CLIENTSERVER_MAX_L1_MSG_BODY_SIZE then Inr (m(p := b)) else Inl Undefined)"

text \<open>The pattern the senders use: copy the string, then a NUL at index \<open>length + 1\<close>.\<close>

definition put_string :: "byte list \<Rightarrow> nat \<Rightarrow> nat \<Rightarrow> mem \<Rightarrow> mem result" where
  "put_string s p n m = (case string_copy s p n m of
      Inl e \<Rightarrow> Inl e
    | Inr m' \<Rightarrow> put_char (p + length s + 1) 0 m')"

text \<open>\<^verbatim>\<open>cipheringKeyDataCopy\<close>: the do-while loop over the 128 bytes of the key.\<close>

fun key_copy_loop :: "nat \<Rightarrow> nat \<Rightarrow> mem \<Rightarrow> nat \<Rightarrow> mem \<Rightarrow> mem" where
  "key_copy_loop 0 p1 from p2 to = to"
| "key_copy_loop (Suc n) p1 from p2 to = key_copy_loop n (p1 + 1) from (p2 + 1) (to(p2 := from p1))"

definition cipheringKeyDataCopy :: "mem \<Rightarrow> nat \<Rightarrow> mem \<Rightarrow> nat \<Rightarrow> mem" where
  "cipheringKeyDataCopy to p2 from p1 = key_copy_loop CLIENTSERVER_CIPHERING_KEY_LENGTH p1 from p2 to"

lemma key_copy_loop_apply:
  "key_copy_loop n p1 from p2 to i = (if p2 \<le> i \<and> i < p2 + n then from (p1 + (i - p2)) else to i)"
proof (induction n arbitrary: p1 p2 to)
  case (Suc n)
  have "Suc (p1 + i - Suc p2) = p1 + i - p2" if "Suc p2 \<le> i"
    using that by (simp add: Suc_diff_Suc)
  then show ?case
    unfolding key_copy_loop.simps Suc.IH by (cases "i = p2") auto
qed auto

lemma key_copy_loop_eq: "key_copy_loop n p1 from p2 to = write_bytes to p2 (read_bytes from p1 n)"
  by (rule ext) (auto simp: key_copy_loop_apply write_bytes_def nth_read_bytes less_diff_conv2)

lemma cipheringKeyDataCopy_eq:
  "cipheringKeyDataCopy to p2 from p1 = write_bytes to p2 (read_bytes from p1 128)"
  by (simp add: cipheringKeyDataCopy_def key_copy_loop_eq)

section \<open>Level 1 messages\<close>

text \<open>The header: \<^verbatim>\<open>lenght\<close> at 0, the identity at 4, \<^verbatim>\<open>from\<close> at 6, an unused byte at 7; the body at 8.\<close>

definition l1_lenght :: "mem \<Rightarrow> int" where
  "l1_lenght m = sint (load32 m 0)"

definition l1_id :: "mem \<Rightarrow> 16 word" where
  "l1_id m = load16 m 4"

definition l1_body :: "mem \<Rightarrow> mem" where
  "l1_body m = (\<lambda>i. m (8 + i))"

text \<open>
  The four bytes of a length field and the two of an identity on the wire: big-endian, since the
  code stores \<^verbatim>\<open>htonl\<close> and \<^verbatim>\<open>htons\<close> of the value on a little-endian host.
\<close>

definition wire32 :: "32 word \<Rightarrow> byte list" where
  "wire32 w = read_bytes (store32 (\<lambda>_. 0) 0 (htonl w)) 0 4"

lemma wire32_big_endian:
  "wire32 w = [ucast (drop_bit 24 w), ucast (drop_bit 16 w), ucast (drop_bit 8 w), ucast w]"
proof -
  have "drop_bit 8 (ucast (drop_bit 16 w) :: 16 word) = ucast (drop_bit 24 w)"
    by (rule bit_word_eqI) (auto simp: bit_ucast_iff bit_drop_bit_eq dest: bit_imp_le_length)
  moreover have "(ucast (ucast (drop_bit 16 w) :: 16 word) :: byte) = ucast (drop_bit 16 w)"
    "(ucast (drop_bit 8 (ucast w :: 16 word)) :: byte) = ucast (drop_bit 8 w)"
    "(ucast (ucast w :: 16 word) :: byte) = ucast w"
    "(ucast (ucast (drop_bit 24 w) :: 16 word) :: byte) = ucast (drop_bit 24 w)"
    by (rule bit_word_eqI; auto simp: bit_ucast_iff bit_drop_bit_eq)+
  ultimately show ?thesis
    by (simp add: wire32_def store32_def store16_def htonl_def htons_def read_bytes_def upt_rec)
qed

section \<open>The version string\<close>

definition main_version :: "byte list" where
  "main_version = bytes_of ''VERSION 0.0.0 Beta''"

definition mainVersionString :: "byte list result" where
  "mainVersionString = check_assert (length main_version < CLIENTSERVER_VERSION_STRING_LENGTH) (Inr main_version)"

lemma main_version_facts [simp]: "length main_version = 18" "0 \<notin> set main_version"
  by (simp_all add: main_version_def bytes_of_def)

lemma mainVersionString_eq [simp]: "mainVersionString = Inr main_version"
  by (simp add: mainVersionString_def)

text \<open>
  What \<open>put_string\<close> leaves in the body: the characters, then one byte that keeps what the fresh
  memory held, then the NUL. Reading the field back as a C string therefore gives the string only
  when that byte happened to be 0.
\<close>

lemma put_string_eq:
  assumes "length s \<le> n" and "p + length s + 1 < CLIENTSERVER_MAX_L1_MSG_BODY_SIZE"
  shows "put_string s p n m = Inr ((write_bytes m p s)(p + length s + 1 := 0))"
  using assms by (simp add: put_string_def string_copy_def put_char_def)

lemma cstring_put_string:
  assumes "length s \<le> n" and "p + length s + 1 < CLIENTSERVER_MAX_L1_MSG_BODY_SIZE"
    and "put_string s p n m = Inr m'" and "0 \<notin> set s" and "length s + 1 < k"
  shows "cstring m' k p = Some (if m (p + length s) = 0 then s else s @ [m (p + length s)])"
proof -
  have m': "m' = (write_bytes m p s)(p + length s + 1 := 0)"
    using put_string_eq [OF assms(1,2), of m] assms(3) by simp
  have r: "read_bytes m' p (length s) = s" "m' (p + length s) = m (p + length s)"
    "m' (p + length s + 1) = 0"
    by (simp_all add: m' read_bytes_eq_iff write_bytes_in write_bytes_out)
  show ?thesis
  proof (cases "m (p + length s) = 0")
    case True
    then show ?thesis using r assms(4,5) by (simp add: cstring_eq_Some)
  next
    case False
    then show ?thesis
      using r assms(4,5) read_bytes_add [of m' p "length s" 1]
      by (simp add: cstring_eq_Some [of m' p "s @ [m (p + length s)]"] read_bytes_def)
  qed
qed

end
