(* ===== verification/Request.thy ===== *)
theory Request
  imports Protocol
begin

text \<open>
  The requests to send data of \<^verbatim>\<open>ClientServerRequest.*\<close> and \<^verbatim>\<open>ClientServerFileTransferRequest.*\<close>:
  the abstract class as the record \<open>request\<close> whose \<open>kind\<close> is the subclass with its own members, and
  \<open>buildNextL2Msg\<close>, the virtual function that produces the next level 1 body. The locale
  \<open>block_source\<close> is the contract the sending side relies on: repeated calls deliver the whole
  payload, in order, and end. It is interpreted for the three subclasses, for the transfer of a memory block from its
  second message on, since the length of the first one is wrong.
\<close>

section \<open>Data\<close>

datatype request_kind =
    MsgRequest ClientServerL1MessageId mem
  | FileTransfer "64 word" "16 word" mem int "byte list"
  | MsgTransfer "64 word" "16 word" mem "byte list"

text \<open>
  \<open>MsgRequest l1_msg_id msg\<close>; \<open>FileTransfer transfer_id l2_action msg file file_name\<close>;
  \<open>MsgTransfer transfer_id l2_action msg source_buffer\<close>.
\<close>

record request =
  l2_payload_length :: int
  nb_payload_bytes_sent :: int
  kind :: request_kind

record 'k req_ctx = "'k sys" +
  req :: request

definition someDataToSend :: "request \<Rightarrow> bool" where
  "someDataToSend r \<longleftrightarrow> l2_payload_length r > nb_payload_bytes_sent r"

definition getPayloadLength :: "request \<Rightarrow> int" where
  "getPayloadLength r = sint (word_of_int (l2_payload_length r) :: 32 word)"

section \<open>Constructors\<close>

text \<open>The argument of the assertion is compared as \<^verbatim>\<open>size_t\<close>, so a negative \<^verbatim>\<open>nb_bytes\<close> fails it.\<close>

definition new_MsgRequest :: "mem \<Rightarrow> int \<Rightarrow> ClientServerL1MessageId \<Rightarrow> request result" where
  "new_MsgRequest msg nb_bytes msg_id = check_assert (0 \<le> nb_bytes \<and> nb_bytes < 8192)
     (Inr \<lparr>l2_payload_length = nb_bytes, nb_payload_bytes_sent = 0, kind = MsgRequest msg_id msg\<rparr>)"

text \<open>
  \<^verbatim>\<open>transfer_id\<close> is never assigned: it is what the memory of the new object held (offset 24), and the
  constructor's \<^verbatim>\<open>l2_action\<close> argument is not passed on, the base class gets 0.
\<close>

text \<open>
  \<^verbatim>\<open>file_size\<close> seeks to the end and back; the positions are cut to \<^verbatim>\<open>int\<close> and the results of the seeks ignored.
\<close>

definition as_int :: "int \<Rightarrow> int" where
  "as_int x = sint (word_of_int x :: 32 word)"

definition file_size :: "'k os \<Rightarrow> int \<Rightarrow> (('k, 'z) sys_scheme, int) stm" where
  "file_size os file s =
    (case os_ftell os file (kern s) of (pos, k0) \<Rightarrow> let save_pos = as_int pos in
     case os_fseek os file 0 SEEK_END k0 of (_, k1) \<Rightarrow>
     case os_ftell os file k1 of (pos, k2) \<Rightarrow> let end_pos = as_int pos in
     case os_fseek os file save_pos SEEK_SET k2 of (_, k3) \<Rightarrow> (Inr end_pos, s\<lparr>kern := k3\<rparr>))"

definition file_rewind :: "'k os \<Rightarrow> int \<Rightarrow> (('k, 'z) sys_scheme, unit) stm" where
  "file_rewind os file s = (case os_fseek os file 0 SEEK_SET (kern s) of (_, k) \<Rightarrow> (Inr (), s\<lparr>kern := k\<rparr>))"

definition file_eof :: "'k os \<Rightarrow> int \<Rightarrow> (('k, 'z) sys_scheme, bool) stm" where
  "file_eof os file s = (case os_feof os file (kern s) of (b, k) \<Rightarrow> (Inr b, s\<lparr>kern := k\<rparr>))"

text \<open>The base class allocates the message; its \<^verbatim>\<open>transfer_id\<close> keeps what the memory of the object held.\<close>

definition new_TransferRequest :: "'k os \<Rightarrow> (('k, 'z) sys_scheme, mem) stm" where
  "new_TransferRequest os = new_mem os"

definition new_FileTransfer ::
    "'k os \<Rightarrow> byte list \<Rightarrow> 16 word \<Rightarrow> (('k, 'z) sys_scheme, request) stm" where
  "new_FileTransfer os f_name action =
    andThen (new_mem os) (\<lambda>obj.
    andThen (new_TransferRequest os) (\<lambda>msg.
    andThen (or_throw (os_fopen os f_name) ''ClientServerFileTransferRequest'') (\<lambda>file.
    andThen (file_size os file) (\<lambda>sz.
    retS \<lparr>l2_payload_length = sz, nb_payload_bytes_sent = 0,
          kind = FileTransfer (word_cat (load32 obj 28) (load32 obj 24)) 0 msg file f_name\<rparr>))))"

text \<open>The destructor is \<^verbatim>\<open>noexcept\<close>, as every destructor is, so that its exception ends the process.\<close>

definition delete_FileTransfer :: "'k os \<Rightarrow> int \<Rightarrow> (('k, 'z) sys_scheme, unit) stm" where
  "delete_FileTransfer os file = andThen (syscall (os_fclose os file)) (\<lambda>r. case r of
      Inl e \<Rightarrow> failS AssertFailed
    | Inr _ \<Rightarrow> retS ())"

text \<open>\<open>next_id\<close> is the static counter \<^verbatim>\<open>next_transfer_id\<close>, which starts at 1; nothing calls the function.\<close>

definition nextTransferId :: "64 word \<Rightarrow> 64 word \<times> 64 word" where
  "nextTransferId next_id = (next_id, next_id + 1)"

section \<open>Reading the file\<close>

definition file_read_data :: "'k os \<Rightarrow> int \<Rightarrow> nat \<Rightarrow> (('k, 'z) sys_scheme, byte list) stm" where
  "file_read_data os file nb_bytes = andThen (syscall (os_read os file nb_bytes)) (\<lambda>r. case r of
      Inl e \<Rightarrow> failS (ThrownString ''ClientServerFileTransferRequest::read_data'')
    | Inr bs \<Rightarrow> retS bs)"

section \<open>The next message of a request\<close>

definition store64 :: "mem \<Rightarrow> nat \<Rightarrow> 64 word \<Rightarrow> mem" where
  "store64 m p w = store32 (store32 m p (ucast w)) (p + 4) (ucast (drop_bit 32 w))"

text \<open>\<^verbatim>\<open>field = htonl(v)\<close> for a 64 bit field and a 64 bit value: the value is cut to 32 bits first.\<close>

definition put_htonl64 :: "nat \<Rightarrow> 64 word \<Rightarrow> mem \<Rightarrow> mem" where
  "put_htonl64 p v m = store64 m p (ucast (htonl (ucast v)))"

definition build_MsgRequest ::
    "ClientServerL1MessageId \<Rightarrow> mem \<Rightarrow> ClientServerL1MessageId \<Rightarrow> int
      \<Rightarrow> ('k req_ctx, mem option \<times> ClientServerL1MessageId \<times> int) stm" where
  "build_MsgRequest l1_msg_id msg msg_id len s =
    (if someDataToSend (req s)
     then (Inr (Some msg, l1_msg_id, sint (word_of_int (l2_payload_length (req s)) :: 32 word)),
           s\<lparr>req := (req s)\<lparr>nb_payload_bytes_sent := nb_payload_bytes_sent (req s) + l2_payload_length (req s)\<rparr>\<rparr>)
     else (Inr (None, msg_id, len), s))"

text \<open>
  The file transfer. Layout of \<^verbatim>\<open>FileTransferReq\<close>: \<^verbatim>\<open>file_size\<close> at 0, \<^verbatim>\<open>transfer_id\<close> at 8,
  \<^verbatim>\<open>l2_action\<close> at 16, \<^verbatim>\<open>file_name\<close> at 18, payload at 280; of \<^verbatim>\<open>DataTransferBlk\<close>: \<^verbatim>\<open>transfer_id\<close> at 0,
  \<^verbatim>\<open>byte_position\<close> at 8, payload at 16.
\<close>

definition file_req_header :: "64 word \<Rightarrow> 16 word \<Rightarrow> byte list \<Rightarrow> int \<Rightarrow> mem \<Rightarrow> mem" where
  "file_req_header tid action f_name tot msg =
    (let m1 = write_bytes msg 18 (replicate 256 32);
         m2 = write_bytes m1 18 (take 256 f_name);
         m3 = put_htonl64 0 (word_of_int tot) m2;
         m4 = put_htonl64 8 tid m3
     in store16 m4 16 (htons action))"

definition data_blk_header :: "64 word \<Rightarrow> int \<Rightarrow> mem \<Rightarrow> mem" where
  "data_blk_header tid pos msg = put_htonl64 0 tid (store32 msg 8 (htonl (word_of_int pos)))"

definition build_FileTransfer ::
    "'k os \<Rightarrow> 64 word \<Rightarrow> 16 word \<Rightarrow> mem \<Rightarrow> int \<Rightarrow> byte list \<Rightarrow> ClientServerL1MessageId \<Rightarrow> int
      \<Rightarrow> ('k req_ctx, mem option \<times> ClientServerL1MessageId \<times> int) stm" where
  "build_FileTransfer os tid action msg file f_name msg_id len s =
    (let setMsg = (\<lambda>m. modS (\<lambda>s. s\<lparr>req := (req s)\<lparr>kind := FileTransfer tid action m file f_name\<rparr>\<rparr>));
         setSent = (\<lambda>n. modS (\<lambda>s. s\<lparr>req := (req s)\<lparr>nb_payload_bytes_sent := n\<rparr>\<rparr>));
         checkSent = assertS (\<lambda>s. nb_payload_bytes_sent (req s) \<le> l2_payload_length (req s));
         sent = nb_payload_bytes_sent (req s)
     in if someDataToSend (req s) then
          if sent = 0 then
            (let m = file_req_header tid action f_name (l2_payload_length (req s)) msg in
             andThen (setMsg m) (\<lambda>_.
             andThen (file_read_data os file (8192 - sizeof_FileTransferReqHeader)) (\<lambda>bs.
             let m' = write_bytes m sizeof_FileTransferReqHeader bs in
             andThen (setMsg m') (\<lambda>_.
             andThen (setSent (int (length bs))) (\<lambda>_.
             andThen checkSent (\<lambda>_.
             retS (Some m', FILE_TRANSFER_REQ, int (length bs) + int sizeof_FileTransferReqHeader)))))) s)
          else
            (let m = data_blk_header tid sent msg in
             andThen (setMsg m) (\<lambda>_.
             andThen (file_read_data os file (8192 - sizeof_DataTransferHeader)) (\<lambda>bs.
             let m' = write_bytes m sizeof_DataTransferHeader bs in
             andThen (setMsg m') (\<lambda>_.
             andThen (setSent (sent + int (length bs))) (\<lambda>_.
             andThen checkSent (\<lambda>_.
             retS (Some m', TRANSFER_DATA_BLK, int (length bs) + int sizeof_DataTransferHeader)))))) s)
        else (Inr (Some msg, msg_id, len), s))"

text \<open>
  The transfer of a memory block. \<^verbatim>\<open>DataTransferReq\<close>: \<^verbatim>\<open>transfer_id\<close> at 0, \<^verbatim>\<open>total_size\<close> at 8,
  \<^verbatim>\<open>l2_action\<close> at 16, payload at 24; the length the code computes for it adds
  \<^verbatim>\<open>sizeof(FileTransferReqHeader)\<close>, 280. A \<^verbatim>\<open>memcpy\<close> that leaves the source buffer is undefined.
\<close>

definition data_req_header :: "64 word \<Rightarrow> 16 word \<Rightarrow> int \<Rightarrow> mem \<Rightarrow> mem" where
  "data_req_header tid action tot msg =
     store16 (put_htonl64 0 tid (put_htonl64 8 (word_of_int tot) msg)) 16 (htons action)"

definition build_MsgTransfer ::
    "64 word \<Rightarrow> 16 word \<Rightarrow> mem \<Rightarrow> byte list \<Rightarrow> ClientServerL1MessageId \<Rightarrow> int
      \<Rightarrow> ('k req_ctx, mem option \<times> ClientServerL1MessageId \<times> int) stm" where
  "build_MsgTransfer tid action msg source msg_id len s =
    (let sent = nb_payload_bytes_sent (req s); tot = l2_payload_length (req s);
         checkSent = assertS (\<lambda>s. nb_payload_bytes_sent (req s) \<le> l2_payload_length (req s))
     in if someDataToSend (req s) then
          if sent = 0 then
            (let nb = min (tot - sent) (8192 - int sizeof_DataTransferReqHeader);
                 m = write_bytes (data_req_header tid action tot msg) sizeof_DataTransferReqHeader
                       (take (nat nb) source)
             in if nat nb \<le> length source then
                  andThen checkSent
                    (\<lambda>_. retS (Some m, DATA_TRANSFER_REQ, nb + int sizeof_FileTransferReqHeader))
                    (s\<lparr>req := (req s)\<lparr>nb_payload_bytes_sent := nb, kind := MsgTransfer tid action m source\<rparr>\<rparr>)
                else (Inl Undefined, s))
          else
            (let nb = min (tot - sent) (8192 - int sizeof_DataTransferHeader);
                 m = write_bytes (data_blk_header tid sent msg) sizeof_DataTransferHeader
                       (take (nat nb) (drop (nat sent) source))
             in if 0 \<le> sent \<and> nat (sent + nb) \<le> length source then
                  andThen checkSent
                    (\<lambda>_. retS (Some m, TRANSFER_DATA_BLK, nb + int sizeof_DataTransferHeader))
                    (s\<lparr>req := (req s)\<lparr>nb_payload_bytes_sent := sent + nb, kind := MsgTransfer tid action m source\<rparr>\<rparr>)
                else (Inl Undefined, s))
        else (Inr (Some msg, msg_id, len), s))"

text \<open>The virtual call. The two in-out arguments \<^verbatim>\<open>msg_id\<close> and \<^verbatim>\<open>length\<close> are passed and returned.\<close>

definition buildNextL2Msg ::
    "'k os \<Rightarrow> ClientServerL1MessageId \<Rightarrow> int
      \<Rightarrow> ('k req_ctx, mem option \<times> ClientServerL1MessageId \<times> int) stm" where
  "buildNextL2Msg os msg_id len s = (case kind (req s) of
      MsgRequest i m \<Rightarrow> build_MsgRequest i m msg_id len s
    | FileTransfer tid action m file f_name \<Rightarrow> build_FileTransfer os tid action m file f_name msg_id len s
    | MsgTransfer tid action m source \<Rightarrow> build_MsgTransfer tid action m source msg_id len s)"

section \<open>Draining a request\<close>

text \<open>
  The sending side calls \<^verbatim>\<open>buildNextL2Msg\<close> as long as \<^verbatim>\<open>someDataToSend\<close>. \<open>send_all\<close> is that loop, with
  the blocks collected; it may run forever, so not ending is \<open>None\<close>.
\<close>

type_synonym block = "mem option \<times> ClientServerL1MessageId \<times> int"

partial_function (option) send_all ::
    "('s \<Rightarrow> bool) \<Rightarrow> ('s, 'b) stm \<Rightarrow> 's \<Rightarrow> ('b list result \<times> 's) option" where
  "send_all unsent next s =
    (if unsent s then
       (case next s of
          (Inl e, s') \<Rightarrow> Some (Inl e, s')
        | (Inr b, s') \<Rightarrow> Option.bind (send_all unsent next s') (\<lambda>(r, t). Some (map_sum id ((#) b) r, t)))
     else Some (Inr [], s))"

fun blocks_at :: "('b \<Rightarrow> byte list) \<Rightarrow> (nat \<Rightarrow> 'b \<Rightarrow> bool) \<Rightarrow> nat \<Rightarrow> 'b list \<Rightarrow> bool" where
  "blocks_at data good n [] = True"
| "blocks_at data good n (b # bs) = (good n b \<and> blocks_at data good (n + length (data b)) bs)"

text \<open>
  The contract: the request knows what is left to send; a call delivers a non-empty piece from
  the front of it, in a block that is well formed for the position it has in the payload.
\<close>

locale block_source =
  fixes unsent :: "'s \<Rightarrow> bool"
    and next_block :: "('s, 'b) stm"
    and left :: "'s \<Rightarrow> byte list"
    and position :: "'s \<Rightarrow> nat"
    and data :: "'b \<Rightarrow> byte list"
    and good :: "nat \<Rightarrow> 'b \<Rightarrow> bool"
    and inv :: "'s \<Rightarrow> bool"
  assumes unsent_iff: "inv s \<Longrightarrow> unsent s \<longleftrightarrow> left s \<noteq> []"
    and next_ok: "inv s \<Longrightarrow> unsent s \<Longrightarrow> \<exists>b s'. next_block s = (Inr b, s') \<and> inv s'
      \<and> left s = data b @ left s' \<and> data b \<noteq> [] \<and> position s' = position s + length (data b)
      \<and> good (position s) b"
begin

theorem send_all_delivers:
  assumes "inv s"
  shows "\<exists>bs s'. send_all unsent next_block s = Some (Inr bs, s') \<and> inv s' \<and> \<not> unsent s'
    \<and> concat (map data bs) = left s \<and> blocks_at data good (position s) bs"
  using assms
proof (induction "length (left s)" arbitrary: s rule: less_induct)
  case less
  show ?case
  proof (cases "unsent s")
    case False
    then show ?thesis using less.prems unsent_iff [OF less.prems] by (simp add: send_all.simps)
  next
    case True
    from next_ok [OF less.prems True] obtain b s' where b: "next_block s = (Inr b, s')" "inv s'"
      "left s = data b @ left s'" "data b \<noteq> []" "position s' = position s + length (data b)"
      "good (position s) b"
      by blast
    then have "length (left s') < length (left s)" by simp
    from less.hyps [OF this b(2)] obtain bs t where IH: "send_all unsent next_block s' = Some (Inr bs, t)"
      "inv t" "\<not> unsent t" "concat (map data bs) = left s'" "blocks_at data good (position s') bs"
      by blast
    have "send_all unsent next_block s = Some (Inr (b # bs), t)"
      using True b(1) IH(1) by (simp add: send_all.simps [of unsent next_block s])
    then show ?thesis using b IH by (intro exI [of _ "b # bs"] exI [of _ t]) simp
  qed
qed

end

section \<open>The payload carried by a block\<close>

fun plain_data :: "block \<Rightarrow> byte list" where
  "plain_data (m, i, len) = (case m of None \<Rightarrow> [] | Some b \<Rightarrow> read_bytes b 0 (nat len))"

text \<open>
  What a receiver that knows the three headers takes for the data of a block of a transfer: 280 bytes precede it in
  a \<^verbatim>\<open>FileTransferReq\<close>, 24 in a \<^verbatim>\<open>DataTransferReq\<close>, 16 in a \<^verbatim>\<open>DataTransferBlk\<close>.
\<close>

fun transfer_data :: "block \<Rightarrow> byte list" where
  "transfer_data (m, i, len) = (case m of None \<Rightarrow> []
    | Some b \<Rightarrow> (case i of
          FILE_TRANSFER_REQ \<Rightarrow> read_bytes b 280 (nat (len - 280))
        | DATA_TRANSFER_REQ \<Rightarrow> read_bytes b 24 (nat (len - 24))
        | _ \<Rightarrow> read_bytes b 16 (nat (len - 16))))"

abbreviation more_to_send :: "'k req_ctx \<Rightarrow> bool" where
  "more_to_send s \<equiv> someDataToSend (req s)"

abbreviation next_msg :: "'k os \<Rightarrow> ('k req_ctx, block) stm" where
  "next_msg os \<equiv> buildNextL2Msg os NONE 0"

text \<open>A single message: one block with the whole body.\<close>

definition msg_inv :: "ClientServerL1MessageId \<Rightarrow> mem \<Rightarrow> int \<Rightarrow> 'k req_ctx \<Rightarrow> bool" where
  "msg_inv i m n s \<longleftrightarrow> kind (req s) = MsgRequest i m \<and> l2_payload_length (req s) = n
     \<and> 0 \<le> n \<and> n < 8192 \<and> nb_payload_bytes_sent (req s) \<in> {0, n}"

definition msg_left :: "mem \<Rightarrow> int \<Rightarrow> 'k req_ctx \<Rightarrow> byte list" where
  "msg_left m n s = drop (nat (nb_payload_bytes_sent (req s))) (read_bytes m 0 (nat n))"

definition msg_good :: "ClientServerL1MessageId \<Rightarrow> mem \<Rightarrow> int \<Rightarrow> nat \<Rightarrow> block \<Rightarrow> bool" where
  "msg_good i m n pos b \<longleftrightarrow> b = (Some m, i, n)"

lemma int_cast32: "0 \<le> n \<Longrightarrow> n < 8192 \<Longrightarrow> sint (word_of_int n :: 32 word) = n"
  by (simp add: sint_sbintrunc' signed_take_bit_int_eq_self)

lemma msg_source: "block_source more_to_send (next_msg os) (msg_left m n)
    (\<lambda>s. nat (nb_payload_bytes_sent (req s))) plain_data (msg_good i m n) (msg_inv i m n)"
proof unfold_locales
  fix s :: "'a req_ctx"
  assume inv: "msg_inv i m n s"
  then show "more_to_send s \<longleftrightarrow> msg_left m n s \<noteq> []"
    by (auto simp: msg_inv_def someDataToSend_def msg_left_def)
  assume "more_to_send s"
  with inv show "\<exists>b s'. next_msg os s = (Inr b, s') \<and> msg_inv i m n s'
      \<and> msg_left m n s = plain_data b @ msg_left m n s' \<and> plain_data b \<noteq> []
      \<and> nat (nb_payload_bytes_sent (req s')) = nat (nb_payload_bytes_sent (req s)) + length (plain_data b)
      \<and> msg_good i m n (nat (nb_payload_bytes_sent (req s))) b"
    by (auto simp: buildNextL2Msg_def build_MsgRequest_def msg_inv_def msg_left_def msg_good_def
        someDataToSend_def int_cast32 simp flip: length_greater_0_conv)
qed

interpretation msg_tr: block_source more_to_send "next_msg os" "msg_left m n"
    "\<lambda>s. nat (nb_payload_bytes_sent (req s))" plain_data "msg_good i m n" "msg_inv i m n"
  for os :: "'k os" and m n i
  by (rule msg_source)


section \<open>The transfer of a memory block\<close>

lemma load32_write_bytes [simp]:
  "p + 4 \<le> q \<or> q + length bs \<le> p \<Longrightarrow> load32 (write_bytes m q bs) p = load32 m p"
  by (rule load32_cong) (auto simp: write_bytes_out)

lemma load16_write_bytes [simp]:
  "p + 2 \<le> q \<or> q + length bs \<le> p \<Longrightarrow> load16 (write_bytes m q bs) p = load16 m p"
  by (rule load16_cong) (auto simp: write_bytes_out)

lemma load32_put_htonl64 [simp]: "load32 (put_htonl64 p v m) p = htonl (ucast v)"
proof -
  have "(ucast (ucast (w :: 32 word) :: 64 word) :: 32 word) = w" for w
    by (rule bit_word_eqI) (auto simp: bit_ucast_iff)
  then show ?thesis by (simp add: put_htonl64_def store64_def)
qed

lemma load32_put_htonl64_other [simp]:
  "p + 4 \<le> q \<or> q + 8 \<le> p \<Longrightarrow> load32 (put_htonl64 q v m) p = load32 m p"
  by (auto simp: put_htonl64_def store64_def)

lemma load16_put_htonl64_other [simp]:
  "p + 2 \<le> q \<or> q + 8 \<le> p \<Longrightarrow> load16 (put_htonl64 q v m) p = load16 m p"
  by (auto simp: put_htonl64_def store64_def)

lemma load32_store16_other [simp]:
  "p + 4 \<le> q \<or> q + 2 \<le> p \<Longrightarrow> load32 (store16 m q w) p = load32 m p"
  by auto

text \<open>The headers announce the total size (first block) or the position (later blocks).\<close>

definition transfer_good :: "ClientServerL1MessageId \<Rightarrow> nat \<Rightarrow> int \<Rightarrow> int \<Rightarrow> nat \<Rightarrow> block \<Rightarrow> bool" where
  "transfer_good first size_off tot max_len pos b \<longleftrightarrow> (case b of (Some m, i, len) \<Rightarrow>
      len \<le> max_len \<and>
      (if pos = 0 then i = first \<and> load32 m size_off = htonl (word_of_int tot)
       else i = TRANSFER_DATA_BLK \<and> load32 m 8 = htonl (word_of_nat pos))
    | _ \<Rightarrow> False)"

definition mem_inv :: "byte list \<Rightarrow> 'k req_ctx \<Rightarrow> bool" where
  "mem_inv src s \<longleftrightarrow> (\<exists>tid action m. kind (req s) = MsgTransfer tid action m src)
     \<and> l2_payload_length (req s) = int (length src)
     \<and> 0 \<le> nb_payload_bytes_sent (req s) \<and> nb_payload_bytes_sent (req s) \<le> int (length src)"

definition unsent_part :: "byte list \<Rightarrow> 'k req_ctx \<Rightarrow> byte list" where
  "unsent_part src s = drop (nat (nb_payload_bytes_sent (req s))) src"

lemma ucast_of_int: "(ucast (word_of_int x :: 64 word) :: 32 word) = word_of_int x"
  by (rule bit_word_eqI) (auto simp: bit_ucast_iff bit_word_of_int_iff)

lemma ucast_of_nat: "(ucast (word_of_nat x :: 64 word) :: 32 word) = word_of_nat x"
  using ucast_of_int [of "int x"] by simp

text \<open>The first block, whose length counts 280 bytes for its 24 bytes of header.\<close>

lemma first_mem_block:
  assumes inv: "mem_inv src s" and sent: "nb_payload_bytes_sent (req s) = 0" and "src \<noteq> []"
  defines "k \<equiv> min (length src) 8168"
  shows "\<exists>m s'. buildNextL2Msg os msg_id len s = (Inr (Some m, DATA_TRANSFER_REQ, int (k + 24) + 256), s')
    \<and> read_bytes m 24 k = take k src \<and> load32 m 8 = htonl (word_of_nat (length src))
    \<and> mem_inv src s' \<and> nb_payload_bytes_sent (req s') = int k"
proof -
  from inv obtain tid action m where kd: "kind (req s) = MsgTransfer tid action m src"
    and tot: "l2_payload_length (req s) = int (length src)" by (auto simp: mem_inv_def)
  have nb: "min (int (length src)) 8168 = int k" by (simp add: k_def)
  have kl: "k \<le> length src" "0 < k" using assms(3) by (auto simp: k_def)
  have rd: "read_bytes (write_bytes m' 24 (take k src)) 24 k = take k src" for m'
    using read_write_bytes [of m' 24 "take k src"] kl by simp
  define m1 where "m1 = write_bytes (data_req_header tid action (int (length src)) m) 24 (take k src)"
  have step: "buildNextL2Msg os msg_id len s = (Inr (Some m1, DATA_TRANSFER_REQ, int (k + 24) + 256),
      s\<lparr>req := (req s)\<lparr>nb_payload_bytes_sent := int k, kind := MsgTransfer tid action m1 src\<rparr>\<rparr>)"
    using kd tot sent kl assms(3)
    by (simp add: Let_def buildNextL2Msg_def build_MsgTransfer_def someDataToSend_def nb m1_def)
  have "load32 m1 8 = htonl (word_of_nat (length src))"
    by (simp add: m1_def data_req_header_def ucast_of_int ucast_of_nat)
  then show ?thesis unfolding step using rd kl tot by (simp add: m1_def mem_inv_def)
qed

text \<open>Every later block is exact.\<close>

definition mem_going :: "byte list \<Rightarrow> 'k req_ctx \<Rightarrow> bool" where
  "mem_going src s \<longleftrightarrow> mem_inv src s \<and> 0 < nb_payload_bytes_sent (req s)"

lemma mem_source: "block_source more_to_send (next_msg os) (unsent_part src)
    (\<lambda>s. nat (nb_payload_bytes_sent (req s))) transfer_data
    (transfer_good DATA_TRANSFER_REQ 8 (int (length src)) 8192) (mem_going src)"
proof unfold_locales
  fix s :: "'a req_ctx"
  assume "mem_going src s"
  then have inv: "mem_inv src s" and pos: "0 < nb_payload_bytes_sent (req s)" by (simp_all add: mem_going_def)
  then show "more_to_send s \<longleftrightarrow> unsent_part src s \<noteq> []"
    by (auto simp: mem_inv_def someDataToSend_def unsent_part_def)
  assume "more_to_send s"
  then have lt: "nb_payload_bytes_sent (req s) < int (length src)"
    using inv by (simp add: mem_inv_def someDataToSend_def)
  from inv obtain tid action m n where k: "kind (req s) = MsgTransfer tid action m src"
    and tot: "l2_payload_length (req s) = int (length src)" and n: "nb_payload_bytes_sent (req s) = int n"
    by (auto simp: mem_inv_def) (metis zero_le_imp_eq_int)
  have False: "n \<noteq> 0" using pos n by simp
  show "\<exists>b s'. next_msg os s = (Inr b, s') \<and> mem_going src s'
      \<and> unsent_part src s = transfer_data b @ unsent_part src s' \<and> transfer_data b \<noteq> []
      \<and> nat (nb_payload_bytes_sent (req s')) = nat (nb_payload_bytes_sent (req s)) + length (transfer_data b)
      \<and> transfer_good DATA_TRANSFER_REQ 8 (int (length src)) 8192
          (nat (nb_payload_bytes_sent (req s))) b"
  proof -
    define k where "k = min (length src - n) 8176"
    have nb: "min (int (length src) - int n) 8176 = int k" using lt n by (simp add: k_def of_nat_diff)
    have kl: "n + k \<le> length src" "0 < k" "k \<le> 8176" using lt n by (auto simp: k_def)
    have nk: "nat (int n + int k) = n + k" by simp
    have rd: "read_bytes (write_bytes m' 16 (take k (drop n src))) 16 k = take k (drop n src)" for m'
      using read_write_bytes [of m' 16 "take k (drop n src)"] kl by simp
    have dr: "drop n src = take k (drop n src) @ drop (n + k) src"
      by (metis append_take_drop_id drop_drop add.commute)
    define m1 where "m1 = write_bytes (data_blk_header tid (int n) m) 16 (take k (drop n src))"
    have step: "next_msg os s = (Inr (Some m1, TRANSFER_DATA_BLK, int k + 16),
        s\<lparr>req := (req s)\<lparr>nb_payload_bytes_sent := int n + int k, kind := MsgTransfer tid action m1 src\<rparr>\<rparr>)"
      using False k tot n lt kl
      by (simp add: Let_def buildNextL2Msg_def build_MsgTransfer_def someDataToSend_def nb nk m1_def)
    have hd: "load32 m1 8 = htonl (word_of_nat n)"
      by (simp add: m1_def data_blk_header_def)
    have d: "transfer_data (Some m1, TRANSFER_DATA_BLK, int k + 16) = take k (drop n src)"
      by (simp add: m1_def rd)
    show ?thesis
      unfolding step
      by (rule exI, rule exI, rule conjI [OF refl])
        (use False n kl k tot hd dr in \<open>simp add: d mem_going_def mem_inv_def unsent_part_def transfer_good_def nk
           del: transfer_data.simps\<close>)
  qed
qed

interpretation mem_tr: block_source more_to_send "next_msg os" "unsent_part src"
    "\<lambda>s. nat (nb_payload_bytes_sent (req s))" transfer_data
    "transfer_good DATA_TRANSFER_REQ 8 (int (length src)) 8192" "mem_going src"
  for os :: "'k os" and src
  by (rule mem_source)


section \<open>The transfer of a file\<close>

text \<open>
  What the code relies on of \<^verbatim>\<open>read\<close> on a regular file opened with content \<open>c\<close>: each call
  returns some of the bytes at the position, at least one if there is one, and advances it.
\<close>

coinductive file_at :: "'k os \<Rightarrow> int \<Rightarrow> byte list \<Rightarrow> nat \<Rightarrow> 'k \<Rightarrow> bool" for os fh c where
  "(\<And>n. 0 < n \<Longrightarrow> \<exists>m k'. os_read os fh n k = (Inr (take m (drop pos c)), k') \<and> m \<le> n \<and> pos + m \<le> length c
      \<and> (pos < length c \<longrightarrow> 0 < m) \<and> file_at os fh c (pos + m) k')
   \<Longrightarrow> file_at os fh c pos k"

inductive_cases file_atE: "file_at os fh c pos k"

definition file_inv :: "'k os \<Rightarrow> int \<Rightarrow> byte list \<Rightarrow> 'k req_ctx \<Rightarrow> bool" where
  "file_inv os fh c s \<longleftrightarrow> (\<exists>tid action m f_name. kind (req s) = FileTransfer tid action m fh f_name)
     \<and> l2_payload_length (req s) = int (length c)
     \<and> 0 \<le> nb_payload_bytes_sent (req s) \<and> nb_payload_bytes_sent (req s) \<le> int (length c)
     \<and> file_at os fh c (nat (nb_payload_bytes_sent (req s))) (kern s)"

lemma file_read_data_at:
  assumes "file_at os fh c pos (kern (s :: ('k, 'z) sys_scheme))" and "pos < length c" and "0 < n"
  obtains m k' where "file_read_data os fh n s = (Inr (take m (drop pos c)), s\<lparr>kern := k'\<rparr>)"
    and "0 < m" "m \<le> n" "pos + m \<le> length c" "file_at os fh c (pos + m) k'"
proof -
  from assms obtain m k' where "os_read os fh n (kern s) = (Inr (take m (drop pos c)), k')"
    "m \<le> n" "pos + m \<le> length c" "0 < m" "file_at os fh c (pos + m) k'"
    by (elim file_atE) (metis nat_neq_iff)
  moreover from this have "file_read_data os fh n s = (Inr (take m (drop pos c)), s\<lparr>kern := k'\<rparr>)"
    by (simp add: file_read_data_def)
  ultimately show thesis using that by blast
qed

lemma file_source: "block_source more_to_send (next_msg os) (unsent_part c)
    (\<lambda>s. nat (nb_payload_bytes_sent (req s))) transfer_data
    (transfer_good FILE_TRANSFER_REQ 0 (int (length c)) 8192) (file_inv os fh c)"
proof unfold_locales
  fix s :: "'a req_ctx"
  assume inv: "file_inv os fh c s"
  then show "more_to_send s \<longleftrightarrow> unsent_part c s \<noteq> []"
    by (auto simp: file_inv_def someDataToSend_def unsent_part_def)
  assume "more_to_send s"
  then have lt: "nb_payload_bytes_sent (req s) < int (length c)"
    using inv by (simp add: file_inv_def someDataToSend_def)
  from inv obtain tid action m f_name n where k: "kind (req s) = FileTransfer tid action m fh f_name"
    and tot: "l2_payload_length (req s) = int (length c)" and n: "nb_payload_bytes_sent (req s) = int n"
    and at: "file_at os fh c n (kern s)"
    by (auto simp: file_inv_def) (metis zero_le_imp_eq_int nat_int)
  have nl: "n < length c" using lt n by simp
  show "\<exists>b s'. next_msg os s = (Inr b, s') \<and> file_inv os fh c s'
      \<and> unsent_part c s = transfer_data b @ unsent_part c s' \<and> transfer_data b \<noteq> []
      \<and> nat (nb_payload_bytes_sent (req s')) = nat (nb_payload_bytes_sent (req s)) + length (transfer_data b)
      \<and> transfer_good FILE_TRANSFER_REQ 0 (int (length c)) 8192
          (nat (nb_payload_bytes_sent (req s))) b"
  proof (cases "n = 0")
    case True
    define m0 where "m0 = file_req_header tid action f_name (int (length c)) m"
    define s0 where "s0 = s\<lparr>req := (req s)\<lparr>kind := FileTransfer tid action m0 fh f_name\<rparr>\<rparr>"
    have at0: "file_at os fh c n (kern s0)" by (simp add: s0_def at)
    obtain j k' where rd: "file_read_data os fh 7912 s0 = (Inr (take j (drop n c)), s0\<lparr>kern := k'\<rparr>)"
      and j: "0 < j" "j \<le> 7912" "n + j \<le> length c" and at2: "file_at os fh c (n + j) k'"
      by (rule file_read_data_at [OF at0 nl, of 7912]) (simp, rule that)
    have len: "length (take j c) = j" using j True by simp
    define m1 where "m1 = write_bytes m0 280 (take j c)"
    have step: "next_msg os s = (Inr (Some m1, FILE_TRANSFER_REQ, int j + 280),
        s0\<lparr>kern := k', req := (req s0)\<lparr>kind := FileTransfer tid action m1 fh f_name,
             nb_payload_bytes_sent := int j\<rparr>\<rparr>)"
      using True k tot n nl rd j len
      by (simp add: Let_def buildNextL2Msg_def build_FileTransfer_def someDataToSend_def m1_def
          m0_def [symmetric] s0_def)
    have hd: "load32 m1 0 = htonl (word_of_int (int (length c)))"
      by (simp add: m1_def m0_def file_req_header_def Let_def ucast_of_int ucast_of_nat)
    have d: "transfer_data (Some m1, FILE_TRANSFER_REQ, int j + 280) = take j c"
      using read_write_bytes [of m0 280 "take j c"] len by (simp add: m1_def)
    show ?thesis
      unfolding step
      by (rule exI, rule exI, rule conjI [OF refl])
        (use True n j k tot hd at2 len nl in \<open>simp add: d file_inv_def unsent_part_def transfer_good_def s0_def
           del: transfer_data.simps\<close>)
  next
    case False
    define m0 where "m0 = data_blk_header tid (int n) m"
    define s0 where "s0 = s\<lparr>req := (req s)\<lparr>kind := FileTransfer tid action m0 fh f_name\<rparr>\<rparr>"
    have at0: "file_at os fh c n (kern s0)" by (simp add: s0_def at)
    obtain j k' where rd: "file_read_data os fh 8176 s0 = (Inr (take j (drop n c)), s0\<lparr>kern := k'\<rparr>)"
      and j: "0 < j" "j \<le> 8176" "n + j \<le> length c" and at2: "file_at os fh c (n + j) k'"
      by (rule file_read_data_at [OF at0 nl, of 8176]) (simp, rule that)
    have len: "length (take j (drop n c)) = j" using j by simp
    have nj: "nat (int n + int j) = n + j" by simp
    define m1 where "m1 = write_bytes m0 16 (take j (drop n c))"
    have step: "next_msg os s = (Inr (Some m1, TRANSFER_DATA_BLK, int j + 16),
        s0\<lparr>kern := k', req := (req s0)\<lparr>kind := FileTransfer tid action m1 fh f_name,
             nb_payload_bytes_sent := int n + int j\<rparr>\<rparr>)"
      using False k tot n nl rd j len
      by (simp add: Let_def buildNextL2Msg_def build_FileTransfer_def someDataToSend_def m1_def
          m0_def [symmetric] s0_def)
    have hd: "load32 m1 8 = htonl (word_of_nat n)"
      by (simp add: m1_def m0_def data_blk_header_def)
    have d: "transfer_data (Some m1, TRANSFER_DATA_BLK, int j + 16) = take j (drop n c)"
      using read_write_bytes [of m0 16 "take j (drop n c)"] len by (simp add: m1_def)
    have dr: "drop n c = take j (drop n c) @ drop (n + j) c"
      by (metis append_take_drop_id drop_drop add.commute)
    show ?thesis
      unfolding step
      by (rule exI, rule exI, rule conjI [OF refl])
        (use False n j k tot hd at2 len dr in \<open>simp add: d file_inv_def unsent_part_def
           transfer_good_def s0_def nj del: transfer_data.simps\<close>)
  qed
qed

interpretation file_tr: block_source more_to_send "next_msg os" "unsent_part c"
    "\<lambda>s. nat (nb_payload_bytes_sent (req s))" transfer_data
    "transfer_good FILE_TRANSFER_REQ 0 (int (length c)) 8192" "file_inv os fh c"
  for os :: "'k os" and c fh
  by (rule file_source)


section \<open>Properties\<close>

text \<open>
  C32. The transfer of a memory block: repeated calls of \<^verbatim>\<open>buildNextL2Msg\<close> end. The first block is a
  \<^verbatim>\<open>DATA_TRANSFER_REQ\<close> that announces the total size; its length is 256 bytes too long, so that a receiver that knows
  its header of 24 bytes finds the first 8168 bytes of the buffer, or all of it, and after them 256 bytes that do not belong to it.
  Every later one is a \<^verbatim>\<open>TRANSFER_DATA_BLK\<close> with its byte position, fits in a level 1 body and carries the bytes at
  that position: the payloads after the first, put end to end, are the rest of the buffer.
\<close>

theorem msg_transfer_delivers:
  assumes "mem_inv src s" and "nb_payload_bytes_sent (req s) = 0" and "src \<noteq> []"
  shows "\<exists>m bs s' junk. send_all more_to_send (next_msg os) s
        = Some (Inr ((Some m, DATA_TRANSFER_REQ, int (min (length src) 8168) + 280) # bs), s')
    \<and> \<not> someDataToSend (req s') \<and> load32 m 8 = htonl (word_of_nat (length src))
    \<and> transfer_data (Some m, DATA_TRANSFER_REQ, int (min (length src) 8168) + 280) = take 8168 src @ junk
    \<and> length junk = 256
    \<and> concat (map transfer_data bs) = drop 8168 src
    \<and> blocks_at transfer_data (transfer_good DATA_TRANSFER_REQ 8 (int (length src)) 8192) (min (length src) 8168) bs"
proof -
  define k where "k = min (length src) 8168"
  from first_mem_block [OF assms, of os NONE 0] obtain m s1 where
    m: "next_msg os s = (Inr (Some m, DATA_TRANSFER_REQ, int (k + 24) + 256), s1)" "read_bytes m 24 k = take k src"
      "load32 m 8 = htonl (word_of_nat (length src))"
      and s1: "mem_inv src s1" "nb_payload_bytes_sent (req s1) = int k" unfolding k_def by blast
  have k: "0 < k" "take k src = take 8168 src" "drop k src = drop 8168 src"
    using assms(3) by (auto simp: k_def min_def)
  have "mem_going src s1" using s1 k(1) by (simp add: mem_going_def)
  from mem_tr.send_all_delivers [OF this, of os] obtain bs s' where
    bs: "send_all more_to_send (next_msg os) s1 = Some (Inr bs, s')" "\<not> someDataToSend (req s')"
      "concat (map transfer_data bs) = drop 8168 src"
      "blocks_at transfer_data (transfer_good DATA_TRANSFER_REQ 8 (int (length src)) 8192) k bs"
    using s1(2) k(3) by (auto simp: unsent_part_def)
  have "someDataToSend (req s)" using assms by (auto simp: mem_inv_def someDataToSend_def)
  then have "send_all more_to_send (next_msg os) s
      = Some (Inr ((Some m, DATA_TRANSFER_REQ, int k + 280) # bs), s')"
    using m(1) bs(1) by (simp add: send_all.simps [of _ _ s])
  moreover have "read_bytes m 24 (k + 256) = take 8168 src @ read_bytes m (24 + k) 256"
    using m(2) k(2) by (simp add: read_bytes_add)
  moreover have "nat (int k + 280 - 24) = k + 256" by simp
  ultimately show ?thesis
    using bs m(3) unfolding k_def [symmetric]
    by (intro exI [of _ m] exI [of _ bs] exI [of _ s'] exI [of _ "read_bytes m (24 + k) 256"]) simp
qed

definition sample_request :: "int \<Rightarrow> request_kind \<Rightarrow> nat req_ctx" where
  "sample_request n k = \<lparr>kern = 0, errno = 0,
     req = \<lparr>l2_payload_length = n, nb_payload_bytes_sent = 0, kind = k\<rparr>\<rparr>"

lemma msg_transfer_delivers_witness:
  "\<exists>b bs s' junk. send_all more_to_send (next_msg failing_os)
       (sample_request 10000 (MsgTransfer 0 0 (\<lambda>_. 0) (replicate 10000 7))) = Some (Inr (b # bs), s')
     \<and> transfer_data b = replicate 8168 7 @ junk \<and> length junk = 256
     \<and> concat (map transfer_data bs) = replicate 1832 7"
proof -
  have "mem_inv (replicate 10000 7) (sample_request 10000 (MsgTransfer 0 0 (\<lambda>_. 0) (replicate 10000 7)))"
    and "nb_payload_bytes_sent (req (sample_request 10000 (MsgTransfer 0 0 (\<lambda>_. 0) (replicate 10000 7)))) = 0"
    and "replicate 10000 (7 :: byte) \<noteq> []"
    by (simp_all add: mem_inv_def sample_request_def)
  from msg_transfer_delivers [OF this, of failing_os] show ?thesis
    by (auto simp del: transfer_data.simps)
qed

text \<open>
  C31. The transfer of a file: with a file that reads as its content \<open>c\<close>, in pieces of whatever size
  \<^verbatim>\<open>read\<close> returns, the calls end, no assertion fails, the payloads put end to end are the file, and
  every block fits in a level 1 body.
\<close>

theorem file_transfer_delivers:
  assumes "file_inv os fh c s" and "nb_payload_bytes_sent (req s) = 0"
  shows "\<exists>bs s'. send_all more_to_send (next_msg os) s = Some (Inr bs, s')
    \<and> \<not> someDataToSend (req s') \<and> concat (map transfer_data bs) = c
    \<and> blocks_at transfer_data (transfer_good FILE_TRANSFER_REQ 0 (int (length c)) 8192) 0 bs"
  using file_tr.send_all_delivers [OF assms(1)] assms(2) by (auto simp: unsent_part_def)

definition slow_reader :: "byte list \<Rightarrow> nat os" where
  "slow_reader c = failing_os\<lparr>os_read := \<lambda>fh n pos.
     (Inr (take (if n = 0 then 0 else 1) (drop pos c)), if n = 0 \<or> length c \<le> pos then pos else Suc pos)\<rparr>"

lemma slow_reader_file: "pos \<le> length c \<Longrightarrow> file_at (slow_reader c) fh c pos pos"
proof (coinduction arbitrary: pos)
  case file_at
  have "\<exists>m k'. os_read (slow_reader c) fh n pos = (Inr (take m (drop pos c)), k') \<and> m \<le> n
      \<and> pos + m \<le> length c \<and> (pos < length c \<longrightarrow> 0 < m)
      \<and> ((\<exists>p. pos + m = p \<and> k' = p \<and> p \<le> length c) \<or> file_at (slow_reader c) fh c (pos + m) k')"
    if "0 < n" for n
    using that file_at
    by (cases "pos < length c") (auto simp: slow_reader_def intro: exI [of _ 0] exI [of _ 1])
  then show ?case by auto
qed

lemma file_transfer_delivers_witness:
  "\<exists>bs s'. send_all more_to_send (next_msg (slow_reader [5, 6, 7, 8]))
       (sample_request 4 (FileTransfer 0 0 (\<lambda>_. 0) 3 (bytes_of ''f''))) = Some (Inr bs, s')
     \<and> concat (map transfer_data bs) = [5, 6, 7, 8]"
proof -
  have "file_inv (slow_reader [5, 6, 7, 8]) 3 [5, 6, 7, 8]
      (sample_request 4 (FileTransfer 0 0 (\<lambda>_. 0) 3 (bytes_of ''f'')))"
    and "nb_payload_bytes_sent (req (sample_request 4 (FileTransfer 0 0 (\<lambda>_. 0) 3 (bytes_of ''f'')))) = 0"
    by (simp_all add: file_inv_def sample_request_def slow_reader_file)
  from file_transfer_delivers [OF this] show ?thesis by blast
qed

text \<open>
  A file as the functions on streams see it: \<open>pos\<close> reads the position in the state of the kernel, \<open>len\<close> is the length.
\<close>

definition seekable :: "'k os \<Rightarrow> int \<Rightarrow> ('k \<Rightarrow> int) \<Rightarrow> int \<Rightarrow> bool" where
  "seekable os file pos len \<longleftrightarrow> (\<forall>k. os_ftell os file k = (pos k, k)
    \<and> (\<forall>off r k'. os_fseek os file off SEEK_END k = (r, k') \<longrightarrow> pos k' = len + off)
    \<and> (\<forall>off r k'. 0 \<le> off \<longrightarrow> os_fseek os file off SEEK_SET k = (r, k') \<longrightarrow> pos k' = off))"

lemma as_int_eq: "as_int x = (x + 2 ^ 31) mod 2 ^ 32 - 2 ^ 31"
  by (simp add: as_int_def int_word_sint)

lemma as_int_small: "- (2 ^ 31) \<le> x \<Longrightarrow> x < 2 ^ 31 \<Longrightarrow> as_int x = x"
  by (simp add: as_int_eq)

lemma as_int_large: "2 ^ 31 \<le> x \<Longrightarrow> x < 2 ^ 32 \<Longrightarrow> as_int x = x - 2 ^ 32"
  using mod_pos_pos_trivial [of "x - 2 ^ 31" "2 ^ 32"] mod_add_self2 [of "x - 2 ^ 31" "2 ^ 32"]
  by (simp add: as_int_eq algebra_simps)

text \<open>
  \<^verbatim>\<open>file_size\<close> gives the length of a file of less than 2 GiB and leaves the position where it was; a larger file, up to
  4 GiB, has a negative size, so that a transfer of it ends before it has begun.
\<close>

theorem file_size_measures:
  assumes "seekable os file pos len" and "0 \<le> len" and "len < 2 ^ 32" and "0 \<le> pos (kern s)" and "pos (kern s) < 2 ^ 31"
  shows "\<exists>sz t. file_size os file s = (Inr sz, t) \<and> pos (kern t) = pos (kern s)
    \<and> (if len < 2 ^ 31 then sz = len else sz < 0
       \<and> \<not> someDataToSend \<lparr>l2_payload_length = sz, nb_payload_bytes_sent = 0, kind = kd\<rparr>)"
proof -
  obtain r k where k: "os_fseek os file 0 SEEK_END (kern s) = (r, k)" by fastforce
  have s: "as_int (pos (kern s)) = pos (kern s)" using assms(4,5) by (simp add: as_int_small)
  obtain r' k' where k': "os_fseek os file (pos (kern s)) SEEK_SET k = (r', k')" by fastforce
  have "pos k = len" "pos k' = pos (kern s)" using assms(1,4) k k' by (force simp: seekable_def)+
  moreover have "os_ftell os file (kern s) = (pos (kern s), kern s)" "os_ftell os file k = (pos k, k)"
    using assms(1) by (simp_all add: seekable_def)
  ultimately have "file_size os file s = (Inr (as_int len), s\<lparr>kern := k'\<rparr>)"
    using k k' by (simp add: file_size_def s)
  moreover have "if len < 2 ^ 31 then as_int len = len else as_int len < 0"
    using assms(2,3) as_int_small [of len] as_int_large [of len] by simp
  ultimately show ?thesis using \<open>pos k' = pos (kern s)\<close> by (auto simp: someDataToSend_def split: if_splits)
qed

lemma file_size_measures_witness:
  "\<exists>sz t. file_size (failing_os\<lparr>os_ftell := \<lambda>_ k. (k, k), os_fseek := \<lambda>_ off w k.
      (0, case w of SEEK_SET \<Rightarrow> off | SEEK_CUR \<Rightarrow> k + off | SEEK_END \<Rightarrow> 3000000000 + off)\<rparr>) 3
      \<lparr>kern = 17, errno = 0\<rparr> = (Inr sz, t) \<and> kern t = 17 \<and> sz < 0"
proof -
  have "seekable (failing_os\<lparr>os_ftell := \<lambda>_ k. (k, k), os_fseek := \<lambda>_ off w k.
      (0, case w of SEEK_SET \<Rightarrow> off | SEEK_CUR \<Rightarrow> k + off | SEEK_END \<Rightarrow> 3000000000 + off)\<rparr>) 3 id 3000000000"
    by (simp add: seekable_def)
  from file_size_measures [OF this, of "\<lparr>kern = 17, errno = 0\<rparr>" "MsgRequest NONE (\<lambda>_. 0)"] show ?thesis by auto
qed

text \<open>
  The first block of a memory transfer announces 256 bytes more than its header and payload
  (the size of the file header is used for it), so a buffer of 8168 bytes or more yields a message
  whose announced body length, 8448, is larger than a level 1 body.
\<close>

theorem msg_transfer_first_length:
  assumes "mem_inv src s" and "nb_payload_bytes_sent (req s) = 0" and "src \<noteq> []"
  shows "\<exists>m s'. buildNextL2Msg os msg_id len s
      = (Inr (Some m, DATA_TRANSFER_REQ, int (min (length src) 8168 + 24) + 256), s')
    \<and> read_bytes m 24 (min (length src) 8168) = take 8168 src"
proof -
  have "take (min (length src) 8168) src = take 8168 src" by (simp add: min_def)
  with first_mem_block [OF assms, of os msg_id len] show ?thesis by auto
qed

lemma msg_transfer_first_length_witness:
  "\<exists>m s'. buildNextL2Msg failing_os NONE 0
       (sample_request 10000 (MsgTransfer 0 0 (\<lambda>_. 0) (replicate 10000 7)))
     = (Inr (Some m, DATA_TRANSFER_REQ, 8448), s')"
proof -
  have "mem_inv (replicate 10000 7) (sample_request 10000 (MsgTransfer 0 0 (\<lambda>_. 0) (replicate 10000 7)))"
    and "nb_payload_bytes_sent (req (sample_request 10000 (MsgTransfer 0 0 (\<lambda>_. 0) (replicate 10000 7)))) = 0"
    and "replicate 10000 (7 :: byte) \<noteq> []"
    by (simp_all add: mem_inv_def sample_request_def)
  from msg_transfer_first_length [OF this, of failing_os NONE 0] show ?thesis by auto
qed

end
