(* ===== verification/MsgSocket.thy ===== *)
theory MsgSocket
  imports Request
begin

text \<open>
  \<^verbatim>\<open>MsgSocket.cpp\<close>, the message layer over a non-blocking TCP socket, with the overrides of
  \<^verbatim>\<open>ClientSocket\<close> and \<^verbatim>\<open>ServerSocket\<close>. The record \<open>MsgSocket\<close> has the members of the class (the
  mutexes and the never used \<^verbatim>\<open>ul_file_transfer_id\<close> apart), \<open>sock_class\<close> stands for the virtual
  table, and an operation is a statement on the object together with the kernel and \<^verbatim>\<open>errno\<close>. The
  two \<^verbatim>\<open>while\<close> loops are \<open>partial_function\<close>s over one iteration: a loop that does not end is \<open>None\<close>.
\<close>

section \<open>State\<close>

datatype sock_class = ClientSocket_class | ServerSocket_class

datatype SockState = SOCK_NULL | SOCK_ERROR | SOCK_DISCONNECTED | SOCK_CONNECTING | SOCK_CONNECTED

datatype TxState = TX_INIT | TX_READY | TX_BUSY

datatype RxState = RX_INIT | RX_IDLE | RX_DATA

datatype ErrorType = IGNORE | ERR_DISCONNECTED | CONNECTION_TROUBLES | FATAL

record MsgSocket =
  sock_class :: sock_class
  sock_state :: SockState
  peer_ip_addr :: sockaddr_in
  socket_descr :: int
  from_dir :: TransferDirection
  tx_state :: TxState
  tx_length :: int
  tx_msg_length :: int
  tx_l1_msg_id :: ClientServerL1MessageId
  tx_msg :: "mem option"
  tx_header :: mem
  rx_state :: RxState
  rx_lenght :: int
  rx_msg :: "mem option"
  tx_fifo :: "request list"
  tx_req_ptr :: "request option"
  rx_fifo :: "mem list"

record 'k sock_ctx = "'k sys" +
  sock :: MsgSocket

definition modSock :: "(MsgSocket \<Rightarrow> MsgSocket) \<Rightarrow> ('k sock_ctx, unit) stm" where
  "modSock f = modS (\<lambda>s. s\<lparr>sock := f (sock s)\<rparr>)"

lemma modSock_apply [simp]: "modSock f s = (Inr (), s\<lparr>sock := f (sock s)\<rparr>)"
  by (simp add: modSock_def)

section \<open>Small operations\<close>

text \<open>\<^verbatim>\<open>_setState\<close> is virtual; what the client overrides it with looks at the old state and calls the base.\<close>

definition setState_base :: "SockState \<Rightarrow> MsgSocket \<Rightarrow> MsgSocket" where
  "setState_base new_state x = x\<lparr>sock_state := new_state\<rparr>"

definition setState_client :: "SockState \<Rightarrow> MsgSocket \<Rightarrow> MsgSocket" where
  "setState_client new_state x = (case sock_state x of
      SOCK_CONNECTING \<Rightarrow> setState_base new_state x
    | _ \<Rightarrow> setState_base new_state x)"

definition setState :: "SockState \<Rightarrow> MsgSocket \<Rightarrow> MsgSocket" where
  "setState new_state x = (case sock_class x of
      ClientSocket_class \<Rightarrow> setState_client new_state x
    | ServerSocket_class \<Rightarrow> setState_base new_state x)"

lemma setState_eq: "setState new_state x = x\<lparr>sock_state := new_state\<rparr>"
  by (simp add: setState_def setState_client_def setState_base_def split: sock_class.split SockState.split)

definition txReset :: "MsgSocket \<Rightarrow> MsgSocket" where
  "txReset x = x\<lparr>tx_state := TX_INIT, tx_length := 0, tx_msg_length := 0, tx_msg := None,
     tx_l1_msg_id := NONE\<rparr>"

definition rxReset :: "MsgSocket \<Rightarrow> MsgSocket" where
  "rxReset x = x\<lparr>rx_state := RX_INIT, rx_lenght := 0\<rparr>"

definition discardDataBuffers :: "MsgSocket \<Rightarrow> MsgSocket" where
  "discardDataBuffers x = x\<lparr>rx_fifo := [], tx_fifo := []\<rparr>"

definition new_MsgSocket ::
    "sock_class \<Rightarrow> sockaddr_in \<Rightarrow> int \<Rightarrow> TransferDirection \<Rightarrow> mem \<Rightarrow> MsgSocket" where
  "new_MsgSocket cls addr fd dir object_memory = rxReset (
     \<lparr>sock_class = cls, sock_state = SOCK_NULL, peer_ip_addr = addr, socket_descr = fd, from_dir = dir,
      tx_state = TX_INIT, tx_length = 0, tx_msg_length = 0, tx_l1_msg_id = NONE, tx_msg = None,
      tx_header = object_memory, rx_state = RX_INIT, rx_lenght = 0, rx_msg = None,
      tx_fifo = [], tx_req_ptr = None, rx_fifo = []\<rparr>)"

definition stop :: "'k os \<Rightarrow> ('k sock_ctx, unit) stm" where
  "stop os =
    andThen (modSock (\<lambda>x. setState SOCK_NULL (rxReset (txReset (discardDataBuffers x))))) (\<lambda>_ s.
    andThen (syscall (os_close os (socket_descr (sock s)))) (\<lambda>_.
    modSock (\<lambda>x. x\<lparr>socket_descr := -1\<rparr>)) s)"

definition socketConfiguration :: "'k os \<Rightarrow> ('k sock_ctx, unit) stm" where
  "socketConfiguration os s =
    andThen (syscall (os_nonblock os (socket_descr (sock s)))) (\<lambda>r. case r of
        Inl e \<Rightarrow> failS (ThrownString ''MsgSocket socket's fcntl() error'')
      | Inr _ \<Rightarrow> retS ()) s"

text \<open>The configuration for signals, which nothing calls: the handler, the mask, the owner and the flags.\<close>

definition socket_configuration_SIGIO :: "'k os \<Rightarrow> ('k sock_ctx, unit) stm" where
  "socket_configuration_SIGIO os =
    andThen (or_throw (os_sigfillset os) ''client socket's sigfillset() error'') (\<lambda>_.
    andThen (or_throw (os_sigaction os) ''client socket's sigaction() error'') (\<lambda>_ s.
    andThen (or_throw (os_setown os (socket_descr (sock s))) ''client socket's ownership error'') (\<lambda>_ s.
    or_throw (os_async os (socket_descr (sock s))) ''client socket's fcntl() error'' s) s))"

section \<open>Error classification\<close>

definition getRxErrorType_base :: "int \<Rightarrow> ErrorType result" where
  "getRxErrorType_base err =
    (if err = EWOULDBLOCK then Inr IGNORE
     else if err \<in> {ECONNRESET, ENOTCONN, ETIMEDOUT} then Inr ERR_DISCONNECTED
     else if err \<in> {EIO, ENOBUFS, ENOMEM} then Inl (ThrownString ''Unexpected socket error (system?) '')
     else Inl (ThrownString ''Unexpected socket error (Bug?) ''))"

text \<open>The client ignores \<^verbatim>\<open>EINTR\<close> while its connection is being established; the server has the default treatment.\<close>

definition getRxErrorType_client :: "MsgSocket \<Rightarrow> int \<Rightarrow> ErrorType result" where
  "getRxErrorType_client x err =
    (if err = EINTR then
       (if sock_state x = SOCK_CONNECTING then Inr IGNORE else getRxErrorType_base err)
     else getRxErrorType_base err)"

definition getRxErrorType_server :: "MsgSocket \<Rightarrow> int \<Rightarrow> ErrorType result" where
  "getRxErrorType_server x err = getRxErrorType_base err"

definition getRxErrorType :: "MsgSocket \<Rightarrow> int \<Rightarrow> ErrorType result" where
  "getRxErrorType x err = (case sock_class x of
      ClientSocket_class \<Rightarrow> getRxErrorType_client x err
    | ServerSocket_class \<Rightarrow> getRxErrorType_server x err)"

lemmas getRxErrorType_defs = getRxErrorType_def getRxErrorType_client_def getRxErrorType_server_def getRxErrorType_base_def

definition getTxErrorType :: "int \<Rightarrow> ErrorType" where
  "getTxErrorType err =
    (if err = EWOULDBLOCK \<or> err = EMSGSIZE then IGNORE
     else if err \<in> {ECONNRESET, ENOTCONN, ETIMEDOUT, EDESTADDRREQ, EPIPE, ENETDOWN, ENETUNREACH}
       then ERR_DISCONNECTED
     else FATAL)"

text \<open>The override of the client is the default treatment; the server has none.\<close>

definition getTxErrorType_client :: "int \<Rightarrow> ErrorType" where
  "getTxErrorType_client err = getTxErrorType err"

definition getTxErrorType_of :: "MsgSocket \<Rightarrow> int \<Rightarrow> ErrorType" where
  "getTxErrorType_of x err = (case sock_class x of
      ClientSocket_class \<Rightarrow> getTxErrorType_client err
    | ServerSocket_class \<Rightarrow> getTxErrorType err)"

lemma getTxErrorType_of [simp]: "getTxErrorType_of x err = getTxErrorType err"
  by (simp add: getTxErrorType_of_def getTxErrorType_client_def split: sock_class.split)

definition determineErrorType :: "'k os \<Rightarrow> ('k sock_ctx, ErrorType) stm" where
  "determineErrorType os s =
    (if sock_state (sock s) = SOCK_DISCONNECTED then (Inr ERR_DISCONNECTED, s)
     else andThen (syscall (os_recvmsg_peek os (socket_descr (sock s)))) (\<lambda>r s'. case r of
         Inl e \<Rightarrow> (getRxErrorType (sock s') e, s')
       | Inr n \<Rightarrow> (Inr IGNORE, s')) s)"

section \<open>Sending\<close>

definition socketSend :: "'k os \<Rightarrow> byte list \<Rightarrow> ('k sock_ctx, int) stm" where
  "socketSend os buffer s =
    andThen (syscall (os_send os (socket_descr (sock s)) buffer)) (\<lambda>r. case r of
        Inr n \<Rightarrow> retS (int n)
      | Inl e \<Rightarrow>
          (if e = EWOULDBLOCK then andThen (modSock (\<lambda>x. x\<lparr>tx_state := TX_BUSY\<rparr>)) (\<lambda>_. retS (- e))
           else if getTxErrorType_of (sock s) e = ERR_DISCONNECTED then failS (SocketDisconnection e)
           else retS (- e))) s"

definition txPopNextRequest :: "MsgSocket \<Rightarrow> MsgSocket" where
  "txPopNextRequest x = (case tx_fifo x of
      [] \<Rightarrow> x\<lparr>tx_req_ptr := None\<rparr>
    | r # rs \<Rightarrow> x\<lparr>tx_req_ptr := Some r, tx_fifo := rs\<rparr>)"

text \<open>
  The virtual call on the current request, which lives in \<open>tx_req_ptr\<close>; the by-reference arguments are
  written back when the call returns. Then the level 1 header is filled in.
\<close>

definition fill_header :: "ClientServerL1MessageId \<Rightarrow> int \<Rightarrow> TransferDirection \<Rightarrow> mem \<Rightarrow> mem" where
  "fill_header i len dir h =
     (store32 (store16 h 4 (htons (id_val i))) 0 (htonl (word_of_int len)))(6 := direction_val dir)"

definition sendLoop_build :: "'k os \<Rightarrow> request \<Rightarrow> ('k sock_ctx, unit) stm" where
  "sendLoop_build os r s =
    (case buildNextL2Msg os (tx_l1_msg_id (sock s)) 0 \<lparr>kern = kern s, errno = errno s, req = r\<rparr> of
       (Inl e, c) \<Rightarrow> (Inl e, s\<lparr>kern := kern c, errno := errno c,
          sock := (sock s)\<lparr>tx_req_ptr := Some (req c)\<rparr>\<rparr>)
     | (Inr (m, i, len), c) \<Rightarrow> (Inr (), s\<lparr>kern := kern c, errno := errno c,
          sock := (sock s)\<lparr>tx_req_ptr := Some (req c), tx_msg := m, tx_l1_msg_id := i,
            tx_msg_length := len + int sizeof_ClientServerL1MsgHeader,
            tx_header := fill_header i (len + int sizeof_ClientServerL1MsgHeader) (from_dir (sock s))
              (tx_header (sock s))\<rparr>\<rparr>))"

text \<open>The header is sent while \<open>tx_length\<close> is 0; \<open>False\<close> is the \<^verbatim>\<open>break\<close>.\<close>

definition sendLoop_header :: "'k os \<Rightarrow> ('k sock_ctx, bool) stm" where
  "sendLoop_header os s =
    (if tx_length (sock s) = 0 then
       andThen (socketSend os (read_bytes (tx_header (sock s)) 0 sizeof_ClientServerL1MsgHeader)) (\<lambda>nb_sent.
         if nb_sent < 0 then retS False
         else andThen (modSock (\<lambda>x. x\<lparr>tx_length := tx_length x + nb_sent\<rparr>)) (\<lambda>_. retS True)) s
     else (Inr True, s))"

text \<open>
  The rest of the message: always from the start of the body. The test for a full socket compares
  with \<^verbatim>\<open>EWOULDBLOCK\<close>, while \<^verbatim>\<open>_socketSend\<close> returns \<^verbatim>\<open>-EWOULDBLOCK\<close>. Reading past the 8192 bytes
  of the body is undefined.
\<close>

definition sendLoop_rest :: "'k os \<Rightarrow> ('k sock_ctx, bool) stm" where
  "sendLoop_rest os s =
    (let n = tx_msg_length (sock s) - tx_length (sock s) in
     if tx_length (sock s) < tx_msg_length (sock s) then
       (case tx_msg (sock s) of
          None \<Rightarrow> (Inl Undefined, s)
        | Some m \<Rightarrow>
            if n \<le> int CLIENTSERVER_MAX_L1_MSG_BODY_SIZE then
              andThen (socketSend os (read_bytes m 0 (nat n))) (\<lambda>nb_sent.
                if nb_sent = EWOULDBLOCK
                then andThen (modSock (\<lambda>x. x\<lparr>tx_state := TX_BUSY\<rparr>)) (\<lambda>_. retS False)
                else andThen (modSock (\<lambda>x. x\<lparr>tx_length := tx_length x + nb_sent\<rparr>)) (\<lambda>_. retS True)) s
            else (Inl Undefined, s))
     else (Inr True, s))"

definition sendLoop_completed :: "MsgSocket \<Rightarrow> MsgSocket" where
  "sendLoop_completed x = (if tx_length x = tx_msg_length x then txReset x else x)"

definition sendLoop_step :: "'k os \<Rightarrow> request \<Rightarrow> ('k sock_ctx, bool) stm" where
  "sendLoop_step os r =
    (if someDataToSend r then
       andThen (\<lambda>s. if tx_msg (sock s) = None then sendLoop_build os r s else (Inr (), s)) (\<lambda>_.
       andThen (sendLoop_header os) (\<lambda>go. if \<not> go then retS False else
       andThen (sendLoop_rest os) (\<lambda>go. if \<not> go then retS False else
       andThen (modSock sendLoop_completed) (\<lambda>_. retS True))))
     else
       andThen (assertS (\<lambda>s. tx_length (sock s) = 0)) (\<lambda>_.
       andThen (assertS (\<lambda>s. tx_msg_length (sock s) = 0)) (\<lambda>_.
       andThen (modSock (\<lambda>x. (txPopNextRequest x)\<lparr>tx_l1_msg_id := NONE\<rparr>)) (\<lambda>_. retS True))))"

partial_function (option) sendLoop_while :: "'k os \<Rightarrow> 'k sock_ctx \<Rightarrow> (unit result \<times> 'k sock_ctx) option" where
  "sendLoop_while os s =
    (if tx_state (sock s) = TX_READY \<and> tx_req_ptr (sock s) \<noteq> None then
       (case sendLoop_step os (the (tx_req_ptr (sock s))) s of
          (Inl e, s') \<Rightarrow> Some (Inl e, s')
        | (Inr go, s') \<Rightarrow> if go then sendLoop_while os s' else Some (Inr (), s'))
     else Some (Inr (), s))"

definition sendLoop :: "'k os \<Rightarrow> 'k sock_ctx \<Rightarrow> (unit result \<times> 'k sock_ctx) option" where
  "sendLoop os s = sendLoop_while os
    (if tx_req_ptr (sock s) = None then s\<lparr>sock := txPopNextRequest (sock s)\<rparr> else s)"

definition disconnection_cleanup :: "MsgSocket \<Rightarrow> MsgSocket" where
  "disconnection_cleanup x = discardDataBuffers (rxReset (txReset x))"

definition sendNextData :: "'k os \<Rightarrow> 'k sock_ctx \<Rightarrow> (int result \<times> 'k sock_ctx) option" where
  "sendNextData os s =
    (case sendLoop os (s\<lparr>sock := (sock s)\<lparr>tx_state := TX_READY\<rparr>\<rparr>) of
       None \<Rightarrow> None
     | Some (Inl (SocketDisconnection e), s') \<Rightarrow>
         Some (Inl (SocketDisconnection e), s'\<lparr>sock := disconnection_cleanup (sock s')\<rparr>)
     | Some (Inl e, s') \<Rightarrow> Some (Inl e, s')
     | Some (Inr _, s') \<Rightarrow> Some (Inr (if tx_req_ptr (sock s') = None then 0 else 1), s'))"

definition sendMsg :: "request \<Rightarrow> MsgSocket \<Rightarrow> MsgSocket" where
  "sendMsg r x = x\<lparr>tx_fifo := tx_fifo x @ [r]\<rparr>"

section \<open>Receiving\<close>

text \<open>The value is the \<^verbatim>\<open>ssize_t\<close> returned and the bytes put in the buffer.\<close>

definition socketReceive :: "'k os \<Rightarrow> nat \<Rightarrow> bool \<Rightarrow> ('k sock_ctx, int \<times> byte list) stm" where
  "socketReceive os n peek s =
    andThen (syscall (os_recv os (socket_descr (sock s)) n peek)) (\<lambda>r s'. case r of
        Inr bs \<Rightarrow> (Inr (int (length bs), bs), s')
      | Inl e \<Rightarrow> (case getRxErrorType (sock s') e of
            Inl ex \<Rightarrow> (Inl ex, s')
          | Inr IGNORE \<Rightarrow> (Inr (- e, []), s')
          | Inr ERR_DISCONNECTED \<Rightarrow> (Inl (SocketDisconnection e), s')
          | Inr _ \<Rightarrow> (Inr (-1, []), s'))) s"

definition recvBeginNewMsg :: "'k os \<Rightarrow> ('k sock_ctx, mem option) stm" where
  "recvBeginNewMsg os =
    andThen (socketReceive os 4 True) (\<lambda>(nb_recv, _).
      if nb_recv = 4 then
        andThen (socketReceive os 4 False) (\<lambda>(nb_recv', bs).
        andThen (assertS (\<lambda>_. nb_recv' = 4)) (\<lambda>_.
        andThen (new_mem os) (\<lambda>m.
        andThen (modSock (\<lambda>x. x\<lparr>rx_lenght := 4\<rparr>)) (\<lambda>_.
        retS (Some (store32 m 0 (ntohl (load32 (write_bytes (\<lambda>_. 0) 0 bs) 0))))))))
      else andThen (modSock (\<lambda>x. x\<lparr>rx_state := RX_IDLE\<rparr>)) (\<lambda>_. retS None))"

text \<open>
  The start of an iteration: begin a new message when none is under reception. The two
  \<^verbatim>\<open>rx_state == RxState::RX_IDLE;\<close> of the loop are comparisons without effect.
\<close>

definition recvLoop_begin :: "'k os \<Rightarrow> ('k sock_ctx, bool) stm" where
  "recvLoop_begin os s =
    (if rx_lenght (sock s) = 0 then
       andThen (modSock (\<lambda>x. x\<lparr>rx_msg := None\<rparr>)) (\<lambda>_.
       andThen (recvBeginNewMsg os) (\<lambda>m.
       andThen (modSock (\<lambda>x. x\<lparr>rx_msg := m\<rparr>)) (\<lambda>_. retS (m \<noteq> None)))) s
     else (Inr True, s))"

definition msg_to_host :: "mem \<Rightarrow> mem" where
  "msg_to_host m = store16 m 4 (ntohs (load16 m 4))"

text \<open>
  The rest of an iteration on the message \<open>m\<close> under reception. The announced length is used
  unchecked: more bytes than the 8200 of the buffer are written past its end, and the counter goes on past
  it with them (what the write leaves in the object is not said); the subtraction of two \<^verbatim>\<open>int\<close>s may overflow.
\<close>

definition recvLoop_rest :: "'k os \<Rightarrow> mem \<Rightarrow> ('k sock_ctx, bool) stm" where
  "recvLoop_rest os m s =
    (let nb = l1_lenght m - rx_lenght (sock s) in
     if nb < - (2 ^ 31) then (Inl Undefined, s)
     else if nb > 0 then
       andThen (socketReceive os (nat nb) False) (\<lambda>(nb, bs) s'.
         if nb > 0 then
           (if rx_lenght (sock s') + nb \<le> int sizeof_ClientServerL1Msg
            then (Inr True, s'\<lparr>sock := (sock s')
                    \<lparr>rx_msg := Some (write_bytes m (nat (rx_lenght (sock s'))) bs),
                     rx_lenght := rx_lenght (sock s') + nb\<rparr>\<rparr>)
            else (Inl Undefined, s'\<lparr>sock := (sock s')\<lparr>rx_lenght := rx_lenght (sock s') + nb\<rparr>\<rparr>))
         else andThen (assertS (\<lambda>s. errno s = EWOULDBLOCK)) (\<lambda>_. retS False) s') s
     else
       andThen (assertS (\<lambda>_. nb = 0)) (\<lambda>_.
       andThen (modSock (\<lambda>x. x\<lparr>rx_fifo := rx_fifo x @ [msg_to_host m], rx_msg := None, rx_lenght := 0\<rparr>))
         (\<lambda>_. retS True)) s)"

definition recvLoop_step :: "'k os \<Rightarrow> ('k sock_ctx, bool) stm" where
  "recvLoop_step os =
    andThen (recvLoop_begin os) (\<lambda>go s. if \<not> go then (Inr False, s)
      else (case rx_msg (sock s) of
          None \<Rightarrow> (Inl Undefined, s)
        | Some m \<Rightarrow> recvLoop_rest os m s))"

partial_function (option) recvLoop :: "'k os \<Rightarrow> 'k sock_ctx \<Rightarrow> (unit result \<times> 'k sock_ctx) option" where
  "recvLoop os s =
    (if rx_state (sock s) = RX_DATA then
       (case recvLoop_step os s of
          (Inl e, s') \<Rightarrow> Some (Inl e, s')
        | (Inr go, s') \<Rightarrow> if go then recvLoop os s' else Some (Inr (), s'))
     else Some (Inr (), s))"

definition recvNextData :: "'k os \<Rightarrow> 'k sock_ctx \<Rightarrow> (bool result \<times> 'k sock_ctx) option" where
  "recvNextData os s =
    (case recvLoop os (s\<lparr>sock := (sock s)\<lparr>rx_state := RX_DATA\<rparr>\<rparr>) of
       None \<Rightarrow> None
     | Some (Inl (SocketDisconnection e), s') \<Rightarrow>
         Some (Inl (SocketDisconnection e), s'\<lparr>sock := disconnection_cleanup (sock s')\<rparr>)
     | Some (Inl e, s') \<Rightarrow> Some (Inl e, s')
     | Some (Inr _, s') \<Rightarrow> Some (Inr (rx_fifo (sock s') \<noteq> []), s'))"

definition getNextReceivedMsg :: "MsgSocket \<Rightarrow> mem option \<times> MsgSocket" where
  "getNextReceivedMsg x = (case rx_fifo x of
      [] \<Rightarrow> (None, x)
    | m # ms \<Rightarrow> (Some m, x\<lparr>rx_fifo := ms\<rparr>))"

section \<open>The signal handler kept from the first implementation\<close>

datatype si_code = POLL_IN | POLL_OUT | POLL_MSG | POLL_ERR | POLL_PRI | POLL_HUP | SI_OTHER

fun SignalSIGIOHandler :: "si_code \<Rightarrow> MsgSocket \<Rightarrow> MsgSocket" where
  "SignalSIGIOHandler POLL_IN x = x\<lparr>rx_state := RX_DATA, sock_state := SOCK_CONNECTED\<rparr>"
| "SignalSIGIOHandler POLL_OUT x = x\<lparr>tx_state := TX_READY, sock_state := SOCK_CONNECTED\<rparr>"
| "SignalSIGIOHandler POLL_ERR x =
    x\<lparr>tx_state := TX_INIT, rx_state := RX_INIT, sock_state := SOCK_ERROR\<rparr>"
| "SignalSIGIOHandler POLL_HUP x =
    x\<lparr>tx_state := TX_INIT, rx_state := RX_INIT, sock_state := SOCK_DISCONNECTED\<rparr>"
| "SignalSIGIOHandler _ x = x"

text \<open>The handler that \<open>socket_configuration_SIGIO\<close> installs; \<open>11\<close> is an error number among the signals.\<close>

abbreviation (input) "SIGPIPE \<equiv> 13 :: int"
abbreviation (input) "SIGIO \<equiv> 29 :: int"

definition SocketSignalsStaticHandler :: "int \<Rightarrow> si_code \<Rightarrow> MsgSocket \<Rightarrow> MsgSocket" where
  "SocketSignalsStaticHandler signalType info x =
    (if signalType = SIGIO then x
     else if signalType = SIGPIPE then x
     else if signalType = EWOULDBLOCK then x
     else x)"

section \<open>Sending: what reaches the kernel\<close>

text \<open>The level 1 header on the wire: big-endian length and identity, the direction, a byte never set.\<close>

definition wire16 :: "16 word \<Rightarrow> byte list" where
  "wire16 w = [ucast (drop_bit 8 w), ucast w]"

definition header_bytes :: "ClientServerL1MessageId \<Rightarrow> int \<Rightarrow> TransferDirection \<Rightarrow> byte \<Rightarrow> byte list" where
  "header_bytes i len dir pad = wire32 (word_of_int len) @ wire16 (id_val i) @ [direction_val dir, pad]"

lemma read_fill_header: "read_bytes (fill_header i len dir h) 0 8 = header_bytes i len dir (h 7)"
proof -
  have u: "[0..<8] = [0, 1, 2, 3, 4, 5, 6, 7 :: nat]" "[0..<4] = [0, 1, 2, 3 :: nat]"
    by (simp_all add: upt_rec)
  show ?thesis
    by (simp add: read_bytes_def fill_header_def header_bytes_def wire32_def wire16_def u
        store32_def store16_def htons_def)
qed

lemma nat_cast32: "n < 8192 \<Longrightarrow> sint (word_of_nat n :: 32 word) = int n"
  using int_cast32 [of "int n"] by simp

text \<open>\<open>sent_all os fd k cs k'\<close>: the kernel accepts the chunks \<open>cs\<close>, each completely, in this order.\<close>

inductive sent_all :: "'k os \<Rightarrow> int \<Rightarrow> 'k \<Rightarrow> byte list list \<Rightarrow> 'k \<Rightarrow> bool" for os fd where
  Done: "sent_all os fd k [] k"
| Chunk: "os_send os fd c k = (Inr (length c), k1) \<Longrightarrow> sent_all os fd k1 cs k2 \<Longrightarrow> sent_all os fd k (c # cs) k2"

inductive_simps sent_all_simps [simp]: "sent_all os fd k [] k'" "sent_all os fd k (c # cs) k'"

lemma sent_all_append:
  "sent_all os fd k (as @ bs) k' \<longleftrightarrow> (\<exists>k1. sent_all os fd k as k1 \<and> sent_all os fd k1 bs k')"
  by (induction as arbitrary: k) auto

text \<open>A request for the single message \<open>(i, m, n)\<close>, before and after it has been built.\<close>

definition msg_request :: "ClientServerL1MessageId \<times> mem \<times> nat \<Rightarrow> request" where
  "msg_request = (\<lambda>(i, m, n). \<lparr>l2_payload_length = int n, nb_payload_bytes_sent = 0, kind = MsgRequest i m\<rparr>)"

definition served_request :: "ClientServerL1MessageId \<times> mem \<times> nat \<Rightarrow> request" where
  "served_request = (\<lambda>(i, m, n). \<lparr>l2_payload_length = int n, nb_payload_bytes_sent = int n, kind = MsgRequest i m\<rparr>)"

definition msg_ok :: "ClientServerL1MessageId \<times> mem \<times> nat \<Rightarrow> bool" where
  "msg_ok = (\<lambda>(i, m, n). 0 < n \<and> n < 8192)"

definition msg_chunks :: "TransferDirection \<Rightarrow> byte \<Rightarrow> ClientServerL1MessageId \<times> mem \<times> nat \<Rightarrow> byte list list" where
  "msg_chunks dir pad = (\<lambda>(i, m, n). [header_bytes i (int n + 8) dir pad, read_bytes m 0 n])"

lemma new_MsgRequest_eq:
  "new_MsgRequest m (int n) i = (if n < 8192 then Inr (msg_request (i, m, n)) else Inl AssertFailed)"
  by (simp add: new_MsgRequest_def msg_request_def check_assert_def)

definition tx_clear :: "MsgSocket \<Rightarrow> bool" where
  "tx_clear x \<longleftrightarrow> tx_length x = 0 \<and> tx_msg_length x = 0 \<and> tx_msg x = None"

text \<open>One iteration on a fresh request, up to the header.\<close>

definition built :: "ClientServerL1MessageId \<times> mem \<times> nat \<Rightarrow> MsgSocket \<Rightarrow> MsgSocket" where
  "built p x = (case p of (i, m, n) \<Rightarrow>
     x\<lparr>tx_req_ptr := Some (served_request p), tx_msg := Some m, tx_l1_msg_id := i,
       tx_msg_length := int n + 8, tx_header := fill_header i (int n + 8) (from_dir x) (tx_header x)\<rparr>)"

lemma sendLoop_build_msg:
  assumes "msg_ok p"
  shows "sendLoop_build os (msg_request p) s = (Inr (), s\<lparr>sock := built p (sock s)\<rparr>)"
  using assms
  by (cases p) (simp add: sendLoop_build_def buildNextL2Msg_def build_MsgRequest_def msg_request_def
      someDataToSend_def msg_ok_def nat_cast32 built_def served_request_def)

lemma someDataToSend_request [simp]:
  "msg_ok p \<Longrightarrow> someDataToSend (msg_request p)" "\<not> someDataToSend (served_request p)"
  by (cases p; simp add: someDataToSend_def msg_request_def served_request_def msg_ok_def)+

lemma socketSend_Inr [simp]:
  "os_send os (socket_descr (sock s)) bs (kern s) = (Inr n, k) \<Longrightarrow>
   socketSend os bs s = (Inr (int n), s\<lparr>kern := k\<rparr>)"
  by (simp add: socketSend_def)

lemma socketSend_wouldblock [simp]:
  "os_send os (socket_descr (sock s)) bs (kern s) = (Inl EWOULDBLOCK, k) \<Longrightarrow>
   socketSend os bs s = (Inr (- EWOULDBLOCK),
     s\<lparr>kern := k, errno := EWOULDBLOCK, sock := (sock s)\<lparr>tx_state := TX_BUSY\<rparr>\<rparr>)"
  by (simp add: socketSend_def)

lemma socketSend_disconnected:
  "os_send os (socket_descr (sock s)) bs (kern s) = (Inl e, k) \<Longrightarrow> getTxErrorType e = ERR_DISCONNECTED \<Longrightarrow>
   socketSend os bs s = (Inl (SocketDisconnection e), s\<lparr>kern := k, errno := e\<rparr>)"
  by (auto simp: socketSend_def getTxErrorType_def split: if_splits)

lemma sendLoop_step_fresh:
  assumes p: "msg_ok p" "p = (i, m, n)" and "n \<noteq> 11" and clear: "tx_clear (sock s)"
    and send: "sent_all os (socket_descr (sock s)) (kern s) (msg_chunks (from_dir (sock s)) (tx_header (sock s) 7) p) k"
  shows "sendLoop_step os (msg_request p) s
    = (Inr True, s\<lparr>kern := k, sock := txReset (built p (sock s))\<rparr>)"
proof -
  let ?h = "header_bytes i (int n + 8) (from_dir (sock s)) (tx_header (sock s) 7)"
  obtain k1 where h: "os_send os (socket_descr (sock s)) ?h (kern s) = (Inr (length ?h), k1)"
    and b: "os_send os (socket_descr (sock s)) (read_bytes m 0 n) k1 = (Inr n, k)"
    using send p(2) by (auto simp: msg_chunks_def)
  have len: "length ?h = 8" by (simp add: header_bytes_def wire16_def wire32_def)
  have n: "0 < n" "n < 8192" using p by (simp_all add: msg_ok_def)
  let ?s1 = "s\<lparr>sock := built p (sock s)\<rparr>"
  let ?s2 = "s\<lparr>kern := k1, sock := (built p (sock s))\<lparr>tx_length := 8\<rparr>\<rparr>"
  let ?s3 = "s\<lparr>kern := k, sock := (built p (sock s))\<lparr>tx_length := int n + 8\<rparr>\<rparr>"
  have hd: "sendLoop_header os ?s1 = (Inr True, ?s2)"
    using h len clear p(2) by (simp add: sendLoop_header_def built_def read_fill_header tx_clear_def)
  have rest: "sendLoop_rest os ?s2 = (Inr True, ?s3)"
    using b n assms(3) p(2) by (simp add: sendLoop_rest_def built_def Let_def)
  show ?thesis
    using p(1) clear
    by (simp add: sendLoop_step_def sendLoop_build_msg tx_clear_def hd rest)
      (simp add: sendLoop_completed_def built_def txReset_def p(2))
qed

lemma sendLoop_step_served:
  assumes "\<not> someDataToSend r" and "tx_clear (sock s)"
  shows "sendLoop_step os r s = (Inr True, s\<lparr>sock := (txPopNextRequest (sock s))\<lparr>tx_l1_msg_id := NONE\<rparr>\<rparr>)"
  using assms by (simp add: sendLoop_step_def tx_clear_def)


section \<open>Sending: a call of \<^verbatim>\<open>sendNextData\<close>\<close>

text \<open>The state between two calls: nothing under emission, single messages waiting.\<close>

definition tx_idle :: "(ClientServerL1MessageId \<times> mem \<times> nat) list \<Rightarrow> MsgSocket \<Rightarrow> bool" where
  "tx_idle ps x \<longleftrightarrow> tx_clear x \<and> tx_fifo x = map msg_request ps
     \<and> (\<forall>p \<in> set ps. msg_ok p) \<and> (case tx_req_ptr x of None \<Rightarrow> True | Some r \<Rightarrow> \<not> someDataToSend r)"

definition same_link :: "MsgSocket \<Rightarrow> MsgSocket \<Rightarrow> bool" where
  "same_link x y \<longleftrightarrow> socket_descr x = socket_descr y \<and> from_dir x = from_dir y
     \<and> tx_header x 7 = tx_header y 7"

lemma same_link_trans: "same_link x y \<Longrightarrow> same_link y z \<Longrightarrow> same_link x z"
  by (simp add: same_link_def)

lemma tx_clear_upd [simp]:
  "tx_clear (x\<lparr>tx_req_ptr := r\<rparr>) = tx_clear x" "tx_clear (x\<lparr>tx_fifo := f\<rparr>) = tx_clear x"
  "tx_clear (x\<lparr>tx_state := t\<rparr>) = tx_clear x" "tx_clear (x\<lparr>tx_l1_msg_id := i\<rparr>) = tx_clear x"
  by (simp_all add: tx_clear_def)

lemma fill_header_7 [simp]: "fill_header i len dir h 7 = h 7"
  by (simp add: fill_header_def store32_def store16_def)

lemma sendLoop_while_empty:
  assumes "tx_req_ptr (sock s) = None" shows "sendLoop_while os s = Some (Inr (), s)"
  using assms by (simp add: sendLoop_while.simps)

lemma sendLoop_while_stop:
  assumes "tx_state (sock s) \<noteq> TX_READY" shows "sendLoop_while os s = Some (Inr (), s)"
  using assms by (simp add: sendLoop_while.simps)

lemma sendLoop_while_fresh:
  assumes "tx_state (sock s) = TX_READY" and "tx_req_ptr (sock s) = Some (msg_request p)"
    and "msg_ok p" and "snd (snd p) \<noteq> 11" and "tx_clear (sock s)"
    and "sent_all os (socket_descr (sock s)) (kern s) (msg_chunks (from_dir (sock s)) (tx_header (sock s) 7) p) k"
  shows "sendLoop_while os s = Some (Inr (), s\<lparr>kern := k, sock := txReset (built p (sock s))\<rparr>)"
proof -
  obtain i m n where p: "p = (i, m, n)" by (cases p)
  have step: "sendLoop_step os (msg_request p) s = (Inr True, s\<lparr>kern := k, sock := txReset (built p (sock s))\<rparr>)"
    using sendLoop_step_fresh [OF assms(3) p] assms(4-6) p by simp
  have "sendLoop_while os (s\<lparr>kern := k, sock := txReset (built p (sock s))\<rparr>)
      = Some (Inr (), s\<lparr>kern := k, sock := txReset (built p (sock s))\<rparr>)"
    by (rule sendLoop_while_stop) (simp add: txReset_def)
  with step assms(1,2) show ?thesis by (simp add: sendLoop_while.simps [of _ s])
qed

lemma sendLoop_idle:
  assumes idle: "tx_idle ps (sock s)" and ready: "tx_state (sock s) = TX_READY"
  shows "sendLoop os s = sendLoop_while os (s\<lparr>sock := (txPopNextRequest (sock s))
     \<lparr>tx_l1_msg_id := (if tx_req_ptr (sock s) = None then tx_l1_msg_id (sock s) else NONE)\<rparr>\<rparr>)"
proof (cases "tx_req_ptr (sock s)")
  case None
  have "(txPopNextRequest (sock s))\<lparr>tx_l1_msg_id := tx_l1_msg_id (sock s)\<rparr> = txPopNextRequest (sock s)"
    by (simp add: txPopNextRequest_def split: list.splits)
  with None show ?thesis by (simp add: sendLoop_def)
next
  case (Some r)
  then have "\<not> someDataToSend r" "tx_clear (sock s)" using idle by (simp_all add: tx_idle_def)
  from sendLoop_step_served [OF this, of os] Some ready show ?thesis
    by (simp add: sendLoop_def sendLoop_while.simps [of _ s])
qed

lemma sendNextData_idle_empty:
  assumes "tx_idle [] (sock s)"
  shows "\<exists>s'. sendNextData os s = Some (Inr 0, s') \<and> tx_idle [] (sock s') \<and> same_link (sock s) (sock s')
    \<and> kern s' = kern s"
proof -
  let ?s = "s\<lparr>sock := (sock s)\<lparr>tx_state := TX_READY\<rparr>\<rparr>"
  have idle: "tx_idle [] (sock ?s)" using assms by (simp add: tx_idle_def)
  have f: "tx_fifo (sock s) = []" using assms by (simp add: tx_idle_def)
  show ?thesis
    using f assms
    by (simp add: sendNextData_def sendLoop_idle [OF idle] txPopNextRequest_def sendLoop_while_empty
        same_link_def) (simp add: tx_idle_def)
qed

lemma sendNextData_idle_Cons:
  assumes idle: "tx_idle (p # ps) (sock s)" and "snd (snd p) \<noteq> 11"
    and send: "sent_all os (socket_descr (sock s)) (kern s) (msg_chunks (from_dir (sock s)) (tx_header (sock s) 7) p) k"
  shows "\<exists>s'. sendNextData os s = Some (Inr 1, s') \<and> tx_idle ps (sock s') \<and> same_link (sock s) (sock s')
    \<and> kern s' = k"
proof -
  let ?s = "s\<lparr>sock := (sock s)\<lparr>tx_state := TX_READY\<rparr>\<rparr>"
  have idle': "tx_idle (p # ps) (sock ?s)" using idle by (simp add: tx_idle_def)
  let ?t = "?s\<lparr>sock := (txPopNextRequest (sock ?s))
     \<lparr>tx_l1_msg_id := (if tx_req_ptr (sock ?s) = None then tx_l1_msg_id (sock ?s) else NONE)\<rparr>\<rparr>"
  have f: "tx_fifo (sock s) = msg_request p # map msg_request ps" and p: "msg_ok p"
    and c: "tx_clear (sock s)" using idle by (simp_all add: tx_idle_def)
  have pop: "txPopNextRequest (sock ?s)
      = (sock ?s)\<lparr>tx_req_ptr := Some (msg_request p), tx_fifo := map msg_request ps\<rparr>"
    using f by (simp add: txPopNextRequest_def)
  have "sendLoop_while os ?t = Some (Inr (), ?t\<lparr>kern := k, sock := txReset (built p (sock ?t))\<rparr>)"
    by (rule sendLoop_while_fresh) (use pop p c assms(2) send in simp_all)
  then have "sendNextData os s = Some (Inr 1, ?t\<lparr>kern := k, sock := txReset (built p (sock ?t))\<rparr>)"
    using sendLoop_idle [OF idle', of os]
    by (simp add: sendNextData_def) (cases p, simp add: txReset_def built_def)
  moreover have "tx_idle ps (txReset (built p (sock ?t)))"
    using idle unfolding pop
    by (cases p) (simp add: tx_idle_def txReset_def built_def tx_clear_def)
  moreover have "same_link (sock s) (txReset (built p (sock ?t)))"
    unfolding pop by (cases p) (simp add: same_link_def txReset_def built_def)
  ultimately show ?thesis by auto
qed

text \<open>A server or client serves a socket by calling \<^verbatim>\<open>sendNextData\<close> each time it is writable.\<close>

fun serve :: "nat \<Rightarrow> 'k os \<Rightarrow> 'k sock_ctx \<Rightarrow> (int list \<times> 'k sock_ctx) option" where
  "serve 0 os s = Some ([], s)"
| "serve (Suc n) os s = (case sendNextData os s of
      Some (Inr again, s') \<Rightarrow> map_option (apfst ((#) again)) (serve n os s')
    | _ \<Rightarrow> None)"

lemma serve_idle:
  assumes "tx_idle ps (sock s)" and "\<forall>p \<in> set ps. snd (snd p) \<noteq> 11"
    and "sent_all os (socket_descr (sock s)) (kern s)
           (concat (map (msg_chunks (from_dir (sock s)) (tx_header (sock s) 7)) ps)) k"
  shows "\<exists>s'. serve (length ps + 1) os s = Some (replicate (length ps) 1 @ [0], s')
    \<and> tx_idle [] (sock s') \<and> same_link (sock s) (sock s') \<and> kern s' = k"
  using assms
proof (induction ps arbitrary: s)
  case Nil
  then show ?case using sendNextData_idle_empty [of s os] by auto
next
  case (Cons p ps)
  from Cons.prems(3) obtain k1 where
    k1: "sent_all os (socket_descr (sock s)) (kern s) (msg_chunks (from_dir (sock s)) (tx_header (sock s) 7) p) k1"
    and k: "sent_all os (socket_descr (sock s)) k1
       (concat (map (msg_chunks (from_dir (sock s)) (tx_header (sock s) 7)) ps)) k"
    by (auto simp: sent_all_append)
  from sendNextData_idle_Cons [OF Cons.prems(1) _ k1] Cons.prems(2) obtain s1 where
    s1: "sendNextData os s = Some (Inr 1, s1)" "tx_idle ps (sock s1)" "same_link (sock s) (sock s1)" "kern s1 = k1"
    by auto
  have "\<exists>s'. serve (length ps + 1) os s1 = Some (replicate (length ps) 1 @ [0], s')
    \<and> tx_idle [] (sock s') \<and> same_link (sock s1) (sock s') \<and> kern s' = k"
    by (rule Cons.IH [OF s1(2)]) (use Cons.prems(2) k s1 in \<open>auto simp: same_link_def\<close>)
  with s1 same_link_trans show ?case by fastforce
qed

section \<open>Sending: when the kernel does not take everything\<close>

text \<open>
  The iteration that follows an incomplete emission of a single message: the request counts as
  sent, so the assertions on the lengths are evaluated.
\<close>

lemma sendLoop_step_stuck:
  assumes "\<not> someDataToSend r" and "tx_length (sock s) \<noteq> 0 \<or> tx_msg_length (sock s) \<noteq> 0"
  shows "sendLoop_step os r s = (Inl AssertFailed, s)"
  using assms by (cases "tx_length (sock s) = 0") (auto simp: sendLoop_step_def)

definition tx_stuck :: "MsgSocket \<Rightarrow> bool" where
  "tx_stuck x \<longleftrightarrow> (\<exists>r. tx_req_ptr x = Some r \<and> \<not> someDataToSend r)
     \<and> (tx_length x \<noteq> 0 \<or> tx_msg_length x \<noteq> 0)"

lemma sendNextData_stuck:
  assumes "tx_stuck (sock s)"
  shows "\<exists>s'. sendNextData os s = Some (Inl AssertFailed, s')"
proof -
  obtain r where r: "tx_req_ptr (sock s) = Some r" "\<not> someDataToSend r"
    and l: "tx_length (sock s) \<noteq> 0 \<or> tx_msg_length (sock s) \<noteq> 0"
    using assms by (auto simp: tx_stuck_def)
  let ?s = "s\<lparr>sock := (sock s)\<lparr>tx_state := TX_READY\<rparr>\<rparr>"
  have "sendLoop_step os r ?s = (Inl AssertFailed, ?s)"
    by (rule sendLoop_step_stuck) (use r l in simp_all)
  then have "sendLoop os ?s = Some (Inl AssertFailed, ?s)"
    using r by (simp add: sendLoop_def sendLoop_while.simps [of _ ?s])
  then show ?thesis by (simp add: sendNextData_def)
qed

text \<open>
  The header is refused with \<^verbatim>\<open>EWOULDBLOCK\<close>, or the header is taken and the body is refused: the
  call returns 1, as for a request that is still to be served, in the state of the lemma above.
\<close>

definition blocked_send :: "'k os \<Rightarrow> int \<Rightarrow> 'k \<Rightarrow> byte list \<Rightarrow> byte list \<Rightarrow> bool" where
  "blocked_send os fd k h b \<longleftrightarrow> (\<exists>k1. os_send os fd h k = (Inl EWOULDBLOCK, k1))
     \<or> (\<exists>k1 k2. os_send os fd h k = (Inr (length h), k1) \<and> os_send os fd b k1 = (Inl EWOULDBLOCK, k2))
     \<or> (\<exists>k1 k2. os_send os fd h k = (Inr (length h), k1) \<and> length b = 11 \<and> os_send os fd b k1 = (Inr 11, k2))"

lemma sendLoop_step_blocked:
  assumes p: "msg_ok (i, m, n)" and clear: "tx_clear (sock s)"
    and send: "blocked_send os (socket_descr (sock s)) (kern s)
      (header_bytes i (int n + 8) (from_dir (sock s)) (tx_header (sock s) 7)) (read_bytes m 0 n)"
  shows "\<exists>go s'. sendLoop_step os (msg_request (i, m, n)) s = (Inr go, s')
    \<and> tx_state (sock s') = TX_BUSY \<and> tx_stuck (sock s')"
proof -
  define p where "p = (i, m, n)"
  have p: "msg_ok p" using assms(1) by (simp add: p_def)
  let ?h = "header_bytes i (int n + 8) (from_dir (sock s)) (tx_header (sock s) 7)"
  have len: "length ?h = 8" by (simp add: header_bytes_def wire16_def wire32_def)
  have n: "0 < n" "n < 8192" using assms(1) by (simp_all add: msg_ok_def)
  let ?s1 = "s\<lparr>sock := built p (sock s)\<rparr>"
  have r: "\<not> someDataToSend (served_request p)" by simp
  consider
      (header) k1 where "os_send os (socket_descr (sock s)) ?h (kern s) = (Inl EWOULDBLOCK, k1)"
    | (body) k1 where "os_send os (socket_descr (sock s)) ?h (kern s) = (Inr 8, k1)"
        "(\<exists>k2. os_send os (socket_descr (sock s)) (read_bytes m 0 n) k1 = (Inl EWOULDBLOCK, k2))
         \<or> (\<exists>k2. n = 11 \<and> os_send os (socket_descr (sock s)) (read_bytes m 0 n) k1 = (Inr 11, k2))"
    using send by (auto simp: blocked_send_def len)
  then show ?thesis
  proof cases
    case header
    let ?s2 = "s\<lparr>kern := k1, errno := EWOULDBLOCK, sock := (built p (sock s))\<lparr>tx_state := TX_BUSY\<rparr>\<rparr>"
    have "sendLoop_header os ?s1 = (Inr False, ?s2)"
      using header clear by (simp add: sendLoop_header_def built_def read_fill_header tx_clear_def p_def)
    then have "sendLoop_step os (msg_request p) s = (Inr False, ?s2)"
      using p clear by (simp add: sendLoop_step_def sendLoop_build_msg tx_clear_def)
    then show ?thesis using r n by (auto simp: tx_stuck_def built_def p_def)
  next
    case body
    let ?s2 = "s\<lparr>kern := k1, sock := (built p (sock s))\<lparr>tx_length := 8\<rparr>\<rparr>"
    have hd: "sendLoop_header os ?s1 = (Inr True, ?s2)"
      using body(1) clear
      by (simp add: sendLoop_header_def built_def read_fill_header tx_clear_def p_def)
    from body(2) show ?thesis
    proof (elim disjE exE conjE)
      fix k2 assume b: "os_send os (socket_descr (sock s)) (read_bytes m 0 n) k1 = (Inl EWOULDBLOCK, k2)"
      let ?s3 = "s\<lparr>kern := k2, errno := EWOULDBLOCK,
         sock := (built p (sock s))\<lparr>tx_state := TX_BUSY, tx_length := - 3\<rparr>\<rparr>"
      have rest: "sendLoop_rest os ?s2 = (Inr True, ?s3)"
        using b n by (simp add: sendLoop_rest_def built_def Let_def p_def)
      have nc: "tx_msg_length (built p (sock s)) = int n + 8" by (simp add: built_def p_def)
      have "sendLoop_step os (msg_request p) s = (Inr True, ?s3)"
        using p clear
        by (simp add: sendLoop_step_def sendLoop_build_msg tx_clear_def hd rest)
          (simp add: sendLoop_completed_def nc)
      then show ?thesis using r n by (auto simp: tx_stuck_def built_def p_def)
    next
      fix k2 assume b: "n = 11" "os_send os (socket_descr (sock s)) (read_bytes m 0 n) k1 = (Inr 11, k2)"
      let ?s3 = "s\<lparr>kern := k2, sock := (built p (sock s))\<lparr>tx_state := TX_BUSY, tx_length := 8\<rparr>\<rparr>"
      have rest: "sendLoop_rest os ?s2 = (Inr False, ?s3)"
        using b n by (simp add: sendLoop_rest_def built_def Let_def p_def)
      have "sendLoop_step os (msg_request p) s = (Inr False, ?s3)"
        using p clear by (simp add: sendLoop_step_def sendLoop_build_msg tx_clear_def hd rest)
      then show ?thesis using r n by (auto simp: tx_stuck_def built_def p_def)
    qed
  qed
qed

lemma sendLoop_idle_Cons:
  assumes idle: "tx_idle (p # ps) (sock s)"
  obtains t where "sendLoop os (s\<lparr>sock := (sock s)\<lparr>tx_state := TX_READY\<rparr>\<rparr>) = sendLoop_while os t"
    and "tx_state (sock t) = TX_READY" and "tx_req_ptr (sock t) = Some (msg_request p)"
    and "tx_clear (sock t)" and "same_link (sock s) (sock t)" and "kern t = kern s"
proof -
  let ?s = "s\<lparr>sock := (sock s)\<lparr>tx_state := TX_READY\<rparr>\<rparr>"
  have idle': "tx_idle (p # ps) (sock ?s)" using idle by (simp add: tx_idle_def)
  have f: "tx_fifo (sock s) = msg_request p # map msg_request ps" and c: "tx_clear (sock s)"
    using idle by (simp_all add: tx_idle_def)
  then have pop: "txPopNextRequest (sock ?s)
      = (sock ?s)\<lparr>tx_req_ptr := Some (msg_request p), tx_fifo := map msg_request ps\<rparr>"
    by (simp add: txPopNextRequest_def)
  show thesis
    by (rule that, rule sendLoop_idle [OF idle']) (use pop c in \<open>simp_all add: same_link_def\<close>)
qed

lemma sendNextData_blocked:
  assumes idle: "tx_idle ((i, m, n) # ps) (sock s)"
    and send: "blocked_send os (socket_descr (sock s)) (kern s)
      (header_bytes i (int n + 8) (from_dir (sock s)) (tx_header (sock s) 7)) (read_bytes m 0 n)"
  shows "\<exists>s'. sendNextData os s = Some (Inr 1, s') \<and> tx_stuck (sock s')"
proof -
  obtain t where t: "sendLoop os (s\<lparr>sock := (sock s)\<lparr>tx_state := TX_READY\<rparr>\<rparr>) = sendLoop_while os t"
    "tx_state (sock t) = TX_READY" "tx_req_ptr (sock t) = Some (msg_request (i, m, n))"
    "tx_clear (sock t)" "same_link (sock s) (sock t)" "kern t = kern s"
    by (rule sendLoop_idle_Cons [OF idle])
  have "msg_ok (i, m, n)" using idle by (simp add: tx_idle_def)
  from sendLoop_step_blocked [OF this t(4), of os] send t(5,6)
  obtain go s' where step: "sendLoop_step os (msg_request (i, m, n)) t = (Inr go, s')"
    and s': "tx_state (sock s') = TX_BUSY" "tx_stuck (sock s')" by (auto simp: same_link_def)
  have "sendLoop_while os s' = Some (Inr (), s')"
    by (rule sendLoop_while_stop) (simp add: s')
  with step t(2,3) have "sendLoop_while os t = Some (Inr (), s')"
    by (simp add: sendLoop_while.simps [of _ t])
  with t(1) have "sendNextData os s = Some (Inr 1, s')"
    using s' by (auto simp: sendNextData_def tx_stuck_def)
  then show ?thesis using s' by blast
qed

section \<open>Sending: short writes\<close>

text \<open>One iteration on a fresh request whose header and body the kernel takes only in part.\<close>

lemma sendLoop_step_partial:
  assumes p: "msg_ok p" "p = (i, m, n)" and clear: "tx_clear (sock s)"
    and hd: "os_send os (socket_descr (sock s))
      (header_bytes i (int n + 8) (from_dir (sock s)) (tx_header (sock s) 7)) (kern s) = (Inr a, k1)"
    and body: "os_send os (socket_descr (sock s)) (read_bytes m 0 (n + 8 - a)) k1 = (Inr b, k2)"
    and a: "a \<le> 8" "n + 8 - a \<le> 8192" and b: "b \<noteq> 11"
  shows "sendLoop_step os (msg_request p) s = (Inr True, s\<lparr>kern := k2, sock := sendLoop_completed
    ((built p (sock s))\<lparr>tx_length := int a + int b\<rparr>)\<rparr>)"
proof -
  have n: "0 < n" "n < 8192" using p by (simp_all add: msg_ok_def)
  let ?s1 = "s\<lparr>sock := built p (sock s)\<rparr>"
  let ?s2 = "s\<lparr>kern := k1, sock := (built p (sock s))\<lparr>tx_length := int a\<rparr>\<rparr>"
  let ?s3 = "s\<lparr>kern := k2, sock := (built p (sock s))\<lparr>tx_length := int a + int b\<rparr>\<rparr>"
  have 1: "sendLoop_header os ?s1 = (Inr True, ?s2)"
    using hd clear p(2) by (simp add: sendLoop_header_def built_def read_fill_header tx_clear_def)
  have "nat (int n + 8 - int a) = n + 8 - a" by simp
  then have 2: "sendLoop_rest os ?s2 = (Inr True, ?s3)"
    using body n a b p(2) by (simp add: sendLoop_rest_def built_def Let_def)
  show ?thesis
    using p(1) clear
    by (simp add: sendLoop_step_def sendLoop_build_msg tx_clear_def 1 2)
qed

lemma sendLoop_while_turn:
  "tx_state (sock s) = TX_READY \<Longrightarrow> tx_req_ptr (sock s) = Some r \<Longrightarrow> sendLoop_step os r s = (Inr True, u)
    \<Longrightarrow> sendLoop_while os s = sendLoop_while os u"
  by (simp add: sendLoop_while.simps [of _ s])

lemma sendLoop_while_fails:
  "tx_state (sock s) = TX_READY \<Longrightarrow> tx_req_ptr (sock s) = Some r \<Longrightarrow> sendLoop_step os r s = (Inl e, u)
    \<Longrightarrow> sendLoop_while os s = Some (Inl e, u)"
  by (simp add: sendLoop_while.simps [of _ s])

lemma sendNextData_short:
  assumes idle: "tx_idle ((i, m, n) # ps) (sock s)"
    and hd: "os_send os (socket_descr (sock s))
      (header_bytes i (int n + 8) (from_dir (sock s)) (tx_header (sock s) 7)) (kern s) = (Inr a, k1)"
    and body: "os_send os (socket_descr (sock s)) (read_bytes m 0 (n + 8 - a)) k1 = (Inr b, k2)"
    and a: "a \<le> 8" "n + 8 - a \<le> 8192" and b: "b \<le> n + 8 - a" "b \<noteq> 11"
  shows "\<exists>s'. kern s' = k2 \<and> (if a + b = n + 8
    then sendNextData os s = Some (Inr 1, s') \<and> tx_idle ps (sock s')
    else sendNextData os s = Some (Inl AssertFailed, s'))"
proof -
  let ?s = "s\<lparr>sock := (sock s)\<lparr>tx_state := TX_READY\<rparr>\<rparr>" and ?p = "(i, m, n)"
  have idle': "tx_idle (?p # ps) (sock ?s)" using idle by (simp add: tx_idle_def)
  let ?t = "?s\<lparr>sock := (txPopNextRequest (sock ?s))
     \<lparr>tx_l1_msg_id := (if tx_req_ptr (sock ?s) = None then tx_l1_msg_id (sock ?s) else NONE)\<rparr>\<rparr>"
  have f: "tx_fifo (sock s) = msg_request ?p # map msg_request ps" and p: "msg_ok ?p"
    and c: "tx_clear (sock s)" using idle by (simp_all add: tx_idle_def)
  have pop: "txPopNextRequest (sock ?s)
      = (sock ?s)\<lparr>tx_req_ptr := Some (msg_request ?p), tx_fifo := map msg_request ps\<rparr>"
    using f by (simp add: txPopNextRequest_def)
  let ?x = "(built ?p (sock ?t))\<lparr>tx_length := int a + int b\<rparr>"
  let ?u = "?t\<lparr>kern := k2, sock := sendLoop_completed ?x\<rparr>"
  have step: "sendLoop_step os (msg_request ?p) ?t = (Inr True, ?u)"
    using sendLoop_step_partial [OF p refl, of ?t os a k1 b k2] c hd body a b pop by simp
  have ready: "tx_state (sock ?t) = TX_READY" "tx_req_ptr (sock ?t) = Some (msg_request ?p)"
    unfolding pop by simp_all
  have "sendLoop os ?s = sendLoop_while os ?t" by (rule sendLoop_idle [OF idle']) simp
  also have "\<dots> = sendLoop_while os ?u" by (rule sendLoop_while_turn [OF ready step])
  finally have run: "sendLoop os ?s = sendLoop_while os ?u" .
  show ?thesis
  proof (cases "a + b = n + 8")
    case True
    then have u: "sock ?u = txReset (built ?p (sock ?t))"
      by (simp add: sendLoop_completed_def built_def txReset_def)
    have "sendLoop_while os ?u = Some (Inr (), ?u)"
      by (rule sendLoop_while_stop) (unfold u, simp add: txReset_def)
    then have "sendNextData os s = Some (Inr (if tx_req_ptr (sock ?u) = None then 0 else 1), ?u)"
      unfolding sendNextData_def run by simp
    moreover have "tx_req_ptr (sock ?u) \<noteq> None" unfolding u by (simp add: txReset_def built_def)
    moreover have "tx_idle ps (sock ?u)"
      unfolding u using idle unfolding pop by (simp add: tx_idle_def txReset_def built_def tx_clear_def)
    ultimately show ?thesis using True by (intro exI [of _ ?u]) simp
  next
    case False
    then have u: "sock ?u = ?x" by (simp add: sendLoop_completed_def built_def)
    have "sendLoop_step os (served_request ?p) ?u = (Inl AssertFailed, ?u)"
      by (rule sendLoop_step_stuck) (unfold u, simp_all add: built_def)
    moreover have "tx_req_ptr (sock ?u) = Some (served_request ?p)" "tx_state (sock ?u) = TX_READY"
      unfolding u using ready(1) by (simp_all add: built_def)
    ultimately have "sendLoop_while os ?u = Some (Inl AssertFailed, ?u)"
      by (intro sendLoop_while_fails)
    then have "sendNextData os s = Some (Inl AssertFailed, ?u)" unfolding sendNextData_def run by simp
    with False show ?thesis by (intro exI [of _ ?u]) simp
  qed
qed

section \<open>Sending: disconnection\<close>

text \<open>The peer is found gone at the header of a message, or at its body after the whole header.\<close>

definition broken_send :: "'k os \<Rightarrow> int \<Rightarrow> 'k \<Rightarrow> byte list \<Rightarrow> byte list \<Rightarrow> int \<Rightarrow> bool" where
  "broken_send os fd k h b e \<longleftrightarrow> (\<exists>k1. os_send os fd h k = (Inl e, k1))
     \<or> (\<exists>k1 k2. os_send os fd h k = (Inr (length h), k1) \<and> os_send os fd b k1 = (Inl e, k2))"

lemma sendLoop_step_broken:
  assumes p: "msg_ok (i, m, n)" and clear: "tx_clear (sock s)"
    and send: "broken_send os (socket_descr (sock s)) (kern s)
      (header_bytes i (int n + 8) (from_dir (sock s)) (tx_header (sock s) 7)) (read_bytes m 0 n) e"
    and e: "getTxErrorType e = ERR_DISCONNECTED"
  shows "\<exists>k j. sendLoop_step os (msg_request (i, m, n)) s = (Inl (SocketDisconnection e),
    s\<lparr>kern := k, errno := e, sock := (built (i, m, n) (sock s))\<lparr>tx_length := j\<rparr>\<rparr>)"
proof -
  let ?p = "(i, m, n)" and ?fd = "socket_descr (sock s)"
  let ?h = "header_bytes i (int n + 8) (from_dir (sock s)) (tx_header (sock s) 7)"
  have len: "length ?h = 8" by (simp add: header_bytes_def wire16_def wire32_def)
  have n: "0 < n" "n < 8192" using p by (simp_all add: msg_ok_def)
  let ?s1 = "s\<lparr>sock := built ?p (sock s)\<rparr>"
  have same: "built ?p (sock s) = (built ?p (sock s))\<lparr>tx_length := 0\<rparr>"
    using clear by (simp add: tx_clear_def built_def)
  consider (header) k1 where "os_send os ?fd ?h (kern s) = (Inl e, k1)"
    | (body) k1 k2 where "os_send os ?fd ?h (kern s) = (Inr 8, k1)" "os_send os ?fd (read_bytes m 0 n) k1 = (Inl e, k2)"
    using send by (auto simp: broken_send_def len)
  then show ?thesis
  proof cases
    case header
    then have "sendLoop_header os ?s1 = (Inl (SocketDisconnection e), ?s1\<lparr>kern := k1, errno := e\<rparr>)"
      using e clear by (simp add: sendLoop_header_def built_def read_fill_header tx_clear_def socketSend_disconnected)
    then have "sendLoop_step os (msg_request ?p) s = (Inl (SocketDisconnection e), ?s1\<lparr>kern := k1, errno := e\<rparr>)"
      using p clear by (simp add: sendLoop_step_def sendLoop_build_msg tx_clear_def)
    with same show ?thesis by (intro exI [of _ k1] exI [of _ 0]) simp
  next
    case body
    let ?s2 = "s\<lparr>kern := k1, sock := (built ?p (sock s))\<lparr>tx_length := 8\<rparr>\<rparr>"
    have 1: "sendLoop_header os ?s1 = (Inr True, ?s2)"
      using body(1) clear by (simp add: sendLoop_header_def built_def read_fill_header tx_clear_def)
    have 2: "sendLoop_rest os ?s2 = (Inl (SocketDisconnection e), ?s2\<lparr>kern := k2, errno := e\<rparr>)"
      using body(2) n e by (simp add: sendLoop_rest_def built_def Let_def socketSend_disconnected)
    have "sendLoop_step os (msg_request ?p) s = (Inl (SocketDisconnection e), ?s2\<lparr>kern := k2, errno := e\<rparr>)"
      using p clear by (simp add: sendLoop_step_def sendLoop_build_msg tx_clear_def 1 2)
    then show ?thesis by (intro exI [of _ k2] exI [of _ 8]) simp
  qed
qed

lemma sendNextData_disconnected:
  assumes idle: "tx_idle ((i, m, n) # ps) (sock s)"
    and send: "broken_send os (socket_descr (sock s)) (kern s)
      (header_bytes i (int n + 8) (from_dir (sock s)) (tx_header (sock s) 7)) (read_bytes m 0 n) e"
    and e: "getTxErrorType e = ERR_DISCONNECTED"
  shows "\<exists>s'. sendNextData os s = Some (Inl (SocketDisconnection e), s')
    \<and> tx_fifo (sock s') = [] \<and> rx_fifo (sock s') = [] \<and> tx_clear (sock s') \<and> rx_lenght (sock s') = 0
    \<and> tx_req_ptr (sock s') = Some (served_request (i, m, n))"
proof -
  obtain t where t: "sendLoop os (s\<lparr>sock := (sock s)\<lparr>tx_state := TX_READY\<rparr>\<rparr>) = sendLoop_while os t"
    "tx_state (sock t) = TX_READY" "tx_req_ptr (sock t) = Some (msg_request (i, m, n))"
    "tx_clear (sock t)" "same_link (sock s) (sock t)" "kern t = kern s"
    by (rule sendLoop_idle_Cons [OF idle])
  have "msg_ok (i, m, n)" using idle by (simp add: tx_idle_def)
  from sendLoop_step_broken [OF this t(4) _ e, of os] send t(5,6) obtain k j where
    "sendLoop_step os (msg_request (i, m, n)) t = (Inl (SocketDisconnection e),
      t\<lparr>kern := k, errno := e, sock := (built (i, m, n) (sock t))\<lparr>tx_length := j\<rparr>\<rparr>)"
    by (auto simp: same_link_def)
  from sendLoop_while_fails [OF t(2,3) this] t(1) show ?thesis
    by (simp add: sendNextData_def disconnection_cleanup_def discardDataBuffers_def rxReset_def
        txReset_def tx_clear_def built_def)
qed


section \<open>Sending: the loop ends\<close>

lemma socketSend_frame:
  "socketSend os b s = (r, s') \<Longrightarrow> \<exists>st. sock s' = (sock s)\<lparr>tx_state := st\<rparr>"
proof -
  have id: "\<exists>st. x = x\<lparr>tx_state := st\<rparr>" for x :: MsgSocket
    by (rule exI [of _ "tx_state x"]) simp
  assume "socketSend os b s = (r, s')"
  then show ?thesis
    by (cases "os_send os (socket_descr (sock s)) b (kern s)")
      (auto simp: socketSend_def syscall_def andThen_def id split: sum.splits if_splits)
qed

definition tx_frame :: "MsgSocket \<Rightarrow> MsgSocket \<Rightarrow> bool" where
  "tx_frame x y \<longleftrightarrow> tx_req_ptr y = tx_req_ptr x \<and> tx_fifo y = tx_fifo x \<and> tx_msg y = tx_msg x
     \<and> tx_msg_length y = tx_msg_length x"

lemma sendLoop_header_frame: "sendLoop_header os s = (r, s') \<Longrightarrow> tx_frame (sock s) (sock s')"
  by (auto simp: sendLoop_header_def andThen_def tx_frame_def
      split: if_splits prod.splits sum.splits dest!: socketSend_frame)

lemma sendLoop_rest_frame: "sendLoop_rest os s = (r, s') \<Longrightarrow> tx_frame (sock s) (sock s')"
  by (auto simp: sendLoop_rest_def andThen_def tx_frame_def Let_def
      split: if_splits prod.splits sum.splits option.splits dest!: socketSend_frame)

definition is_msg_request :: "request \<Rightarrow> bool" where
  "is_msg_request r \<longleftrightarrow> (\<exists>i m. kind r = MsgRequest i m) \<and> 0 \<le> nb_payload_bytes_sent r
     \<and> 0 \<le> l2_payload_length r \<and> l2_payload_length r < 8192"

definition tx_msgs :: "MsgSocket \<Rightarrow> bool" where
  "tx_msgs x \<longleftrightarrow> (\<forall>r \<in> set (tx_fifo x). is_msg_request r)
     \<and> (\<forall>r. tx_req_ptr x = Some r \<longrightarrow> is_msg_request r \<and> (tx_msg x \<noteq> None \<longrightarrow> \<not> someDataToSend r))
     \<and> (tx_msg x \<noteq> None \<longrightarrow> tx_msg_length x \<noteq> 0 \<and> tx_req_ptr x \<noteq> None)"

definition tx_work :: "MsgSocket \<Rightarrow> nat" where
  "tx_work x = 2 * length (tx_fifo x)
     + (case tx_req_ptr x of None \<Rightarrow> 0 | Some r \<Rightarrow> if someDataToSend r then 2 else 1)"

lemma sendLoop_build_ends:
  assumes "is_msg_request r" and "someDataToSend r"
  shows "\<exists>r' s'. sendLoop_build os r s = (Inr (), s') \<and> tx_req_ptr (sock s') = Some r'
    \<and> is_msg_request r' \<and> \<not> someDataToSend r' \<and> tx_fifo (sock s') = tx_fifo (sock s)
    \<and> tx_msg_length (sock s') \<noteq> 0"
  using assms
  by (auto simp: sendLoop_build_def buildNextL2Msg_def build_MsgRequest_def is_msg_request_def
      someDataToSend_def int_cast32)

lemma sendLoop_step_ends:
  assumes ok: "tx_msgs (sock s)" and r: "tx_req_ptr (sock s) = Some r"
    and step: "sendLoop_step os r s = (Inr True, s')"
  shows "tx_msgs (sock s') \<and> tx_work (sock s') < tx_work (sock s)"
proof (cases "someDataToSend r")
  case True
  with ok r have "tx_msg (sock s) = None" "is_msg_request r" by (auto simp: tx_msgs_def)
  moreover from sendLoop_build_ends [OF this(2) True, of os s] obtain r' s1 where
    b: "sendLoop_build os r s = (Inr (), s1)" "tx_req_ptr (sock s1) = Some r'"
      "is_msg_request r'" "\<not> someDataToSend r'" "tx_fifo (sock s1) = tx_fifo (sock s)"
      "tx_msg_length (sock s1) \<noteq> 0" by blast
  ultimately obtain s2 s3 where "sendLoop_header os s1 = (Inr True, s2)" "sendLoop_rest os s2 = (Inr True, s3)"
    "s' = s3\<lparr>sock := sendLoop_completed (sock s3)\<rparr>"
    using step True
    by (auto simp: sendLoop_step_def andThen_def split: prod.splits sum.splits if_splits)
  then have "tx_frame (sock s1) (sock s3)" "s' = s3\<lparr>sock := sendLoop_completed (sock s3)\<rparr>"
    by (auto dest!: sendLoop_header_frame sendLoop_rest_frame simp: tx_frame_def)
  then have "tx_req_ptr (sock s') = Some r'" "tx_fifo (sock s') = tx_fifo (sock s)"
    "tx_msg (sock s') \<noteq> None \<longrightarrow> tx_msg_length (sock s') \<noteq> 0"
    using b by (auto simp: tx_frame_def sendLoop_completed_def txReset_def)
  then show ?thesis using ok r b True by (simp add: tx_msgs_def tx_work_def)
next
  case False
  then have "s' = s\<lparr>sock := (txPopNextRequest (sock s))\<lparr>tx_l1_msg_id := NONE\<rparr>\<rparr>"
    and "tx_msg_length (sock s) = 0"
    using step by (auto simp: sendLoop_step_def andThen_def assertS_def split: if_splits)
  with ok r False show ?thesis
    by (auto simp: txPopNextRequest_def tx_msgs_def tx_work_def split: list.splits)
qed

lemma sendLoop_while_ends:
  assumes "tx_msgs (sock s)" shows "sendLoop_while os s \<noteq> None"
  using assms
proof (induction "tx_work (sock s)" arbitrary: s rule: less_induct)
  case less
  show ?case
  proof (cases "tx_state (sock s) = TX_READY \<and> tx_req_ptr (sock s) \<noteq> None")
    case True
    then obtain r where r: "tx_req_ptr (sock s) = Some r" by blast
    show ?thesis
    proof (cases "sendLoop_step os r s")
      case (Pair res s')
      have "sendLoop_while os s' \<noteq> None" if "res = Inr True"
        using less.hyps [of s'] sendLoop_step_ends [OF less.prems r] Pair that by simp
      with True r Pair show ?thesis
        by (auto simp: sendLoop_while.simps [of _ s] split: sum.splits if_splits)
    qed
  next
    case False
    then show ?thesis by (subst sendLoop_while.simps) auto
  qed
qed

lemma sendNextData_ends:
  assumes "tx_msgs (sock s)" shows "sendNextData os s \<noteq> None"
proof -
  let ?s = "s\<lparr>sock := (sock s)\<lparr>tx_state := TX_READY\<rparr>\<rparr>"
  have "sendLoop os ?s \<noteq> None"
    unfolding sendLoop_def
    by (rule sendLoop_while_ends)
      (use assms in \<open>auto simp: tx_msgs_def txPopNextRequest_def split: list.splits\<close>)
  then show ?thesis by (auto simp: sendNextData_def split: sum.splits exn.splits)
qed

section \<open>Receiving: the byte stream and its frames\<close>

text \<open>
  What the code relies on of a connected TCP socket: \<open>arr\<close> has arrived, \<open>fut\<close> is still under way;
  more may arrive before any call; a \<^verbatim>\<open>recv\<close> returns what has arrived up to the size asked,
  and consumes it unless it peeks; with nothing there it fails with \<^verbatim>\<open>EWOULDBLOCK\<close>.
\<close>

coinductive stream_at :: "'k os \<Rightarrow> int \<Rightarrow> byte list \<Rightarrow> byte list \<Rightarrow> 'k \<Rightarrow> bool" for os fd where
  "(\<And>n peek. 0 < n \<Longrightarrow> \<exists>j k'.
        os_recv os fd n peek k
          = (if arr @ take j fut = [] then Inl EWOULDBLOCK else Inr (take n (arr @ take j fut)), k')
        \<and> stream_at os fd (if peek then arr @ take j fut else drop n (arr @ take j fut)) (drop j fut) k') \<Longrightarrow>
   stream_at os fd arr fut (snd (os_new os k)) \<Longrightarrow>
   stream_at os fd arr fut k"

text \<open>
  The frames of a stream: the reference decoder. \<open>None\<close> for a stream with a length field outside
  6 .. 8200; the second component is the incomplete rest.
\<close>

definition wire_length :: "byte list \<Rightarrow> int" where
  "wire_length bs = sint (ntohl (load32 (write_bytes (\<lambda>_. 0) 0 (take 4 bs)) 0))"

function frames :: "byte list \<Rightarrow> (byte list list \<times> byte list) option" where
  "frames bs =
    (if length bs < 4 then Some ([], bs)
     else let L = wire_length bs in
       if L < 6 \<or> 8200 < L then None
       else if length bs < nat L then Some ([], bs)
       else map_option (apfst ((#) (take (nat L) bs))) (frames (drop (nat L) bs)))"
  by auto
termination by (relation "measure length") auto

declare frames.simps [simp del]

text \<open>The wire form of a message under reception (only its length in host order) and of a finished one.\<close>

definition rx_wire :: "mem \<Rightarrow> nat \<Rightarrow> byte list" where
  "rx_wire m n = read_bytes (store32 m 0 (htonl (load32 m 0))) 0 n"

definition wire_of_msg :: "mem \<Rightarrow> byte list" where
  "wire_of_msg m = rx_wire (msg_to_host m) (nat (l1_lenght m))"

definition rx_partial :: "MsgSocket \<Rightarrow> byte list" where
  "rx_partial x = (case rx_msg x of None \<Rightarrow> [] | Some m \<Rightarrow> rx_wire m (nat (rx_lenght x)))"

definition rx_ok :: "MsgSocket \<Rightarrow> bool" where
  "rx_ok x \<longleftrightarrow> (case rx_msg x of
      None \<Rightarrow> rx_lenght x = 0
    | Some m \<Rightarrow> 4 \<le> rx_lenght x \<and> rx_lenght x \<le> l1_lenght m)"

lemma msg_to_host_twice [simp]: "msg_to_host (msg_to_host m) = m"
  by (simp add: msg_to_host_def)

lemma l1_lenght_msg_to_host [simp]: "l1_lenght (msg_to_host m) = l1_lenght m"
  by (simp add: l1_lenght_def msg_to_host_def)

lemma length_rx_wire [simp]: "length (rx_wire m n) = n"
  by (simp add: rx_wire_def)

lemma read4_load32:
  "load32 m 0 = load32 m' 0 \<Longrightarrow> read_bytes m 0 4 = read_bytes m' 0 4"
proof -
  have two: "Suc (Suc 0) = 2" "Suc (Suc (Suc 0)) = 3" by simp_all
  have b: "m 0 = ucast (load32 m 0)" "m 1 = ucast (drop_bit 8 (load32 m 0))"
    "m 2 = ucast (drop_bit 16 (load32 m 0))" "m 3 = ucast (drop_bit 24 (load32 m 0))" for m :: mem
    by (rule bit_word_eqI;
        auto simp: load32_def load16_def bit_word_cat_iff bit_ucast_iff bit_drop_bit_eq two)+
  assume "load32 m 0 = load32 m' 0"
  then show ?thesis
    using b [of m] b [of m'] by (simp add: read_bytes_def upt_rec two)
qed

lemma wire_length_rx_wire: "4 \<le> n \<Longrightarrow> wire_length (rx_wire m n) = l1_lenght m"
proof -
  assume n: "4 \<le> n"
  let ?m = "store32 m 0 (htonl (load32 m 0))"
  have "load32 (write_bytes (\<lambda>_. 0) 0 (read_bytes ?m 0 4)) 0 = load32 ?m 0"
    by (rule load32_cong) (simp add: write_bytes_def)
  then show ?thesis using n by (simp add: wire_length_def rx_wire_def take_read_bytes l1_lenght_def)
qed

lemma wire_length_append: "4 \<le> length as \<Longrightarrow> wire_length (as @ bs) = wire_length as"
  by (simp add: wire_length_def)

lemma rx_wire_begin:
  assumes "length bs = 4"
  shows "rx_wire (store32 m 0 (ntohl (load32 (write_bytes (\<lambda>_. 0) 0 bs) 0))) 4 = bs"
proof -
  have "read_bytes (store32 m 0 (load32 (write_bytes (\<lambda>_. 0) 0 bs) 0)) 0 4
      = read_bytes (write_bytes (\<lambda>_. 0) 0 bs) 0 4"
    by (rule read4_load32) simp
  also have "\<dots> = bs" using read_write_bytes [of "\<lambda>_. 0" 0 bs] assms by simp
  finally show ?thesis by (simp add: rx_wire_def)
qed

lemma rx_wire_extend:
  assumes "4 \<le> n" shows "rx_wire (write_bytes m n bs) (n + length bs) = rx_wire m n @ bs"
proof -
  have l: "load32 (write_bytes m n bs) 0 = load32 m 0" using assms by simp
  have "store32 (write_bytes m n bs) 0 w = write_bytes (store32 m 0 w) n bs" for w
    using assms by (auto simp: fun_eq_iff write_bytes_def store32_def store16_def)
  with l show ?thesis using read_bytes_write_extend [of _ 0 n bs] by (simp add: rx_wire_def)
qed

lemma l1_lenght_write [simp]: "4 \<le> n \<Longrightarrow> l1_lenght (write_bytes m n bs) = l1_lenght m"
  by (simp add: l1_lenght_def)

text \<open>The frames of a stream that starts inside or at the end of a message.\<close>

lemma frames_range:
  assumes "frames bs = Some r" and "4 \<le> length bs"
  shows "6 \<le> wire_length bs \<and> wire_length bs \<le> 8200"
  using assms by (auto simp: frames.simps [of bs] Let_def split: if_splits)

lemma frames_complete:
  assumes "frames (w @ bs) = Some (fs, rest)" and "4 \<le> length w" and "int (length w) = wire_length w"
  shows "\<exists>gs. fs = w # gs \<and> frames bs = Some (gs, rest)"
proof -
  have "wire_length (w @ bs) = int (length w)" using assms by (simp add: wire_length_append)
  then show ?thesis
    using assms(1,2) by (subst (asm) frames.simps) (auto simp: Let_def split: if_splits)
qed


text \<open>One \<^verbatim>\<open>recv\<close> on a connected stream.\<close>

lemma stream_at_recv:
  assumes st: "stream_at os fd arr fut k" and n: "0 < n"
  shows "\<exists>j k'. os_recv os fd n peek k
        = (if arr @ take j fut = [] then Inl EWOULDBLOCK else Inr (take n (arr @ take j fut)), k')
      \<and> stream_at os fd (if peek then arr @ take j fut else drop n (arr @ take j fut)) (drop j fut) k'"
  using st
proof cases
  case 1
  show ?thesis by (rule 1(1) [OF n])
qed

lemma stream_at_new: "stream_at os fd arr fut k \<Longrightarrow> os_new os k = (m, k') \<Longrightarrow> stream_at os fd arr fut k'"
  by (erule stream_at.cases) simp

lemma socketReceive_stream:
  assumes "stream_at os (socket_descr (sock s)) arr fut (kern s)" and "0 < n"
  obtains (Empty) k' where "arr = []"
      "socketReceive os n peek s = (Inr (- EWOULDBLOCK, []), s\<lparr>kern := k', errno := EWOULDBLOCK\<rparr>)"
      "stream_at os (socket_descr (sock s)) [] fut k'"
    | (Data) j k' where "arr @ take j fut \<noteq> []"
      "socketReceive os n peek s = (Inr (int (length (take n (arr @ take j fut))), take n (arr @ take j fut)),
         s\<lparr>kern := k'\<rparr>)"
      "stream_at os (socket_descr (sock s))
         (if peek then arr @ take j fut else drop n (arr @ take j fut)) (drop j fut) k'"
proof -
  from stream_at_recv [OF assms, of peek] obtain j k' where
    r: "os_recv os (socket_descr (sock s)) n peek (kern s)
      = (if arr @ take j fut = [] then Inl EWOULDBLOCK else Inr (take n (arr @ take j fut)), k')"
    and st: "stream_at os (socket_descr (sock s))
         (if peek then arr @ take j fut else drop n (arr @ take j fut)) (drop j fut) k'"
    by blast
  show thesis
  proof (cases "arr @ take j fut = []")
    case True
    then have "os_recv os (socket_descr (sock s)) n peek (kern s) = (Inl EWOULDBLOCK, k')"
      using r by simp
    then have "socketReceive os n peek s = (Inr (- EWOULDBLOCK, []), s\<lparr>kern := k', errno := EWOULDBLOCK\<rparr>)"
      by (simp add: socketReceive_def getRxErrorType_defs split: sock_class.split)
    moreover have e: "arr = []" "take j fut = []" using True by simp_all
    moreover have "drop j fut = fut" using e(2) by (metis append_take_drop_id append_Nil)
    moreover have "(if peek then arr @ take j fut else drop n (arr @ take j fut)) = []"
      unfolding e by simp
    with st \<open>drop j fut = fut\<close> have "stream_at os (socket_descr (sock s)) [] fut k'"
      by (simp only:)
    ultimately show thesis using Empty by blast
  next
    case False
    then have "os_recv os (socket_descr (sock s)) n peek (kern s) = (Inr (take n (arr @ take j fut)), k')"
      using r by simp
    then have "socketReceive os n peek s = (Inr (int (length (take n (arr @ take j fut))), take n (arr @ take j fut)),
         s\<lparr>kern := k'\<rparr>)"
      by (simp add: socketReceive_def)
    with False st Data show thesis by blast
  qed
qed

text \<open>
  \<open>rx_at os s arr fut\<close>: the state of a reception, with the bytes still to be consumed. \<open>rx_stream\<close>
  is everything that has not been turned into a finished message yet.
\<close>

definition rx_at :: "'k os \<Rightarrow> 'k sock_ctx \<Rightarrow> byte list \<Rightarrow> byte list \<Rightarrow> bool" where
  "rx_at os s arr fut \<longleftrightarrow> stream_at os (socket_descr (sock s)) arr fut (kern s)"

definition rx_same :: "MsgSocket \<Rightarrow> MsgSocket \<Rightarrow> bool" where
  "rx_same x y \<longleftrightarrow> socket_descr y = socket_descr x \<and> rx_fifo y = rx_fifo x"

lemma split_stream: "take n ((a @ take i f) @ take j (drop i f)) @ drop n ((a @ take i f) @ take j (drop i f))
    @ drop j (drop i f) = a @ f"
proof -
  have t: "take n x @ drop n x @ y = x @ y" for x y :: "'a list" and n
    using append_take_drop_id [of n x] by (metis append_assoc)
  show ?thesis unfolding t append_assoc append_take_drop_id ..
qed

lemma recvLoop_begin_stream:
  assumes st: "rx_at os s arr fut" and ok: "rx_lenght (sock s) = 0"
  shows "(\<exists>s' arr' fut'. recvLoop_begin os s = (Inr False, s') \<and> rx_at os s' arr' fut'
        \<and> rx_same (sock s) (sock s') \<and> rx_msg (sock s') = None \<and> rx_lenght (sock s') = 0
        \<and> arr' @ fut' = arr @ fut \<and> length arr' < 4 \<and> length fut' \<le> length fut)
    \<or> (\<exists>s' m bs arr' fut'. recvLoop_begin os s = (Inr True, s') \<and> rx_at os s' arr' fut'
        \<and> rx_same (sock s) (sock s') \<and> rx_msg (sock s') = Some m \<and> rx_lenght (sock s') = 4
        \<and> rx_state (sock s') = rx_state (sock s)
        \<and> rx_wire m 4 = bs \<and> length bs = 4 \<and> bs @ arr' @ fut' = arr @ fut
        \<and> length fut' \<le> length fut)"
proof -
  let ?s = "s\<lparr>sock := (sock s)\<lparr>rx_msg := None\<rparr>\<rparr>"
  let ?fd = "socket_descr (sock s)"
  have st': "stream_at os (socket_descr (sock ?s)) arr fut (kern ?s)" using st by (simp add: rx_at_def)
  have beg: "recvLoop_begin os s = andThen (recvBeginNewMsg os) (\<lambda>m.
       andThen (modSock (\<lambda>x. x\<lparr>rx_msg := m\<rparr>)) (\<lambda>_. retS (m \<noteq> None))) ?s"
    using ok by (simp add: recvLoop_begin_def)
  from st' zero_less_numeral [of "num.Bit0 (num.Bit0 num.One)"] show ?thesis
  proof (cases rule: socketReceive_stream [where peek = True])
    case (Empty k')
    let ?t0 = "s\<lparr>kern := k', errno := EWOULDBLOCK, sock := (sock s)\<lparr>rx_state := RX_IDLE, rx_msg := None\<rparr>\<rparr>"
    from Empty have "recvLoop_begin os s = (Inr False, ?t0)"
      by (simp add: beg recvBeginNewMsg_def)
    then show ?thesis
      using Empty ok by (intro disjI1 exI [of _ ?t0] exI [of _ "[]"] exI [of _ "fut"] conjI)
        (auto simp: rx_at_def rx_same_def)
  next
    case (Data j k')
    let ?a = "arr @ take j fut"
    show ?thesis
    proof (cases "length (take 4 ?a) = 4")
      case False
      then have short: "length ?a < 4" by simp
      let ?t0 = "s\<lparr>kern := k', sock := (sock s)\<lparr>rx_state := RX_IDLE, rx_msg := None\<rparr>\<rparr>"
      have nb: "int (length (take 4 ?a)) \<noteq> 4" using False by linarith
      have "recvBeginNewMsg os ?s = (Inr None, ?t0)"
        using Data(2) nb by (simp add: recvBeginNewMsg_def andThen_def del: length_take take_append)
      then have "recvLoop_begin os s = (Inr False, ?t0)"
        by (simp add: beg)
      then show ?thesis
        using Data ok short by (intro disjI1 exI [of _ ?t0] exI [of _ "?a"] exI [of _ "drop j fut"] conjI)
          (auto simp: rx_at_def rx_same_def)
    next
      case True
      let ?s1 = "?s\<lparr>kern := k'\<rparr>"
      have st1: "stream_at os (socket_descr (sock ?s1)) ?a (drop j fut) (kern ?s1)"
        using Data by simp
      from st1 zero_less_numeral [of "num.Bit0 (num.Bit0 num.One)"] show ?thesis
      proof (cases rule: socketReceive_stream [where peek = False])
        case (Empty k2)
        then show ?thesis using Data by simp
      next
        case D2: (Data j2 k2)
        define bs a1 f1 where "bs = take 4 (?a @ take j2 (drop j fut))"
          and "a1 = drop 4 (?a @ take j2 (drop j fut))" and "f1 = drop j2 (drop j fut)"
        have eq: "bs @ a1 @ f1 = arr @ fut" unfolding bs_def a1_def f1_def by (rule split_stream)
        have l4: "length bs = 4" using True by (auto simp: bs_def)
        have lf: "length f1 \<le> length fut" by (simp add: f1_def)
        have rcv: "socketReceive os 4 False ?s1 = (Inr (4, bs), ?s\<lparr>kern := k2\<rparr>)"
          using D2(2) [folded bs_def] l4 by simp
        define cs where "cs = take 4 ?a"
        have peek: "socketReceive os 4 True ?s = (Inr (4, cs), ?s1)"
          using Data(2) [folded cs_def] True [folded cs_def] by simp
        obtain m k3 where nm: "os_new os k2 = (m, k3)" by (cases "os_new os k2")
        then have k3: "stream_at os ?fd a1 f1 k3"
          using stream_at_new [OF D2(3)] unfolding a1_def f1_def by (simp del: drop_append take_append)
        let ?m = "store32 m 0 (ntohl (load32 (write_bytes (\<lambda>_. 0) 0 bs) 0))"
        let ?s3 = "s\<lparr>kern := k3, sock := (sock s)\<lparr>rx_lenght := 4, rx_msg := Some ?m\<rparr>\<rparr>"
        have rb: "recvBeginNewMsg os ?s = (Inr (Some ?m),
            s\<lparr>kern := k3, sock := (sock s)\<lparr>rx_lenght := 4, rx_msg := None\<rparr>\<rparr>)"
          using peek rcv nm by (simp add: recvBeginNewMsg_def)
        have "recvLoop_begin os s = (Inr True, ?s3)"
          by (simp add: beg rb)
        moreover have "rx_at os ?s3 a1 f1" using k3 by (simp add: rx_at_def)
        ultimately show ?thesis
          using rx_wire_begin [OF l4, of m] l4 eq lf
          by (intro disjI2 exI [of _ ?s3] exI [of _ ?m] exI [of _ bs] exI [of _ a1] exI [of _ f1] conjI)
            (simp_all add: rx_same_def)
      qed
    qed
  qed
qed


definition rx_inv :: "'k os \<Rightarrow> 'k sock_ctx \<Rightarrow> byte list \<Rightarrow> byte list \<Rightarrow> byte list list \<Rightarrow> byte list \<Rightarrow> bool" where
  "rx_inv os s arr fut fs rest \<longleftrightarrow> rx_at os s arr fut \<and> rx_ok (sock s)
     \<and> frames (rx_partial (sock s) @ arr @ fut) = Some (fs, rest)"

lemma rx_inv_lenght:
  assumes "rx_inv os s arr fut fs rest" and m: "rx_msg (sock s) = Some m"
  obtains r where "rx_lenght (sock s) = int r" "4 \<le> r" "int r \<le> l1_lenght m"
    "6 \<le> l1_lenght m" "l1_lenght m \<le> 8200" "rx_partial (sock s) = rx_wire m r"
proof -
  have ok: "4 \<le> rx_lenght (sock s)" "rx_lenght (sock s) \<le> l1_lenght m"
    and fr: "frames (rx_wire m (nat (rx_lenght (sock s))) @ arr @ fut) = Some (fs, rest)"
    using assms by (simp_all add: rx_inv_def rx_ok_def rx_partial_def)
  from ok obtain r where r: "rx_lenght (sock s) = int r" "4 \<le> r"
    by (metis int_nat_eq nat_le_eq_zle nat_numeral of_nat_numeral order_trans zero_le_numeral zle_int)
  with fr have "6 \<le> l1_lenght m \<and> l1_lenght m \<le> 8200"
    using frames_range [OF fr] by (simp add: wire_length_append wire_length_rx_wire)
  with r ok m show thesis by (intro that [of r]) (simp_all add: rx_partial_def)
qed

lemma wire_of_msg_to_host: "wire_of_msg (msg_to_host m) = rx_wire m (nat (l1_lenght m))"
  by (simp add: wire_of_msg_def)

text \<open>Where a call stops: no complete frame is left in what has arrived.\<close>

definition rx_waits :: "MsgSocket \<Rightarrow> byte list \<Rightarrow> bool" where
  "rx_waits x arr \<longleftrightarrow> frames (rx_partial x @ arr) = Some ([], rx_partial x @ arr)"

lemma recvLoop_rest_stream:
  assumes inv: "rx_inv os s arr fut fs rest" and m: "rx_msg (sock s) = Some m"
    and st: "rx_state (sock s) = RX_DATA"
  shows "\<exists>go s' arr' fut' new gs. recvLoop_rest os m s = (Inr go, s') \<and> rx_inv os s' arr' fut' gs rest
    \<and> fs = map wire_of_msg new @ gs \<and> rx_fifo (sock s') = rx_fifo (sock s) @ new
    \<and> socket_descr (sock s') = socket_descr (sock s)
    \<and> (if go then rx_state (sock s') = RX_DATA \<and> (length (arr' @ fut') < length (arr @ fut)
         \<or> arr' @ fut' = arr @ fut \<and> rx_lenght (sock s') = 0)
       else rx_waits (sock s') arr') \<and> length fut' \<le> length fut"
proof -
  from inv m obtain r where r: "rx_lenght (sock s) = int r" "4 \<le> r" "int r \<le> l1_lenght m"
    "6 \<le> l1_lenght m" "l1_lenght m \<le> 8200" "rx_partial (sock s) = rx_wire m r"
    by (rule rx_inv_lenght)
  from r(4) obtain L where L: "l1_lenght m = int L" by (metis int_nat_eq order_trans zero_le_numeral)
  have at: "stream_at os (socket_descr (sock s)) arr fut (kern s)"
    and fr: "frames (rx_wire m r @ arr @ fut) = Some (fs, rest)"
    using inv r(6) by (simp_all add: rx_inv_def rx_at_def)
  show ?thesis
  proof (cases "r = L")
    case True
    let ?s' = "s\<lparr>sock := (sock s)\<lparr>rx_lenght := 0, rx_msg := None,
        rx_fifo := rx_fifo (sock s) @ [msg_to_host m]\<rparr>\<rparr>"
    have step: "recvLoop_rest os m s = (Inr True, ?s')"
      using r(1) L True by (simp add: recvLoop_rest_def)
    from frames_complete [OF fr] obtain gs where gs: "fs = rx_wire m r # gs" "frames (arr @ fut) = Some (gs, rest)"
      using r(2) L True by (auto simp: wire_length_rx_wire)
    have "rx_inv os ?s' arr fut gs rest"
      using at gs(2) by (simp add: rx_inv_def rx_at_def rx_ok_def rx_partial_def)
    then show ?thesis
      unfolding step using gs(1) st L True
      by (intro exI [of _ True] exI [of _ ?s'] exI [of _ arr] exI [of _ fut]
          exI [of _ "[msg_to_host m]"] exI [of _ gs] conjI) (simp_all add: wire_of_msg_to_host)
  next
    case False
    then have rL: "r < L" using r(3) L by simp
    have nb: "nat (int L - int r) = L - r" by simp
    have "0 < L - r" using rL by simp
    from at this show ?thesis
    proof (cases rule: socketReceive_stream [where peek = False])
      case (Empty k')
      let ?s' = "s\<lparr>kern := k', errno := EWOULDBLOCK\<rparr>"
      have step: "recvLoop_rest os m s = (Inr False, ?s')"
        using r(1) L rL Empty(2) nb by (simp add: recvLoop_rest_def)
      have "rx_inv os ?s' [] fut fs rest"
        using inv Empty by (simp add: rx_inv_def rx_at_def)
      moreover have "rx_waits (sock s) []"
        using r rL L unfolding rx_waits_def r(6)
        by (subst frames.simps) (simp add: wire_length_rx_wire)
      ultimately show ?thesis
        unfolding step
        by (intro exI [of _ False] exI [of _ ?s'] exI [of _ "[]"] exI [of _ fut]
            exI [of _ "[]"] exI [of _ fs] conjI) simp_all
    next
      case (Data j k')
      define bs a1 f1 where "bs = take (L - r) (arr @ take j fut)"
        and "a1 = drop (L - r) (arr @ take j fut)" and "f1 = drop j fut"
      have ne: "0 < length bs" using Data(1) rL by (simp add: bs_def del: take_append)
      have le: "length bs \<le> L - r" by (simp add: bs_def)
      have eq: "bs @ a1 @ f1 = arr @ fut"
        unfolding bs_def a1_def f1_def by (metis append_assoc append_take_drop_id)
      have rcv: "socketReceive os (L - r) False s = (Inr (int (length bs), bs), s\<lparr>kern := k'\<rparr>)"
        using Data(2) [folded bs_def] by simp
      have at1: "stream_at os (socket_descr (sock s)) a1 f1 k'"
        using Data(3) unfolding a1_def f1_def by (simp del: drop_append take_append)
      let ?s' = "s\<lparr>kern := k', sock := (sock s)\<lparr>rx_lenght := int r + int (length bs),
          rx_msg := Some (write_bytes m r bs)\<rparr>\<rparr>"
      have step: "recvLoop_rest os m s = (Inr True, ?s')"
        using r L rL rcv nb ne le by (simp add: recvLoop_rest_def)
      have w: "rx_wire (write_bytes m r bs) (r + length bs) = rx_wire m r @ bs"
        by (rule rx_wire_extend [OF r(2)])
      have part: "rx_partial (sock ?s') = rx_wire m r @ bs"
        using w by (simp add: rx_partial_def nat_add_distrib)
      have "rx_inv os ?s' a1 f1 fs rest"
        using at1 fr r(1,2) L le rL part eq
        by (simp add: rx_inv_def rx_at_def rx_ok_def del: of_nat_add)
      moreover have "length (a1 @ f1) < length (arr @ fut)"
        using eq ne by (metis length_append less_add_same_cancel2)
      moreover have "length f1 \<le> length fut" by (simp add: f1_def)
      ultimately show ?thesis
        unfolding step using st
        by (intro exI [of _ True] exI [of _ ?s'] exI [of _ a1] exI [of _ f1]
            exI [of _ "[]"] exI [of _ fs] conjI) simp_all
    qed
  qed
qed


definition rx_work :: "'k sock_ctx \<Rightarrow> byte list \<Rightarrow> byte list \<Rightarrow> nat" where
  "rx_work s arr fut = 2 * length (arr @ fut) + (if rx_lenght (sock s) = 0 then 0 else 1)"

lemma rx_inv_begun:
  assumes inv: "rx_inv os s arr fut fs rest" and "rx_lenght (sock s) = 0"
    and at: "rx_at os s1 a1 f1" and m: "rx_msg (sock s1) = Some m" "rx_lenght (sock s1) = 4"
    and eq: "rx_wire m 4 @ a1 @ f1 = arr @ fut"
  shows "rx_inv os s1 a1 f1 fs rest"
proof -
  have "rx_partial (sock s) = []" using inv assms(2) by (auto simp: rx_inv_def rx_ok_def rx_partial_def split: option.splits)
  with inv eq have fr: "frames (rx_wire m 4 @ a1 @ f1) = Some (fs, rest)" by (simp add: rx_inv_def)
  have "wire_length (rx_wire m 4 @ a1 @ f1) = l1_lenght m"
    by (simp add: wire_length_append wire_length_rx_wire)
  with frames_range [OF fr] have "6 \<le> l1_lenght m" by simp
  with at m fr show ?thesis by (simp add: rx_inv_def rx_ok_def rx_partial_def)
qed

lemma recvLoop_step_stream:
  assumes inv: "rx_inv os s arr fut fs rest" and st: "rx_state (sock s) = RX_DATA"
  shows "\<exists>go s' arr' fut' new gs. recvLoop_step os s = (Inr go, s') \<and> rx_inv os s' arr' fut' gs rest
    \<and> fs = map wire_of_msg new @ gs \<and> rx_fifo (sock s') = rx_fifo (sock s) @ new
    \<and> socket_descr (sock s') = socket_descr (sock s)
    \<and> (if go then rx_state (sock s') = RX_DATA \<and> rx_work s' arr' fut' < rx_work s arr fut
       else rx_waits (sock s') arr') \<and> length fut' \<le> length fut"
proof (cases "rx_lenght (sock s) = 0")
  case False
  then obtain m where m: "rx_msg (sock s) = Some m"
    using inv by (auto simp: rx_inv_def rx_ok_def split: option.splits)
  have "recvLoop_step os s = recvLoop_rest os m s"
    using False m by (simp add: recvLoop_step_def recvLoop_begin_def andThen_def)
  moreover from recvLoop_rest_stream [OF inv m st] obtain go s' arr' fut' new gs where
    r: "recvLoop_rest os m s = (Inr go, s')" "rx_inv os s' arr' fut' gs rest"
    "fs = map wire_of_msg new @ gs" "rx_fifo (sock s') = rx_fifo (sock s) @ new"
    "socket_descr (sock s') = socket_descr (sock s)"
    "if go then rx_state (sock s') = RX_DATA \<and> (length (arr' @ fut') < length (arr @ fut)
         \<or> arr' @ fut' = arr @ fut \<and> rx_lenght (sock s') = 0) else rx_waits (sock s') arr'" "length fut' \<le> length fut" by blast
  moreover have "go \<Longrightarrow> rx_work s' arr' fut' < rx_work s arr fut"
    using r(6) False arg_cong [of "arr' @ fut'" "arr @ fut" length]
    by (auto simp: rx_work_def simp del: append_assoc length_append)
  ultimately show ?thesis
    by (intro exI [of _ go] exI [of _ s'] exI [of _ arr'] exI [of _ fut'] exI [of _ new]
        exI [of _ gs] conjI) (simp_all split: if_splits)
next
  case True
  have at: "rx_at os s arr fut" using inv by (simp add: rx_inv_def)
  from recvLoop_begin_stream [OF at True] show ?thesis
  proof (elim disjE exE conjE)
    fix s' arr' fut'
    assume s': "recvLoop_begin os s = (Inr False, s')" "rx_at os s' arr' fut'" "rx_same (sock s) (sock s')"
      "rx_msg (sock s') = None" "rx_lenght (sock s') = 0" "arr' @ fut' = arr @ fut" "length arr' < 4"
      "length fut' \<le> length fut"
    have part: "rx_partial (sock s) = []" using inv True
      by (auto simp: rx_inv_def rx_ok_def rx_partial_def split: option.splits)
    have step: "recvLoop_step os s = (Inr False, s')" using s'(1) by (simp add: recvLoop_step_def)
    have "rx_inv os s' arr' fut' fs rest"
      using inv part s' by (simp add: rx_inv_def rx_ok_def rx_partial_def)
    moreover have "rx_waits (sock s') arr'"
      using s' by (simp add: rx_waits_def rx_partial_def frames.simps)
    ultimately show ?thesis
      unfolding step using s'
      by (intro exI [of _ False] exI [of _ s'] exI [of _ arr'] exI [of _ fut'] exI [of _ "[]"]
          exI [of _ fs] conjI) (simp_all add: rx_same_def)
  next
    fix s1 m bs a1 f1
    assume s1: "recvLoop_begin os s = (Inr True, s1)" "rx_at os s1 a1 f1" "rx_same (sock s) (sock s1)"
      "rx_msg (sock s1) = Some m" "rx_lenght (sock s1) = 4" "rx_state (sock s1) = rx_state (sock s)"
      "rx_wire m 4 = bs" "length bs = 4" "bs @ a1 @ f1 = arr @ fut"
      "length f1 \<le> length fut"
    have inv1: "rx_inv os s1 a1 f1 fs rest"
      by (rule rx_inv_begun [OF inv True s1(2,4,5)]) (use s1 in simp)
    have st1: "rx_state (sock s1) = RX_DATA" using s1 st by simp
    have step: "recvLoop_step os s = recvLoop_rest os m s1"
      using s1(1,4) by (simp add: recvLoop_step_def andThen_def)
    from recvLoop_rest_stream [OF inv1 s1(4) st1] obtain go s' arr' fut' new gs where
      r: "recvLoop_rest os m s1 = (Inr go, s')" "rx_inv os s' arr' fut' gs rest"
      "fs = map wire_of_msg new @ gs" "rx_fifo (sock s') = rx_fifo (sock s1) @ new"
      "socket_descr (sock s') = socket_descr (sock s1)"
      "if go then rx_state (sock s') = RX_DATA \<and> (length (arr' @ fut') < length (a1 @ f1)
         \<or> arr' @ fut' = a1 @ f1 \<and> rx_lenght (sock s') = 0) else rx_waits (sock s') arr'" "length fut' \<le> length f1" by blast
    have len: "length (arr @ fut) = 4 + length (a1 @ f1)"
      using s1(8,9) by (metis length_append)
    have "go \<Longrightarrow> rx_work s' arr' fut' < rx_work s arr fut"
      using r(6) len arg_cong [of "arr' @ fut'" "a1 @ f1" length]
      by (auto simp: rx_work_def simp del: append_assoc length_append)
    with r s1(3,10) show ?thesis
      unfolding step
      by (intro exI [of _ go] exI [of _ s'] exI [of _ arr'] exI [of _ fut'] exI [of _ new]
          exI [of _ gs] conjI) (auto simp: rx_same_def split: if_splits)
  qed
qed

lemma recvLoop_stream:
  assumes "rx_inv os s arr fut fs rest" and "rx_state (sock s) = RX_DATA"
  shows "\<exists>s' arr' fut' new gs. recvLoop os s = Some (Inr (), s') \<and> rx_inv os s' arr' fut' gs rest
    \<and> fs = map wire_of_msg new @ gs \<and> rx_fifo (sock s') = rx_fifo (sock s) @ new
    \<and> socket_descr (sock s') = socket_descr (sock s)
    \<and> rx_waits (sock s') arr' \<and> length fut' \<le> length fut"
  using assms
proof (induction "rx_work s arr fut" arbitrary: s arr fut fs rule: less_induct)
  case less
  from recvLoop_step_stream [OF less.prems] obtain go s1 a1 f1 n1 g1 where
    r: "recvLoop_step os s = (Inr go, s1)" "rx_inv os s1 a1 f1 g1 rest"
    "fs = map wire_of_msg n1 @ g1" "rx_fifo (sock s1) = rx_fifo (sock s) @ n1"
    "socket_descr (sock s1) = socket_descr (sock s)"
    "if go then rx_state (sock s1) = RX_DATA \<and> rx_work s1 a1 f1 < rx_work s arr fut
       else rx_waits (sock s1) a1" "length f1 \<le> length fut" by blast
  have un: "recvLoop os s = (if go then recvLoop os s1 else Some (Inr (), s1))"
    using less.prems(2) r(1) by (simp add: recvLoop.simps [of os s])
  show ?case
  proof (cases go)
    case True
    with r have "rx_state (sock s1) = RX_DATA" "rx_work s1 a1 f1 < rx_work s arr fut" by simp_all
    from less.hyps [OF this(2) r(2) this(1)] obtain s' arr' fut' new gs where
      "recvLoop os s1 = Some (Inr (), s')" "rx_inv os s' arr' fut' gs rest"
      "g1 = map wire_of_msg new @ gs" "rx_fifo (sock s') = rx_fifo (sock s1) @ new"
      "socket_descr (sock s') = socket_descr (sock s1)"
      "rx_waits (sock s') arr'" "length fut' \<le> length f1" by blast
    with r un True show ?thesis
      by (intro exI [of _ s'] exI [of _ arr'] exI [of _ fut'] exI [of _ "n1 @ new"] exI [of _ gs]) simp
  next
    case False
    with r un show ?thesis
      by (intro exI [of _ s1] exI [of _ a1] exI [of _ f1] exI [of _ n1] exI [of _ g1]) simp
  qed
qed

text \<open>A call of \<^verbatim>\<open>recvNextData\<close> on a stream of well formed frames.\<close>

lemma recvNextData_stream:
  assumes "rx_inv os s arr fut fs rest"
  shows "\<exists>s' arr' fut' new gs. recvNextData os s = Some (Inr (rx_fifo (sock s) @ new \<noteq> []), s')
    \<and> rx_inv os s' arr' fut' gs rest
    \<and> fs = map wire_of_msg new @ gs \<and> rx_fifo (sock s') = rx_fifo (sock s) @ new
    \<and> rx_waits (sock s') arr' \<and> length fut' \<le> length fut"
proof -
  have "rx_inv os (s\<lparr>sock := (sock s)\<lparr>rx_state := RX_DATA\<rparr>\<rparr>) arr fut fs rest"
    using assms by (simp add: rx_inv_def rx_at_def rx_ok_def rx_partial_def split: option.splits)
  from recvLoop_stream [OF this] show ?thesis
    by (fastforce simp: recvNextData_def)
qed

section \<open>From the sender's chunks to the receiver's messages\<close>

lemma load32_read4: "read_bytes m 0 4 = read_bytes m' 0 4 \<Longrightarrow> load32 m 0 = load32 m' 0"
  by (rule load32_cong) (metis add_0 nth_read_bytes)

lemma length_header_bytes [simp]: "length (header_bytes i len dir pad) = 8"
  by (simp add: header_bytes_def wire16_def wire32_def)

lemma sint_wire_length:
  "0 \<le> len \<Longrightarrow> len \<le> 8200 \<Longrightarrow> sint (word_of_int len :: 32 word) = len"
  by (simp add: sint_sbintrunc' signed_take_bit_int_eq_self)

lemma wire_length_header:
  assumes "0 \<le> len" and "len \<le> 8200"
  shows "wire_length (header_bytes i len dir pad @ bs) = len"
proof -
  have "take 4 (header_bytes i len dir pad @ bs) = wire32 (word_of_int len)"
    by (simp add: header_bytes_def wire32_def)
  moreover have "load32 (write_bytes (\<lambda>_. 0) 0 (wire32 w)) 0 = htonl w" for w
  proof -
    have "read_bytes (write_bytes (\<lambda>_. 0) 0 (wire32 w)) 0 4 = wire32 w"
      using read_write_bytes [of "\<lambda>_. 0" 0 "wire32 w"] by (simp add: wire32_def)
    then have "load32 (write_bytes (\<lambda>_. 0) 0 (wire32 w)) 0 = load32 (store32 (\<lambda>_. 0) 0 (htonl w)) 0"
      by (intro load32_read4) (simp add: wire32_def)
    then show ?thesis by simp
  qed
  ultimately show ?thesis using assms by (simp add: wire_length_def sint_wire_length)
qed

definition msg_wire :: "TransferDirection \<Rightarrow> byte \<Rightarrow> ClientServerL1MessageId \<times> mem \<times> nat \<Rightarrow> byte list" where
  "msg_wire dir pad p = concat (msg_chunks dir pad p)"

lemma frames_msg_wire:
  assumes "msg_ok p"
  shows "frames (msg_wire dir pad p @ bs) = map_option (apfst ((#) (msg_wire dir pad p))) (frames bs)"
proof -
  obtain i m n where p: "p = (i, m, n)" by (cases p)
  have n: "0 < n" "n < 8192" using assms p by (simp_all add: msg_ok_def)
  let ?w = "header_bytes i (int n + 8) dir pad @ read_bytes m 0 n"
  have w: "msg_wire dir pad p = ?w" by (simp add: msg_wire_def msg_chunks_def p)
  have l: "length ?w = n + 8" by simp
  have wl: "wire_length (?w @ bs) = int n + 8" using n by (simp add: wire_length_header)
  have "nat (int n + 8) = n + 8" by simp
  then show ?thesis
    unfolding w using n l wl
    by (subst frames.simps) (simp add: Let_def del: append_assoc)
qed

lemma frames_msgs:
  "\<forall>p \<in> set ps. msg_ok p \<Longrightarrow>
   frames (concat (map (msg_wire dir pad) ps)) = Some (map (msg_wire dir pad) ps, [])"
  by (induction ps) (simp_all add: frames_msg_wire, simp add: frames.simps)

text \<open>A received message carries what was sent: identity, length, direction and body.\<close>

definition carries :: "TransferDirection \<Rightarrow> mem \<Rightarrow> ClientServerL1MessageId \<times> mem \<times> nat \<Rightarrow> bool" where
  "carries dir m p = (case p of (i, b, n) \<Rightarrow> l1_id m = id_val i \<and> l1_lenght m = int n + 8
     \<and> m 6 = direction_val dir \<and> read_bytes (l1_body m) 0 n = read_bytes b 0 n)"

lemma carries_wire:
  assumes w: "wire_of_msg m = msg_wire dir pad p" and ok: "msg_ok p"
  shows "carries dir m p"
proof -
  obtain i b n where p: "p = (i, b, n)" by (cases p)
  have n: "0 < n" "n < 8192" using ok p by (simp_all add: msg_ok_def)
  define x where "x = store32 (msg_to_host m) 0 (htonl (load32 m 0))"
  define N where "N = nat (l1_lenght m)"
  have eq: "read_bytes x 0 N = header_bytes i (int n + 8) dir pad @ read_bytes b 0 n"
    using w by (simp add: wire_of_msg_def rx_wire_def x_def N_def p msg_wire_def msg_chunks_def
        msg_to_host_def)
  have N: "N = n + 8" using arg_cong [OF eq, of length] by simp
  have nth: "x k = (header_bytes i (int n + 8) dir pad @ read_bytes b 0 n) ! k" if "k < n + 8" for k
  proof -
    have "read_bytes x 0 N ! k = x k" using that N by simp
    then show ?thesis using eq by simp
  qed
  have x: "x 4 = m 5" "x 5 = m 4" "x 6 = m 6" "\<And>k. 8 \<le> k \<Longrightarrow> x k = m k"
    by (simp_all add: x_def store32_other msg_to_host_def store16_def htons_def load16_def)
  have len: "length (wire32 v) = 4" for v by (simp add: wire32_def)
  have h: "(header_bytes i (int n + 8) dir pad @ ys) ! 4 = ucast (drop_bit 8 (id_val i))"
    "(header_bytes i (int n + 8) dir pad @ ys) ! 5 = ucast (id_val i)"
    "(header_bytes i (int n + 8) dir pad @ ys) ! 6 = direction_val dir" for ys
    by (simp_all add: header_bytes_def nth_append len wire16_def)
  have "l1_id m = id_val i"
    using nth [of 4] nth [of 5] h x(1,2) by (simp add: l1_id_def load16_def split_cat16)
  moreover have "m 6 = direction_val dir" using nth [of 6] h x(3) by simp
  moreover have "read_bytes (l1_body m) 0 n = read_bytes b 0 n"
  proof -
    have "m (8 + k) = b k" if "k < n" for k
      using nth [of "8 + k"] x(4) [of "8 + k"] that by (simp add: nth_append)
    then show ?thesis by (simp add: read_bytes_def l1_body_def)
  qed
  moreover have "l1_lenght m = int n + 8" using N n by (simp add: N_def)
  ultimately show ?thesis by (simp add: carries_def p)
qed

lemma map_eq_list_all2:
  "map f xs = map g ys \<Longrightarrow> (\<And>x y. f x = g y \<Longrightarrow> y \<in> set ys \<Longrightarrow> R x y) \<Longrightarrow> list_all2 R xs ys"
  by (induction xs arbitrary: ys) (auto simp: map_eq_Cons_conv Cons_eq_map_conv)

text \<open>The messages taken off a stream that starts at a message boundary and carries the messages \<open>ps\<close>.\<close>

lemma recv_msgs:
  assumes ok: "\<forall>p \<in> set ps. msg_ok p" and at: "rx_at os s arr fut"
    and eq: "arr @ fut = concat (map (msg_wire dir pad) ps)"
    and empty: "rx_msg (sock s) = None" "rx_lenght (sock s) = 0"
  shows "\<exists>s' new qs rs arr' fut'. recvNextData os s = Some (Inr (rx_fifo (sock s) @ new \<noteq> []), s')
    \<and> rx_fifo (sock s') = rx_fifo (sock s) @ new \<and> ps = qs @ rs \<and> list_all2 (carries dir) new qs
    \<and> (fut = [] \<longrightarrow> rs = [])
    \<and> rx_inv os s' arr' fut' (map (msg_wire dir pad) rs) []"
proof -
  have "frames (rx_partial (sock s) @ arr @ fut) = Some (map (msg_wire dir pad) ps, [])"
    using empty eq frames_msgs [OF ok] by (simp add: rx_partial_def)
  then have inv: "rx_inv os s arr fut (map (msg_wire dir pad) ps) []"
    using at empty by (simp add: rx_inv_def rx_ok_def)
  from recvNextData_stream [OF inv] obtain s' arr' fut' new gs where
    r: "recvNextData os s = Some (Inr (rx_fifo (sock s) @ new \<noteq> []), s')" "rx_inv os s' arr' fut' gs []"
    "map (msg_wire dir pad) ps = map wire_of_msg new @ gs"
    "rx_fifo (sock s') = rx_fifo (sock s) @ new" "rx_waits (sock s') arr'" "length fut' \<le> length fut"
    by blast
  obtain qs rs where q: "ps = qs @ rs" "map wire_of_msg new = map (msg_wire dir pad) qs"
    "gs = map (msg_wire dir pad) rs"
    using r(3) [symmetric] unfolding append_eq_map_conv by blast
  have "carries dir x y" if "wire_of_msg x = msg_wire dir pad y" "y \<in> set qs" for x y
    using that carries_wire ok q(1) by auto
  then have "list_all2 (carries dir) new qs"
    by (rule map_eq_list_all2 [OF q(2)])
  moreover have "rs = []" if "fut = []"
    using that r(2,5,6) q(3) by (simp add: rx_inv_def rx_waits_def)
  ultimately show ?thesis using r q by blast
qed

section \<open>Malformed lengths\<close>

lemma recv_begun:
  assumes at: "rx_at os s arr []" and "4 \<le> length arr"
    and empty: "rx_msg (sock s) = None" "rx_lenght (sock s) = 0"
  obtains s1 m where "recvLoop_begin os s = (Inr True, s1)" and "rx_at os s1 (drop 4 arr) []"
    and "rx_msg (sock s1) = Some m" and "rx_lenght (sock s1) = 4" and "l1_lenght m = wire_length arr"
proof -
  from recvLoop_begin_stream [OF at empty(2)] show thesis
  proof (elim disjE exE conjE)
    fix s' arr' fut'
    assume "arr' @ fut' = arr @ []" "length arr' < 4" "length fut' \<le> length ([] :: byte list)"
    then show thesis using assms(2) by simp
  next
    fix s1 m bs a1 f1
    assume s1: "recvLoop_begin os s = (Inr True, s1)" "rx_at os s1 a1 f1"
      "rx_msg (sock s1) = Some m" "rx_lenght (sock s1) = 4"
      "rx_wire m 4 = bs" "length bs = 4" "bs @ a1 @ f1 = arr @ []" "length f1 \<le> length ([] :: byte list)"
    then have "a1 = drop 4 arr" "f1 = []" "l1_lenght m = wire_length arr"
      by (auto simp flip: wire_length_rx_wire [of 4 m] simp: wire_length_append)
    with s1 show thesis by (intro that [of s1 m]) simp_all
  qed
qed

lemma recvNextData_bad_rest:
  assumes at: "rx_at os s arr []" and len: "4 \<le> length arr"
    and empty: "rx_msg (sock s) = None" "rx_lenght (sock s) = 0"
    and bad: "\<And>s1 m. rx_at os s1 (drop 4 arr) [] \<Longrightarrow> rx_lenght (sock s1) = 4 \<Longrightarrow> l1_lenght m = wire_length arr
       \<Longrightarrow> \<exists>s2. recvLoop_rest os m s1 = (Inl e, s2) \<and> P (sock s2)"
    and e: "\<And>n. e \<noteq> SocketDisconnection n"
  shows "\<exists>s'. recvNextData os s = Some (Inl e, s') \<and> P (sock s')"
proof -
  let ?s = "s\<lparr>sock := (sock s)\<lparr>rx_state := RX_DATA\<rparr>\<rparr>"
  have "rx_at os ?s arr []" using at by (simp add: rx_at_def)
  from recv_begun [OF this len] empty obtain s1 m where
    s1: "recvLoop_begin os ?s = (Inr True, s1)" "rx_at os s1 (drop 4 arr) []"
    "rx_msg (sock s1) = Some m" "rx_lenght (sock s1) = 4" "l1_lenght m = wire_length arr"
    by auto
  from bad [OF s1(2,4,5)] obtain s2 where "recvLoop_rest os m s1 = (Inl e, s2)" and P: "P (sock s2)" by blast
  with s1 have "recvLoop_step os ?s = (Inl e, s2)" by (simp add: recvLoop_step_def andThen_def)
  then have "recvLoop os ?s = Some (Inl e, s2)" by (simp add: recvLoop.simps [of os ?s])
  then show ?thesis using e P by (cases e) (auto simp: recvNextData_def)
qed

lemma recvNextData_overflow:
  assumes at: "rx_at os s arr []" and "rx_msg (sock s) = None" "rx_lenght (sock s) = 0"
    and len: "8200 < length arr" and L: "8200 < wire_length arr"
  shows "\<exists>s'. recvNextData os s = Some (Inl Undefined, s') \<and> 8200 < rx_lenght (sock s')"
proof (rule recvNextData_bad_rest [OF at _ assms(2,3), where P = "\<lambda>x. 8200 < rx_lenght x"])
  fix s1 m
  assume at1: "rx_at os s1 (drop 4 arr) []" and rx: "rx_lenght (sock s1) = 4" and m: "l1_lenght m = wire_length arr"
  define n where "n = nat (wire_length arr - 4)"
  have n: "wire_length arr - 4 = int n" "8196 < n" using L by (simp_all add: n_def)
  then have "0 < n" by simp
  with at1 [unfolded rx_at_def] show "\<exists>s2. recvLoop_rest os m s1 = (Inl Undefined, s2) \<and> 8200 < rx_lenght (sock s2)"
  proof (cases rule: socketReceive_stream [where peek = False])
    case (Empty k')
    then show ?thesis using len by simp
  next
    case (Data j k')
    define bs where "bs = take n (drop 4 arr)"
    have "socketReceive os n False s1 = (Inr (int (length bs), bs), s1\<lparr>kern := k'\<rparr>)"
      using Data(2) by (simp add: bs_def)
    moreover have "8196 < length bs" using n len by (simp add: bs_def)
    moreover from this have "bs \<noteq> []" by auto
    ultimately show ?thesis
      using rx m n by (simp add: recvLoop_rest_def Let_def andThen_def)
  qed
qed (use len in simp_all)

lemma recvNextData_short:
  assumes at: "rx_at os s arr []" and "rx_msg (sock s) = None" "rx_lenght (sock s) = 0"
    and len: "4 \<le> length arr" and L: "wire_length arr < 4" "4 - 2 ^ 31 \<le> wire_length arr"
  shows "\<exists>s'. recvNextData os s = Some (Inl AssertFailed, s')"
  by (rule recvNextData_bad_rest [OF at len assms(2,3), where P = "\<lambda>_. True", simplified])
    (use L in \<open>auto simp: recvLoop_rest_def Let_def andThen_def assertS_def\<close>)

section \<open>Sample kernels\<close>

text \<open>A kernel that accepts every \<^verbatim>\<open>send\<close> and logs the chunks, one whose socket buffer is full, one
  whose peer is gone.\<close>

definition logging_os :: "byte list list os" where
  "logging_os = failing_os\<lparr>os_send := \<lambda>fd b log. (Inr (length b), log @ [b])\<rparr>"

definition full_os :: "unit os" where
  "full_os = failing_os\<lparr>os_send := \<lambda>fd b k. (Inl EWOULDBLOCK, k)\<rparr>"

definition gone_os :: "unit os" where
  "gone_os = failing_os\<lparr>os_send := \<lambda>fd b k. (Inl ECONNRESET, k)\<rparr>"

text \<open>A kernel that takes at most \<open>c\<close> bytes at a time and logs them.\<close>

definition chunk_os :: "nat \<Rightarrow> byte list os" where
  "chunk_os c = failing_os\<lparr>os_send := \<lambda>fd b log. (Inr (min c (length b)), log @ take c b)\<rparr>"

text \<open>A kernel with a buffer of arrived bytes and nothing under way.\<close>

definition buffer_os :: "byte list os" where
  "buffer_os = failing_os\<lparr>os_recv := \<lambda>fd n peek k.
     (if k = [] then (Inl EWOULDBLOCK, k) else (Inr (take n k), if peek then k else drop n k))\<rparr>"

lemma buffer_stream: "stream_at buffer_os fd k [] k"
proof (rule stream_at.coinduct [where X = "\<lambda>arr fut k. arr = k \<and> fut = []"])
  fix arr fut k :: "byte list"
  assume k: "arr = k \<and> fut = []"
  have "\<exists>j k'. os_recv buffer_os fd n peek k
        = (if arr @ take j fut = [] then Inl EWOULDBLOCK else Inr (take n (arr @ take j fut)), k')
      \<and> ((if peek then arr @ take j fut else drop n (arr @ take j fut)) = k' \<and> drop j fut = []
         \<or> stream_at buffer_os fd (if peek then arr @ take j fut else drop n (arr @ take j fut)) (drop j fut) k')"
    for n peek
    using k by (intro exI [of _ 0] exI [of _ "if peek then k else drop n k"]) (auto simp: buffer_os_def)
  moreover have "arr = snd (os_new buffer_os k)" using k by (simp add: buffer_os_def failing_os_def)
  ultimately show "\<exists>k' arr' fut'. arr = arr' \<and> fut = fut' \<and> k = k' \<and>
     (\<forall>n peek. 0 < n \<longrightarrow> (\<exists>j k''. os_recv buffer_os fd n peek k'
        = (if arr' @ take j fut' = [] then Inl EWOULDBLOCK else Inr (take n (arr' @ take j fut')), k'')
      \<and> ((if peek then arr' @ take j fut' else drop n (arr' @ take j fut')) = k'' \<and> drop j fut' = []
         \<or> stream_at buffer_os fd (if peek then arr' @ take j fut' else drop n (arr' @ take j fut')) (drop j fut') k'')))
     \<and> (arr' = snd (os_new buffer_os k') \<and> fut' = [] \<or> stream_at buffer_os fd arr' fut' (snd (os_new buffer_os k')))"
    using k by blast
qed simp

definition sample_socket :: "request list \<Rightarrow> MsgSocket" where
  "sample_socket rs = (new_MsgSocket ServerSocket_class \<lparr>s_addr = 0, sin_port = 0\<rparr> 5 FROM_SERVER (\<lambda>_. 0))
     \<lparr>tx_fifo := rs\<rparr>"

definition sample_ctx :: "'k \<Rightarrow> request list \<Rightarrow> 'k sock_ctx" where
  "sample_ctx k rs = \<lparr>kern = k, errno = 0, sock = sample_socket rs\<rparr>"

lemma sample_ctx_sel [simp]: "kern (sample_ctx k rs) = k" "sock (sample_ctx k rs) = sample_socket rs"
  by (simp_all add: sample_ctx_def)

lemma sample_socket_sel [simp]:
  "socket_descr (sample_socket rs) = 5" "from_dir (sample_socket rs) = FROM_SERVER"
  "tx_header (sample_socket rs) 7 = 0" "tx_fifo (sample_socket rs) = rs" "tx_req_ptr (sample_socket rs) = None"
  "tx_clear (sample_socket rs)" "rx_msg (sample_socket rs) = None" "rx_lenght (sample_socket rs) = 0"
  "rx_fifo (sample_socket rs) = []" "tx_msg (sample_socket rs) = None"
  by (simp_all add: sample_socket_def new_MsgSocket_def rxReset_def tx_clear_def)

definition sample_msgs :: "(ClientServerL1MessageId \<times> mem \<times> nat) list" where
  "sample_msgs = [(REGISTRATION_CNF, \<lambda>_. 3, 1), (POLL_REQ, \<lambda>i. of_nat i, 4)]"

lemma sample_msgs_ok: "\<forall>p \<in> set sample_msgs. msg_ok p" "\<forall>p \<in> set sample_msgs. snd (snd p) \<noteq> 11"
  by (simp_all add: sample_msgs_def msg_ok_def)

lemma sample_idle: "tx_idle sample_msgs (sample_socket (map msg_request sample_msgs))"
  using sample_msgs_ok by (simp add: tx_idle_def)

lemma logging_sent: "sent_all logging_os fd log cs (log @ cs)"
proof (induction cs arbitrary: log)
  case (Cons c cs)
  have "os_send logging_os fd c log = (Inr (length c), log @ [c])" by (simp add: logging_os_def)
  with Cons.IH [of "log @ [c]"] show ?case by simp
qed simp

lemma wire_length_wire32: "wire_length (wire32 w @ bs) = sint w"
proof -
  have "read_bytes (write_bytes (\<lambda>_. 0) 0 (wire32 w)) 0 4 = wire32 w"
    using read_write_bytes [of "\<lambda>_. 0" 0 "wire32 w"] by (simp add: wire32_def)
  then have "load32 (write_bytes (\<lambda>_. 0) 0 (wire32 w)) 0 = load32 (store32 (\<lambda>_. 0) 0 (htonl w)) 0"
    by (intro load32_read4) (simp add: wire32_def)
  then show ?thesis by (simp add: wire_length_def wire32_def)
qed

section \<open>Properties\<close>

text \<open>
  C3. Serving a writable socket sends the queued messages in the order of \<^verbatim>\<open>sendMsg\<close>, each as its
  header (big-endian total length and identity, direction) followed by its body, and nothing else;
  every call but the last returns 1 and the last, with the queue empty, 0. This supposes that the kernel takes
  every header and every body whole, and that no body has 11 bytes; without the first supposition see C36 and
  C38, without the second C36.
\<close>

theorem sendNextData_fifo:
  assumes "tx_idle ps (sock s)" and "\<forall>p \<in> set ps. snd (snd p) \<noteq> 11"
    and "sent_all os (socket_descr (sock s)) (kern s)
           (concat (map (msg_chunks (from_dir (sock s)) (tx_header (sock s) 7)) ps)) k"
  shows "\<exists>s'. serve (length ps + 1) os s = Some (replicate (length ps) 1 @ [0], s')
    \<and> kern s' = k \<and> tx_idle [] (sock s')"
  using serve_idle [OF assms] by blast

lemma sendNextData_fifo_witness:
  "\<exists>s'. serve 3 logging_os (sample_ctx [] (map msg_request sample_msgs)) = Some ([1, 1, 0], s')
     \<and> kern s' = concat (map (msg_chunks FROM_SERVER 0) sample_msgs)"
proof -
  let ?s = "sample_ctx [] (map msg_request sample_msgs) :: byte list list sock_ctx"
  have "sent_all logging_os (socket_descr (sock ?s)) (kern ?s)
      (concat (map (msg_chunks (from_dir (sock ?s)) (tx_header (sock ?s) 7)) sample_msgs))
      (concat (map (msg_chunks FROM_SERVER 0) sample_msgs))"
    using logging_sent [of 5 "[]"] by simp
  moreover have "tx_idle sample_msgs (sock ?s)" using sample_idle by simp
  moreover have n: "length sample_msgs + 1 = 3" "replicate (length sample_msgs) 1 @ [0] = [1, 1, 0 :: int]"
    by (simp_all add: sample_msgs_def)
  ultimately show ?thesis
    using sendNextData_fifo [OF _ sample_msgs_ok(2), of ?s logging_os, unfolded n] by blast
qed

text \<open>
  C7. Receiving is the inverse of sending: when the bytes of the queued messages arrive, split in
  whatever pieces and at whatever moments, a call of \<^verbatim>\<open>recvNextData\<close> ends, fails no assertion and
  appends a prefix of the messages, in order and each with its identity, length, direction and
  body; it is all of them when everything had arrived.
\<close>

theorem recvNextData_inverts_send:
  assumes "\<forall>p \<in> set ps. msg_ok p" and "rx_at os s arr fut"
    and "arr @ fut = concat (concat (map (msg_chunks dir pad) ps))"
    and "rx_msg (sock s) = None" and "rx_lenght (sock s) = 0"
  shows "\<exists>s' new qs rs. recvNextData os s = Some (Inr (rx_fifo (sock s) @ new \<noteq> []), s')
    \<and> rx_fifo (sock s') = rx_fifo (sock s) @ new \<and> ps = qs @ rs \<and> list_all2 (carries dir) new qs
    \<and> (fut = [] \<longrightarrow> rs = [])"
proof -
  have "concat (concat (map (msg_chunks dir pad) ps)) = concat (map (msg_wire dir pad) ps)"
    by (induction ps) (simp_all add: msg_wire_def)
  with recv_msgs [OF assms(1,2) _ assms(4,5)] assms(3) show ?thesis by metis
qed

lemma recvNextData_inverts_send_witness:
  "\<exists>s' new. recvNextData buffer_os
       (sample_ctx (concat (concat (map (msg_chunks FROM_CLIENT 9) sample_msgs))) []) = Some (Inr True, s')
     \<and> rx_fifo (sock s') = new \<and> list_all2 (carries FROM_CLIENT) new sample_msgs"
proof -
  let ?arr = "concat (concat (map (msg_chunks FROM_CLIENT 9) sample_msgs))"
  let ?s = "sample_ctx ?arr [] :: byte list sock_ctx"
  have at: "rx_at buffer_os ?s ?arr []" by (simp add: rx_at_def buffer_stream)
  have "rx_msg (sock ?s) = None" "rx_lenght (sock ?s) = 0" by simp_all
  from recvNextData_inverts_send [OF sample_msgs_ok(1) at _ this, of FROM_CLIENT 9]
  obtain s' new where r: "recvNextData buffer_os ?s = Some (Inr (new \<noteq> []), s')"
    "rx_fifo (sock s') = new" "list_all2 (carries FROM_CLIENT) new sample_msgs"
    by auto
  from r(3) have "new \<noteq> []" by (auto simp: sample_msgs_def)
  with r show ?thesis by auto
qed

text \<open>
  C18. Conservation on any stream of well formed frames, from any point of the reception: the bytes of
  the messages queued, of the message under reception and of what has not been read yet are
  always the same stream; the call ends, and stops only where no complete frame has arrived.
\<close>

theorem recvNextData_conserves:
  assumes "rx_inv os s arr fut fs rest"
  shows "\<exists>s' arr' fut' new gs. recvNextData os s = Some (Inr (rx_fifo (sock s) @ new \<noteq> []), s')
    \<and> rx_fifo (sock s') = rx_fifo (sock s) @ new \<and> fs = map wire_of_msg new @ gs
    \<and> rx_inv os s' arr' fut' gs rest \<and> rx_waits (sock s') arr'"
  using recvNextData_stream [OF assms] by blast

lemma recvNextData_conserves_witness:
  "\<exists>s' arr' fut'. recvNextData buffer_os (sample_ctx [0, 0] []) = Some (Inr False, s')
     \<and> rx_inv buffer_os s' arr' fut' [] [0, 0]"
proof -
  have "rx_inv buffer_os (sample_ctx [0, 0] []) [0, 0] [] [] [0, 0]"
    by (simp add: rx_inv_def rx_at_def buffer_stream rx_ok_def rx_partial_def frames.simps)
  from recvNextData_conserves [OF this] obtain s' arr' fut' new gs where
    r: "recvNextData buffer_os (sample_ctx [0, 0] []) = Some (Inr ([] @ new \<noteq> []), s')"
    "[] = map wire_of_msg new @ gs" "rx_inv buffer_os s' arr' fut' gs [0, 0]"
    by auto
  then have "new = []" "gs = []" by simp_all
  with r show ?thesis by (intro exI [of _ s'] exI [of _ arr'] exI [of _ fut']) simp
qed

text \<open>
  C36. A full socket kills the process: when the kernel answers \<^verbatim>\<open>EWOULDBLOCK\<close> to the header or to
  the body (or takes a body of exactly 11 bytes, the number that stands for the error), the call
  reports that the message is still to be sent, and the next call fails its assertion.
\<close>

theorem sendNextData_blocked_aborts:
  assumes "tx_idle ((i, m, n) # ps) (sock s)"
    and "blocked_send os (socket_descr (sock s)) (kern s)
      (header_bytes i (int n + 8) (from_dir (sock s)) (tx_header (sock s) 7)) (read_bytes m 0 n)"
  shows "\<exists>s' s''. sendNextData os s = Some (Inr 1, s') \<and> sendNextData os s' = Some (Inl AssertFailed, s'')"
  using sendNextData_blocked [OF assms] sendNextData_stuck by blast

lemma sendNextData_blocked_aborts_witness:
  "\<exists>s' s''. sendNextData full_os (sample_ctx () (map msg_request sample_msgs)) = Some (Inr 1, s')
     \<and> sendNextData full_os s' = Some (Inl AssertFailed, s'')"
proof -
  have "tx_idle ((REGISTRATION_CNF, \<lambda>_. 3, 1) # [(POLL_REQ, \<lambda>i. of_nat i, 4)])
      (sock (sample_ctx () (map msg_request sample_msgs)))"
    using sample_idle by (simp add: sample_msgs_def)
  from sendNextData_blocked_aborts [OF this, of full_os] show ?thesis
    by (simp add: blocked_send_def full_os_def)
qed

text \<open>
  C38. Short writes. When the kernel takes \<open>a\<close> bytes of the 8 of the header and then \<open>b\<close> of the bytes it is offered
  next, the message counts as sent if the two numbers add up to its length, although for \<open>a\<close> below 8 the end
  of the header is missing on the wire and bytes behind the body are sent instead; else the process aborts
  in the same call, because the request already counts as served. A body of which exactly 11 bytes are taken is the case of C36.
\<close>

theorem sendNextData_short_writes:
  assumes "tx_idle ((i, m, n) # ps) (sock s)"
    and "os_send os (socket_descr (sock s))
      (header_bytes i (int n + 8) (from_dir (sock s)) (tx_header (sock s) 7)) (kern s) = (Inr a, k1)"
    and "os_send os (socket_descr (sock s)) (read_bytes m 0 (n + 8 - a)) k1 = (Inr b, k2)"
    and "a \<le> 8" and "n + 8 - a \<le> 8192" and "b \<le> n + 8 - a" and "b \<noteq> 11"
  shows "\<exists>s'. kern s' = k2 \<and> (if a + b = n + 8
    then sendNextData os s = Some (Inr 1, s') \<and> tx_idle ps (sock s')
    else sendNextData os s = Some (Inl AssertFailed, s'))"
  by (rule sendNextData_short [OF assms])

lemma sendNextData_short_writes_witness:
  "\<exists>s' s''. sendNextData (chunk_os 5) (sample_ctx [] (map msg_request [(POLL_REQ, \<lambda>i. of_nat i, 2)])) = Some (Inr 1, s')
     \<and> kern s' = take 5 (header_bytes POLL_REQ 10 FROM_SERVER 0) @ [0, 1, 2, 3, 4]
     \<and> sendNextData (chunk_os 8) (sample_ctx [] (map msg_request [(POLL_REQ, \<lambda>i. of_nat i, 20)]))
         = Some (Inl AssertFailed, s'')"
proof -
  define m :: mem where "m = (\<lambda>i. of_nat i)"
  let ?p = "(POLL_REQ, m, 2)" and ?q = "(POLL_REQ, m, 20)"
  have idle: "tx_idle [?p] (sock (sample_ctx [] (map msg_request [?p])))"
    "tx_idle [?q] (sock (sample_ctx [] (map msg_request [?q])))"
    by (simp_all add: tx_idle_def msg_ok_def)
  have len: "length (header_bytes POLL_REQ l FROM_SERVER 0) = 8" for l
    by (simp add: header_bytes_def wire16_def wire32_def)
  have b: "read_bytes m 0 5 = [0, 1, 2, 3, 4]" by (simp add: m_def read_bytes_def upt_conv_Cons)
  from sendNextData_short_writes [OF idle(1), of "chunk_os 5" 5 "take 5 (header_bytes POLL_REQ 10 FROM_SERVER 0)" 5]
  obtain s' where "sendNextData (chunk_os 5) (sample_ctx [] (map msg_request [?p])) = Some (Inr 1, s')"
    "kern s' = take 5 (header_bytes POLL_REQ 10 FROM_SERVER 0) @ [0, 1, 2, 3, 4]"
    by (auto simp: chunk_os_def len b)
  moreover from sendNextData_short_writes [OF idle(2), of "chunk_os 8" 8 "header_bytes POLL_REQ 28 FROM_SERVER 0" 8]
  obtain s'' where "sendNextData (chunk_os 8) (sample_ctx [] (map msg_request [?q])) = Some (Inl AssertFailed, s'')"
    by (auto simp: chunk_os_def len)
  ultimately show ?thesis unfolding m_def by blast
qed

text \<open>
  C37. When the peer is found gone (\<^verbatim>\<open>ECONNRESET\<close> and the other disconnection errors), at the header of a message or
  at its body, the call throws \<^verbatim>\<open>socket_disconnection\<close> with the error number and leaves both queues and both
  partial messages empty, but the request under emission is kept, marked as sent. \<^verbatim>\<open>EPIPE\<close> is left out: there the
  signal \<^verbatim>\<open>SIGPIPE\<close>, which nothing ignores, ends the process before \<^verbatim>\<open>send\<close> returns.
\<close>

theorem sendNextData_disconnection:
  assumes "tx_idle ((i, m, n) # ps) (sock s)"
    and "broken_send os (socket_descr (sock s)) (kern s)
      (header_bytes i (int n + 8) (from_dir (sock s)) (tx_header (sock s) 7)) (read_bytes m 0 n) e"
    and "getTxErrorType e = ERR_DISCONNECTED" and "e \<noteq> EPIPE"
  shows "\<exists>s'. sendNextData os s = Some (Inl (SocketDisconnection e), s')
    \<and> tx_fifo (sock s') = [] \<and> rx_fifo (sock s') = [] \<and> tx_clear (sock s') \<and> rx_lenght (sock s') = 0
    \<and> tx_req_ptr (sock s') = Some (served_request (i, m, n))"
  by (rule sendNextData_disconnected [OF assms(1-3)])

text \<open>A kernel that takes a header and then finds the peer gone.\<close>

definition half_gone_os :: "nat os" where
  "half_gone_os = failing_os\<lparr>os_send := \<lambda>fd b k. (if k = 0 then Inr (length b) else Inl ECONNRESET, Suc k)\<rparr>"

lemma sendNextData_disconnection_witness:
  "(\<exists>s'. sendNextData gone_os (sample_ctx () (map msg_request sample_msgs))
      = Some (Inl (SocketDisconnection 104), s') \<and> tx_fifo (sock s') = [])
   \<and> (\<exists>s'. sendNextData half_gone_os (sample_ctx 0 (map msg_request sample_msgs))
      = Some (Inl (SocketDisconnection 104), s') \<and> tx_fifo (sock s') = [])"
proof -
  have idle: "tx_idle ((REGISTRATION_CNF, \<lambda>_. 3, 1) # [(POLL_REQ, \<lambda>i. of_nat i, 4)])
      (sock (sample_ctx k (map msg_request sample_msgs)))" for k :: 'a
    using sample_idle by (simp add: sample_msgs_def)
  have e: "getTxErrorType 104 = ERR_DISCONNECTED" "(104 :: int) \<noteq> EPIPE" by (simp_all add: getTxErrorType_def)
  from sendNextData_disconnection [OF idle _ e, of gone_os "()"]
    sendNextData_disconnection [OF idle _ e, of half_gone_os 0]
  show ?thesis by (auto simp: gone_os_def half_gone_os_def broken_send_def)
qed

text \<open>
  C19. Whatever the kernel answers, a call of \<^verbatim>\<open>sendNextData\<close> on a queue of single messages ends.
\<close>

theorem sendNextData_terminates:
  assumes "tx_msgs (sock s)"
  shows "\<exists>r s'. sendNextData os s = Some (r, s')"
  using sendNextData_ends [OF assms, of os] by (auto simp del: not_None_eq)

lemma sendNextData_terminates_witness:
  "\<exists>r s'. sendNextData full_os (sample_ctx () (map msg_request sample_msgs)) = Some (r, s')"
proof (rule sendNextData_terminates)
  show "tx_msgs (sock (sample_ctx () (map msg_request sample_msgs)))"
    by (simp add: tx_msgs_def sample_msgs_def is_msg_request_def msg_request_def)
qed

text \<open>
  C39. The announced length is trusted: a length over 8200 with that many bytes behind it makes
  \<^verbatim>\<open>_recvLoop\<close> write past the end of the message object, and counts what it wrote there.
\<close>

theorem recvNextData_overlong:
  assumes "rx_at os s arr []" and "rx_msg (sock s) = None" and "rx_lenght (sock s) = 0"
    and "8200 < length arr" and "8200 < wire_length arr"
  shows "\<exists>s'. recvNextData os s = Some (Inl Undefined, s') \<and> 8200 < rx_lenght (sock s')"
  by (rule recvNextData_overflow [OF assms])

lemma recvNextData_overlong_witness:
  "\<exists>s'. recvNextData buffer_os (sample_ctx (wire32 9000 @ replicate 9000 0) []) = Some (Inl Undefined, s')
     \<and> 8200 < rx_lenght (sock s')"
proof -
  let ?arr = "wire32 9000 @ replicate 9000 (0 :: byte)"
  have "wire_length ?arr = 9000" by (simp add: wire_length_wire32)
  moreover have "8200 < length ?arr" by (simp add: wire32_def)
  ultimately show ?thesis
    using recvNextData_overlong [of buffer_os "sample_ctx ?arr []" ?arr]
    by (simp add: rx_at_def buffer_stream)
qed

text \<open>A length below the 4 bytes of the length field itself fails an assertion of the receiver.\<close>

theorem recvNextData_undersized:
  assumes "rx_at os s arr []" and "rx_msg (sock s) = None" and "rx_lenght (sock s) = 0"
    and "4 \<le> length arr" and "wire_length arr < 4" and "4 - 2 ^ 31 \<le> wire_length arr"
  shows "\<exists>s'. recvNextData os s = Some (Inl AssertFailed, s')"
  by (rule recvNextData_short [OF assms])

lemma recvNextData_undersized_witness:
  "\<exists>s'. recvNextData buffer_os (sample_ctx [0, 0, 0, 0] []) = Some (Inl AssertFailed, s')"
proof -
  have "wire_length [0, 0, 0, 0] = 0"
    by (simp add: wire_length_def write_bytes_def load32_def load16_def htonl_def htons_def)
  then show ?thesis
    using recvNextData_undersized [of buffer_os "sample_ctx [0, 0, 0, 0] []" "[0, 0, 0, 0]"]
    by (simp add: rx_at_def buffer_stream)
qed

text \<open>
  The classification of a receive error has two outcomes besides the exceptions, so that the
  FATAL case of the callers is never taken; the client differs from the server exactly in
  ignoring \<^verbatim>\<open>EINTR\<close> while it is connecting.
\<close>

theorem getRxErrorType_outcomes:
  "((\<exists>msg. getRxErrorType x e = Inl (ThrownString msg))
     \<or> getRxErrorType x e = Inr IGNORE \<or> getRxErrorType x e = Inr ERR_DISCONNECTED)
   \<and> (getRxErrorType x e \<noteq> getRxErrorType_base e \<longleftrightarrow>
     sock_class x = ClientSocket_class \<and> sock_state x = SOCK_CONNECTING \<and> e = EINTR)"
  by (auto simp: getRxErrorType_defs split: sock_class.split)

text \<open>
  In the mode of the signals nothing would ever be received: the handler that is installed leaves the socket as it is,
  and the one that marks data as available is not called.
\<close>

lemma or_throw_sock: "or_throw f msg s = (r, t) \<Longrightarrow> sock t = sock s"
  by (auto simp: or_throw_def andThen_def syscall_def split: prod.splits sum.splits)

theorem signals_without_effect:
  "SocketSignalsStaticHandler sig info x = x \<and> sock (snd (socket_configuration_SIGIO os s)) = sock s"
proof -
  have "sock t = sock s" if "socket_configuration_SIGIO os s = (r, t)" for r t
    using that unfolding socket_configuration_SIGIO_def andThen_def
    by (auto dest!: or_throw_sock split: prod.splits sum.splits)
  then show ?thesis by (simp add: SocketSignalsStaticHandler_def prod_eq_iff)
qed

end
