(* ===== verification/ClientSocket.thy ===== *)
theory ClientSocket
  imports MsgSocket
begin

text \<open>
  \<^verbatim>\<open>ClientSocket.cpp\<close> and \<^verbatim>\<open>ServerSocket.cpp\<close>: the constructors, the asynchronous \<^verbatim>\<open>connect\<close> with its
  classification of the error numbers, and \<^verbatim>\<open>poll\<close>, which asks the kernel what the socket is ready
  for and runs the reception and the emission of the base class.
\<close>

section \<open>Constructors and connect\<close>

definition recoverable_connect :: "int set" where
  "recoverable_connect = {ENOBUFS, ENETDOWN, EHOSTUNREACH, ECONNRESET, ECONNREFUSED}"

definition connect_error :: "int \<Rightarrow> unit result" where
  "connect_error err =
    (if err = EINPROGRESS then Inr ()
     else if err = EINTR then Inr ()
     else if err \<in> recoverable_connect then Inl (ThrownString ''::connect() recoverable error '')
     else if err \<in> {EAFNOSUPPORT, EBADF, EPROTOTYPE, ENOTSOCK, EINVAL, EOPNOTSUPP, EALREADY, EISCONN} then Inl AssertFailed
     else if err \<in> {EADDRINUSE, EADDRNOTAVAIL, ETIMEDOUT} then Inl AssertFailed
     else Inl AssertFailed)"

definition connect :: "'k os \<Rightarrow> ('k sock_ctx, unit) stm" where
  "connect os =
    andThen (assertS (\<lambda>s. from_dir (sock s) = FROM_CLIENT)) (\<lambda>_.
    andThen (modSock (\<lambda>x. x\<lparr>sock_state := SOCK_CONNECTING\<rparr>)) (\<lambda>_ s.
    andThen (syscall (os_connect os (socket_descr (sock s)) (peer_ip_addr (sock s)))) (\<lambda>r. case r of
        Inr _ \<Rightarrow> retS ()
      | Inl err \<Rightarrow> (case connect_error err of Inl e \<Rightarrow> failS e | Inr _ \<Rightarrow> retS ())) s))"

lemma connect_eq:
  fixes os :: "'k os"
  shows "connect os =
    andThen (assertS (\<lambda>s. from_dir (sock s) = FROM_CLIENT)) (\<lambda>_.
    andThen (modSock (\<lambda>x. x\<lparr>sock_state := SOCK_CONNECTING\<rparr>)) (\<lambda>_ s.
    andThen (syscall (os_connect os (socket_descr (sock s)) (peer_ip_addr (sock s)))) (\<lambda>r. case r of
        Inr _ \<Rightarrow> retS ()
      | Inl err \<Rightarrow>
          if err = EINPROGRESS \<or> err = EINTR then retS ()
          else if err \<in> recoverable_connect then failS (ThrownString ''::connect() recoverable error '')
          else failS AssertFailed) s))"
proof -
  have "(case connect_error err of Inl e \<Rightarrow> failS e | Inr _ \<Rightarrow> retS ())
    = (if err = EINPROGRESS \<or> err = EINTR then retS () :: ('k sock_ctx, unit) stm
       else if err \<in> recoverable_connect then failS (ThrownString ''::connect() recoverable error '')
       else failS AssertFailed)" for err
    by (simp add: connect_error_def)
  then show ?thesis by (simp only: connect_def)
qed

definition new_ClientSocket :: "'k os \<Rightarrow> sockaddr_in \<Rightarrow> int \<Rightarrow> 'k sys \<Rightarrow> unit result \<times> 'k sock_ctx" where
  "new_ClientSocket os addr fd s = (case os_new os (kern s) of (m, k) \<Rightarrow>
     andThen (socketConfiguration os) (\<lambda>_. connect os)
       \<lparr>kern = k, errno = errno s, sock = new_MsgSocket ClientSocket_class addr fd FROM_CLIENT m\<rparr>)"

definition new_ServerSocket :: "'k os \<Rightarrow> sockaddr_in \<Rightarrow> int \<Rightarrow> 'k sys \<Rightarrow> unit result \<times> 'k sock_ctx" where
  "new_ServerSocket os addr fd s = (case os_new os (kern s) of (m, k) \<Rightarrow>
     socketConfiguration os
       \<lparr>kern = k, errno = errno s, sock = new_MsgSocket ServerSocket_class addr fd FROM_SERVER m\<rparr>)"

section \<open>Poll\<close>

definition poll_events :: "MsgSocket \<Rightarrow> 16 word" where
  "poll_events x = POLLRDNORM OR
     (if tx_fifo x \<noteq> [] \<or> sock_state x = SOCK_CONNECTING then POLLWRNORM else 0)"

definition poll_read :: "'k os \<Rightarrow> 16 word \<Rightarrow> 'k sock_ctx \<Rightarrow> (bool result \<times> 'k sock_ctx) option" where
  "poll_read os revents s =
    (if revents AND POLLRDNORM \<noteq> 0 then recvNextData os s else Some (Inr False, s))"

definition poll_write :: "'k os \<Rightarrow> 16 word \<Rightarrow> 'k sock_ctx \<Rightarrow> (unit result \<times> 'k sock_ctx) option" where
  "poll_write os revents s =
    (if revents AND POLLWRNORM \<noteq> 0 then
       thenO (sendNextData os (if sock_state (sock s) = SOCK_CONNECTING
                               then s\<lparr>sock := setState SOCK_CONNECTED (sock s)\<rparr> else s))
         (\<lambda>_ s'. Some (Inr (), s'))
     else Some (Inr (), s))"

definition poll :: "'k os \<Rightarrow> 'k sock_ctx \<Rightarrow> (bool result \<times> 'k sock_ctx) option" where
  "poll os s =
    thenO (Some (syscall (os_poll os (socket_descr (sock s)) (poll_events (sock s))) s)) (\<lambda>stat s'. case stat of
        Inl e \<Rightarrow> if e = EWOULDBLOCK \<or> e = EINTR then Some (Inr False, s') else Some (Inl AssertFailed, s')
      | Inr None \<Rightarrow> Some (Inr False, s')
      | Inr (Some revents) \<Rightarrow>
          if revents AND POLLHUP \<noteq> 0 then
            Some (Inl (SocketDisconnection 0), s'\<lparr>sock := setState SOCK_DISCONNECTED (sock s')\<rparr>)
          else if revents AND POLLERR \<noteq> 0 then
            thenO (Some (determineErrorType os s')) (\<lambda>_ s''. Some (Inr False, s''))
          else
            thenO (poll_read os revents s') (\<lambda>incoming s1.
            thenO (poll_write os revents s1) (\<lambda>_ s2. Some (Inr incoming, s2))))"

section \<open>Lemmas\<close>

lemma connect_state:
  assumes "from_dir (sock s) = FROM_CLIENT" and "connect os s = (r, s')"
  shows "sock s' = (sock s)\<lparr>sock_state := SOCK_CONNECTING\<rparr>"
  using assms by (auto simp: connect_eq andThen_def assertS_def syscall_def
      split: prod.splits sum.splits if_splits)

lemma poll_simps:
  assumes "os_poll os (socket_descr (sock s)) (poll_events (sock s)) (kern s) = (Inr (Some revents), k)"
  shows "revents AND POLLHUP \<noteq> 0 \<Longrightarrow> poll os s = Some (Inl (SocketDisconnection 0),
      s\<lparr>kern := k, sock := (sock s)\<lparr>sock_state := SOCK_DISCONNECTED\<rparr>\<rparr>)"
    and "revents AND POLLHUP = 0 \<Longrightarrow> revents AND POLLERR = 0 \<Longrightarrow> poll os s =
      thenO (poll_read os revents (s\<lparr>kern := k\<rparr>)) (\<lambda>incoming s1.
      thenO (poll_write os revents s1) (\<lambda>_ s2. Some (Inr incoming, s2)))"
  using assms by (simp_all add: poll_def setState_eq)

section \<open>Properties\<close>

text \<open>
  \<^verbatim>\<open>connect\<close> always leaves the socket connecting; it returns on success, \<^verbatim>\<open>EINPROGRESS\<close> and \<^verbatim>\<open>EINTR\<close>,
  throws on the five recoverable errors and aborts on every other one, \<^verbatim>\<open>EALREADY\<close> included.
\<close>

theorem connect_outcomes:
  assumes "from_dir (sock s) = FROM_CLIENT"
  shows "case os_connect os (socket_descr (sock s)) (peer_ip_addr (sock s)) (kern s) of (r, k) \<Rightarrow>
    sock (snd (connect os s)) = (sock s)\<lparr>sock_state := SOCK_CONNECTING\<rparr>
    \<and> kern (snd (connect os s)) = k
    \<and> fst (connect os s) = (case r of
        Inr _ \<Rightarrow> Inr ()
      | Inl err \<Rightarrow> if err \<in> {EINPROGRESS, EINTR} then Inr ()
          else if err \<in> {ENOBUFS, ENETDOWN, EHOSTUNREACH, ECONNRESET, ECONNREFUSED}
            then Inl (ThrownString ''::connect() recoverable error '')
          else Inl AssertFailed)"
  using assms
  by (auto simp: connect_eq syscall_def andThen_def recoverable_connect_def split: sum.split prod.split)

definition sample_client_socket :: "MsgSocket" where
  "sample_client_socket = new_MsgSocket ClientSocket_class \<lparr>s_addr = 0, sin_port = 0\<rparr> 3 FROM_CLIENT (\<lambda>_. 0)"

definition connecting_os :: "int \<Rightarrow> nat os" where
  "connecting_os err = failing_os\<lparr>os_connect := \<lambda>fd a k. (Inl err, Suc k)\<rparr>"

lemma connect_outcomes_witness:
  "fst (connect (connecting_os EALREADY) \<lparr>kern = 0, errno = 0, sock = sample_client_socket\<rparr>) = Inl AssertFailed"
proof -
  have "from_dir (sock \<lparr>kern = 0 :: nat, errno = 0, sock = sample_client_socket\<rparr>) = FROM_CLIENT"
    by (simp add: sample_client_socket_def new_MsgSocket_def rxReset_def)
  from connect_outcomes [OF this, of "connecting_os EALREADY"] show ?thesis
    by (simp add: connecting_os_def)
qed

text \<open>
  The write event that ends an asynchronous connection: the socket becomes connected and the
  messages queued before the connection was up start to go out in the same call.
\<close>

theorem poll_completes_connection:
  assumes "os_poll os (socket_descr (sock s)) (poll_events (sock s)) (kern s) = (Inr (Some POLLWRNORM), k)"
    and "sock_state (sock s) = SOCK_CONNECTING"
    and "tx_idle (p # ps) (sock s)" and "snd (snd p) \<noteq> 11"
    and "sent_all os (socket_descr (sock s)) k (msg_chunks (from_dir (sock s)) (tx_header (sock s) 7) p) k'"
  shows "poll_events (sock s) = POLLRDNORM OR POLLWRNORM
    \<and> (\<exists>s'. poll os s = Some (Inr False, s') \<and> tx_idle ps (sock s') \<and> kern s' = k')"
proof -
  let ?s = "s\<lparr>kern := k, sock := setState SOCK_CONNECTED (sock s)\<rparr>"
  have idle: "tx_idle (p # ps) (sock ?s)" using assms(3) by (simp add: tx_idle_def setState_eq tx_clear_def)
  have send: "sent_all os (socket_descr (sock ?s)) (kern ?s)
      (msg_chunks (from_dir (sock ?s)) (tx_header (sock ?s) 7) p) k'"
    using assms(5) by (simp add: setState_eq)
  from sendNextData_idle_Cons [OF idle assms(4) send] obtain s' where
    s': "sendNextData os ?s = Some (Inr 1, s')" "tx_idle ps (sock s')" "kern s' = k'" by blast
  have "poll os s = Some (Inr False, s')"
    using poll_simps(2) [OF assms(1)] s'(1) assms(2) by (simp add: poll_read_def poll_write_def)
  with s' assms(2) show ?thesis by (simp add: poll_events_def)
qed

definition writable_os :: "byte list list os" where
  "writable_os = logging_os\<lparr>os_poll := \<lambda>fd events k. (Inr (Some POLLWRNORM), k)\<rparr>"

lemma poll_completes_connection_witness:
  "\<exists>s'. poll writable_os \<lparr>kern = [], errno = 0,
      sock = sample_client_socket\<lparr>sock_state := SOCK_CONNECTING, tx_fifo := map msg_request sample_msgs\<rparr>\<rparr>
    = Some (Inr False, s') \<and> tx_idle [(POLL_REQ, \<lambda>i. of_nat i, 4)] (sock s')"
proof -
  let ?x = "sample_client_socket\<lparr>sock_state := SOCK_CONNECTING, tx_fifo := map msg_request sample_msgs\<rparr>"
  let ?s = "\<lparr>kern = [], errno = 0, sock = ?x\<rparr>"
  let ?p = "(REGISTRATION_CNF, \<lambda>_. 3, 1) :: ClientServerL1MessageId \<times> mem \<times> nat"
  have a: "os_poll writable_os (socket_descr (sock ?s)) (poll_events (sock ?s)) (kern ?s) = (Inr (Some POLLWRNORM), [])"
    by (simp add: writable_os_def)
  have b: "tx_idle (?p # [(POLL_REQ, \<lambda>i. of_nat i, 4)]) (sock ?s)"
    using sample_msgs_ok
    by (simp add: tx_idle_def sample_msgs_def tx_clear_def sample_client_socket_def new_MsgSocket_def rxReset_def)
  have "sent_all writable_os fd log cs (log @ cs)" for fd log cs
  proof (induction cs arbitrary: log)
    case (Cons c cs)
    have "os_send writable_os fd c log = (Inr (length c), log @ [c])"
      by (simp add: writable_os_def logging_os_def)
    with Cons.IH [of "log @ [c]"] show ?case by simp
  qed simp
  from poll_completes_connection [OF a _ b _ this] show ?thesis by simp blast
qed

text \<open>
  A hang-up takes precedence over everything else the poll reports: the call throws without
  reading, so the data that arrived together with the hang-up is never delivered.
\<close>

theorem poll_hangup_skips_data:
  assumes "os_poll os (socket_descr (sock s)) (poll_events (sock s)) (kern s) = (Inr (Some revents), k)"
    and "revents AND POLLHUP \<noteq> 0"
  shows "poll os s = Some (Inl (SocketDisconnection 0),
      s\<lparr>kern := k, sock := (sock s)\<lparr>sock_state := SOCK_DISCONNECTED\<rparr>\<rparr>)"
  by (rule poll_simps(1) [OF assms])

definition hangup_os :: "byte list os" where
  "hangup_os = buffer_os\<lparr>os_poll := \<lambda>fd events k. (Inr (Some (POLLHUP OR POLLRDNORM)), k)\<rparr>"

lemma poll_hangup_skips_data_witness:
  "\<exists>s'. poll hangup_os \<lparr>kern = [1, 2, 3], errno = 0, sock = sample_client_socket\<rparr>
     = Some (Inl (SocketDisconnection 0), s') \<and> kern s' = [1, 2, 3]"
proof -
  let ?s = "\<lparr>kern = [1, 2, 3], errno = 0, sock = sample_client_socket\<rparr>"
  have "os_poll hangup_os (socket_descr (sock ?s)) (poll_events (sock ?s)) (kern ?s)
      = (Inr (Some (POLLHUP OR POLLRDNORM)), [1, 2, 3])" by (simp add: hangup_os_def)
  from poll_hangup_skips_data [OF this] show ?thesis by simp
qed

section \<open>The descriptor is kept\<close>

text \<open>No reception and no emission changes the descriptor of a socket, whatever the outcome.\<close>

definition keeps_descr :: "('k sock_ctx, 'a) stm \<Rightarrow> bool" where
  "keeps_descr m \<longleftrightarrow> (\<forall>s r t. m s = (r, t) \<longrightarrow> socket_descr (sock t) = socket_descr (sock s))"

named_theorems descr_rules

lemma keeps_descrD: "keeps_descr m \<Longrightarrow> m s = (r, t) \<Longrightarrow> socket_descr (sock t) = socket_descr (sock s)"
  by (simp add: keeps_descr_def)

lemma keeps_descr_andThen [descr_rules]:
  assumes "keeps_descr m" "\<And>x. keeps_descr (k x)" shows "keeps_descr (andThen m k)"
  unfolding keeps_descr_def
proof (intro allI impI)
  fix s r t assume a: "andThen m k s = (r, t)"
  obtain r1 s1 where m: "m s = (r1, s1)" by fastforce
  with a have "t = s1 \<or> (\<exists>x. k x s1 = (r, t))" by (cases r1) auto
  then have "socket_descr (sock t) = socket_descr (sock s1)"
    using keeps_descrD [OF assms(2)] by blast
  with keeps_descrD [OF assms(1) m] show "socket_descr (sock t) = socket_descr (sock s)" by simp
qed

lemma keeps_descr_basic [descr_rules]:
  "keeps_descr (retS x)" "keeps_descr (failS e)" "keeps_descr (assertS P)"
  "keeps_descr (syscall f)" "keeps_descr (new_mem os)"
  "keeps_descr m \<Longrightarrow> keeps_descr n \<Longrightarrow> keeps_descr (if b then m else n)"
  by (auto simp: keeps_descr_def assertS_def syscall_def new_mem_def split: prod.splits sum.splits)

lemma keeps_descr_modSock [descr_rules]:
  "(\<And>x. socket_descr (f x) = socket_descr x) \<Longrightarrow> keeps_descr (modSock f)"
  by (simp add: keeps_descr_def)

text \<open>A statement that is chosen by looking at the state.\<close>

lemma keeps_descr_cases [descr_rules]:
  assumes "\<And>s. \<exists>n. keeps_descr n \<and> m s = n s" shows "keeps_descr m"
  using assms unfolding keeps_descr_def by metis

lemma keeps_descrI: "(\<And>s. socket_descr (sock (snd (m s))) = socket_descr (sock s)) \<Longrightarrow> keeps_descr m"
  unfolding keeps_descr_def by (metis snd_conv)

lemma keeps_descr_socketSend [descr_rules]: "keeps_descr (socketSend os bs)"
proof (rule keeps_descrI)
  fix s :: "'a sock_ctx"
  obtain res k where r: "os_send os (socket_descr (sock s)) bs (kern s) = (res, k)" by fastforce
  show "socket_descr (sock (snd (socketSend os bs s))) = socket_descr (sock s)"
  proof (cases res)
    case (Inr n)
    with r show ?thesis by simp
  next
    case (Inl e)
    consider "e = EWOULDBLOCK" | "e \<noteq> EWOULDBLOCK" "getTxErrorType e = ERR_DISCONNECTED"
      | "e \<noteq> EWOULDBLOCK" "getTxErrorType e \<noteq> ERR_DISCONNECTED" by blast
    then show ?thesis
      using r Inl by cases (simp_all add: socketSend_def)
  qed
qed

lemma keeps_descr_socketReceive [descr_rules]: "keeps_descr (socketReceive os n peek)"
proof -
  have "socket_descr (sock t) = socket_descr (sock s)"
    if "socketReceive os n peek s = (r, t)" for s r t
  proof -
    from that have "sock t = sock s"
      unfolding socketReceive_def andThen_def syscall_def
      by (auto split: prod.splits sum.splits ErrorType.splits)
    then show ?thesis by simp
  qed
  then show ?thesis by (simp add: keeps_descr_def)
qed

lemma keeps_descr_sendLoop_build [descr_rules]: "keeps_descr (sendLoop_build os r)"
  by (auto simp: keeps_descr_def sendLoop_build_def split: prod.splits sum.splits)

lemma keeps_descr_sendLoop_header [descr_rules]: "keeps_descr (sendLoop_header os)"
proof (rule keeps_descr_cases)
  fix s :: "'a sock_ctx"
  let ?n = "andThen (socketSend os (read_bytes (tx_header (sock s)) 0 sizeof_ClientServerL1MsgHeader)) (\<lambda>nb_sent.
         if nb_sent < 0 then retS False
         else andThen (modSock (\<lambda>x. x\<lparr>tx_length := tx_length x + nb_sent\<rparr>)) (\<lambda>_. retS True))"
  have "keeps_descr ?n" "keeps_descr (retS True)" by (intro descr_rules | simp)+
  moreover have "sendLoop_header os s = ?n s \<or> sendLoop_header os s = retS True s"
    by (simp add: sendLoop_header_def)
  ultimately show "\<exists>n. keeps_descr n \<and> sendLoop_header os s = n s" by blast
qed

lemma keeps_descr_sendLoop_rest [descr_rules]: "keeps_descr (sendLoop_rest os)"
proof (rule keeps_descr_cases)
  fix s :: "'a sock_ctx"
  let ?n = "\<lambda>m. andThen (socketSend os (read_bytes m 0 (nat (tx_msg_length (sock s) - tx_length (sock s))))) (\<lambda>nb_sent.
         if nb_sent = EWOULDBLOCK
         then andThen (modSock (\<lambda>x. x\<lparr>tx_state := TX_BUSY\<rparr>)) (\<lambda>_. retS False)
         else andThen (modSock (\<lambda>x. x\<lparr>tx_length := tx_length x + nb_sent\<rparr>)) (\<lambda>_. retS True))"
  have "keeps_descr (?n m)" "keeps_descr (retS True)" "keeps_descr (failS Undefined)" for m
    by (intro descr_rules | simp)+
  moreover have "(\<exists>m. sendLoop_rest os s = ?n m s) \<or> sendLoop_rest os s = retS True s
      \<or> sendLoop_rest os s = failS Undefined s"
    by (auto simp: sendLoop_rest_def Let_def split: option.split)
  ultimately show "\<exists>n. keeps_descr n \<and> sendLoop_rest os s = n s" by blast
qed

lemma keeps_descr_sendLoop_step: "keeps_descr (sendLoop_step os r)"
proof -
  have "keeps_descr (\<lambda>s. if tx_msg (sock s) = None then sendLoop_build os r s else (Inr (), s))"
    using keeps_descr_sendLoop_build [of os r] by (simp add: keeps_descr_def)
  then show ?thesis
    unfolding sendLoop_step_def
    by (intro keeps_descr_andThen keeps_descr_basic keeps_descr_modSock keeps_descr_sendLoop_header
        keeps_descr_sendLoop_rest)
      (auto simp: sendLoop_completed_def txReset_def txPopNextRequest_def split: list.split)
qed

lemma keeps_descr_recvBeginNewMsg [descr_rules]: "keeps_descr (recvBeginNewMsg os)"
  unfolding recvBeginNewMsg_def
  by (intro keeps_descr_andThen keeps_descr_socketReceive)
    (auto intro!: keeps_descr_andThen keeps_descr_basic keeps_descr_modSock keeps_descr_socketReceive
      split: prod.split)

lemma keeps_descr_recvLoop_begin: "keeps_descr (recvLoop_begin os)"
proof (rule keeps_descr_cases)
  fix s :: "'a sock_ctx"
  let ?n = "andThen (modSock (\<lambda>x. x\<lparr>rx_msg := None\<rparr>)) (\<lambda>_. andThen (recvBeginNewMsg os) (\<lambda>m.
       andThen (modSock (\<lambda>x. x\<lparr>rx_msg := m\<rparr>)) (\<lambda>_. retS (m \<noteq> None))))"
  have "keeps_descr ?n" "keeps_descr (retS True)" by (intro descr_rules | simp)+
  moreover have "recvLoop_begin os s = ?n s \<or> recvLoop_begin os s = retS True s"
    by (simp add: recvLoop_begin_def)
  ultimately show "\<exists>n. keeps_descr n \<and> recvLoop_begin os s = n s" by blast
qed

lemma recvLoop_rest_descr:
  assumes "recvLoop_rest os m s = (r, t)" shows "socket_descr (sock t) = socket_descr (sock s)"
proof -
  define nb where "nb = l1_lenght m - rx_lenght (sock s)"
  show ?thesis
  proof (cases "nb > 0")
    case False
    with assms show ?thesis
      unfolding recvLoop_rest_def Let_def nb_def [symmetric]
      by (auto simp: andThen_def assertS_def split: if_splits)
  next
    case True
    obtain res s' where v: "socketReceive os (nat nb) False s = (res, s')" by fastforce
    with assms True have "socket_descr (sock t) = socket_descr (sock s')"
      unfolding recvLoop_rest_def Let_def nb_def [symmetric]
      by (auto simp: andThen_def assertS_def split: if_splits sum.splits)
    with keeps_descrD [OF keeps_descr_socketReceive v] show ?thesis by simp
  qed
qed

lemma keeps_descr_recvLoop_step: "keeps_descr (recvLoop_step os)"
proof -
  have "keeps_descr (\<lambda>s. if \<not> go then (Inr False, s)
      else (case rx_msg (sock s) of None \<Rightarrow> (Inl Undefined, s) | Some m \<Rightarrow> recvLoop_rest os m s))" for go
    by (auto simp: keeps_descr_def recvLoop_rest_descr split: option.splits)
  then show ?thesis
    unfolding recvLoop_step_def by (intro keeps_descr_andThen keeps_descr_recvLoop_begin)
qed

lemma sendLoop_while_descr:
  assumes "sendLoop_while os s = Some y" shows "socket_descr (sock (snd y)) = socket_descr (sock s)"
proof (rule sendLoop_while.raw_induct [where P = "\<lambda>os s y. socket_descr (sock (snd y)) = socket_descr (sock s)",
      OF _ assms], goal_cases)
  case (1 f os s y)
  obtain r' t' where y: "y = (r', t')" by fastforce
  show ?case
  proof (cases "tx_state (sock s) = TX_READY \<and> tx_req_ptr (sock s) \<noteq> None")
    case False
    with 1(2) show ?thesis by auto
  next
    case True
    obtain r t where st: "sendLoop_step os (the (tx_req_ptr (sock s))) s = (r, t)" by fastforce
    have "socket_descr (sock t) = socket_descr (sock s)"
      by (rule keeps_descrD [OF keeps_descr_sendLoop_step st])
    then show ?thesis using 1 True st y by (auto split: sum.splits if_splits)
  qed
qed

lemma recvLoop_descr:
  assumes "recvLoop os s = Some y" shows "socket_descr (sock (snd y)) = socket_descr (sock s)"
proof (rule recvLoop.raw_induct [where P = "\<lambda>os s y. socket_descr (sock (snd y)) = socket_descr (sock s)",
      OF _ assms], goal_cases)
  case (1 f os s y)
  obtain r' t' where y: "y = (r', t')" by fastforce
  obtain r t where st: "recvLoop_step os s = (r, t)" by fastforce
  have "socket_descr (sock t) = socket_descr (sock s)"
    by (rule keeps_descrD [OF keeps_descr_recvLoop_step st])
  then show ?case using 1 st y by (auto split: sum.splits if_splits)
qed

lemma sendNextData_descr:
  "sendNextData os s = Some (r, t) \<Longrightarrow> socket_descr (sock t) = socket_descr (sock s)"
  by (auto simp: sendNextData_def sendLoop_def disconnection_cleanup_def discardDataBuffers_def rxReset_def
      txReset_def txPopNextRequest_def split: option.splits prod.splits sum.splits exn.splits if_splits list.splits
      dest!: sendLoop_while_descr)

lemma recvNextData_descr:
  "recvNextData os s = Some (r, t) \<Longrightarrow> socket_descr (sock t) = socket_descr (sock s)"
  by (auto simp: recvNextData_def disconnection_cleanup_def discardDataBuffers_def rxReset_def
      txReset_def split: option.splits prod.splits sum.splits exn.splits
      dest!: recvLoop_descr)

end
