(* ===== verification/Dispatch.thy ===== *)
theory Dispatch
  imports Prelude
begin

text \<open>
  The do-while loop that both ends run over their received messages, in
  \<^verbatim>\<open>ServerClientConnection::socketDataRead\<close> and in \<^verbatim>\<open>ClientConnection::poll\<close>: take the next message of
  the socket, hand it to the message handler, until there is none. The locale \<open>message_handler\<close> is the
  contract of a handler that makes the loop end and carries an invariant through it.
\<close>

section \<open>The loop\<close>

partial_function (option) dispatch ::
    "('s \<Rightarrow> 'm option \<times> 's) \<Rightarrow> ('m \<Rightarrow> ('s, unit) stm) \<Rightarrow> 's \<Rightarrow> (unit result \<times> 's) option" where
  "dispatch getNext handle s = (case getNext s of
      (None, s') \<Rightarrow> Some (Inr (), s')
    | (Some m, s') \<Rightarrow> (case handle m s' of
          (Inl e, t) \<Rightarrow> Some (Inl e, t)
        | (Inr _, t) \<Rightarrow> dispatch getNext handle t))"

text \<open>A property that both halves of a turn keep is kept by the loop, whatever the outcome.\<close>

lemma dispatch_invariant:
  assumes "dispatch getNext handle s = Some y" and "I s"
    and nxt: "\<And>s m s'. I s \<Longrightarrow> getNext s = (m, s') \<Longrightarrow> I s'"
    and handle: "\<And>m s r t. I s \<Longrightarrow> handle m s = (r, t) \<Longrightarrow> I t"
  shows "I (snd y)"
proof -
  have "g = getNext \<longrightarrow> h = handle \<longrightarrow> I s \<longrightarrow> I (snd y)" if "dispatch g h s = Some y" for g h
  proof (rule dispatch.raw_induct [where P = "\<lambda>g h s y. g = getNext \<longrightarrow> h = handle \<longrightarrow> I s \<longrightarrow> I (snd y)",
      OF _ that], goal_cases)
    case (1 f g h s y)
    show ?case
    proof (intro impI)
      assume gh: "g = getNext" "h = handle" and s: "I s"
      obtain m s' where n: "getNext s = (m, s')" by fastforce
      note s' = nxt [OF s n]
      show "I (snd y)"
      proof (cases m)
        case None
        with 1(2) gh n s' show ?thesis by auto
      next
        case (Some x)
        obtain r t where h: "handle x s' = (r, t)" by fastforce
        note t = handle [OF s' h]
        show ?thesis
        proof (cases r)
          case (Inl e)
          with 1(2) gh n Some h t show ?thesis by auto
        next
          case (Inr u)
          with 1(2) gh n Some h have "f getNext handle t = Some y" by simp
          with 1(1) [OF this] t show ?thesis by simp
        qed
      qed
    qed
  qed
  with assms(1,2) show ?thesis by blast
qed

text \<open>What the loop computes on a given list of messages.\<close>

fun handle_all :: "('m \<Rightarrow> ('s, unit) stm) \<Rightarrow> 'm list \<Rightarrow> ('s, unit) stm" where
  "handle_all handle [] = retS ()"
| "handle_all handle (m # ms) = andThen (handle m) (\<lambda>_. handle_all handle ms)"

section \<open>The contract of a handler\<close>

text \<open>
  \<open>waiting\<close> is the queue of received messages, \<open>getNext\<close> pops it, and the handler then either leaves it
  alone or (when it stops the socket) empties it. \<open>Inv\<close> is any property a turn of the loop keeps.
\<close>

locale message_handler =
  fixes getNext :: "'s \<Rightarrow> 'm option \<times> 's"
    and handle :: "'m \<Rightarrow> ('s, unit) stm"
    and waiting :: "'s \<Rightarrow> 'm list"
    and Inv :: "'s \<Rightarrow> bool"
  assumes next_empty: "Inv s \<Longrightarrow> waiting s = [] \<Longrightarrow> getNext s = (None, s)"
    and next_pop: "Inv s \<Longrightarrow> waiting s = m # ms
      \<Longrightarrow> \<exists>s'. getNext s = (Some m, s') \<and> waiting s' = ms"
    and handle_waiting: "Inv s \<Longrightarrow> getNext s = (Some m, s') \<Longrightarrow> handle m s' = (r, t)
      \<Longrightarrow> waiting t = waiting s' \<or> waiting t = []"
    and handle_Inv: "Inv s \<Longrightarrow> getNext s = (Some m, s') \<Longrightarrow> handle m s' = (r, t) \<Longrightarrow> Inv t"
begin

lemma dispatch_empty: "Inv s \<Longrightarrow> waiting s = [] \<Longrightarrow> dispatch getNext handle s = Some (Inr (), s)"
  by (simp add: dispatch.simps [of _ _ s] next_empty)

lemma dispatch_ends:
  "Inv s \<Longrightarrow> \<exists>r t. dispatch getNext handle s = Some (r, t) \<and> Inv t \<and> (r = Inr () \<longrightarrow> waiting t = [])"
proof (induction "length (waiting s)" arbitrary: s rule: less_induct)
  case less
  show ?case
  proof (cases "waiting s")
    case Nil
    with less.prems show ?thesis by (simp add: dispatch_empty)
  next
    case (Cons m ms)
    from next_pop [OF less.prems this] obtain s'
      where s': "getNext s = (Some m, s')" "waiting s' = ms" by blast
    obtain r t where h: "handle m s' = (r, t)" by fastforce
    with s' have t: "Inv t" "length (waiting t) < length (waiting s)"
      using handle_Inv [OF less.prems s'(1) h] handle_waiting [OF less.prems s'(1) h] Cons by auto
    show ?thesis
    proof (cases r)
      case (Inl e)
      with s' h t show ?thesis by (simp add: dispatch.simps [of _ _ s])
    next
      case (Inr u)
      with s' h less.hyps [OF t(2,1)] show ?thesis by (simp add: dispatch.simps [of _ _ s])
    qed
  qed
qed

lemma dispatch_keeps: "Inv s \<Longrightarrow> dispatch getNext handle s = Some (r, t) \<Longrightarrow> Inv t"
  using dispatch_ends [of s] by auto

text \<open>The loop ends normally or with the outcome of one of its handlers.\<close>

lemma dispatch_outcome:
  "Inv s \<Longrightarrow> dispatch getNext handle s = Some (r, t) \<Longrightarrow>
   r = Inr () \<or> (\<exists>s1 m s2. Inv s1 \<and> getNext s1 = (Some m, s2) \<and> handle m s2 = (r, t))"
proof (induction "length (waiting s)" arbitrary: s rule: less_induct)
  case less
  show ?case
  proof (cases "waiting s")
    case Nil
    with less.prems show ?thesis by (simp add: dispatch_empty)
  next
    case (Cons m ms)
    from next_pop [OF less.prems(1) this] obtain s'
      where s': "getNext s = (Some m, s')" "waiting s' = ms" by blast
    obtain r1 t1 where h: "handle m s' = (r1, t1)" by fastforce
    with s' have t: "Inv t1" "length (waiting t1) < length (waiting s)"
      using handle_Inv [OF less.prems(1) s'(1) h] handle_waiting [OF less.prems(1) s'(1) h] Cons by auto
    show ?thesis
    proof (cases r1)
      case (Inl e)
      with less.prems s' h show ?thesis by (auto simp: dispatch.simps [of _ _ s])
    next
      case (Inr u)
      with less.prems(2) s' h have "dispatch getNext handle t1 = Some (r, t)"
        by (simp add: dispatch.simps [of _ _ s])
      from less.hyps [OF t(2,1) this] show ?thesis .
    qed
  qed
qed

end

end
