(* ===== verification/ServerConnection.thy ===== *)
theory ServerConnection
  imports ClientSocket Dispatch
begin

text \<open>
  The class \<^verbatim>\<open>ServerClientConnection\<close>, one object per client of the server, and the data of the
  singleton \<^verbatim>\<open>ServerSocketsRouter\<close> that owns them. The two call each other, so the state of both is one
  record \<open>server\<close>: the kernel, \<^verbatim>\<open>errno\<close> and the router, whose \<open>socket_map\<close> holds the connections by the
  descriptor they were created with; \<open>this\<close> of a member function is that descriptor. (The member
  \<^verbatim>\<open>ipAddr\<close>, never assigned and only read by an unused accessor, and the console output are left out.)
  The handlers are shown to refine the automaton \<open>react\<close>, message by message, reading by reading and over the whole
  \<open>life\<close> of a connection.
\<close>

section \<open>State\<close>

datatype State =
    EMPTY | CNX_ERROR | DISCONNECTED | CONN_REJECTED | REGISTERING | REJECTED | REGISTERED
  | DISCONNECTING | CLOSING

record ServerClientConnection =
  state :: State
  servSock :: MsgSocket
  user_email :: "byte list"
  user_pwd :: "byte list"
  user_name :: "byte list"
  last_rejected_cause :: ConnectionRejCause

record Router =
  socket_map :: "int \<Rightarrow> ServerClientConnection option"
  nb_client_connections :: int
  dead_list :: "int list"
  clientsocks_fds :: fd_set
  clientsocks_nfds :: int
  select_readfds :: fd_set
  select_writefds :: fd_set
  select_errorfds :: fd_set

record 'k server = "'k sys" +
  router :: Router

definition new_ServerClientConnection :: "MsgSocket \<Rightarrow> ServerClientConnection" where
  "new_ServerClientConnection x =
    \<lparr>state = EMPTY, servSock = x, user_email = [], user_pwd = [], user_name = [],
     last_rejected_cause = CR_NO_CAUSE\<rparr>"

section \<open>Reaching the objects\<close>

definition cnx :: "'k server \<Rightarrow> int \<Rightarrow> ServerClientConnection option" where
  "cnx s fd = socket_map (router s) fd"

definition modRouter :: "(Router \<Rightarrow> Router) \<Rightarrow> ('k server, unit) stm" where
  "modRouter f = modS (\<lambda>s. s\<lparr>router := f (router s)\<rparr>)"

definition modCnx :: "int \<Rightarrow> (ServerClientConnection \<Rightarrow> ServerClientConnection) \<Rightarrow> ('k server, unit) stm" where
  "modCnx fd f = modRouter (\<lambda>r. r\<lparr>socket_map := (socket_map r)(fd := map_option f (socket_map r fd))\<rparr>)"

text \<open>A member function reads its object; there is none behind a dangling \<open>this\<close>.\<close>

definition this :: "int \<Rightarrow> (ServerClientConnection \<Rightarrow> ('k server, 'a) stm) \<Rightarrow> ('k server, 'a) stm" where
  "this fd k s = (case cnx s fd of None \<Rightarrow> (Inl Undefined, s) | Some c \<Rightarrow> k c s)"

text \<open>An operation of the socket object of a connection, run on the shared kernel.\<close>

definition enter_sock :: "'k server \<Rightarrow> ServerClientConnection \<Rightarrow> 'k sock_ctx" where
  "enter_sock s c = \<lparr>kern = kern s, errno = errno s, sock = servSock c\<rparr>"

definition leave_sock :: "'k server \<Rightarrow> int \<Rightarrow> ServerClientConnection \<Rightarrow> 'k sock_ctx \<Rightarrow> 'k server" where
  "leave_sock s fd c t = s\<lparr>kern := kern t, errno := errno t,
     router := (router s)\<lparr>socket_map := (socket_map (router s))(fd \<mapsto> c\<lparr>servSock := sock t\<rparr>)\<rparr>\<rparr>"

definition sockS :: "int \<Rightarrow> ('k sock_ctx, 'a) stm \<Rightarrow> ('k server, 'a) stm" where
  "sockS fd m = this fd (\<lambda>c s. case m (enter_sock s c) of (r, t) \<Rightarrow> (r, leave_sock s fd c t))"

definition sockO ::
    "int \<Rightarrow> ('k sock_ctx \<Rightarrow> ('a result \<times> 'k sock_ctx) option) \<Rightarrow> 'k server \<Rightarrow> ('a result \<times> 'k server) option" where
  "sockO fd m s = (case cnx s fd of
      None \<Rightarrow> Some (Inl Undefined, s)
    | Some c \<Rightarrow> map_option (\<lambda>(r, t). (r, leave_sock s fd c t)) (m (enter_sock s c)))"

definition setCnxState :: "int \<Rightarrow> State \<Rightarrow> ('k server, unit) stm" where
  "setCnxState fd st = modCnx fd (\<lambda>c. c\<lparr>state := st\<rparr>)"

section \<open>Sending to the client\<close>

text \<open>\<^verbatim>\<open>ServerSocketsRouter::OutgoingDataForClient\<close>; \<^verbatim>\<open>at\<close> throws for a descriptor without connection.\<close>

definition OutgoingDataForClient :: "int \<Rightarrow> ('k server, unit) stm" where
  "OutgoingDataForClient fd s = (case cnx s fd of
      None \<Rightarrow> (Inl OutOfRange, s)
    | Some _ \<Rightarrow>
        if \<not> fd_valid fd then (Inl Undefined, s)
        else if \<not> FD_ISSET fd (select_writefds (router s))
          then modRouter (\<lambda>r. r\<lparr>select_writefds := FD_SET fd (select_writefds r)\<rparr>) s
        else (Inr (), s))"

definition sendMsgToClient :: "int \<Rightarrow> request \<Rightarrow> ('k server, unit) stm" where
  "sendMsgToClient fd r = this fd (\<lambda>c.
     andThen (OutgoingDataForClient (socket_descr (servSock c))) (\<lambda>_.
     modCnx fd (\<lambda>c. c\<lparr>servSock := sendMsg r (servSock c)\<rparr>)))"

definition sendBody :: "int \<Rightarrow> mem \<Rightarrow> int \<Rightarrow> ClientServerL1MessageId \<Rightarrow> ('k server, unit) stm" where
  "sendBody fd m size_of i = (case new_MsgRequest m size_of i of
      Inl e \<Rightarrow> failS e
    | Inr r \<Rightarrow> sendMsgToClient fd r)"

definition sendConnectionCnf :: "'k os \<Rightarrow> int \<Rightarrow> Cyphering \<Rightarrow> mem \<Rightarrow> ('k server, unit) stm" where
  "sendConnectionCnf os fd ciph ciph_key = andThen (new_mem os) (\<lambda>m.
     sendBody fd (cipheringKeyDataCopy (put_enum (cyphering_val ciph) m) off_cnf_key
         (if ciph \<noteq> NO_CICPHERING then ciph_key else (\<lambda>_. 0)) 0)
       sizeof_ConnectionCnf CONNECTION_CNF)"

definition sendConnectionRej :: "'k os \<Rightarrow> int \<Rightarrow> ConnectionRejCause \<Rightarrow> ('k server, unit) stm" where
  "sendConnectionRej os fd cause = andThen (new_mem os) (\<lambda>m.
     case mainVersionString of
       Inl e \<Rightarrow> failS e
     | Inr v \<Rightarrow> (case put_string v off_rej_version (length v) (put_enum (connection_rej_val cause) m) of
           Inl e \<Rightarrow> failS e
         | Inr m' \<Rightarrow> sendBody fd m' sizeof_ConnectionRej CONNECTION_REJ))"

definition sendRegistrationRej :: "'k os \<Rightarrow> int \<Rightarrow> RegistrationRejCause \<Rightarrow> ('k server, unit) stm" where
  "sendRegistrationRej os fd cause = andThen (new_mem os) (\<lambda>m.
     sendBody fd (put_enum (registration_rej_val cause) m) sizeof_RegistrationRej REGISTRATION_REJ)"

definition sendRegistrationCnf :: "'k os \<Rightarrow> int \<Rightarrow> ('k server, unit) stm" where
  "sendRegistrationCnf os fd = andThen (new_mem os) (\<lambda>m.
     sendBody fd m sizeof_RegistrationCnf REGISTRATION_CNF)"

definition sendUserLoginRej :: "'k os \<Rightarrow> int \<Rightarrow> UserLoginRejCause \<Rightarrow> ('k server, unit) stm" where
  "sendUserLoginRej os fd cause = andThen (new_mem os) (\<lambda>m.
     sendBody fd (put_enum (user_login_rej_val cause) m) sizeof_UserLoginRej USER_LOGGING_REJ)"

definition sendUserLoginCnf :: "'k os \<Rightarrow> int \<Rightarrow> ('k server, unit) stm" where
  "sendUserLoginCnf os fd = andThen (new_mem os) (\<lambda>m.
     sendBody fd m sizeof_UserLoginCnf USER_LOGGING_CNF)"

definition sendDisconnectionCnf :: "'k os \<Rightarrow> int \<Rightarrow> ('k server, unit) stm" where
  "sendDisconnectionCnf os fd = andThen (new_mem os) (\<lambda>m.
     sendBody fd m sizeof_DisconnectionCnf DISCONNECTION_CNF)"

definition sendDisconnectionReq :: "'k os \<Rightarrow> int \<Rightarrow> ('k server, unit) stm" where
  "sendDisconnectionReq os fd = andThen (new_mem os) (\<lambda>m.
     sendBody fd (put_enum (disconnection_req_val SERVER_SHUTDOWN) m) sizeof_DisconnectionReq DISCONNECTION_REQ)"

section \<open>Handling the messages of the client\<close>

text \<open>\<^verbatim>\<open>std::string{p}\<close> on a field of the body: the bytes up to the first NUL of the message object.\<close>

definition body_string :: "mem \<Rightarrow> nat \<Rightarrow> byte list result" where
  "body_string m p = (case cstring (l1_body m) (CLIENTSERVER_MAX_L1_MSG_BODY_SIZE - p) p of
      None \<Rightarrow> Inl Undefined
    | Some v \<Rightarrow> Inr v)"

definition with_string :: "mem \<Rightarrow> nat \<Rightarrow> (byte list \<Rightarrow> ('s, 'a) stm) \<Rightarrow> ('s, 'a) stm" where
  "with_string m p k = (case body_string m p of Inl e \<Rightarrow> failS e | Inr v \<Rightarrow> k v)"

definition handleConnectionReq :: "'k os \<Rightarrow> int \<Rightarrow> mem \<Rightarrow> ('k server, unit) stm" where
  "handleConnectionReq os fd p_msg =
    with_string p_msg 0 (\<lambda>client_str. this fd (\<lambda>c.
      if state c = EMPTY then
        (case mainVersionString of
          Inl e \<Rightarrow> failS e
        | Inr v \<Rightarrow>
            if client_str = v then
              andThen (sendConnectionCnf os fd NO_CICPHERING (\<lambda>_. 0)) (\<lambda>_.
              setCnxState fd REGISTERING)
            else
              andThen (modCnx fd (\<lambda>c. c\<lparr>last_rejected_cause := BAD_CLIENT_VERSION\<rparr>)) (\<lambda>_.
              andThen (this fd (\<lambda>c. sendConnectionRej os fd (last_rejected_cause c))) (\<lambda>_.
              setCnxState fd CONN_REJECTED)))
      else if state c = CONN_REJECTED then
        andThen (sendConnectionRej os fd (last_rejected_cause c)) (\<lambda>_. setCnxState fd CONN_REJECTED)
      else
        andThen (modCnx fd (\<lambda>c. c\<lparr>last_rejected_cause := UNEXPECTED_CONN_REQ\<rparr>)) (\<lambda>_.
        andThen (this fd (\<lambda>c. sendConnectionRej os fd (last_rejected_cause c))) (\<lambda>_.
        setCnxState fd CONN_REJECTED))))"

definition passwd_ok :: "byte list \<Rightarrow> byte list \<Rightarrow> bool" where
  "passwd_ok name passwd = True"

definition known_user :: "byte list \<Rightarrow> bool" where
  "known_user name = False"

definition known_email :: "byte list \<Rightarrow> bool" where
  "known_email email = False"

definition correct_email :: "byte list \<Rightarrow> bool" where
  "correct_email email = False"

definition handleRegistrationReq :: "'k os \<Rightarrow> int \<Rightarrow> mem \<Rightarrow> ('k server, unit) stm" where
  "handleRegistrationReq os fd p_msg = this fd (\<lambda>c.
     if state c = REGISTERING then
       with_string p_msg 0 (\<lambda>name.
       andThen (modCnx fd (\<lambda>c. c\<lparr>user_name := name\<rparr>)) (\<lambda>_.
       with_string p_msg off_mail_address (\<lambda>email.
       andThen (modCnx fd (\<lambda>c. c\<lparr>user_email := email\<rparr>)) (\<lambda>_.
         if known_user name then sendRegistrationRej os fd USER_ALREADY_EXISTING
         else if correct_email email then sendRegistrationRej os fd INCORRECT_EMAIL
         else
           with_string p_msg off_password (\<lambda>pwd.
           andThen (modCnx fd (\<lambda>c. c\<lparr>user_pwd := pwd\<rparr>)) (\<lambda>_.
           andThen (sendRegistrationCnf os fd) (\<lambda>_.
           setCnxState fd REGISTERED)))))))
     else sendRegistrationRej os fd UNEXPECTED_REGISTRATION)"

definition handleUserLoginReq :: "'k os \<Rightarrow> int \<Rightarrow> mem \<Rightarrow> ('k server, unit) stm" where
  "handleUserLoginReq os fd p_msg = this fd (\<lambda>c.
     if state c = REGISTERING then
       with_string p_msg 0 (\<lambda>name.
       andThen (modCnx fd (\<lambda>c. c\<lparr>user_name := name\<rparr>)) (\<lambda>_.
       with_string p_msg off_password (\<lambda>pwd.
       andThen (modCnx fd (\<lambda>c. c\<lparr>user_pwd := pwd\<rparr>)) (\<lambda>_.
         if \<not> known_user name then sendUserLoginRej os fd USER_UNKNOWN
         else if \<not> passwd_ok name pwd then sendUserLoginRej os fd WRONG_PASSWORD
         else
           andThen (sendRegistrationCnf os fd) (\<lambda>_.
           setCnxState fd REGISTERED)))))
     else sendUserLoginRej os fd UNEXPECTED_LOGIN_PROC)"

definition handleDisconnectionReq :: "'k os \<Rightarrow> int \<Rightarrow> mem \<Rightarrow> ('k server, unit) stm" where
  "handleDisconnectionReq os fd p_msg =
     andThen (assertS (\<lambda>_. get_enum (l1_body p_msg) = disconnection_req_val USER_SHUTDOWN)) (\<lambda>_.
     andThen (sendDisconnectionCnf os fd) (\<lambda>_.
     setCnxState fd CLOSING))"

definition handleDisconnectionCnf :: "'k os \<Rightarrow> int \<Rightarrow> mem \<Rightarrow> ('k server, unit) stm" where
  "handleDisconnectionCnf os fd p_msg = this fd (\<lambda>c.
     andThen (assertS (\<lambda>_. state c = DISCONNECTING)) (\<lambda>_.
     andThen (sockS fd (stop os)) (\<lambda>_.
     setCnxState fd CLOSING)))"

definition socketDisconnected :: "'k os \<Rightarrow> int \<Rightarrow> ('k server, unit) stm" where
  "socketDisconnected os fd = andThen (sockS fd (stop os)) (\<lambda>_. setCnxState fd DISCONNECTED)"

definition fatalCnxError :: "'k os \<Rightarrow> int \<Rightarrow> ('k server, unit) stm" where
  "fatalCnxError os fd = andThen (sockS fd (stop os)) (\<lambda>_. setCnxState fd CNX_ERROR)"

text \<open>Not written yet.\<close>

definition serverInitiatedClose :: "int \<Rightarrow> ('k server, unit) stm" where
  "serverInitiatedClose fd = retS ()"

definition handle_client_message :: "'k os \<Rightarrow> int \<Rightarrow> mem \<Rightarrow> ('k server, unit) stm" where
  "handle_client_message os fd p_msg = (case id_of (l1_id p_msg) of
      Some CONNECTION_REQ \<Rightarrow> handleConnectionReq os fd p_msg
    | Some USER_LOGGING_REQ \<Rightarrow> handleUserLoginReq os fd p_msg
    | Some REGISTRATION_REQ \<Rightarrow> handleRegistrationReq os fd p_msg
    | Some DISCONNECTION_REQ \<Rightarrow> handleDisconnectionReq os fd p_msg
    | Some DISCONNECTION_CNF \<Rightarrow> handleDisconnectionCnf os fd p_msg
    | Some POLL_REQ \<Rightarrow> retS ()
    | Some POLL_CNF \<Rightarrow> retS ()
    | Some DATA_TRANSFER_REQ \<Rightarrow> retS ()
    | Some TRANSFER_DATA_BLK \<Rightarrow> retS ()
    | Some FILE_TRANSFER_REQ \<Rightarrow> retS ()
    | _ \<Rightarrow> failS AssertFailed)"

section \<open>Serving the socket of a connection\<close>

text \<open>\<^verbatim>\<open>clear_io_indicators\<close> is not assigned for \<^verbatim>\<open>CONNECTION_TROUBLES\<close>.\<close>

definition socketError :: "'k os \<Rightarrow> int \<Rightarrow> ('k server, bool) stm" where
  "socketError os fd = andThen (sockS fd (determineErrorType os)) (\<lambda>e. case e of
      IGNORE \<Rightarrow> retS False
    | ERR_DISCONNECTED \<Rightarrow> andThen (socketDisconnected os fd) (\<lambda>_. retS True)
    | FATAL \<Rightarrow> andThen (fatalCnxError os fd) (\<lambda>_. retS True)
    | CONNECTION_TROUBLES \<Rightarrow> failS Undefined)"

definition nextReceived :: "int \<Rightarrow> 'k server \<Rightarrow> mem option \<times> 'k server" where
  "nextReceived fd s = (case cnx s fd of
      None \<Rightarrow> (None, s)
    | Some c \<Rightarrow> (case getNextReceivedMsg (servSock c) of
          (m, x) \<Rightarrow> (m, leave_sock s fd c \<lparr>kern = kern s, errno = errno s, sock = x\<rparr>)))"

definition socketDataRead :: "'k os \<Rightarrow> int \<Rightarrow> 'k server \<Rightarrow> (unit result \<times> 'k server) option" where
  "socketDataRead os fd s =
    thenO (sockO fd (recvNextData os) s) (\<lambda>_. dispatch (nextReceived fd) (handle_client_message os fd))"

definition socketDataWrite :: "'k os \<Rightarrow> int \<Rightarrow> 'k server \<Rightarrow> (int result \<times> 'k server) option" where
  "socketDataWrite os fd = sockO fd (sendNextData os)"

section \<open>Frame of an operation on one connection\<close>

text \<open>
  A connection's socket has the descriptor of the connection until it is stopped; no connection is
  registered under the -1 of a stopped socket.
\<close>

definition own_descr :: "'k server \<Rightarrow> bool" where
  "own_descr s \<longleftrightarrow> (\<forall>fd c. cnx s fd = Some c \<longrightarrow>
     fd \<noteq> -1 \<and> (socket_descr (servSock c) = fd \<or> socket_descr (servSock c) = -1))"

text \<open>
  What an operation on the connection \<open>fd\<close> leaves alone: the other connections, the bookkeeping of
  the router, and the emission set except that it may gain the bit of \<open>fd\<close>.
\<close>

definition frame :: "int \<Rightarrow> 'k server \<Rightarrow> 'k server \<Rightarrow> bool" where
  "frame fd s t \<longleftrightarrow>
     own_descr t
     \<and> (\<forall>fd'. cnx t fd' = None \<longleftrightarrow> cnx s fd' = None)
     \<and> (\<forall>fd'. fd' \<noteq> fd \<longrightarrow> cnx t fd' = cnx s fd')
     \<and> nb_client_connections (router t) = nb_client_connections (router s)
     \<and> dead_list (router t) = dead_list (router s)
     \<and> clientsocks_fds (router t) = clientsocks_fds (router s)
     \<and> clientsocks_nfds (router t) = clientsocks_nfds (router s)
     \<and> select_readfds (router t) = select_readfds (router s)
     \<and> select_errorfds (router t) = select_errorfds (router s)
     \<and> (select_writefds (router t) = select_writefds (router s)
        \<or> cnx s fd \<noteq> None \<and> fd_valid fd
          \<and> select_writefds (router t) = FD_SET fd (select_writefds (router s)))"

text \<open>The messages received and not yet handled; a handler keeps them or, stopping the socket, drops them.\<close>

definition received :: "int \<Rightarrow> 'k server \<Rightarrow> mem list" where
  "received fd s = (case cnx s fd of None \<Rightarrow> [] | Some c \<Rightarrow> rx_fifo (servSock c))"

definition frames :: "int \<Rightarrow> ('k server, 'a) stm \<Rightarrow> bool" where
  "frames fd m \<longleftrightarrow> (\<forall>s r t. own_descr s \<longrightarrow> m s = (r, t) \<longrightarrow>
     frame fd s t \<and> (received fd t = received fd s \<or> received fd t = []))"

lemma FD_SET_twice [simp]: "FD_SET fd (FD_SET fd s) = FD_SET fd s"
  by (cases "nat (fd div 64) < length s") (simp_all add: FD_SET_def list_update_beyond or.assoc)

lemma own_descrD:
  "own_descr s \<Longrightarrow> cnx s fd = Some c
    \<Longrightarrow> fd \<noteq> -1 \<and> (socket_descr (servSock c) = fd \<or> socket_descr (servSock c) = -1)"
  by (simp add: own_descr_def)

lemma own_descr_none: "own_descr s \<Longrightarrow> cnx s (-1) = None"
  using own_descrD [of s "-1"] by (cases "cnx s (-1)") auto

lemma frame_refl [simp]: "own_descr s \<Longrightarrow> frame fd s s"
  by (simp add: frame_def)

lemma frame_trans: "frame fd s t \<Longrightarrow> frame fd t u \<Longrightarrow> frame fd s u"
  unfolding frame_def by (auto; metis)

lemma frame_own: "frame fd s t \<Longrightarrow> own_descr t"
  by (simp add: frame_def)

named_theorems frame_rules

lemma frames_retS [frame_rules]: "frames fd (retS x)"
  by (simp add: frames_def)

lemma frames_failS [frame_rules]: "frames fd (failS e)"
  by (simp add: frames_def)

lemma frames_assertS [frame_rules]: "frames fd (assertS P)"
  by (simp add: frames_def assertS_def)

lemma frames_andThen [frame_rules]:
  assumes "frames fd m" and "\<And>x. frames fd (k x)"
  shows "frames fd (andThen m k)"
  unfolding frames_def
proof (intro allI impI)
  fix s r t assume s: "own_descr s" and a: "andThen m k s = (r, t)"
  obtain r1 s1 where m: "m s = (r1, s1)" by fastforce
  with s assms(1) have f: "frame fd s s1" and w: "received fd s1 = received fd s \<or> received fd s1 = []"
    by (simp_all add: frames_def)
  show "frame fd s t \<and> (received fd t = received fd s \<or> received fd t = [])"
  proof (cases r1)
    case (Inl e)
    with m a f w show ?thesis by simp
  next
    case (Inr x)
    with m a have "k x s1 = (r, t)" by simp
    with assms(2) f have "frame fd s1 t" "received fd t = received fd s1 \<or> received fd t = []"
      by (simp_all add: frames_def frame_own)
    with f w show ?thesis by (auto intro: frame_trans)
  qed
qed

lemma frames_if [frame_rules]: "frames fd m \<Longrightarrow> frames fd n \<Longrightarrow> frames fd (if b then m else n)"
  by simp

lemma frames_this [frame_rules]: "(\<And>c. frames fd (k c)) \<Longrightarrow> frames fd (this fd k)"
  by (auto simp: frames_def this_def split: option.splits)

lemma frames_with_string [frame_rules]: "(\<And>v. frames fd (k v)) \<Longrightarrow> frames fd (with_string m p k)"
  by (auto simp: with_string_def frame_rules split: sum.splits)

lemma cnx_modCnx: "cnx (snd (modCnx fd f s)) fd' = (if fd' = fd then map_option f (cnx s fd) else cnx s fd')"
  by (simp add: modCnx_def modRouter_def cnx_def)

lemma frames_modCnx [frame_rules]:
  assumes "\<And>c. socket_descr (servSock (f c)) = socket_descr (servSock c)"
    and "\<And>c. rx_fifo (servSock (f c)) = rx_fifo (servSock c)"
  shows "frames fd (modCnx fd f)"
  unfolding frames_def
proof (intro allI impI)
  fix s r t assume s: "own_descr s" and "modCnx fd f s = (r, t)"
  then have t: "t = snd (modCnx fd f s)" by simp
  have "own_descr t"
    unfolding own_descr_def t cnx_modCnx using s assms by (auto dest: own_descrD)
  then have "frame fd s t"
    unfolding frame_def by (auto simp: t cnx_modCnx) (simp_all add: modCnx_def modRouter_def)
  moreover have "received fd t = received fd s"
    using assms(2) by (simp add: received_def t cnx_modCnx split: option.split)
  ultimately show "frame fd s t \<and> (received fd t = received fd s \<or> received fd t = [])" by simp
qed

lemma frames_new_mem [frame_rules]: "frames fd (new_mem os)"
  by (auto simp: frames_def new_mem_def frame_def own_descr_def cnx_def received_def split: prod.splits)

lemma frame_leave_sock:
  assumes s: "own_descr s" "cnx s fd = Some c"
    and x: "socket_descr (sock x) = socket_descr (servSock c) \<or> socket_descr (sock x) = -1"
  shows "frame fd s (leave_sock s fd c x)"
proof -
  have "socket_descr (sock x) = fd \<or> socket_descr (sock x) = -1" "fd \<noteq> -1"
    using x own_descrD [OF s] by auto
  then show ?thesis
    using s by (auto simp: frame_def leave_sock_def own_descr_def cnx_def)
qed

lemma received_leave_sock: "received fd (leave_sock s fd c x) = rx_fifo (sock x)"
  by (simp add: received_def leave_sock_def cnx_def)

lemma frames_sockS:
  assumes "\<And>x r t. m x = (r, t) \<Longrightarrow> socket_descr (sock t) = socket_descr (sock x) \<or> socket_descr (sock t) = -1"
    and "\<And>x r t. m x = (r, t) \<Longrightarrow> rx_fifo (sock t) = rx_fifo (sock x) \<or> rx_fifo (sock t) = []"
  shows "frames fd (sockS fd m)"
  unfolding frames_def
proof (intro allI impI)
  fix s r t assume s: "own_descr s" and a: "sockS fd m s = (r, t)"
  show "frame fd s t \<and> (received fd t = received fd s \<or> received fd t = [])"
  proof (cases "cnx s fd")
    case None
    with s a show ?thesis by (simp add: sockS_def this_def)
  next
    case (Some c)
    obtain r1 x where m: "m (enter_sock s c) = (r1, x)" by fastforce
    with Some a have t: "t = leave_sock s fd c x" by (simp add: sockS_def this_def)
    have "received fd s = rx_fifo (sock (enter_sock s c))" using Some by (simp add: received_def enter_sock_def)
    then show ?thesis
      using frame_leave_sock [OF s Some, of x] assms [OF m]
      by (simp add: t received_leave_sock enter_sock_def)
  qed
qed

lemma stop_descr: "stop os s = (r, t) \<Longrightarrow> socket_descr (sock t) = -1 \<and> rx_fifo (sock t) = []"
  by (auto simp: discardDataBuffers_def setState_eq rxReset_def txReset_def stop_def andThen_def syscall_def split: prod.splits sum.splits)

lemma determineErrorType_sock: "determineErrorType os s = (r, t) \<Longrightarrow> sock t = sock s"
  by (auto simp: determineErrorType_def andThen_def syscall_def split: prod.splits sum.splits if_splits)

lemma frames_stop [frame_rules]: "frames fd (sockS fd (stop os))"
  by (rule frames_sockS) (auto dest: stop_descr)

lemma frames_determineErrorType [frame_rules]: "frames fd (sockS fd (determineErrorType os))"
  by (rule frames_sockS) (auto dest: determineErrorType_sock)

lemma frames_OutgoingDataForClient [frame_rules]: "frames fd (OutgoingDataForClient fd)"
  by (auto simp: frames_def OutgoingDataForClient_def modRouter_def frame_def own_descr_def cnx_def received_def
      split: option.splits if_splits)

lemma frames_sendMsgToClient [frame_rules]: "frames fd (sendMsgToClient fd r)"
  unfolding frames_def
proof (intro allI impI)
  fix s res t assume s: "own_descr s" and a: "sendMsgToClient fd r s = (res, t)"
  show "frame fd s t \<and> (received fd t = received fd s \<or> received fd t = [])"
  proof (cases "cnx s fd")
    case None
    with s a show ?thesis by (simp add: sendMsgToClient_def this_def)
  next
    case (Some c)
    let ?m = "andThen (OutgoingDataForClient fd) (\<lambda>_. modCnx fd (\<lambda>c. c\<lparr>servSock := sendMsg r (servSock c)\<rparr>))"
    have f: "frames fd ?m" by (intro frame_rules) (simp_all add: sendMsg_def)
    from own_descrD [OF s Some] consider "socket_descr (servSock c) = fd" | "socket_descr (servSock c) = -1"
      by blast
    then show ?thesis
    proof cases
      case 1
      with a Some have "?m s = (res, t)" by (simp add: sendMsgToClient_def this_def)
      with f s show ?thesis unfolding frames_def by blast
    next
      case 2
      with a Some own_descr_none [OF s] have "t = s"
        by (simp add: sendMsgToClient_def this_def OutgoingDataForClient_def andThen_def)
      with s show ?thesis by simp
    qed
  qed
qed

lemma frames_sendBody [frame_rules]: "frames fd (sendBody fd m n i)"
  by (auto simp: sendBody_def frame_rules split: sum.split)

lemmas send_defs = sendConnectionCnf_def sendRegistrationRej_def sendRegistrationCnf_def
  sendUserLoginRej_def sendUserLoginCnf_def sendDisconnectionCnf_def sendDisconnectionReq_def

lemma frames_send [frame_rules]:
  "frames fd (sendConnectionCnf os fd ciph key)"
  "frames fd (sendConnectionRej os fd cause)"
  "frames fd (sendRegistrationRej os fd rcause)"
  "frames fd (sendRegistrationCnf os fd)"
  "frames fd (sendUserLoginRej os fd ucause)"
  "frames fd (sendUserLoginCnf os fd)"
  "frames fd (sendDisconnectionCnf os fd)"
  "frames fd (sendDisconnectionReq os fd)"
  unfolding send_defs
  by (intro frame_rules | simp add: sendConnectionRej_def)+
   (auto intro!: frame_rules split: sum.split)

lemma frames_setCnxState [frame_rules]: "frames fd (setCnxState fd st)"
  unfolding setCnxState_def by (intro frame_rules) simp_all

lemma frames_handlers [frame_rules]:
  "frames fd (handleConnectionReq os fd m)"
  "frames fd (handleRegistrationReq os fd m)"
  "frames fd (handleUserLoginReq os fd m)"
  "frames fd (handleDisconnectionReq os fd m)"
  "frames fd (handleDisconnectionCnf os fd m)"
  "frames fd (socketDisconnected os fd)"
  "frames fd (fatalCnxError os fd)"
  unfolding handleConnectionReq_def handleRegistrationReq_def handleUserLoginReq_def
    handleDisconnectionReq_def handleDisconnectionCnf_def socketDisconnected_def fatalCnxError_def
    mainVersionString_eq sum.case
  by (intro frame_rules; simp)+

lemma frames_handle_client_message [frame_rules]: "frames fd (handle_client_message os fd m)"
  unfolding handle_client_message_def
  by (auto intro!: frame_rules split: option.split ClientServerL1MessageId.split)

lemma frames_socketError [frame_rules]: "frames fd (socketError os fd)"
  unfolding socketError_def
  by (intro frame_rules) (auto intro!: frame_rules split: ErrorType.split)

section \<open>The protocol of a connection\<close>

text \<open>
  What the server promises per connection, without sockets and memory: a message is its
  identity with the fields the handlers read, a connection its state, its last rejection and the
  credentials, and \<open>react\<close> gives the next state and the replies, \<open>None\<close> where the server aborts.
\<close>

datatype client_msg =
    ConnectionReqMsg "byte list"
  | UserLoginReqMsg "byte list" "byte list"
  | RegistrationReqMsg "byte list" "byte list" "byte list"
  | DisconnectionReqMsg "32 word"
  | DisconnectionCnfMsg
  | IgnoredMsg
  | UnexpectedMsg

datatype reply =
    ConnectionCnfRep
  | ConnectionRejRep ConnectionRejCause
  | RegistrationCnfRep
  | RegistrationRejRep RegistrationRejCause
  | UserLoginRejRep UserLoginRejCause
  | DisconnectionCnfRep

record abs_cnx =
  a_state :: State
  a_cause :: ConnectionRejCause
  a_name :: "byte list"
  a_email :: "byte list"
  a_pwd :: "byte list"

definition abs_of :: "ServerClientConnection \<Rightarrow> abs_cnx" where
  "abs_of c = \<lparr>a_state = state c, a_cause = last_rejected_cause c, a_name = user_name c,
     a_email = user_email c, a_pwd = user_pwd c\<rparr>"

fun react :: "client_msg \<Rightarrow> abs_cnx \<Rightarrow> (abs_cnx \<times> reply list) option" where
  "react (ConnectionReqMsg v) a =
    (if a_state a = EMPTY \<and> v = main_version
     then Some (a\<lparr>a_state := REGISTERING\<rparr>, [ConnectionCnfRep])
     else let cause = (if a_state a = EMPTY then BAD_CLIENT_VERSION
                       else if a_state a = CONN_REJECTED then a_cause a else UNEXPECTED_CONN_REQ)
          in Some (a\<lparr>a_state := CONN_REJECTED, a_cause := cause\<rparr>, [ConnectionRejRep cause]))"
| "react (UserLoginReqMsg name pwd) a =
    (if a_state a = REGISTERING
     then Some (a\<lparr>a_name := name, a_pwd := pwd\<rparr>, [UserLoginRejRep USER_UNKNOWN])
     else Some (a, [UserLoginRejRep UNEXPECTED_LOGIN_PROC]))"
| "react (RegistrationReqMsg name email pwd) a =
    (if a_state a = REGISTERING
     then Some (a\<lparr>a_state := REGISTERED, a_name := name, a_email := email, a_pwd := pwd\<rparr>,
                [RegistrationCnfRep])
     else Some (a, [RegistrationRejRep UNEXPECTED_REGISTRATION]))"
| "react (DisconnectionReqMsg cause) a =
    (if cause = disconnection_req_val USER_SHUTDOWN
     then Some (a\<lparr>a_state := CLOSING\<rparr>, [DisconnectionCnfRep]) else None)"
| "react DisconnectionCnfMsg a = None"
| "react IgnoredMsg a = Some (a, [])"
| "react UnexpectedMsg a = None"

text \<open>The fields of a received message; \<open>None\<close> when one of its strings has no NUL.\<close>

definition decode_client_msg :: "mem \<Rightarrow> client_msg option" where
  "decode_client_msg m = (case id_of (l1_id m) of
      Some CONNECTION_REQ \<Rightarrow>
        (case body_string m 0 of Inr v \<Rightarrow> Some (ConnectionReqMsg v) | Inl _ \<Rightarrow> None)
    | Some USER_LOGGING_REQ \<Rightarrow>
        (case (body_string m 0, body_string m off_password) of
           (Inr n, Inr p) \<Rightarrow> Some (UserLoginReqMsg n p) | _ \<Rightarrow> None)
    | Some REGISTRATION_REQ \<Rightarrow>
        (case (body_string m 0, body_string m off_mail_address, body_string m off_password) of
           (Inr n, Inr e, Inr p) \<Rightarrow> Some (RegistrationReqMsg n e p) | _ \<Rightarrow> None)
    | Some DISCONNECTION_REQ \<Rightarrow> Some (DisconnectionReqMsg (get_enum (l1_body m)))
    | Some DISCONNECTION_CNF \<Rightarrow> Some DisconnectionCnfMsg
    | Some i \<Rightarrow> Some (if i \<in> {POLL_REQ, POLL_CNF, DATA_TRANSFER_REQ, TRANSFER_DATA_BLK, FILE_TRANSFER_REQ}
                     then IgnoredMsg else UnexpectedMsg)
    | None \<Rightarrow> Some UnexpectedMsg)"

text \<open>The request queued for a reply: identity, length and the bytes of the body that are set.\<close>

definition msg_of :: "request \<Rightarrow> ClientServerL1MessageId \<Rightarrow> int \<Rightarrow> (mem \<Rightarrow> bool) \<Rightarrow> bool" where
  "msg_of r i n P \<longleftrightarrow> l2_payload_length r = n \<and> nb_payload_bytes_sent r = 0
     \<and> (case kind r of MsgRequest j m \<Rightarrow> j = i \<and> P m | _ \<Rightarrow> False)"

fun is_reply :: "reply \<Rightarrow> request \<Rightarrow> bool" where
  "is_reply ConnectionCnfRep r = msg_of r CONNECTION_CNF sizeof_ConnectionCnf (\<lambda>m.
     get_enum m = cyphering_val NO_CICPHERING \<and> read_bytes m off_cnf_key 128 = replicate 128 0)"
| "is_reply (ConnectionRejRep cause) r = msg_of r CONNECTION_REJ sizeof_ConnectionRej (\<lambda>m.
     get_enum m = connection_rej_val cause
     \<and> read_bytes m off_rej_version (length main_version) = main_version
     \<and> m (off_rej_version + length main_version + 1) = 0)"
| "is_reply RegistrationCnfRep r = msg_of r REGISTRATION_CNF sizeof_RegistrationCnf (\<lambda>m. True)"
| "is_reply (RegistrationRejRep rcause) r = msg_of r REGISTRATION_REJ sizeof_RegistrationRej (\<lambda>m.
     get_enum m = registration_rej_val rcause)"
| "is_reply (UserLoginRejRep ucause) r = msg_of r USER_LOGGING_REJ sizeof_UserLoginRej (\<lambda>m.
     get_enum m = user_login_rej_val ucause)"
| "is_reply DisconnectionCnfRep r = msg_of r DISCONNECTION_CNF sizeof_DisconnectionCnf (\<lambda>m. True)"

section \<open>The handlers on an open connection\<close>

definition open_cnx :: "'k server \<Rightarrow> int \<Rightarrow> ServerClientConnection \<Rightarrow> bool" where
  "open_cnx s fd c \<longleftrightarrow> cnx s fd = Some c \<and> socket_descr (servSock c) = fd \<and> fd_valid fd"

definition put_cnx :: "int \<Rightarrow> ServerClientConnection \<Rightarrow> 'k server \<Rightarrow> 'k server" where
  "put_cnx fd c s = s\<lparr>router := (router s)\<lparr>socket_map := (socket_map (router s))(fd \<mapsto> c)\<rparr>\<rparr>"

definition flag :: "int \<Rightarrow> 'k server \<Rightarrow> 'k server" where
  "flag fd s = s\<lparr>router := (router s)\<lparr>select_writefds := FD_SET fd (select_writefds (router s))\<rparr>\<rparr>"

lemma cnx_updates [simp]:
  "cnx (put_cnx fd c s) fd' = (if fd' = fd then Some c else cnx s fd')"
  "cnx (flag fd s) fd' = cnx s fd'"
  "cnx (s\<lparr>kern := k\<rparr>) fd' = cnx s fd'"
  by (simp_all add: cnx_def put_cnx_def flag_def)

lemma put_cnx_simps [simp]:
  "put_cnx fd c (put_cnx fd c' s) = put_cnx fd c s"
  "flag fd (put_cnx fd c s) = put_cnx fd c (flag fd s)"
  "(put_cnx fd c s)\<lparr>kern := k\<rparr> = put_cnx fd c (s\<lparr>kern := k\<rparr>)"
  "(flag fd s)\<lparr>kern := k\<rparr> = flag fd (s\<lparr>kern := k\<rparr>)"
  "kern (put_cnx fd c s) = kern s" "kern (flag fd s) = kern s"
  by (simp_all add: put_cnx_def flag_def)

lemma FD_SET_already: "FD_ISSET fd s \<Longrightarrow> FD_SET fd s = s"
proof -
  assume "FD_ISSET fd s"
  then have "s ! nat (fd div 64) OR push_bit (nat (fd mod 64)) 1 = s ! nat (fd div 64)"
    by (intro bit_word_eqI) (auto simp: FD_ISSET_def bit_or_iff bit_exp_iff)
  then show ?thesis by (simp add: FD_SET_def)
qed

lemma this_simp [simp]: "cnx s fd = Some c \<Longrightarrow> this fd k s = k c s"
  by (simp add: this_def)

lemma modCnx_simp [simp]: "cnx s fd = Some c \<Longrightarrow> modCnx fd f s = (Inr (), put_cnx fd (f c) s)"
  by (simp add: modCnx_def modRouter_def put_cnx_def cnx_def)

lemma setCnxState_simp [simp]:
  "cnx s fd = Some c \<Longrightarrow> setCnxState fd st s = (Inr (), put_cnx fd (c\<lparr>state := st\<rparr>) s)"
  by (simp add: setCnxState_def)

lemma OutgoingDataForClient_simp [simp]:
  "cnx s fd = Some c \<Longrightarrow> fd_valid fd \<Longrightarrow> OutgoingDataForClient fd s = (Inr (), flag fd s)"
  by (simp add: OutgoingDataForClient_def modRouter_def flag_def FD_SET_already)

definition queued :: "request \<Rightarrow> ServerClientConnection \<Rightarrow> ServerClientConnection" where
  "queued r c = c\<lparr>servSock := sendMsg r (servSock c)\<rparr>"

lemma sendMsgToClient_simp:
  assumes "cnx s fd = Some c" "socket_descr (servSock c) = fd" "fd_valid fd"
  shows "sendMsgToClient fd r s = (Inr (), put_cnx fd (queued r c) (flag fd s))"
  using assms by (simp add: sendMsgToClient_def queued_def)

lemma sendBody_simp:
  assumes "cnx s fd = Some c" "socket_descr (servSock c) = fd" "fd_valid fd" "0 \<le> n" "n < 8192"
  shows "sendBody fd m n i s = (Inr (), put_cnx fd
     (queued \<lparr>l2_payload_length = n, nb_payload_bytes_sent = 0, kind = MsgRequest i m\<rparr> c) (flag fd s))"
  using assms by (simp add: sendBody_def new_MsgRequest_def sendMsgToClient_simp)

text \<open>The outcome of sending one reply.\<close>

definition replies :: "('k server, unit) stm \<Rightarrow> int \<Rightarrow> reply \<Rightarrow> bool" where
  "replies m fd rep \<longleftrightarrow> (\<forall>s c. cnx s fd = Some c \<and> socket_descr (servSock c) = fd \<and> fd_valid fd \<longrightarrow>
     (\<exists>k r. m s = (Inr (), put_cnx fd (queued r c) (flag fd (s\<lparr>kern := k\<rparr>))) \<and> is_reply rep r))"

lemma repliesI:
  fixes os :: "'k os"
  assumes "\<And>b. is_reply rep \<lparr>l2_payload_length = n, nb_payload_bytes_sent = 0, kind = MsgRequest i (f b)\<rparr>"
    and "0 \<le> n" "n < 8192"
  shows "replies (andThen (new_mem os) (\<lambda>b. sendBody fd (f b) n i)) fd rep"
  unfolding replies_def
proof (intro allI impI)
  fix s :: "'k server" and c assume c: "cnx s fd = Some c \<and> socket_descr (servSock c) = fd \<and> fd_valid fd"
  obtain b k where "os_new os (kern s) = (b, k)" by fastforce
  with c assms show "\<exists>k r. andThen (new_mem os) (\<lambda>b. sendBody fd (f b) n i) s
      = (Inr (), put_cnx fd (queued r c) (flag fd (s\<lparr>kern := k\<rparr>))) \<and> is_reply rep r"
    by (intro exI [of _ k] exI [of _ "\<lparr>l2_payload_length = n, nb_payload_bytes_sent = 0,
        kind = MsgRequest i (f b)\<rparr>"]) (simp add: sendBody_simp)
qed

lemma get_put_enum [simp]: "get_enum (put_enum w m) = w"
  by (simp add: get_enum_def put_enum_def)

lemma read_bytes_zero: "read_bytes (\<lambda>_. 0) p n = replicate n 0"
  by (simp add: read_bytes_eq_iff)

lemma replies_senders:
  "replies (sendConnectionCnf os fd NO_CICPHERING key) fd ConnectionCnfRep"
  "replies (sendConnectionRej os fd cause) fd (ConnectionRejRep cause)"
  "replies (sendRegistrationCnf os fd) fd RegistrationCnfRep"
  "replies (sendRegistrationRej os fd rcause) fd (RegistrationRejRep rcause)"
  "replies (sendUserLoginRej os fd ucause) fd (UserLoginRejRep ucause)"
  "replies (sendDisconnectionCnf os fd) fd DisconnectionCnfRep"
proof -
  have "get_enum (write_bytes (put_enum w m) 4 bs) = w" for w m bs
    by (simp add: get_enum_def put_enum_def load32_cong [of 0 "write_bytes (store32 m 0 w) 4 bs" "store32 m 0 w"]
        write_bytes_out)
  moreover have "read_bytes (write_bytes m 4 (replicate 128 0)) 4 128 = replicate 128 0" for m
    using read_write_bytes [of m 4 "replicate 128 0"] by simp
  ultimately show "replies (sendConnectionCnf os fd NO_CICPHERING key) fd ConnectionCnfRep"
    unfolding sendConnectionCnf_def
    by (intro repliesI) (simp_all add: msg_of_def cipheringKeyDataCopy_eq off_cnf_key_def read_bytes_zero)
next
  let ?f = "\<lambda>m. (write_bytes (put_enum (connection_rej_val cause) m) 4 main_version)(23 := 0)"
  have eq: "sendConnectionRej os fd cause
      = andThen (new_mem os) (\<lambda>m. sendBody fd (?f m) sizeof_ConnectionRej CONNECTION_REJ)"
    by (simp add: sendConnectionRej_def put_string_eq off_rej_version_def)
  have "get_enum (?f m) = connection_rej_val cause" for m
    unfolding get_enum_def put_enum_def
    by (subst load32_cong [of 0 _ "store32 m 0 (connection_rej_val cause)"]) (simp_all add: write_bytes_out)
  moreover have "read_bytes (?f m) 4 18 = main_version" for m
    by (simp add: read_bytes_eq_iff write_bytes_in)
  ultimately show "replies (sendConnectionRej os fd cause) fd (ConnectionRejRep cause)"
    unfolding eq by (intro repliesI) (simp_all add: msg_of_def off_rej_version_def)
qed (simp_all add: send_defs repliesI msg_of_def)


lemma repliesE:
  assumes "replies m fd rep" "cnx s fd = Some c" "socket_descr (servSock c) = fd" "fd_valid fd"
  obtains k r where "m s = (Inr (), put_cnx fd (queued r c) (flag fd (s\<lparr>kern := k\<rparr>)))" "is_reply rep r"
  using assms unfolding replies_def by blast

text \<open>
  The connection of \<open>fd\<close> has gone from \<open>c\<close> to a state seen as \<open>a\<close> and the replies \<open>reps\<close> are at the end of
  its queue, with the bit in the emission set that makes the router send them.
\<close>

definition answered ::
    "int \<Rightarrow> ServerClientConnection \<Rightarrow> abs_cnx \<Rightarrow> reply list \<Rightarrow> 'k server \<Rightarrow> bool" where
  "answered fd c a reps t \<longleftrightarrow> (\<exists>c' rs. cnx t fd = Some c' \<and> abs_of c' = a
     \<and> servSock c' = (servSock c)\<lparr>tx_fifo := tx_fifo (servSock c) @ rs\<rparr>
     \<and> list_all2 is_reply reps rs
     \<and> (reps \<noteq> [] \<longrightarrow> fd_set_ok (select_writefds (router t)) \<longrightarrow> FD_ISSET fd (select_writefds (router t))))"

lemma queued_simps [simp]:
  "servSock (queued r c) = sendMsg r (servSock c)" "abs_of (queued r c) = abs_of c"
  "queued r (c\<lparr>state := st\<rparr>) = (queued r c)\<lparr>state := st\<rparr>"
  "state (queued r c) = state c"
  by (simp_all add: queued_def abs_of_def)

lemma flag_isset:
  "fd_valid fd \<Longrightarrow> fd_set_ok (select_writefds (router (flag fd s))) \<Longrightarrow> FD_ISSET fd (select_writefds (router (flag fd s)))"
proof -
  assume v: "fd_valid fd" and "fd_set_ok (select_writefds (router (flag fd s)))"
  then have "fd_set_ok (select_writefds (router s))" by (simp add: flag_def fd_set_ok_def FD_SET_def)
  with v show ?thesis by (simp add: flag_def FD_ISSET_SET)
qed

lemma answered_nothing: "cnx t fd = Some c \<Longrightarrow> answered fd c (abs_of c) [] t"
  unfolding answered_def by (rule exI [of _ c], rule exI [of _ "[]"]) simp

lemma answered_reply:
  assumes "is_reply rep r" "servSock c' = sendMsg r (servSock c)" "fd_valid fd"
  shows "answered fd c (abs_of c') [rep] (put_cnx fd c' (flag fd s))"
proof -
  have "select_writefds (router (put_cnx fd c' (flag fd s))) = select_writefds (router (flag fd s))"
    by (simp add: put_cnx_def)
  then show ?thesis
    using assms flag_isset [of fd s] unfolding answered_def
    by (intro exI [of _ c'] exI [of _ "[r]"]) (simp add: sendMsg_def)
qed

lemma body_stringD: "with_string m p k = (case body_string m p of Inl e \<Rightarrow> failS e | Inr v \<Rightarrow> k v)"
  by (simp add: with_string_def)

lemma handleConnectionReq_reacts:
  assumes c: "cnx s fd = Some c" and d: "socket_descr (servSock c) = fd" and v: "fd_valid fd"
    and m: "body_string m 0 = Inr ver" and re: "react (ConnectionReqMsg ver) (abs_of c) = Some (a, reps)"
  shows "\<exists>t. handleConnectionReq os fd m s = (Inr (), t) \<and> answered fd c a reps t"
proof (cases "state c = EMPTY \<and> ver = main_version")
  case True
  from replies_senders(1) [where os = os and key = "\<lambda>_. 0" and fd = fd] c d v obtain k r
    where r: "sendConnectionCnf os fd NO_CICPHERING (\<lambda>_. 0) s
        = (Inr (), put_cnx fd (queued r c) (flag fd (s\<lparr>kern := k\<rparr>)))" "is_reply ConnectionCnfRep r"
    by (rule repliesE)
  let ?c = "(queued r c)\<lparr>state := REGISTERING\<rparr>"
  have "a = abs_of ?c" "reps = [ConnectionCnfRep]" using re True by (auto simp: abs_of_def queued_def)
  with answered_reply [OF r(2), of ?c c fd "s\<lparr>kern := k\<rparr>"] r c v True m show ?thesis
    by (simp add: handleConnectionReq_def with_string_def)
next
  case False
  define cause where "cause = (if state c = EMPTY then BAD_CLIENT_VERSION
    else if state c = CONN_REJECTED then last_rejected_cause c else UNEXPECTED_CONN_REQ)"
  let ?c1 = "c\<lparr>last_rejected_cause := cause\<rparr>"
  let ?s1 = "if state c = CONN_REJECTED then s else put_cnx fd ?c1 s"
  have c1: "cnx ?s1 fd = Some ?c1" "socket_descr (servSock ?c1) = fd"
    using c d by (auto simp: cause_def)
  from replies_senders(2) [where os = os and fd = fd and cause = cause] c1 v obtain k r
    where r: "sendConnectionRej os fd cause ?s1
        = (Inr (), put_cnx fd (queued r ?c1) (flag fd (?s1\<lparr>kern := k\<rparr>)))"
      "is_reply (ConnectionRejRep cause) r"
    by (rule repliesE)
  let ?c = "(queued r ?c1)\<lparr>state := CONN_REJECTED\<rparr>"
  have "a = abs_of ?c" "reps = [ConnectionRejRep cause]"
    using re False by (auto simp: abs_of_def queued_def cause_def Let_def split: if_splits)
  moreover have "handleConnectionReq os fd m s = (Inr (), put_cnx fd ?c (flag fd (s\<lparr>kern := k\<rparr>)))"
    using c False m r(1)
    by (auto simp: handleConnectionReq_def with_string_def cause_def split: if_splits)
  ultimately show ?thesis using answered_reply [OF r(2), of ?c c fd "s\<lparr>kern := k\<rparr>"] v by simp
qed

lemma handleRegistrationReq_reacts:
  assumes c: "cnx s fd = Some c" and d: "socket_descr (servSock c) = fd" and v: "fd_valid fd"
    and m: "body_string m 0 = Inr name" "body_string m off_mail_address = Inr email"
    "body_string m off_password = Inr pwd"
    and re: "react (RegistrationReqMsg name email pwd) (abs_of c) = Some (a, reps)"
  shows "\<exists>t. handleRegistrationReq os fd m s = (Inr (), t) \<and> answered fd c a reps t"
proof (cases "state c = REGISTERING")
  case True
  let ?c1 = "c\<lparr>user_name := name, user_email := email, user_pwd := pwd\<rparr>"
  from replies_senders(3) [where os = os and fd = fd] c d v obtain k r
    where r: "sendRegistrationCnf os fd (put_cnx fd ?c1 s)
        = (Inr (), put_cnx fd (queued r ?c1) (flag fd ((put_cnx fd ?c1 s)\<lparr>kern := k\<rparr>)))"
      "is_reply RegistrationCnfRep r"
    by (rule_tac s = "put_cnx fd ?c1 s" and c = ?c1 in repliesE) auto
  let ?c = "(queued r ?c1)\<lparr>state := REGISTERED\<rparr>"
  have "a = abs_of ?c" "reps = [RegistrationCnfRep]"
    using re True by (auto simp: abs_of_def queued_def)
  with answered_reply [OF r(2), of ?c c fd "s\<lparr>kern := k\<rparr>"] r c v True m show ?thesis
    by (simp add: handleRegistrationReq_def with_string_def known_user_def correct_email_def)
next
  case False
  from replies_senders(4) [where os = os and fd = fd and rcause = UNEXPECTED_REGISTRATION] c d v obtain k r
    where r: "sendRegistrationRej os fd UNEXPECTED_REGISTRATION s
        = (Inr (), put_cnx fd (queued r c) (flag fd (s\<lparr>kern := k\<rparr>)))"
      "is_reply (RegistrationRejRep UNEXPECTED_REGISTRATION) r"
    by (rule repliesE)
  have "a = abs_of (queued r c)" "reps = [RegistrationRejRep UNEXPECTED_REGISTRATION]"
    using re False by (auto simp: abs_of_def queued_def)
  with answered_reply [OF r(2), of "queued r c" c fd "s\<lparr>kern := k\<rparr>"] r c v False show ?thesis
    by (simp add: handleRegistrationReq_def)
qed

lemma handleUserLoginReq_reacts:
  assumes c: "cnx s fd = Some c" and d: "socket_descr (servSock c) = fd" and v: "fd_valid fd"
    and m: "body_string m 0 = Inr name" "body_string m off_password = Inr pwd"
    and re: "react (UserLoginReqMsg name pwd) (abs_of c) = Some (a, reps)"
  shows "\<exists>t. handleUserLoginReq os fd m s = (Inr (), t) \<and> answered fd c a reps t"
proof (cases "state c = REGISTERING")
  case True
  let ?c1 = "c\<lparr>user_name := name, user_pwd := pwd\<rparr>"
  from replies_senders(5) [where os = os and fd = fd and ucause = USER_UNKNOWN] c d v obtain k r
    where r: "sendUserLoginRej os fd USER_UNKNOWN (put_cnx fd ?c1 s)
        = (Inr (), put_cnx fd (queued r ?c1) (flag fd ((put_cnx fd ?c1 s)\<lparr>kern := k\<rparr>)))"
      "is_reply (UserLoginRejRep USER_UNKNOWN) r"
    by (rule_tac s = "put_cnx fd ?c1 s" and c = ?c1 in repliesE) auto
  have "a = abs_of (queued r ?c1)" "reps = [UserLoginRejRep USER_UNKNOWN]"
    using re True by (auto simp: abs_of_def queued_def)
  with answered_reply [OF r(2), of "queued r ?c1" c fd "s\<lparr>kern := k\<rparr>"] r c v True m show ?thesis
    by (simp add: handleUserLoginReq_def with_string_def known_user_def)
next
  case False
  from replies_senders(5) [where os = os and fd = fd and ucause = UNEXPECTED_LOGIN_PROC] c d v obtain k r
    where r: "sendUserLoginRej os fd UNEXPECTED_LOGIN_PROC s
        = (Inr (), put_cnx fd (queued r c) (flag fd (s\<lparr>kern := k\<rparr>)))"
      "is_reply (UserLoginRejRep UNEXPECTED_LOGIN_PROC) r"
    by (rule repliesE)
  have "a = abs_of (queued r c)" "reps = [UserLoginRejRep UNEXPECTED_LOGIN_PROC]"
    using re False by (auto simp: abs_of_def queued_def)
  with answered_reply [OF r(2), of "queued r c" c fd "s\<lparr>kern := k\<rparr>"] r c v False show ?thesis
    by (simp add: handleUserLoginReq_def)
qed

lemma handleDisconnectionReq_reacts:
  assumes c: "cnx s fd = Some c" and d: "socket_descr (servSock c) = fd" and v: "fd_valid fd"
    and re: "react (DisconnectionReqMsg (get_enum (l1_body m))) (abs_of c) = Some (a, reps)"
  shows "\<exists>t. handleDisconnectionReq os fd m s = (Inr (), t) \<and> answered fd c a reps t"
proof -
  from replies_senders(6) [where os = os and fd = fd] c d v obtain k r
    where r: "sendDisconnectionCnf os fd s = (Inr (), put_cnx fd (queued r c) (flag fd (s\<lparr>kern := k\<rparr>)))"
      "is_reply DisconnectionCnfRep r"
    by (rule repliesE)
  let ?c = "(queued r c)\<lparr>state := CLOSING\<rparr>"
  have "a = abs_of ?c" "reps = [DisconnectionCnfRep]"
    "get_enum (l1_body m) = disconnection_req_val USER_SHUTDOWN"
    using re by (auto simp: abs_of_def queued_def split: if_splits)
  with answered_reply [OF r(2), of ?c c fd "s\<lparr>kern := k\<rparr>"] r c v show ?thesis
    by (simp add: handleDisconnectionReq_def)
qed

lemma handle_client_message_frame:
  assumes "own_descr s" and "handle_client_message os fd m s = (r, t)"
  shows "frame fd s t"
  using assms frames_handle_client_message [of fd os m] unfolding frames_def by blast

lemma handle_client_message_reacts:
  assumes c: "cnx s fd = Some c" and d: "socket_descr (servSock c) = fd" and v: "fd_valid fd"
    and st: "state c \<noteq> DISCONNECTING"
    and dec: "decode_client_msg m = Some ev"
  shows "(\<forall>a reps. react ev (abs_of c) = Some (a, reps) \<longrightarrow>
       (\<exists>t. handle_client_message os fd m s = (Inr (), t) \<and> answered fd c a reps t))
     \<and> (react ev (abs_of c) = None \<longrightarrow> fst (handle_client_message os fd m s) = Inl AssertFailed)"
proof (cases "id_of (l1_id m)")
  case None
  with dec have "ev = UnexpectedMsg" by (simp add: decode_client_msg_def)
  with None show ?thesis by (simp add: handle_client_message_def)
next
  case (Some i)
  note dec' = dec [unfolded decode_client_msg_def Some option.case]
  show ?thesis
  proof (cases i)
    case CONNECTION_REQ
    with dec' obtain ver where "body_string m 0 = Inr ver" "ev = ConnectionReqMsg ver"
      by (auto split: sum.splits)
    with handleConnectionReq_reacts [OF c d v] Some CONNECTION_REQ show ?thesis
      by (auto simp: handle_client_message_def Let_def split: if_splits)
  next
    case USER_LOGGING_REQ
    with dec' obtain n p where "body_string m 0 = Inr n" "body_string m off_password = Inr p"
      "ev = UserLoginReqMsg n p"
      by (auto split: sum.splits)
    with handleUserLoginReq_reacts [OF c d v] Some USER_LOGGING_REQ show ?thesis
      by (auto simp: handle_client_message_def split: if_splits)
  next
    case REGISTRATION_REQ
    with dec' obtain n e p where "body_string m 0 = Inr n" "body_string m off_mail_address = Inr e"
      "body_string m off_password = Inr p" "ev = RegistrationReqMsg n e p"
      by (auto split: sum.splits)
    with handleRegistrationReq_reacts [OF c d v] Some REGISTRATION_REQ show ?thesis
      by (auto simp: handle_client_message_def split: if_splits)
  next
    case DISCONNECTION_REQ
    with dec' have "ev = DisconnectionReqMsg (get_enum (l1_body m))" by simp
    with handleDisconnectionReq_reacts [OF c d v, of m] Some DISCONNECTION_REQ show ?thesis
      by (auto simp: handle_client_message_def handleDisconnectionReq_def)
  next
    case DISCONNECTION_CNF
    with dec' have "ev = DisconnectionCnfMsg" by simp
    with Some DISCONNECTION_CNF c st show ?thesis
      by (simp add: handle_client_message_def handleDisconnectionCnf_def)
  qed (use dec' Some c in \<open>auto simp: handle_client_message_def answered_nothing\<close>)
qed

section \<open>The message loop of a connection\<close>

lemma nextReceived_none:
  assumes "received fd s = []" shows "nextReceived fd s = (None, s)"
proof (cases "cnx s fd")
  case None
  then show ?thesis by (simp add: nextReceived_def)
next
  case (Some c)
  with assms have "leave_sock s fd c \<lparr>kern = kern s, errno = errno s, sock = servSock c\<rparr> = s"
    by (simp add: leave_sock_def cnx_def fun_upd_idem)
  with Some assms show ?thesis by (simp add: nextReceived_def getNextReceivedMsg_def received_def)
qed

lemma nextReceived_some:
  assumes "received fd s = m # ms"
  shows "\<exists>c. cnx s fd = Some c
     \<and> nextReceived fd s = (Some m, put_cnx fd (c\<lparr>servSock := (servSock c)\<lparr>rx_fifo := ms\<rparr>\<rparr>) s)"
  using assms
  by (auto simp: received_def nextReceived_def getNextReceivedMsg_def leave_sock_def put_cnx_def cnx_def
      split: option.splits list.splits)

text \<open>Taking a message changes the queue of the connection and nothing else.\<close>

lemma nextReceived_frame:
  assumes own: "own_descr s" and n: "nextReceived fd s = (Some m, t)"
  shows "frame fd s t \<and> (\<exists>c ms. cnx s fd = Some c \<and> rx_fifo (servSock c) = m # ms
    \<and> t = put_cnx fd (c\<lparr>servSock := (servSock c)\<lparr>rx_fifo := ms\<rparr>\<rparr>) s)"
proof (cases "received fd s")
  case Nil
  with n nextReceived_none [OF Nil] show ?thesis by simp
next
  case (Cons m' ms)
  from nextReceived_some [OF this] n obtain c
    where c: "cnx s fd = Some c" and m': "m' = m"
      and t: "t = put_cnx fd (c\<lparr>servSock := (servSock c)\<lparr>rx_fifo := ms\<rparr>\<rparr>) s" by auto
  have "frame fd s t"
    using frames_modCnx [of "\<lambda>c. c\<lparr>servSock := (servSock c)\<lparr>rx_fifo := ms\<rparr>\<rparr>" fd] own c
    unfolding t frame_def own_descr_def
    by (auto simp: put_cnx_def cnx_def)
  moreover have "rx_fifo (servSock c) = m # ms" using Cons c m' by (simp add: received_def)
  ultimately show ?thesis using c t by blast
qed

interpretation server_msgs: message_handler "nextReceived fd" "handle_client_message os fd"
    "received fd" "frame fd s0" for fd os s0
proof
  fix s :: "'a server" and m ms assume "frame fd s0 s" "received fd s = m # ms"
  then show "\<exists>s'. nextReceived fd s = (Some m, s') \<and> received fd s' = ms"
    using nextReceived_some [of fd s m ms] by (auto simp: received_def)
next
  fix s s' t :: "'a server" and m r
  assume s: "frame fd s0 s" and n: "nextReceived fd s = (Some m, s')"
    and h: "handle_client_message os fd m s' = (r, t)"
  from nextReceived_frame [OF frame_own [OF s] n] s have s': "frame fd s0 s'" by (blast intro: frame_trans)
  with h frames_handle_client_message [of fd os m]
  have "frame fd s' t" and "received fd t = received fd s' \<or> received fd t = []"
    unfolding frames_def by (blast dest: frame_own)+
  with s' show "received fd t = received fd s' \<or> received fd t = []" and "frame fd s0 t"
    by (blast intro: frame_trans)+
qed (simp add: nextReceived_none)

text \<open>A whole read of a socket: the object and its neighbours are framed whatever happens.\<close>

lemma sockO_frame:
  assumes own: "own_descr s" and r: "sockO fd m s = Some (r, t)"
    and m: "\<And>x r y. m x = Some (r, y) \<Longrightarrow> socket_descr (sock y) = socket_descr (sock x)"
  shows "frame fd s t"
proof (cases "cnx s fd")
  case None
  with own r show ?thesis by (simp add: sockO_def)
next
  case (Some c)
  with r obtain x where "m (enter_sock s c) = Some (r, x)" "t = leave_sock s fd c x"
    by (auto simp: sockO_def)
  with m [of "enter_sock s c" r x] frame_leave_sock [OF own Some, of x] show ?thesis
    by (simp add: enter_sock_def)
qed

lemma socketDataWrite_frame:
  "own_descr s \<Longrightarrow> socketDataWrite os fd s = Some (r, t) \<Longrightarrow> frame fd s t"
  unfolding socketDataWrite_def by (rule sockO_frame) (auto dest: sendNextData_descr)

lemma socketDataRead_frame:
  assumes own: "own_descr s" and r: "socketDataRead os fd s = Some (r, t)"
  shows "frame fd s t"
proof -
  obtain r1 s1 where m: "sockO fd (recvNextData os) s = Some (r1, s1)"
    using r by (cases "sockO fd (recvNextData os) s") (auto simp: socketDataRead_def)
  have f: "frame fd s s1" by (rule sockO_frame [OF own m]) (rule recvNextData_descr)
  show ?thesis
  proof (cases r1)
    case (Inl e)
    with r m f show ?thesis by (simp add: socketDataRead_def)
  next
    case (Inr x)
    with r m have d: "dispatch (nextReceived fd) (handle_client_message os fd) s1 = Some (r, t)"
      by (simp add: socketDataRead_def)
    from server_msgs.dispatch_keeps [OF f d] show ?thesis .
  qed
qed

text \<open>The read of a connection ends when the reception does, and then no message is left unhandled.\<close>

lemma socketDataRead_ends:
  assumes own: "own_descr s" and c: "cnx s fd = Some c" and m: "recvNextData os (enter_sock s c) \<noteq> None"
  shows "\<exists>r t. socketDataRead os fd s = Some (r, t) \<and> (r = Inr () \<longrightarrow> received fd t = [])"
proof -
  from m obtain r1 x where x: "recvNextData os (enter_sock s c) = Some (r1, x)" by auto
  define s1 where "s1 = leave_sock s fd c x"
  have o: "sockO fd (recvNextData os) s = Some (r1, s1)" using c x by (simp add: sockO_def s1_def)
  have f: "frame fd s s1" by (rule sockO_frame [OF own o]) (rule recvNextData_descr)
  show ?thesis
    using server_msgs.dispatch_ends [OF f, of os] o by (cases r1) (auto simp: socketDataRead_def)
qed

section \<open>States that a connection does not leave\<close>

definition in_states :: "int \<Rightarrow> State set \<Rightarrow> 'k server \<Rightarrow> bool" where
  "in_states fd R s \<longleftrightarrow> (\<exists>c. cnx s fd = Some c \<and> state c \<in> R)"

definition stays :: "int \<Rightarrow> State set \<Rightarrow> ('k server, 'a) stm \<Rightarrow> bool" where
  "stays fd R m \<longleftrightarrow> (\<forall>s. in_states fd R s \<longrightarrow> in_states fd R (snd (m s)))"

named_theorems stays_rules

lemma staysD: "stays fd R m \<Longrightarrow> in_states fd R s \<Longrightarrow> m s = (r, t) \<Longrightarrow> in_states fd R t"
  unfolding stays_def by (metis snd_conv)

lemma stays_basic [stays_rules]:
  "stays fd R (retS x)" "stays fd R (failS e)" "stays fd R (assertS P)"
  "stays fd R m \<Longrightarrow> stays fd R n \<Longrightarrow> stays fd R (if b then m else n)"
  by (simp_all add: stays_def assertS_def)

lemma stays_andThen [stays_rules]:
  assumes "stays fd R m" "\<And>x. stays fd R (k x)" shows "stays fd R (andThen m k)"
  unfolding stays_def
proof (intro allI impI)
  fix s :: "'a server" assume s: "in_states fd R s"
  obtain r1 s1 where m: "m s = (r1, s1)" by fastforce
  with s assms(1) have "in_states fd R s1" by (auto dest: staysD)
  with m assms(2) show "in_states fd R (snd (andThen m k s))"
    by (cases r1) (simp_all add: stays_def)
qed

lemma stays_modCnx [stays_rules]: "(\<And>c. state (f c) = state c) \<Longrightarrow> stays fd R (modCnx fd f)"
  by (auto simp: stays_def in_states_def cnx_modCnx)

lemma stays_setCnxState [stays_rules]: "st \<in> R \<Longrightarrow> stays fd R (setCnxState fd st)"
  by (auto simp: stays_def in_states_def)

lemma stays_this [stays_rules]:
  "(\<And>c. state c \<in> R \<Longrightarrow> stays fd R (k c)) \<Longrightarrow> stays fd R (this fd k)"
  by (auto simp: stays_def in_states_def)

lemma stays_with_string [stays_rules]: "(\<And>v. stays fd R (k v)) \<Longrightarrow> stays fd R (with_string m p k)"
  by (auto simp: with_string_def stays_rules split: sum.split)

lemma stays_new_mem [stays_rules]: "stays fd R (new_mem os)"
  by (auto simp: stays_def in_states_def new_mem_def split: prod.split)

lemma stays_sockS [stays_rules]: "stays fd R (sockS fd m)"
  by (auto simp: stays_def in_states_def sockS_def leave_sock_def cnx_def split: prod.split)

lemma stays_OutgoingDataForClient [stays_rules]: "stays fd R (OutgoingDataForClient d)"
  by (auto simp: stays_def in_states_def OutgoingDataForClient_def modRouter_def cnx_def split: option.splits)

lemma stays_sendMsgToClient [stays_rules]: "stays fd R (sendMsgToClient fd r)"
  unfolding sendMsgToClient_def by (intro stays_rules) simp

lemma stays_sendBody [stays_rules]: "stays fd R (sendBody fd m n i)"
  by (auto simp: sendBody_def stays_rules split: sum.split)

lemma stays_send [stays_rules]:
  "stays fd R (sendConnectionCnf os fd ciph key)"
  "stays fd R (sendConnectionRej os fd cause)"
  "stays fd R (sendRegistrationRej os fd rcause)"
  "stays fd R (sendRegistrationCnf os fd)"
  "stays fd R (sendUserLoginRej os fd ucause)"
  "stays fd R (sendDisconnectionCnf os fd)"
  unfolding send_defs sendConnectionRej_def
  by (intro stays_rules | simp split: sum.split add: stays_rules)+

lemma stays_handle_client_message:
  assumes R: "EMPTY \<notin> R" "REGISTERING \<notin> R" "CONN_REJECTED \<in> R" "CLOSING \<in> R"
  shows "stays fd R (handle_client_message os fd m)"
proof -
  have "stays fd R (handleConnectionReq os fd m)"
    unfolding handleConnectionReq_def
  proof (intro stays_with_string stays_this, goal_cases)
    case (1 v c)
    then have "state c \<noteq> EMPTY" using R(1) by auto
    show ?case
      unfolding if_not_P [OF \<open>state c \<noteq> EMPTY\<close>] by (intro stays_rules R) simp_all
  qed
  moreover have "stays fd R (handleRegistrationReq os fd m)" "stays fd R (handleUserLoginReq os fd m)"
    unfolding handleRegistrationReq_def handleUserLoginReq_def
    by (rule stays_this, use R in \<open>auto intro: stays_send\<close>)+
  moreover have "stays fd R (handleDisconnectionReq os fd m)" "stays fd R (handleDisconnectionCnf os fd m)"
    unfolding handleDisconnectionReq_def handleDisconnectionCnf_def
    by (intro stays_rules R)+
  ultimately show ?thesis
    unfolding handle_client_message_def
    by (auto intro!: stays_rules split: option.split ClientServerL1MessageId.split)
qed

abbreviation (input) refused_states :: "State set" where
  "refused_states \<equiv> {CONN_REJECTED, CLOSING}"

interpretation refused_msgs: message_handler "nextReceived fd" "handle_client_message os fd"
    "received fd" "\<lambda>s. frame fd s0 s \<and> in_states fd refused_states s" for fd os s0
proof
  fix s :: "'a server" and m ms
  assume "frame fd s0 s \<and> in_states fd refused_states s" "received fd s = m # ms"
  then show "\<exists>s'. nextReceived fd s = (Some m, s') \<and> received fd s' = ms"
    using server_msgs.next_pop by blast
next
  fix s s' t :: "'a server" and m r
  assume s: "frame fd s0 s \<and> in_states fd refused_states s" and n: "nextReceived fd s = (Some m, s')"
    and h: "handle_client_message os fd m s' = (r, t)"
  from s n h show "received fd t = received fd s' \<or> received fd t = []"
    using server_msgs.handle_waiting by blast
  from s have "own_descr s" by (blast dest: frame_own)
  with nextReceived_frame [OF _ n] s have "in_states fd refused_states s'"
    by (auto simp: in_states_def)
  with staysD [OF stays_handle_client_message _ h] have "in_states fd refused_states t" by simp
  with s n h show "frame fd s0 t \<and> in_states fd refused_states t"
    using server_msgs.handle_Inv by blast
qed (simp add: nextReceived_none)

section \<open>A whole session\<close>

fun react_all :: "client_msg list \<Rightarrow> abs_cnx \<Rightarrow> (abs_cnx \<times> reply list) option" where
  "react_all [] a = Some (a, [])"
| "react_all (e # es) a = (case react e a of
      None \<Rightarrow> None
    | Some (a', reps) \<Rightarrow> map_option (\<lambda>(b, reps'). (b, reps @ reps')) (react_all es a'))"

lemma react_not_disconnecting:
  "react e a = Some (b, reps) \<Longrightarrow> a_state a \<noteq> DISCONNECTING \<Longrightarrow> a_state b \<noteq> DISCONNECTING"
  by (cases e) (auto simp: Let_def split: if_splits)

text \<open>The connection once its received messages are handled.\<close>

definition drained :: "mem list \<Rightarrow> ServerClientConnection \<Rightarrow> ServerClientConnection" where
  "drained ms c = c\<lparr>servSock := (servSock c)\<lparr>rx_fifo := ms\<rparr>\<rparr>"

lemma drained_simps [simp]:
  "servSock (drained ms c) = (servSock c)\<lparr>rx_fifo := ms\<rparr>" "abs_of (drained ms c) = abs_of c"
  "state (drained ms c) = state c"
  by (simp_all add: drained_def abs_of_def)

lemma answered_trans:
  assumes "answered fd (drained ms c) (abs_of c1) reps t1" and "cnx t1 fd = Some c1"
    and c2: "answered fd (drained ms' c1) a reps' t2" and f: "frame fd t1 t2"
  shows "answered fd (drained ms' c) a (reps @ reps') t2"
proof -
  from assms(1,2) obtain rs where 1:
      "servSock c1 = (servSock c)\<lparr>rx_fifo := ms, tx_fifo := tx_fifo (servSock c) @ rs\<rparr>"
      "list_all2 is_reply reps rs"
      "reps \<noteq> [] \<longrightarrow> fd_set_ok (select_writefds (router t1)) \<longrightarrow> FD_ISSET fd (select_writefds (router t1))"
    unfolding answered_def by auto
  from c2 obtain c' rs' where 2: "cnx t2 fd = Some c'" "abs_of c' = a"
      "servSock c' = (servSock c1)\<lparr>rx_fifo := ms', tx_fifo := tx_fifo (servSock c1) @ rs'\<rparr>" "list_all2 is_reply reps' rs'"
      "reps' \<noteq> [] \<longrightarrow> fd_set_ok (select_writefds (router t2)) \<longrightarrow> FD_ISSET fd (select_writefds (router t2))"
    unfolding answered_def by auto
  have 3: "select_writefds (router t2) = select_writefds (router t1)
      \<or> fd_valid fd \<and> select_writefds (router t2) = FD_SET fd (select_writefds (router t1))"
    using f by (auto simp: frame_def)
  have "FD_ISSET fd (select_writefds (router t2))"
    if "reps @ reps' \<noteq> []" "fd_set_ok (select_writefds (router t2))"
  proof (cases "reps' = []")
    case True
    with that 3 have "fd_set_ok (select_writefds (router t1))" by (auto simp: fd_set_ok_def FD_SET_def)
    with that True 1(3) 3 show ?thesis by (auto simp: FD_ISSET_SET)
  qed (use that 2(5) in simp)
  with 1 2 show ?thesis
    unfolding answered_def
    by (intro exI [of _ c'] exI [of _ "rs @ rs'"]) (simp add: list_all2_appendI)
qed

text \<open>One turn of the loop.\<close>

lemma serve_next_message:
  assumes own: "own_descr s" and c: "cnx s fd = Some c" and d: "socket_descr (servSock c) = fd" and v: "fd_valid fd"
    and st: "state c \<noteq> DISCONNECTING" and rx: "rx_fifo (servSock c) = m # ms"
    and dec: "decode_client_msg m = Some ev"
  defines "s' \<equiv> put_cnx fd (drained ms c) s"
  shows "nextReceived fd s = (Some m, s')" and "frame fd s s'"
    and "react ev (abs_of c) = None \<Longrightarrow> \<exists>t. handle_client_message os fd m s' = (Inl AssertFailed, t)"
    and "react ev (abs_of c) = Some (a, reps) \<Longrightarrow> \<exists>t. handle_client_message os fd m s' = (Inr (), t)
      \<and> answered fd (drained ms c) a reps t \<and> frame fd s t"
proof -
  have "received fd s = m # ms" using c rx by (simp add: received_def)
  from nextReceived_some [OF this] c show n: "nextReceived fd s = (Some m, s')" by (simp add: s'_def drained_def)
  from nextReceived_frame [OF own n] show f: "frame fd s s'" by blast
  let ?c = "drained ms c"
  have c': "cnx s' fd = Some ?c" "socket_descr (servSock ?c) = fd" "state ?c \<noteq> DISCONNECTING"
    using d st by (simp_all add: s'_def)
  note h = handle_client_message_reacts [OF c'(1,2) v c'(3) dec, of os, unfolded drained_simps]
  show "\<exists>t. handle_client_message os fd m s' = (Inl AssertFailed, t)" if "react ev (abs_of c) = None"
    using h that by (metis prod.collapse)
  show "\<exists>t. handle_client_message os fd m s' = (Inr (), t) \<and> answered fd ?c a reps t \<and> frame fd s t"
    if r: "react ev (abs_of c) = Some (a, reps)"
  proof -
    from h r obtain t where t: "handle_client_message os fd m s' = (Inr (), t)" "answered fd ?c a reps t" by blast
    from handle_client_message_frame [OF frame_own [OF f] t(1)] f have "frame fd s t" by (blast intro: frame_trans)
    with t show ?thesis by blast
  qed
qed

lemma session_reacts:
  assumes "own_descr s" and "cnx s fd = Some c" and "socket_descr (servSock c) = fd" and v: "fd_valid fd"
    and "state c \<noteq> DISCONNECTING" and "map decode_client_msg (rx_fifo (servSock c)) = map Some evs"
  shows "case react_all evs (abs_of c) of
      None \<Rightarrow> \<exists>t. dispatch (nextReceived fd) (handle_client_message os fd) s = Some (Inl AssertFailed, t)
    | Some (a, reps) \<Rightarrow> \<exists>t. dispatch (nextReceived fd) (handle_client_message os fd) s = Some (Inr (), t)
        \<and> answered fd (drained [] c) a reps t \<and> frame fd s t"
  using assms
proof (induction evs arbitrary: s c)
  case Nil
  then have rx: "rx_fifo (servSock c) = []" by simp
  with Nil.prems(2) have n: "nextReceived fd s = (None, s)"
    by (intro nextReceived_none) (simp add: received_def)
  have "drained [] c = c" using rx by (simp add: drained_def)
  with Nil.prems n show ?case
    by (simp add: dispatch.simps [of _ _ s] answered_nothing [of s fd c])
next
  case (Cons ev evs)
  from Cons.prems(6) obtain m ms where rx: "rx_fifo (servSock c) = m # ms"
    and dec: "decode_client_msg m = Some ev" and decs: "map decode_client_msg ms = map Some evs"
    by (auto simp: Cons_eq_map_conv)
  let ?c = "drained ms c"
  note pop = serve_next_message(1) [OF Cons.prems(1-5) rx dec]
  note turn = serve_next_message(3,4) [OF Cons.prems(1-5) rx dec, where os = os]
  show ?case
  proof (cases "react ev (abs_of c)")
    case None
    from turn(1) [OF this] pop None show ?thesis
      by (auto simp: dispatch.simps [of _ _ s])
  next
    case (Some p)
    obtain a reps where p: "p = (a, reps)" by fastforce
    from turn(2) Some p obtain t where h: "handle_client_message os fd m (put_cnx fd ?c s) = (Inr (), t)"
      and ans: "answered fd ?c a reps t" and f: "frame fd s t" by blast
    from ans obtain c1 rs where c1: "cnx t fd = Some c1" "abs_of c1 = a"
      and x1: "servSock c1 = (servSock ?c)\<lparr>tx_fifo := tx_fifo (servSock ?c) @ rs\<rparr>"
      unfolding answered_def by auto
    have st1: "state c1 \<noteq> DISCONNECTING"
      using react_not_disconnecting [of ev "abs_of c" a reps] Some p Cons.prems(5) c1(2)
      by (auto simp: abs_of_def)
    have rest: "dispatch (nextReceived fd) (handle_client_message os fd) s
        = dispatch (nextReceived fd) (handle_client_message os fd) t"
      using pop h by (simp add: dispatch.simps [of _ _ s])
    have "socket_descr (servSock c1) = fd" "map decode_client_msg (rx_fifo (servSock c1)) = map Some evs"
      using x1 Cons.prems(3) decs by simp_all
    note IH = Cons.IH [OF frame_own [OF f] c1(1) this(1) v st1 this(2)]
    show ?thesis
    proof (cases "react_all evs a")
      case None
      with IH rest c1(2) Some p show ?thesis by simp
    next
      case (Some q)
      obtain b reps' where q: "q = (b, reps')" by fastforce
      from IH Some q c1(2) obtain u where u: "dispatch (nextReceived fd) (handle_client_message os fd) t = Some (Inr (), u)"
        "answered fd (drained [] c1) b reps' u" "frame fd t u" by auto
      from ans c1(2) have "answered fd (drained ms c) (abs_of c1) reps t" by simp
      from answered_trans [OF this c1(1) u(2,3)] have "answered fd (drained [] c) b (reps @ reps') u" .
      moreover have "frame fd s u" by (rule frame_trans [OF f u(3)])
      moreover have "react_all (ev # evs) (abs_of c) = Some (b, reps @ reps')"
        using Some q \<open>react ev (abs_of c) = Some p\<close> p by simp
      ultimately show ?thesis using u(1) rest by simp
    qed
  qed
qed

text \<open>The protocol alone: which messages a client must have sent to be registered.\<close>

definition idle_msg :: "client_msg \<Rightarrow> bool" where
  "idle_msg e \<longleftrightarrow> (case e of ConnectionReqMsg _ \<Rightarrow> False | DisconnectionReqMsg _ \<Rightarrow> False | _ \<Rightarrow> True)"

lemma react_all_Cons:
  assumes "react_all (e # es) a = Some (b, reps)"
  obtains a' r reps' where "react e a = Some (a', r)" "react_all es a' = Some (b, reps')" "reps = r @ reps'"
  using assms by (auto split: option.splits prod.splits)

lemma refused_final:
  "react_all es a = Some (b, reps) \<Longrightarrow> a_state a \<in> refused_states \<Longrightarrow> a_state b \<in> refused_states"
proof (induction es arbitrary: a reps)
  case (Cons e es)
  from Cons.prems(1) show ?case
  proof (rule react_all_Cons)
    fix a' r reps' assume "react e a = Some (a', r)" "react_all es a' = Some (b, reps')"
    with Cons show ?thesis by (cases e) (auto simp: Let_def split: if_splits)
  qed
qed simp

definition credentials :: "abs_cnx \<Rightarrow> byte list \<times> byte list \<times> byte list" where
  "credentials a = (a_name a, a_email a, a_pwd a)"

lemma registered_final:
  "react_all es a = Some (b, reps) \<Longrightarrow> a_state a = REGISTERED \<Longrightarrow> a_state b = REGISTERED
    \<Longrightarrow> list_all idle_msg es \<and> credentials b = credentials a"
proof (induction es arbitrary: a reps)
  case (Cons e es)
  from Cons.prems(1) show ?case
  proof (rule react_all_Cons)
    fix a' r reps' assume 1: "react e a = Some (a', r)" "react_all es a' = Some (b, reps')"
    then have "a_state a' \<notin> refused_states" using refused_final [of es a' b reps'] Cons.prems(3) by auto
    with 1(1) Cons.prems(2) have "a' = a" "idle_msg e"
      by (cases e; auto simp: idle_msg_def Let_def split: if_splits)+
    with Cons.IH [OF 1(2)] Cons.prems(2,3) show ?thesis by simp
  qed
qed simp

lemma registering_final:
  "react_all es a = Some (b, reps) \<Longrightarrow> a_state a = REGISTERING \<Longrightarrow> a_state b = REGISTERED
    \<Longrightarrow> \<exists>pre post name email pwd. es = pre @ RegistrationReqMsg name email pwd # post
      \<and> list_all idle_msg (pre @ post) \<and> credentials b = (name, email, pwd)"
proof (induction es arbitrary: a reps)
  case (Cons e es)
  from Cons.prems(1) show ?case
  proof (rule react_all_Cons)
    fix a' r reps' assume 1: "react e a = Some (a', r)" "react_all es a' = Some (b, reps')"
    then have n: "a_state a' \<notin> refused_states" using refused_final [of es a' b reps'] Cons.prems(3) by auto
    consider (reg) name email pwd where "e = RegistrationReqMsg name email pwd" | (other) "idle_msg e" "a_state a' = REGISTERING"
      using 1(1) n Cons.prems(2) by (cases e) (auto simp: idle_msg_def Let_def split: if_splits)
    then show ?thesis
    proof cases
      case reg
      with 1(1) Cons.prems(2) have "a_state a' = REGISTERED" "credentials a' = (name, email, pwd)"
        by (auto simp: credentials_def)
      with registered_final [OF 1(2) _ Cons.prems(3)] reg show ?thesis
        by (intro exI [of _ "[]"] exI [of _ es] exI) auto
    next
      case other
      from Cons.IH [OF 1(2) other(2) Cons.prems(3)] obtain pre post name email pwd
        where "es = pre @ RegistrationReqMsg name email pwd # post" "list_all idle_msg (pre @ post)"
          "credentials b = (name, email, pwd)" by blast
      with other(1) show ?thesis
        by (intro exI [of _ "e # pre"] exI [of _ post] exI [of _ name] exI [of _ email] exI [of _ pwd]) simp
    qed
  qed
qed simp

lemma empty_final:
  "react_all es a = Some (b, reps) \<Longrightarrow> a_state a = EMPTY \<Longrightarrow> a_state b = REGISTERED
    \<Longrightarrow> \<exists>pre mid post name email pwd.
      es = pre @ ConnectionReqMsg main_version # mid @ RegistrationReqMsg name email pwd # post
      \<and> list_all idle_msg (pre @ mid @ post) \<and> credentials b = (name, email, pwd)"
proof (induction es arbitrary: a reps)
  case (Cons e es)
  from Cons.prems(1) show ?case
  proof (rule react_all_Cons)
    fix a' r reps' assume 1: "react e a = Some (a', r)" "react_all es a' = Some (b, reps')"
    then have n: "a_state a' \<notin> refused_states" using refused_final [of es a' b reps'] Cons.prems(3) by auto
    consider (req) "e = ConnectionReqMsg main_version" "a_state a' = REGISTERING" | (other) "idle_msg e" "a_state a' = EMPTY"
      using 1(1) n Cons.prems(2) by (cases e) (auto simp: idle_msg_def Let_def split: if_splits)
    then show ?thesis
    proof cases
      case req
      from registering_final [OF 1(2) req(2) Cons.prems(3)] obtain mid post name email pwd
        where "es = mid @ RegistrationReqMsg name email pwd # post" "list_all idle_msg (mid @ post)"
          "credentials b = (name, email, pwd)" by blast
      with req(1) show ?thesis
        by (intro exI [of _ "[]"] exI [of _ mid] exI [of _ post] exI [of _ name] exI [of _ email] exI [of _ pwd]) simp
    next
      case other
      from Cons.IH [OF 1(2) other(2) Cons.prems(3)] obtain pre mid post name email pwd
        where "es = pre @ ConnectionReqMsg main_version # mid @ RegistrationReqMsg name email pwd # post"
          "list_all idle_msg (pre @ mid @ post)" "credentials b = (name, email, pwd)" by blast
      with other(1) show ?thesis
        by (intro exI [of _ "e # pre"] exI [of _ mid] exI [of _ post] exI [of _ name] exI [of _ email]
            exI [of _ pwd]) simp
    qed
  qed
qed simp

section \<open>The life of a connection\<close>

text \<open>
  What a message does to the connection that receives it; one whose strings have no NUL is either undefined
  behaviour or refused with its strings unread, as an unexpected one.
\<close>

definition event_of :: "mem \<Rightarrow> client_msg" where
  "event_of m = (case decode_client_msg m of Some ev \<Rightarrow> ev | None \<Rightarrow> IgnoredMsg)"

text \<open>
  Everything that happens to the connection of \<open>fd\<close> from its creation on: the server reads its socket, writes to it or
  looks after an error of it, and does anything else that leaves the object alone, in any order and with any
  answers of the kernel. The log has the messages that the readings gave to the message loop, in order.
\<close>

inductive life :: "int \<Rightarrow> mem list \<Rightarrow> 'k server \<Rightarrow> bool" for fd where
  Born: "life fd [] t"
    if "own_descr t" and "fd_valid fd" and "cnx t fd = Some (new_ServerClientConnection x)"
      and "socket_descr x = fd" and "rx_fifo x = []"
| Reads: "life fd (log @ ms) u"
    if "life fd log t" and "sockO fd (recvNextData os) t = Some (r1, t1)"
      and "ms = (case r1 of Inr _ \<Rightarrow> received fd t1 | Inl _ \<Rightarrow> [])"
      and "socketDataRead os fd t = Some (r, u)" and "goes_on r"
| Writes: "life fd log u" if "life fd log t" and "socketDataWrite os fd t = Some (r, u)"
| Errs: "life fd log u" if "life fd log t" and "socketError os fd t = (r, u)"
| Hangs_up: "life fd log u" if "life fd log t" and "socketDisconnected os fd t = (r, u)"
| Elsewhere: "life fd log u" if "life fd log t" and "own_descr u" and "cnx u fd = cnx t fd"

definition newborn :: abs_cnx where
  "newborn = \<lparr>a_state = EMPTY, a_cause = CR_NO_CAUSE, a_name = [], a_email = [], a_pwd = []\<rparr>"

lemma abs_of_new [simp]: "abs_of (new_ServerClientConnection x) = newborn"
  by (simp add: abs_of_def new_ServerClientConnection_def newborn_def)

lemma react_all_append:
  "react_all xs a = Some (b, reps) \<Longrightarrow> react_all ys b = Some (d, reps')
    \<Longrightarrow> react_all (xs @ ys) a = Some (d, reps @ reps')"
  by (induction xs arbitrary: a reps) (auto split: option.splits prod.splits)

lemma body_string_Inl: "body_string m p = Inl e \<Longrightarrow> e = Undefined"
  by (simp add: body_string_def split: option.splits)

text \<open>A message handled without ending the process is handled as the protocol says.\<close>

lemma undecoded_reacts:
  assumes c: "open_cnx s fd c" and h: "handle_client_message os fd m s = (r, t)" and g: "goes_on r"
    and dec: "decode_client_msg m = None"
  shows "r = Inr () \<and> (\<exists>reps. answered fd c (abs_of c) reps t)"
proof -
  have v: "cnx s fd = Some c" "socket_descr (servSock c) = fd" "fd_valid fd" using c by (simp_all add: open_cnx_def)
  obtain i where i: "id_of (l1_id m) = Some i" using dec by (cases "id_of (l1_id m)") (auto simp: decode_client_msg_def)
  consider (conn) e where "i = CONNECTION_REQ" "body_string m 0 = Inl e"
    | (login) "i = USER_LOGGING_REQ" | (reg) "i = REGISTRATION_REQ"
    using dec i by (cases i) (auto simp: decode_client_msg_def split: sum.splits)
  then show ?thesis
  proof cases
    case conn
    with h i g body_string_Inl [OF conn(2)] show ?thesis
      by (auto simp: handle_client_message_def handleConnectionReq_def with_string_def)
  next
    case login
    have "state c \<noteq> REGISTERING"
    proof
      assume "state c = REGISTERING"
      with h i login v dec have "r = Inl Undefined"
        by (auto simp: handle_client_message_def handleUserLoginReq_def with_string_def decode_client_msg_def
            dest: body_string_Inl split: sum.splits)
      with g show False by simp
    qed
    moreover from replies_senders(5) [where os = os and fd = fd and ucause = UNEXPECTED_LOGIN_PROC] v obtain k q
      where q: "sendUserLoginRej os fd UNEXPECTED_LOGIN_PROC s
        = (Inr (), put_cnx fd (queued q c) (flag fd (s\<lparr>kern := k\<rparr>)))" "is_reply (UserLoginRejRep UNEXPECTED_LOGIN_PROC) q"
      by (rule repliesE)
    ultimately show ?thesis
      using h i login v answered_reply [OF q(2), of "queued q c" c fd "s\<lparr>kern := k\<rparr>"]
      by (auto simp: handle_client_message_def handleUserLoginReq_def)
  next
    case reg
    have "state c \<noteq> REGISTERING"
    proof
      assume "state c = REGISTERING"
      with h i reg v dec have "r = Inl Undefined"
        by (auto simp: handle_client_message_def handleRegistrationReq_def with_string_def decode_client_msg_def
            known_user_def correct_email_def dest: body_string_Inl split: sum.splits)
      with g show False by simp
    qed
    moreover from replies_senders(4) [where os = os and fd = fd and rcause = UNEXPECTED_REGISTRATION] v obtain k q
      where q: "sendRegistrationRej os fd UNEXPECTED_REGISTRATION s
        = (Inr (), put_cnx fd (queued q c) (flag fd (s\<lparr>kern := k\<rparr>)))"
        "is_reply (RegistrationRejRep UNEXPECTED_REGISTRATION) q"
      by (rule repliesE)
    ultimately show ?thesis
      using h i reg v answered_reply [OF q(2), of "queued q c" c fd "s\<lparr>kern := k\<rparr>"]
      by (auto simp: handle_client_message_def handleRegistrationReq_def)
  qed
qed

lemma handled_reacts:
  assumes c: "open_cnx s fd c" and st: "state c \<noteq> DISCONNECTING"
    and h: "handle_client_message os fd m s = (r, t)" and g: "goes_on r"
  obtains c' reps where "r = Inr ()" "react (event_of m) (abs_of c) = Some (abs_of c', reps)"
    "open_cnx t fd c'" "rx_fifo (servSock c') = rx_fifo (servSock c)" "state c' \<noteq> DISCONNECTING"
proof -
  have v: "cnx s fd = Some c" "socket_descr (servSock c) = fd" "fd_valid fd" using c by (simp_all add: open_cnx_def)
  have "\<exists>a reps reps'. r = Inr () \<and> react (event_of m) (abs_of c) = Some (a, reps) \<and> answered fd c a reps' t"
  proof (cases "decode_client_msg m")
    case None
    with undecoded_reacts [OF c h g None] show ?thesis by (auto simp: event_of_def)
  next
    case (Some ev)
    note e = handle_client_message_reacts [OF v st Some, of os]
    show ?thesis
    proof (cases "react ev (abs_of c)")
      case None
      with e h g show ?thesis by auto
    next
      case (Some p)
      with e h \<open>decode_client_msg m = Some ev\<close> show ?thesis by (cases p) (auto simp: event_of_def)
    qed
  qed
  then obtain a reps reps' where a: "r = Inr ()" "react (event_of m) (abs_of c) = Some (a, reps)"
    "answered fd c a reps' t" by blast
  then obtain c' where "cnx t fd = Some c'" "abs_of c' = a" "socket_descr (servSock c') = fd"
    "rx_fifo (servSock c') = rx_fifo (servSock c)"
    using v unfolding answered_def by auto
  with a react_not_disconnecting [OF a(2)] st v that show thesis
    by (auto simp: open_cnx_def abs_of_def)
qed

lemma dispatch_life:
  assumes "own_descr s" and "open_cnx s fd c" and "state c \<noteq> DISCONNECTING"
    and "dispatch (nextReceived fd) (handle_client_message os fd) s = Some (r, t)" and "goes_on r"
  shows "r = Inr () \<and> (\<exists>c' reps. open_cnx t fd c' \<and> state c' \<noteq> DISCONNECTING
    \<and> react_all (map event_of (rx_fifo (servSock c))) (abs_of c) = Some (abs_of c', reps))"
  using assms
proof (induction "rx_fifo (servSock c)" arbitrary: s c)
  case Nil
  then have "received fd s = []" by (simp add: open_cnx_def received_def)
  with Nil.prems(4) have "r = Inr ()" "t = s" by (auto simp: dispatch.simps [of _ _ s] nextReceived_none)
  with Nil.prems(2,3) Nil.hyps show ?case by auto
next
  case (Cons m ms)
  let ?s = "put_cnx fd (drained ms c) s"
  have rec: "received fd s = m # ms" using Cons.prems(2) Cons.hyps(2) by (simp add: open_cnx_def received_def)
  from nextReceived_some [OF rec] Cons.prems(2) have n: "nextReceived fd s = (Some m, ?s)"
    by (simp add: open_cnx_def drained_def)
  have o: "open_cnx ?s fd (drained ms c)" using Cons.prems(2) by (simp add: open_cnx_def)
  obtain r1 u where h: "handle_client_message os fd m ?s = (r1, u)" by fastforce
  from Cons.prems(4) n h have d: "case r1 of Inl e \<Rightarrow> r = Inl e \<and> t = u
      | Inr _ \<Rightarrow> dispatch (nextReceived fd) (handle_client_message os fd) u = Some (r, t)"
    by (auto simp: dispatch.simps [of _ _ s] split: sum.splits)
  with Cons.prems(5) have "goes_on r1" by (auto split: sum.splits)
  with handled_reacts [OF o _ h] Cons.prems(3) obtain c1 reps where 1: "r1 = Inr ()"
    "react (event_of m) (abs_of c) = Some (abs_of c1, reps)" "open_cnx u fd c1" "rx_fifo (servSock c1) = ms"
    "state c1 \<noteq> DISCONNECTING" by auto
  from nextReceived_frame [OF Cons.prems(1) n] have "own_descr ?s" by (blast dest: frame_own)
  with handle_client_message_frame [OF _ h] have "own_descr u" by (blast dest: frame_own)
  with Cons.hyps(1) [OF 1(4) [symmetric] _ 1(3,5) _ Cons.prems(5)] d 1 obtain c' reps' where "r = Inr ()"
    "open_cnx t fd c'" "state c' \<noteq> DISCONNECTING"
    "react_all (map event_of ms) (abs_of c1) = Some (abs_of c', reps')" by auto
  with 1(2) Cons.hyps(2) show ?case by (metis (no_types, lifting) list.simps(9) react_all.simps(2) option.simps(5) case_prod_conv option.map(2))
qed

text \<open>The states of a connection that cannot be registered any more.\<close>

definition over_states :: "State set" where
  "over_states = {CONN_REJECTED, CLOSING, DISCONNECTED, CNX_ERROR}"

lemma dispatch_stays_over:
  assumes "own_descr s" and "in_states fd over_states s"
    and "dispatch (nextReceived fd) (handle_client_message os fd) s = Some (r, t)"
  shows "in_states fd over_states t"
proof -
  have "in_states fd over_states (snd (r, t)) \<and> own_descr (snd (r, t))"
  proof (rule dispatch_invariant [OF assms(3), where I = "\<lambda>s. in_states fd over_states s \<and> own_descr s"], goal_cases)
    case (2 s m s')
    then show ?case
    proof (cases "received fd s")
      case Nil
      with 2 show ?thesis by (simp add: nextReceived_none)
    next
      case (Cons x xs)
      with nextReceived_some [OF Cons] 2(2) have n: "nextReceived fd s = (Some x, s')" by auto
      from nextReceived_frame [OF _ n] 2(1) show ?thesis
        by (auto simp: in_states_def dest: frame_own)
    qed
  next
    case (3 m s r t)
    then show ?case
      using staysD [OF stays_handle_client_message [of over_states fd os m] _ 3(2)] handle_client_message_frame [OF _ 3(2)]
      by (auto simp: over_states_def dest: frame_own)
  qed (use assms in simp)
  then show ?thesis by simp
qed

lemma in_states_sockO: "sockO fd m s = Some (r, t) \<Longrightarrow> in_states fd R s \<Longrightarrow> in_states fd R t"
  by (auto simp: sockO_def in_states_def leave_sock_def cnx_def)

lemma open_sockO:
  assumes o: "open_cnx s fd c" and r: "sockO fd m s = Some (r, t)"
    and m: "\<And>x r y. m x = Some (r, y) \<Longrightarrow> socket_descr (sock y) = socket_descr (sock x)"
  obtains c' where "open_cnx t fd c'" "abs_of c' = abs_of c" "state c' = state c"
proof -
  from o r obtain y where y: "m (enter_sock s c) = Some (r, y)" "t = leave_sock s fd c y"
    by (auto simp: sockO_def open_cnx_def)
  have "open_cnx t fd (c\<lparr>servSock := sock y\<rparr>)" "abs_of (c\<lparr>servSock := sock y\<rparr>) = abs_of c"
    using o m [OF y(1)] y(2) by (simp_all add: open_cnx_def leave_sock_def cnx_def enter_sock_def abs_of_def)
  with that show thesis by simp
qed

lemma stop_Inr: "\<exists>x. stop os s = (Inr (), x)"
  by (auto simp: stop_def andThen_def syscall_def split: prod.splits sum.splits)

lemma hangs_up_over:
  assumes "cnx s fd = Some c" and "st \<in> over_states"
  shows "in_states fd over_states (snd (andThen (sockS fd (stop os)) (\<lambda>_. setCnxState fd st) s))"
proof -
  from stop_Inr [of os "enter_sock s c"] obtain x where "stop os (enter_sock s c) = (Inr (), x)" by blast
  with assms have "sockS fd (stop os) s = (Inr (), leave_sock s fd c x)" by (simp add: sockS_def)
  moreover have "cnx (leave_sock s fd c x) fd = Some (c\<lparr>servSock := sock x\<rparr>)" by (simp add: leave_sock_def cnx_def)
  ultimately show ?thesis using assms(2) by (simp add: in_states_def)
qed

lemma socketError_life:
  assumes o: "open_cnx s fd c" and r: "socketError os fd s = (r, t)"
  shows "in_states fd over_states t \<or> (\<exists>c'. open_cnx t fd c' \<and> abs_of c' = abs_of c \<and> state c' = state c)"
proof -
  have c: "cnx s fd = Some c" using o by (simp add: open_cnx_def)
  obtain q x where d: "determineErrorType os (enter_sock s c) = (q, x)" by fastforce
  define s1 where "s1 = leave_sock s fd c x"
  have s: "sockS fd (determineErrorType os) s = (q, s1)" using c d by (simp add: sockS_def s1_def)
  have o1: "open_cnx s1 fd c"
    using o determineErrorType_sock [OF d] by (simp add: open_cnx_def s1_def leave_sock_def cnx_def enter_sock_def)
  have stopped: "in_states fd over_states (snd (andThen (sockS fd (stop os)) (\<lambda>_. setCnxState fd st) s1))"
    if "st \<in> over_states" for st
    using hangs_up_over that o1 by (auto simp: open_cnx_def)
  have "t = s1 \<or> in_states fd over_states t"
  proof (cases q)
    case (Inl e)
    with s r show ?thesis by (simp add: socketError_def)
  next
    case (Inr e)
    show ?thesis
    proof (cases e)
      case ERR_DISCONNECTED
      with s r Inr stopped [of DISCONNECTED] show ?thesis
        by (auto simp: socketError_def socketDisconnected_def over_states_def andThen_def split: prod.splits sum.splits)
    next
      case FATAL
      with s r Inr stopped [of CNX_ERROR] show ?thesis
        by (auto simp: socketError_def fatalCnxError_def over_states_def andThen_def split: prod.splits sum.splits)
    qed (use s r Inr in \<open>simp_all add: socketError_def\<close>)
  qed
  with o1 show ?thesis by blast
qed

text \<open>What a connection's messages have done to it, unless it is one of those that are over.\<close>

definition in_protocol :: "int \<Rightarrow> mem list \<Rightarrow> 'k server \<Rightarrow> bool" where
  "in_protocol fd log t \<longleftrightarrow> (\<exists>c reps. open_cnx t fd c \<and> state c \<noteq> DISCONNECTING
     \<and> react_all (map event_of log) newborn = Some (abs_of c, reps))"

lemma socketDataRead_life:
  assumes own: "own_descr t" and i: "in_protocol fd log t \<or> in_states fd over_states t"
    and m: "sockO fd (recvNextData os) t = Some (r1, t1)"
    and ms: "ms = (case r1 of Inr _ \<Rightarrow> received fd t1 | Inl _ \<Rightarrow> [])"
    and r: "socketDataRead os fd t = Some (r, u)" and g: "goes_on r"
  shows "in_protocol fd (log @ ms) u \<or> in_states fd over_states u"
proof -
  have own1: "own_descr t1" using sockO_frame [OF own m] recvNextData_descr by (blast dest: frame_own)
  from i show ?thesis
  proof
    assume "in_states fd over_states t"
    from in_states_sockO [OF m this] dispatch_stays_over [OF own1] r m show ?thesis
      by (cases r1) (auto simp: socketDataRead_def)
  next
    assume "in_protocol fd log t"
    then obtain c reps where c: "open_cnx t fd c" "state c \<noteq> DISCONNECTING"
      "react_all (map event_of log) newborn = Some (abs_of c, reps)" unfolding in_protocol_def by blast
    from open_sockO [OF c(1) m] recvNextData_descr obtain c1
      where c1: "open_cnx t1 fd c1" "abs_of c1 = abs_of c" "state c1 = state c" by blast
    show ?thesis
    proof (cases r1)
      case (Inl e)
      with m r ms c c1 show ?thesis by (auto simp: socketDataRead_def in_protocol_def)
    next
      case (Inr x)
      with m r have d: "dispatch (nextReceived fd) (handle_client_message os fd) t1 = Some (r, u)"
        by (simp add: socketDataRead_def)
      have "ms = rx_fifo (servSock c1)" using ms Inr c1(1) by (simp add: received_def open_cnx_def)
      with dispatch_life [OF own1 c1(1) _ d g] c c1 react_all_append [OF c(3)] show ?thesis
        unfolding in_protocol_def by fastforce
    qed
  qed
qed

lemma stays_socketError: "stays fd over_states (socketError os fd)"
  unfolding socketError_def socketDisconnected_def fatalCnxError_def
  by (intro stays_rules) (auto simp: over_states_def split: ErrorType.split intro!: stays_rules)

lemma life_in_protocol: "life fd log t \<Longrightarrow> own_descr t \<and> (in_protocol fd log t \<or> in_states fd over_states t)"
proof (induction rule: life.induct)
  case (Born t x)
  then show ?case
    by (auto simp: in_protocol_def open_cnx_def new_ServerClientConnection_def abs_of_def newborn_def)
next
  case (Reads log t os r1 t1 ms r u)
  with socketDataRead_life [OF _ _ Reads.hyps(2-5)] socketDataRead_frame show ?case by (blast dest: frame_own)
next
  case (Writes log t os r u)
  have "own_descr u" using socketDataWrite_frame Writes by (blast dest: frame_own)
  moreover have "in_protocol fd log u" if "in_protocol fd log t"
  proof -
    from that obtain c reps where c: "open_cnx t fd c" "state c \<noteq> DISCONNECTING"
      "react_all (map event_of log) newborn = Some (abs_of c, reps)" unfolding in_protocol_def by blast
    from open_sockO [OF c(1) Writes.hyps(2) [unfolded socketDataWrite_def]] sendNextData_descr obtain c1
      where "open_cnx u fd c1" "abs_of c1 = abs_of c" "state c1 = state c" by blast
    with c show ?thesis unfolding in_protocol_def by auto
  qed
  ultimately show ?case
    using in_states_sockO [OF Writes.hyps(2) [unfolded socketDataWrite_def]] Writes.IH by blast
next
  case (Errs log t os r u)
  have "frame fd t u" using Errs frames_socketError [of fd os] unfolding frames_def by blast
  moreover have "in_states fd over_states u" if "in_states fd over_states t"
    by (rule staysD [OF stays_socketError that Errs.hyps(2)])
  moreover have "in_protocol fd log u \<or> in_states fd over_states u" if "in_protocol fd log t"
    using that socketError_life [OF _ Errs.hyps(2)] unfolding in_protocol_def by metis
  ultimately show ?case using Errs.IH by (blast dest: frame_own)
next
  case (Hangs_up log t os r u)
  have "frame fd t u" using Hangs_up frames_handlers(6) [of fd os] unfolding frames_def by blast
  moreover have "cnx t fd \<noteq> None" using Hangs_up.IH by (auto simp: in_protocol_def open_cnx_def in_states_def)
  then have "in_states fd over_states u"
    using hangs_up_over [of t fd _ DISCONNECTED os] Hangs_up.hyps(2)
    by (auto simp: socketDisconnected_def over_states_def)
  ultimately show ?case by (blast dest: frame_own)
next
  case (Elsewhere log t u)
  then show ?case by (auto simp: in_protocol_def open_cnx_def in_states_def)
qed

lemma map_split_at:
  assumes "map f xs = ys @ y # zs"
  obtains p m r where "xs = p @ m # r" "map f p = ys" "f m = y" "map f r = zs"
proof -
  from assms obtain us vs where u: "xs = us @ vs" "map f us = ys" "map f vs = y # zs"
    by (auto simp: map_eq_append_conv)
  then show thesis using that [of us] by (cases vs) auto
qed

section \<open>Properties\<close>

text \<open>
  C4. Whatever messages a client has sent, handling all of them takes the connection through the
  protocol \<open>react\<close>: the server aborts exactly where the protocol has no reaction, and otherwise ends
  with the protocol's state and credentials, with the replies of the protocol appended to the queue
  of the socket in order, the socket marked for emission, and no other connection changed.
\<close>

theorem server_session_refines_protocol:
  assumes "own_descr s" and "cnx s fd = Some c" and "socket_descr (servSock c) = fd" and "fd_valid fd"
    and "state c \<noteq> DISCONNECTING" and "map decode_client_msg (rx_fifo (servSock c)) = map Some evs"
  shows "case react_all evs (abs_of c) of
      None \<Rightarrow> \<exists>t. dispatch (nextReceived fd) (handle_client_message os fd) s = Some (Inl AssertFailed, t)
    | Some (a, reps) \<Rightarrow> \<exists>t. dispatch (nextReceived fd) (handle_client_message os fd) s = Some (Inr (), t)
        \<and> answered fd (drained [] c) a reps t \<and> frame fd s t"
  using assms by (rule session_reacts)

text \<open>Sample messages: an identity and strings at their offsets in the body, zeros elsewhere.\<close>

definition sample_message :: "ClientServerL1MessageId \<Rightarrow> (nat \<times> byte list) list \<Rightarrow> mem" where
  "sample_message i fs = store16 (fold (\<lambda>(p, v) m. write_bytes m (8 + p) v) fs (\<lambda>_. 0)) 4 (id_val i)"

definition sample_cnx :: "State \<Rightarrow> mem list \<Rightarrow> ServerClientConnection" where
  "sample_cnx st ms = (new_ServerClientConnection
     ((new_MsgSocket ServerSocket_class \<lparr>s_addr = 0, sin_port = 0\<rparr> 5 FROM_SERVER (\<lambda>_. 0))\<lparr>rx_fifo := ms\<rparr>))
     \<lparr>state := st\<rparr>"

definition sample_server :: "'k \<Rightarrow> ServerClientConnection \<Rightarrow> 'k server" where
  "sample_server k c = \<lparr>kern = k, errno = 0, router =
     \<lparr>socket_map = [5 \<mapsto> c], nb_client_connections = 1, dead_list = [],
      clientsocks_fds = FD_SET 5 FD_ZERO, clientsocks_nfds = 6, select_readfds = FD_ZERO,
      select_writefds = FD_ZERO, select_errorfds = FD_ZERO\<rparr>\<rparr>"

definition sample_session :: "mem list" where
  "sample_session = [sample_message CONNECTION_REQ [(0, main_version)],
     sample_message REGISTRATION_REQ [(0, [98, 111, 98]), (32, [112, 119]), (64, [98, 64, 99])]]"

lemma sample_server_facts:
  "own_descr (sample_server k (sample_cnx st ms))" "cnx (sample_server k (sample_cnx st ms)) 5 = Some (sample_cnx st ms)"
  "socket_descr (servSock (sample_cnx st ms)) = 5" "fd_valid 5"
  "state (sample_cnx st ms) = st" "rx_fifo (servSock (sample_cnx st ms)) = ms"
  by (auto simp: own_descr_def cnx_def sample_server_def sample_cnx_def new_ServerClientConnection_def
      new_MsgSocket_def rxReset_def fd_valid_def split: if_splits)

lemma sample_session_decodes:
  "map decode_client_msg sample_session = map Some
     [ConnectionReqMsg main_version, RegistrationReqMsg [98, 111, 98] [98, 64, 99] [112, 119]]"
proof -
  have body: "cstring (l1_body (sample_message i fs)) n p = Some v"
    if "\<And>j. j < length v \<Longrightarrow> sample_message i fs (8 + p + j) = v ! j" "0 \<notin> set v"
      "sample_message i fs (8 + p + length v) = 0" "length v < n" for i fs n p v
    using that by (intro cstring_eq_Some) (auto simp: l1_body_def read_bytes_eq_iff add.assoc)
  have id: "id_of (l1_id (sample_message i fs)) = Some i" for i fs
    by (simp add: l1_id_def sample_message_def)
  have "cstring (l1_body (sample_message CONNECTION_REQ [(0, main_version)])) 8192 0 = Some main_version"
    by (rule body) (simp_all add: sample_message_def store16_other write_bytes_def)
  then have conn: "body_string (sample_message CONNECTION_REQ [(0, main_version)]) 0 = Inr main_version"
    by (simp add: body_string_def)
  let ?m = "sample_message REGISTRATION_REQ [(0, [98, 111, 98]), (32, [112, 119]), (64, [98, 64, 99])]"
  have "cstring (l1_body ?m) 8192 0 = Some [98, 111, 98]" "cstring (l1_body ?m) 8160 32 = Some [112, 119]"
    "cstring (l1_body ?m) 8128 64 = Some [98, 64, 99]"
    by (rule body; auto simp: sample_message_def store16_other write_bytes_def less_Suc_eq)+
  then have reg: "body_string ?m 0 = Inr [98, 111, 98]" "body_string ?m 32 = Inr [112, 119]"
    "body_string ?m 64 = Inr [98, 64, 99]"
    by (simp_all add: body_string_def)
  show ?thesis
    using conn reg
    by (simp add: sample_session_def decode_client_msg_def id off_password_def off_mail_address_def)
qed

lemma server_session_refines_protocol_witness:
  "\<exists>a reps t. react_all [ConnectionReqMsg main_version, RegistrationReqMsg [98, 111, 98] [98, 64, 99] [112, 119]]
       (abs_of (sample_cnx EMPTY sample_session)) = Some (a, reps)
     \<and> a_state a = REGISTERED \<and> reps = [ConnectionCnfRep, RegistrationCnfRep]
     \<and> dispatch (nextReceived 5) (handle_client_message failing_os 5) (sample_server () (sample_cnx EMPTY sample_session))
         = Some (Inr (), t)
     \<and> answered 5 (drained [] (sample_cnx EMPTY sample_session)) a reps t"
proof -
  have "abs_of (sample_cnx EMPTY sample_session)
      = \<lparr>a_state = EMPTY, a_cause = CR_NO_CAUSE, a_name = [], a_email = [], a_pwd = []\<rparr>"
    by (simp add: abs_of_def sample_cnx_def new_ServerClientConnection_def)
  then show ?thesis
    using server_session_refines_protocol [where s = "sample_server () (sample_cnx EMPTY sample_session)"
        and c = "sample_cnx EMPTY sample_session" and fd = 5 and os = failing_os
        and evs = "[ConnectionReqMsg main_version, RegistrationReqMsg [98, 111, 98] [98, 64, 99] [112, 119]]",
        OF sample_server_facts(1-4)]
    by (auto simp: sample_server_facts sample_session_decodes)
qed

text \<open>
  C14. A client is registered only after the handshake, over the whole life of its connection, however its messages are
  spread over the readings of the socket and whatever else the server does meanwhile: if a connection is
  registered, the messages handled since its creation have exactly one connection request, carrying the
  server's own version, and after it a registration request, whose name, mail address and password are the ones the
  server keeps; every other message of the client is one that changes no state, so that a disconnection request
  or a second connection request excludes the registration. (Every connection of a running server has such a life:
  \<open>server_connections_live\<close> in \<open>GameServer\<close>.)
\<close>

theorem registration_requires_handshake:
  assumes "life fd log t" and "cnx t fd = Some c" and "state c = REGISTERED"
  shows "\<exists>pre m1 mid m2 post name email pwd. log = pre @ m1 # mid @ m2 # post
      \<and> decode_client_msg m1 = Some (ConnectionReqMsg main_version)
      \<and> decode_client_msg m2 = Some (RegistrationReqMsg name email pwd)
      \<and> list_all (idle_msg \<circ> event_of) (pre @ mid @ post)
      \<and> user_name c = name \<and> user_email c = email \<and> user_pwd c = pwd"
proof -
  have "\<not> in_states fd over_states t" using assms(2,3) by (simp add: in_states_def over_states_def)
  with life_in_protocol [OF assms(1)] assms(2) obtain reps
    where a: "react_all (map event_of log) newborn = Some (abs_of c, reps)"
    unfolding in_protocol_def open_cnx_def by auto
  have decoded: "decode_client_msg m = Some ev" if "event_of m = ev" "\<not> idle_msg ev \<or> ev = RegistrationReqMsg n e p"
    for m ev n e p using that by (auto simp: event_of_def idle_msg_def split: option.splits)
  from empty_final [OF a] assms(3) obtain pre mid post name email pwd
    where ev: "map event_of log = pre @ ConnectionReqMsg main_version # mid @ RegistrationReqMsg name email pwd # post"
      and idle: "list_all idle_msg (pre @ mid @ post)" and cr: "credentials (abs_of c) = (name, email, pwd)"
    by (auto simp: newborn_def abs_of_def)
  from ev obtain p m1 log' where 1: "log = p @ m1 # log'" "map event_of p = pre" "event_of m1 = ConnectionReqMsg main_version"
    "map event_of log' = mid @ RegistrationReqMsg name email pwd # post"
    by (rule map_split_at)
  from 1(4) obtain q m2 r where "log' = q @ m2 # r" "map event_of q = mid"
    "event_of m2 = RegistrationReqMsg name email pwd" "map event_of r = post"
    by (rule map_split_at)
  with 1 have "log = p @ m1 # q @ m2 # r" "map event_of p = pre" "map event_of q = mid" "map event_of r = post"
    "event_of m1 = ConnectionReqMsg main_version" "event_of m2 = RegistrationReqMsg name email pwd"
    by simp_all
  moreover from this have "list_all (idle_msg \<circ> event_of) (p @ q @ r)"
    using idle by (auto simp: list.pred_map [symmetric])
  moreover have "user_name c = name \<and> user_email c = email \<and> user_pwd c = pwd"
    using cr by (simp add: credentials_def abs_of_def)
  ultimately show ?thesis
    using decoded [of m1 "ConnectionReqMsg main_version"] decoded [of m2 "RegistrationReqMsg name email pwd"]
    by (intro exI [of _ p] exI [of _ m1] exI [of _ q] exI [of _ m2] exI [of _ r] exI [of _ name] exI [of _ email]
        exI [of _ pwd]) (simp add: idle_msg_def)
qed

text \<open>
  C16. A connection that was refused or is closing never gets registered, or back into registration: no data
  that arrives on its socket, well formed or not, and no outcome of the reading, takes it out of
  these two states.
\<close>

theorem refused_client_stays_refused:
  assumes "own_descr s" and "cnx s fd = Some c" and "state c \<in> {CONN_REJECTED, CLOSING}"
    and "socketDataRead os fd s = Some (r, t)"
  shows "\<exists>c'. cnx t fd = Some c' \<and> state c' \<in> {CONN_REJECTED, CLOSING}"
proof -
  from assms(4) obtain r1 s1 where m: "sockO fd (recvNextData os) s = Some (r1, s1)"
    by (cases "sockO fd (recvNextData os) s") (auto simp: socketDataRead_def)
  have f: "frame fd s s1" by (rule sockO_frame [OF assms(1) m]) (rule recvNextData_descr)
  from m assms(2,3) have s1: "in_states fd refused_states s1"
    by (auto simp: sockO_def in_states_def leave_sock_def cnx_def)
  have "in_states fd refused_states t"
  proof (cases r1)
    case (Inl e)
    with m s1 assms(4) show ?thesis by (simp add: socketDataRead_def)
  next
    case (Inr x)
    with m assms(4) have "dispatch (nextReceived fd) (handle_client_message os fd) s1 = Some (r, t)"
      by (simp add: socketDataRead_def)
    with refused_msgs.dispatch_keeps [of fd s s1 os r t] f s1 show ?thesis by blast
  qed
  then show ?thesis by (auto simp: in_states_def)
qed

lemma refused_client_stays_refused_witness:
  "\<exists>r t c'. socketDataRead buffer_os 5 (sample_server [] (sample_cnx CONN_REJECTED sample_session)) = Some (r, t)
     \<and> cnx t 5 = Some c' \<and> state c' \<in> {CONN_REJECTED, CLOSING}"
proof -
  let ?c = "sample_cnx CONN_REJECTED sample_session"
  have x: "rx_lenght (servSock ?c) = 0" "sock_class (servSock ?c) = ServerSocket_class"
    by (simp_all add: sample_cnx_def new_ServerClientConnection_def new_MsgSocket_def rxReset_def)
  have "recvNextData buffer_os (enter_sock (sample_server [] ?c) ?c) \<noteq> None"
    using x
    by (simp add: recvNextData_def recvLoop.simps enter_sock_def recvLoop_step_def recvLoop_begin_def
        recvBeginNewMsg_def socketReceive_def syscall_def buffer_os_def sample_server_def getRxErrorType_defs
        getRxErrorType_base_def andThen_def)
  from socketDataRead_ends [OF sample_server_facts(1,2) this] obtain r t
    where r: "socketDataRead buffer_os 5 (sample_server [] ?c) = Some (r, t)" by blast
  have "state ?c \<in> {CONN_REJECTED, CLOSING}" by (simp add: sample_server_facts)
  from refused_client_stays_refused [OF sample_server_facts(1,2) this r] r show ?thesis by blast
qed

end
