(* ===== verification/Router.thy ===== *)
theory Router
  imports ServerConnection
begin

text \<open>
  The operations of \<^verbatim>\<open>ServerSocketsRouter\<close>: registering and releasing a connection, and
  \<^verbatim>\<open>ServeClientSockets\<close>, one round of \<^verbatim>\<open>pselect\<close> that serves the errors, the receptions and the
  emissions of all clients and then releases the connections found dead.
\<close>

section \<open>Construction\<close>

text \<open>The three \<^verbatim>\<open>select_\<close> sets are not initialised: they are what the memory of the object held.\<close>

definition new_Router :: "fd_set \<Rightarrow> fd_set \<Rightarrow> fd_set \<Rightarrow> Router" where
  "new_Router rd wr er =
    \<lparr>socket_map = (\<lambda>_. None), nb_client_connections = 0, dead_list = [], clientsocks_fds = FD_ZERO,
     clientsocks_nfds = 0, select_readfds = rd, select_writefds = wr, select_errorfds = er\<rparr>"

text \<open>The one object of the class: \<open>p\<close> is the static pointer to it.\<close>

definition createRouter :: "fd_set \<Rightarrow> fd_set \<Rightarrow> fd_set \<Rightarrow> Router option \<Rightarrow> Router option" where
  "createRouter rd wr er p = (case p of None \<Rightarrow> Some (new_Router rd wr er) | Some r \<Rightarrow> Some r)"

section \<open>Registering and releasing\<close>

definition CreateClientConnection :: "'k os \<Rightarrow> sockaddr_in \<Rightarrow> int \<Rightarrow> ('k server, unit) stm" where
  "CreateClientConnection os clientAddr clientSock s =
    (if \<not> fd_valid clientSock then (Inl Undefined, s)
     else if FD_ISSET clientSock (clientsocks_fds (router s)) then
       (Inl (ThrownString ''socket descr already in clientsocks_fds!''), s)
     else
       (let r = (router s)\<lparr>clientsocks_nfds :=
                  (if clientSock \<ge> clientsocks_nfds (router s) then clientSock + 1
                   else clientsocks_nfds (router s)),
                clientsocks_fds := FD_SET clientSock (clientsocks_fds (router s))\<rparr>
        in case new_ServerSocket os clientAddr clientSock \<lparr>kern = kern s, errno = errno s\<rparr> of
             (Inl e, t) \<Rightarrow> (Inl e, s\<lparr>kern := kern t, errno := errno t, router := r\<rparr>)
           | (Inr _, t) \<Rightarrow>
               if socket_map r clientSock \<noteq> None
               then (Inl (ThrownString ''socket_map.insert ERROR!''),
                     s\<lparr>kern := kern t, errno := errno t, router := r\<rparr>)
               else (Inr (), s\<lparr>kern := kern t, errno := errno t,
                      router := r\<lparr>socket_map :=
                          (socket_map r)(clientSock \<mapsto> new_ServerClientConnection (sock t)),
                        nb_client_connections := nb_client_connections r + 1\<rparr>\<rparr>)))"

text \<open>The search for the highest descriptor left, from \<^verbatim>\<open>clientSock - 1\<close> down to 1.\<close>

fun nfds_below :: "nat \<Rightarrow> fd_set \<Rightarrow> int" where
  "nfds_below 0 fdset = 0"
| "nfds_below (Suc n) fdset = (if FD_ISSET (int (Suc n)) fdset then int (Suc n) + 1 else nfds_below n fdset)"

definition ReleaseClientConnection :: "int \<Rightarrow> ('k server, unit) stm" where
  "ReleaseClientConnection clientSock s =
    (if \<not> fd_valid clientSock then (Inl Undefined, s)
     else
       andThen (modRouter (\<lambda>r. r\<lparr>clientsocks_fds := FD_CLR clientSock (clientsocks_fds r),
                                 select_writefds := FD_CLR clientSock (select_writefds r)\<rparr>)) (\<lambda>_.
       andThen (modRouter (\<lambda>r. if clientSock + 1 = clientsocks_nfds r
                               then r\<lparr>clientsocks_nfds := nfds_below (nat (clientSock - 1)) (clientsocks_fds r)\<rparr>
                               else r)) (\<lambda>_ s1.
       andThen (modRouter (\<lambda>r. r\<lparr>socket_map := (socket_map r)(clientSock := None)\<rparr>)) (\<lambda>_.
       andThen (assertS (\<lambda>_. cnx s1 clientSock \<noteq> None)) (\<lambda>_.
       modRouter (\<lambda>r. r\<lparr>nb_client_connections := nb_client_connections r - 1\<rparr>))) s1)) s)"

section \<open>One round of service\<close>

text \<open>
  The two \<^verbatim>\<open>FD_CLR\<close> of a broken descriptor, with the number of indicators they cancelled.
\<close>

definition clear_indicators :: "int \<Rightarrow> Router \<Rightarrow> int \<times> Router" where
  "clear_indicators fd r =
    (let rd = FD_ISSET fd (select_readfds r);
         r1 = (if rd then r\<lparr>select_readfds := FD_CLR fd (select_readfds r)\<rparr> else r);
         wr = FD_ISSET fd (select_writefds r1);
         r2 = (if wr then r1\<lparr>select_writefds := FD_CLR fd (select_writefds r1)\<rparr> else r1)
     in ((if rd then 1 else 0) + (if wr then 1 else 0), r2))"

fun handleSocketErrors :: "'k os \<Rightarrow> int list \<Rightarrow> int \<Rightarrow> ('k server, int) stm" where
  "handleSocketErrors os [] nb s = (Inr nb, s)"
| "handleSocketErrors os (fd # l) nb s =
    (if cnx s fd = None then (Inl OutOfRange, s)
     else
       andThen (socketError os fd) (\<lambda>broken s1.
         if broken then
           (case clear_indicators fd (router s1) of
              (n, r) \<Rightarrow> handleSocketErrors os l (nb + n + 1) (s1\<lparr>router := r\<rparr>))
         else handleSocketErrors os l (nb + 1) s1) s)"

definition bury :: "int \<Rightarrow> 'k server \<Rightarrow> 'k server" where
  "bury fd s = s\<lparr>router := (router s)\<lparr>dead_list := dead_list (router s) @ [fd]\<rparr>\<rparr>"

fun serveSocketReceptions :: "'k os \<Rightarrow> int list \<Rightarrow> int \<Rightarrow> 'k server \<Rightarrow> (int result \<times> 'k server) option" where
  "serveSocketReceptions os [] nb s = Some (Inr nb, s)"
| "serveSocketReceptions os (fd # l) nb s =
    (if cnx s fd = None then Some (Inl OutOfRange, s)
     else case socketDataRead os fd s of
         None \<Rightarrow> None
       | Some (Inr _, s') \<Rightarrow> serveSocketReceptions os l (nb + 1) s'
       | Some (Inl (SocketDisconnection _), s') \<Rightarrow>
           thenO (Some (socketDisconnected os fd s')) (\<lambda>_ s''.
             serveSocketReceptions os l (nb + 1) (bury fd s''))
       | Some (Inl e, s') \<Rightarrow> Some (Inl e, s'))"

text \<open>
  In the emissions the pointer assigned in the \<^verbatim>\<open>try\<close> block shadows the one the handler of
  \<^verbatim>\<open>socket_disconnection\<close> uses, which is still null; \<^verbatim>\<open>out_of_range\<close> is turned into an abort.
\<close>

fun serveSocketEmissions :: "'k os \<Rightarrow> int list \<Rightarrow> int \<Rightarrow> 'k server \<Rightarrow> (int result \<times> 'k server) option" where
  "serveSocketEmissions os [] nb s = Some (Inr nb, s)"
| "serveSocketEmissions os (fd # l) nb s =
    (if cnx s fd = None then Some (Inl AssertFailed, s)
     else case socketDataWrite os fd s of
         None \<Rightarrow> None
       | Some (Inr again, s') \<Rightarrow>
           serveSocketEmissions os l (nb + 1)
             (if again = 0
              then s'\<lparr>router := (router s')\<lparr>select_writefds := FD_CLR fd (select_writefds (router s'))\<rparr>\<rparr>
              else s')
       | Some (Inl (SocketDisconnection _), s') \<Rightarrow> Some (Inl Undefined, s')
       | Some (Inl OutOfRange, s') \<Rightarrow> Some (Inl AssertFailed, s')
       | Some (Inl e, s') \<Rightarrow> Some (Inl e, s'))"

fun releaseAll :: "int list \<Rightarrow> ('k server, unit) stm" where
  "releaseAll [] = retS ()"
| "releaseAll (fd # l) = andThen (ReleaseClientConnection fd) (\<lambda>_. releaseAll l)"

definition prepare_sets :: "('k server, unit) stm" where
  "prepare_sets s =
    (case fdsCopy (clientsocks_nfds (router s)) (clientsocks_fds (router s)) (select_readfds (router s)) of
       Inl e \<Rightarrow> (Inl e, s)
     | Inr rd \<Rightarrow>
         (case fdsCopy (clientsocks_nfds (router s)) (clientsocks_fds (router s)) (select_errorfds (router s)) of
            Inl e \<Rightarrow> (Inl e, s\<lparr>router := (router s)\<lparr>select_readfds := rd\<rparr>\<rparr>)
          | Inr er \<Rightarrow> (Inr (), s\<lparr>router := (router s)\<lparr>select_readfds := rd, select_errorfds := er\<rparr>\<rparr>)))"

text \<open>\<^verbatim>\<open>pselect\<close> overwrites the three sets; when it fails it returns -1 and leaves them.\<close>

definition do_pselect :: "'k os \<Rightarrow> ('k server, int) stm" where
  "do_pselect os s =
    andThen (syscall (os_pselect os (clientsocks_nfds (router s))
        (select_readfds (router s), select_writefds (router s), select_errorfds (router s)))) (\<lambda>res.
      case res of
        Inl _ \<Rightarrow> retS (-1)
      | Inr (n, rd, wr, er) \<Rightarrow>
          andThen (modRouter (\<lambda>r. r\<lparr>select_readfds := rd, select_writefds := wr, select_errorfds := er\<rparr>))
            (\<lambda>_. retS n)) s"

text \<open>One phase: nothing when no activity is left, else the list of its set is served.\<close>

definition phase ::
    "(Router \<Rightarrow> fd_set) \<Rightarrow> (int list \<Rightarrow> 'k server \<Rightarrow> (int result \<times> 'k server) option) \<Rightarrow> int \<Rightarrow>
     'k server \<Rightarrow> (int result \<times> 'k server) option" where
  "phase sel run nb_act s =
    (if nb_act > 0 then
       (case fdsExtractList (clientsocks_nfds (router s)) (sel (router s)) of
          Inl e \<Rightarrow> Some (Inl e, s)
        | Inr l \<Rightarrow> thenO (run l s) (\<lambda>nb s'. Some (Inr (nb_act - nb), s')))
     else Some (Inr nb_act, s))"

definition ServeClientSockets :: "'k os \<Rightarrow> 'k server \<Rightarrow> (unit result \<times> 'k server) option" where
  "ServeClientSockets os s =
    thenO (Some (prepare_sets s)) (\<lambda>_ s.
    thenO (Some (syscall (os_clock_gettime os) s)) (\<lambda>t s. case t of
        Inl _ \<Rightarrow> Some (Inl AssertFailed, s)
      | Inr _ \<Rightarrow>
    thenO (Some (do_pselect os s)) (\<lambda>nb_act s.
    thenO (phase select_errorfds (\<lambda>l s. Some (handleSocketErrors os l 0 s)) nb_act s) (\<lambda>nb_act s.
    thenO (phase select_readfds (\<lambda>l. serveSocketReceptions os l 0) nb_act s) (\<lambda>nb_act s.
    thenO (phase select_writefds (\<lambda>l. serveSocketEmissions os l 0) nb_act s) (\<lambda>nb_act s.
    thenO (Some (assertS (\<lambda>_. nb_act = 0) s)) (\<lambda>_ s.
    thenO (Some (releaseAll (dead_list (router s)) s)) (\<lambda>_ s.
    Some (Inr (), s\<lparr>router := (router s)\<lparr>dead_list := []\<rparr>\<rparr>)))))))))"

section \<open>The invariant of the router\<close>

definition clients :: "'k server \<Rightarrow> int set" where
  "clients s = fds (clientsocks_fds (router s))"

definition nfds_of :: "int set \<Rightarrow> int" where
  "nfds_of A = (if A = {} then 0 else Max A + 1)"

definition sets_ok :: "Router \<Rightarrow> bool" where
  "sets_ok r \<longleftrightarrow> fd_set_ok (clientsocks_fds r) \<and> fd_set_ok (select_readfds r)
     \<and> fd_set_ok (select_writefds r) \<and> fd_set_ok (select_errorfds r)"

text \<open>
  The descriptor set, the map, the count and the highest descriptor describe the same connections;
  the emission set is among them; no client has descriptor 0.
\<close>

definition table_ok :: "'k server \<Rightarrow> bool" where
  "table_ok s \<longleftrightarrow> own_descr s \<and> sets_ok (router s)
     \<and> (\<forall>fd. cnx s fd \<noteq> None \<longleftrightarrow> fd \<in> clients s)
     \<and> 0 \<notin> clients s
     \<and> nb_client_connections (router s) = int (card (clients s))
     \<and> clientsocks_nfds (router s) = nfds_of (clients s)
     \<and> fds (select_writefds (router s)) \<subseteq> clients s"

text \<open>During a round the dead list has clients, each once.\<close>

definition router_ok :: "'k server \<Rightarrow> bool" where
  "router_ok s \<longleftrightarrow> table_ok s \<and> distinct (dead_list (router s)) \<and> set (dead_list (router s)) \<subseteq> clients s"

lemma fds_valid: "fd \<in> fds s \<Longrightarrow> fd_valid fd"
  by (simp add: fds_def)

lemma table_okD:
  assumes "table_ok s"
  shows "own_descr s" "sets_ok (router s)" "cnx s fd \<noteq> None \<longleftrightarrow> fd \<in> clients s" "0 \<notin> clients s"
    "nb_client_connections (router s) = int (card (clients s))"
    "clientsocks_nfds (router s) = nfds_of (clients s)"
    "fds (select_writefds (router s)) \<subseteq> clients s"
  using assms by (simp_all add: table_ok_def)

lemma finite_clients [simp]: "finite (clients s)"
  by (simp add: clients_def)

lemma clients_valid: "fd \<in> clients s \<Longrightarrow> fd_valid fd"
  by (simp add: clients_def fds_valid)

text \<open>Serving one connection keeps the invariant.\<close>

lemma frame_clients: "frame fd s t \<Longrightarrow> clients t = clients s"
  by (simp add: frame_def clients_def)

lemma frame_table_ok:
  assumes ok: "table_ok s" and f: "frame fd s t" and fd: "fd \<in> clients s" shows "table_ok t"
proof -
  have w: "fd_set_ok (select_writefds (router s))" using ok by (simp add: table_ok_def sets_ok_def)
  have "fds (select_writefds (router t)) \<subseteq> clients s"
    using f ok fd w clients_valid [OF fd] by (auto simp: frame_def table_ok_def)
  moreover have "sets_ok (router t)" using f ok w by (auto simp: frame_def table_ok_def sets_ok_def)
  moreover have "cnx t fd' \<noteq> None \<longleftrightarrow> fd' \<in> clients t" for fd'
    using f ok frame_clients [OF f] by (auto simp: frame_def table_ok_def)
  ultimately show ?thesis
    using f ok frame_clients [OF f] by (auto simp: frame_def table_ok_def)
qed

lemma frame_router_ok:
  "router_ok s \<Longrightarrow> frame fd s t \<Longrightarrow> fd \<in> clients s \<Longrightarrow> router_ok t"
  using frame_table_ok [of s fd t] by (auto simp: router_ok_def frame_def clients_def)

subsection \<open>Registering\<close>

lemma nfds_of_insert:
  "finite A \<Longrightarrow> (\<forall>x\<in>A. 0 \<le> x) \<Longrightarrow> 0 \<le> fd
    \<Longrightarrow> nfds_of (insert fd A) = (if fd \<ge> nfds_of A then fd + 1 else nfds_of A)"
  by (auto simp: nfds_of_def Max_insert max_def)

lemma new_ServerSocket_descr:
  "new_ServerSocket os addr fd s = (r, t) \<Longrightarrow> socket_descr (sock t) = fd"
  by (auto simp: new_ServerSocket_def socketConfiguration_def syscall_def andThen_def new_MsgSocket_def
      rxReset_def split: prod.splits sum.splits)

lemma CreateClientConnection_registers:
  assumes ok: "table_ok s" and fd: "fd_valid fd" "fd \<noteq> 0" "fd \<notin> clients s"
    and r: "CreateClientConnection os addr fd s = (Inr (), t)"
  shows "table_ok t \<and> clients t = insert fd (clients s)
    \<and> (\<exists>c. cnx t fd = Some c \<and> state c = EMPTY) \<and> (\<forall>fd'. fd' \<noteq> fd \<longrightarrow> cnx t fd' = cnx s fd')"
proof -
  obtain x where x: "new_ServerSocket os addr fd \<lparr>kern = kern s, errno = errno s\<rparr> = (Inr (), x)"
    and t: "t = s\<lparr>kern := kern x, errno := errno x, router := (router s)\<lparr>clientsocks_nfds :=
        (if fd \<ge> clientsocks_nfds (router s) then fd + 1 else clientsocks_nfds (router s)),
        clientsocks_fds := FD_SET fd (clientsocks_fds (router s)),
        socket_map := (socket_map (router s))(fd \<mapsto> new_ServerClientConnection (sock x)),
        nb_client_connections := nb_client_connections (router s) + 1\<rparr>\<rparr>"
    using r fd by (auto simp: CreateClientConnection_def Let_def clients_def fds_def split: if_splits prod.splits sum.splits)
  have s: "fd_set_ok (clientsocks_fds (router s))" using ok by (simp add: table_ok_def sets_ok_def)
  have cl: "clients t = insert fd (clients s)" using s fd by (simp add: t clients_def)
  have cn: "cnx t fd' = (if fd' = fd then Some (new_ServerClientConnection (sock x)) else cnx s fd')" for fd'
    by (simp add: t cnx_def)
  have "own_descr t"
    unfolding own_descr_def cn using table_okD(1) [OF ok] new_ServerSocket_descr [OF x] fd(1)
    by (auto simp: new_ServerClientConnection_def fd_valid_def dest: own_descrD)
  moreover have "clientsocks_nfds (router t)
      = (if fd \<ge> clientsocks_nfds (router s) then fd + 1 else clientsocks_nfds (router s))"
    by (simp add: t)
  then have "clientsocks_nfds (router t) = nfds_of (clients t)"
    unfolding cl using nfds_of_insert [of "clients s" fd] fd table_okD(6) [OF ok] clients_valid [of _ s]
    by (simp add: fd_valid_def)
  moreover have "nb_client_connections (router t) = int (card (clients t))"
    using fd table_okD(5) [OF ok] by (simp add: cl) (simp add: t)
  moreover have "sets_ok (router t)" using table_okD(2) [OF ok] by (simp add: t sets_ok_def)
  moreover have "cnx t fd' \<noteq> None \<longleftrightarrow> fd' \<in> clients t" for fd'
    using table_okD(3) [OF ok, of fd'] by (simp add: cl cn)
  moreover have "fds (select_writefds (router t)) \<subseteq> clients t" "0 \<notin> clients t"
    using table_okD(4,7) [OF ok] fd by (auto simp: cl) (auto simp: t)
  ultimately have "table_ok t" unfolding table_ok_def by blast
  with cl cn show ?thesis by (simp add: new_ServerClientConnection_def)
qed

subsection \<open>Releasing\<close>

lemma nfds_below_eq:
  "n < 1024 \<Longrightarrow> nfds_below n fdset = nfds_of {x \<in> fds fdset. 1 \<le> x \<and> x \<le> int n}"
proof (induction n)
  case 0
  then show ?case by (auto simp: nfds_of_def)
next
  case (Suc n)
  let ?A = "{x \<in> fds fdset. 1 \<le> x \<and> x \<le> int n}" and ?B = "{x \<in> fds fdset. 1 \<le> x \<and> x \<le> int (Suc n)}"
  have v: "fd_valid (int (Suc n))" using Suc.prems by (simp add: fd_valid_def)
  show ?case
  proof (cases "FD_ISSET (int (Suc n)) fdset")
    case True
    have m: "int (Suc n) \<in> ?B" using True v by (simp add: in_fds)
    then have "Max ?B = int (Suc n)" by (intro Max_eqI) auto
    moreover from m have "?B \<noteq> {}" by blast
    ultimately show ?thesis using True by (simp only: nfds_of_def nfds_below.simps if_True if_False)
  next
    case False
    have "int (Suc n) \<notin> fds fdset" using False v by (simp add: in_fds)
    then have "x \<le> int n" if "x \<in> fds fdset" "x \<le> int (Suc n)" for x
      using that by (cases "x = int (Suc n)") auto
    then have "?B = ?A" by auto
    with False Suc show ?thesis by simp
  qed
qed

lemma nfds_of_remove:
  assumes A: "finite A" "fd \<in> A" "\<forall>x\<in>A. 1 \<le> x"
  shows "nfds_of (A - {fd}) = (if fd + 1 = nfds_of A then nfds_of {x \<in> A. 1 \<le> x \<and> x \<le> fd - 1} else nfds_of A)"
proof (cases "fd = Max A")
  case True
  have "x \<le> fd" if "x \<in> A" for x using Max_ge [OF A(1) that] True by simp
  then have "x \<le> fd - 1" if "x \<in> A" "x \<noteq> fd" for x using that by fastforce
  then have "A - {fd} = {x \<in> A. 1 \<le> x \<and> x \<le> fd - 1}" using A(3) by auto
  with True A(2) show ?thesis by (auto simp: nfds_of_def)
next
  case False
  have "Max A \<in> A" using A by (intro Max_in) auto
  then have "Max (A - {fd}) = Max A" "A - {fd} \<noteq> {}"
    using A False by (auto intro!: Max_eqI)
  with False A(2) show ?thesis by (auto simp: nfds_of_def)
qed

lemma ReleaseClientConnection_releases:
  assumes ok: "table_ok s" and fd: "fd \<in> clients s"
  shows "\<exists>t. ReleaseClientConnection fd s = (Inr (), t) \<and> table_ok t \<and> clients t = clients s - {fd}
    \<and> (\<forall>fd'. cnx t fd' = (if fd' = fd then None else cnx s fd'))
    \<and> dead_list (router t) = dead_list (router s)"
proof -
  have v: "fd_valid fd" by (rule clients_valid [OF fd])
  let ?r = "router s"
  let ?fds = "FD_CLR fd (clientsocks_fds ?r)"
  let ?n = "if fd + 1 = clientsocks_nfds ?r then nfds_below (nat (fd - 1)) ?fds else clientsocks_nfds ?r"
  define t where "t = s\<lparr>router := ?r\<lparr>clientsocks_fds := ?fds, select_writefds := FD_CLR fd (select_writefds ?r),
    clientsocks_nfds := ?n, socket_map := (socket_map ?r)(fd := None),
    nb_client_connections := nb_client_connections ?r - 1\<rparr>\<rparr>"
  have "cnx s fd \<noteq> None" using table_okD(3) [OF ok] fd by simp
  then have r: "ReleaseClientConnection fd s = (Inr (), t)"
    using v by (auto simp: ReleaseClientConnection_def modRouter_def cnx_def t_def)
  have s: "fd_set_ok (clientsocks_fds ?r)" "fd_set_ok (select_writefds ?r)"
    using ok by (simp_all add: table_ok_def sets_ok_def)
  have cl: "clients t = clients s - {fd}" using s v by (simp add: t_def clients_def)
  have cn: "cnx t fd' = (if fd' = fd then None else cnx s fd')" for fd' by (simp add: t_def cnx_def)
  have pos: "\<forall>x\<in>clients s. 1 \<le> x"
  proof
    fix x assume x: "x \<in> clients s"
    then have "x \<noteq> 0" using table_okD(4) [OF ok] by auto
    with clients_valid [OF x] show "1 \<le> x" by (simp add: fd_valid_def)
  qed
  have "nfds_below (nat (fd - 1)) ?fds = nfds_of {x \<in> clients s. 1 \<le> x \<and> x \<le> fd - 1}"
  proof -
    have "{x \<in> fds ?fds. 1 \<le> x \<and> x \<le> int (nat (fd - 1))} = {x \<in> clients s. 1 \<le> x \<and> x \<le> fd - 1}"
      using s v pos fd by (auto simp: clients_def)
    moreover have "nat (fd - 1) < 1024" using v unfolding fd_valid_def by linarith
    ultimately show ?thesis by (simp only: nfds_below_eq)
  qed
  then have "clientsocks_nfds (router t) = nfds_of (clients t)"
    using nfds_of_remove [OF _ fd pos] table_okD(6) [OF ok] by (simp add: cl) (simp add: t_def)
  moreover have "nb_client_connections (router t) = int (card (clients t))"
  proof -
    have "0 < card (clients s)" using fd by (auto simp: card_gt_0_iff)
    then show ?thesis using table_okD(5) [OF ok] fd by (simp add: cl card_Diff_singleton) (simp add: t_def)
  qed
  moreover have "own_descr t" unfolding own_descr_def cn using table_okD(1) [OF ok] by (auto dest: own_descrD)
  moreover have "fds (select_writefds (router t)) \<subseteq> clients t"
    using table_okD(7) [OF ok] s v by (auto simp: cl) (auto simp: t_def)
  moreover have "sets_ok (router t)" using table_okD(2) [OF ok] by (simp add: t_def sets_ok_def)
  moreover have "cnx t fd' \<noteq> None \<longleftrightarrow> fd' \<in> clients t" for fd'
    using table_okD(3) [OF ok, of fd'] by (simp add: cl cn)
  moreover have "0 \<notin> clients t" using table_okD(4) [OF ok] by (simp add: cl)
  ultimately have "table_ok t" unfolding table_ok_def by blast
  moreover have "dead_list (router t) = dead_list ?r" by (simp add: t_def)
  ultimately show ?thesis using r cl cn by blast
qed

subsection \<open>A round\<close>

lemma cnx_client: "table_ok s \<Longrightarrow> cnx s fd \<noteq> None \<Longrightarrow> fd \<in> clients s"
  using table_okD(3) [of s fd] by simp

lemma router_ok_table: "router_ok s \<Longrightarrow> table_ok s"
  by (simp add: router_ok_def)

text \<open>An update of the router that touches only the three sets of \<^verbatim>\<open>pselect\<close>.\<close>

definition same_table :: "'k server \<Rightarrow> 'k server \<Rightarrow> bool" where
  "same_table s t \<longleftrightarrow> socket_map (router t) = socket_map (router s)
     \<and> nb_client_connections (router t) = nb_client_connections (router s)
     \<and> dead_list (router t) = dead_list (router s)
     \<and> clientsocks_fds (router t) = clientsocks_fds (router s)
     \<and> clientsocks_nfds (router t) = clientsocks_nfds (router s)"

lemma same_table_router_ok:
  assumes "router_ok s" "same_table s t" "sets_ok (router t)" "fds (select_writefds (router t)) \<subseteq> clients s"
  shows "router_ok t \<and> clients t = clients s"
  using assms by (auto simp: same_table_def router_ok_def table_ok_def clients_def own_descr_def cnx_def)

lemma frame_round:
  assumes "router_ok s" "frame fd s t" "fd \<in> clients s"
  shows "router_ok t" "clients t = clients s" "dead_list (router t) = dead_list (router s)"
  using frame_router_ok [OF assms] frame_clients [OF assms(2)] assms(2) by (simp_all add: frame_def)

lemma clear_indicators_ok:
  assumes ok: "router_ok s" and fd: "fd_valid fd" and r: "clear_indicators fd (router s) = (n, r)"
  shows "router_ok (s\<lparr>router := r\<rparr>) \<and> clients (s\<lparr>router := r\<rparr>) = clients s"
proof -
  have s: "sets_ok (router s)" "fds (select_writefds (router s)) \<subseteq> clients s"
    using ok by (simp_all add: router_ok_def table_ok_def)
  have "same_table s (s\<lparr>router := r\<rparr>)" "sets_ok r" "fds (select_writefds r) \<subseteq> clients s"
    using r s fd by (auto simp: clear_indicators_def Let_def same_table_def sets_ok_def split: if_splits)
  with ok show ?thesis by (intro same_table_router_ok) simp_all
qed

lemma handleSocketErrors_ok:
  "router_ok s \<Longrightarrow> handleSocketErrors os l nb s = (Inr n, t) \<Longrightarrow> router_ok t \<and> clients t = clients s
    \<and> dead_list (router t) = dead_list (router s)"
proof (induction l arbitrary: nb s)
  case (Cons fd l)
  from Cons.prems(2) have c: "cnx s fd \<noteq> None" by (auto split: if_splits)
  then have fd: "fd \<in> clients s" using Cons.prems(1) by (blast intro: cnx_client router_ok_table)
  obtain r1 s1 where e: "socketError os fd s = (r1, s1)" by fastforce
  with frames_socketError [of fd os] Cons.prems(1) have f: "frame fd s s1"
    unfolding frames_def by (blast dest: table_okD(1) router_ok_table)
  have ok1: "router_ok s1" "clients s1 = clients s" "dead_list (router s1) = dead_list (router s)"
    by (rule frame_round [OF Cons.prems(1) f fd])+
  from Cons.prems(2) c e obtain b where b: "r1 = Inr b" by (cases r1) auto
  show ?case
  proof (cases b)
    case False
    with Cons.prems(2) c e b have "handleSocketErrors os l (nb + 1) s1 = (Inr n, t)" by simp
    with Cons.IH [OF ok1(1)] ok1 show ?thesis by simp
  next
    case True
    obtain k r where ci: "clear_indicators fd (router s1) = (k, r)" by fastforce
    have d: "dead_list r = dead_list (router s1)"
      using ci by (auto simp: clear_indicators_def Let_def)
    from Cons.prems(2) c e b True ci
    have "handleSocketErrors os l (nb + k + 1) (s1\<lparr>router := r\<rparr>) = (Inr n, t)" by simp
    with Cons.IH [of "s1\<lparr>router := r\<rparr>"] clear_indicators_ok [OF ok1(1) clients_valid [OF fd] ci] ok1 d
    show ?thesis by simp
  qed
qed simp

lemma bury_ok:
  assumes "router_ok s" "fd \<in> clients s" "fd \<notin> set (dead_list (router s))"
  shows "router_ok (bury fd s) \<and> clients (bury fd s) = clients s"
  using assms by (auto simp: router_ok_def table_ok_def bury_def clients_def own_descr_def cnx_def sets_ok_def)

lemma serveSocketReceptions_ok:
  "router_ok s \<Longrightarrow> distinct l \<Longrightarrow> set l \<inter> set (dead_list (router s)) = {}
    \<Longrightarrow> serveSocketReceptions os l nb s = Some (Inr n, t) \<Longrightarrow> router_ok t \<and> clients t = clients s
    \<and> n = nb + int (length l)"
proof (induction l arbitrary: nb s)
  case (Cons fd l)
  from Cons.prems(4) have c: "cnx s fd \<noteq> None" by (auto split: if_splits)
  then have fd: "fd \<in> clients s" using Cons.prems(1) by (blast intro: cnx_client router_ok_table)
  have own: "own_descr s" using Cons.prems(1) by (blast dest: table_okD(1) router_ok_table)
  from Cons.prems(4) c obtain r1 s1 where m: "socketDataRead os fd s = Some (r1, s1)"
    by (auto split: option.splits)
  from socketDataRead_frame [OF own this] have f: "frame fd s s1" .
  have ok1: "router_ok s1" "clients s1 = clients s" "dead_list (router s1) = dead_list (router s)"
    by (rule frame_round [OF Cons.prems(1) f fd])+
  show ?case
  proof (cases r1)
    case (Inr u)
    with Cons.prems(4) c m have r: "serveSocketReceptions os l (nb + 1) s1 = Some (Inr n, t)" by simp
    from Cons.IH [OF ok1(1) _ _ r] ok1 Cons.prems(2,3) show ?thesis by simp
  next
    case (Inl e)
    with Cons.prems(4) c m obtain en where e: "e = SocketDisconnection en" by (cases e) auto
    obtain r2 s2 where d: "socketDisconnected os fd s1 = (r2, s2)" by fastforce
    with frames_handlers(6) [of fd os] ok1(1) have f2: "frame fd s1 s2"
      unfolding frames_def by (blast dest: table_okD(1) router_ok_table)
    have ok2: "router_ok s2" "clients s2 = clients s" "dead_list (router s2) = dead_list (router s)"
      using frame_round [OF ok1(1) f2] fd ok1 by simp_all
    from Cons.prems(4) c m Inl e d obtain u where "r2 = Inr u" by (cases r2) auto
    with Cons.prems(4) c m Inl e d
    have r: "serveSocketReceptions os l (nb + 1) (bury fd s2) = Some (Inr n, t)" by simp
    have b: "router_ok (bury fd s2) \<and> clients (bury fd s2) = clients s"
      using bury_ok [OF ok2(1), of fd] fd ok2 Cons.prems(3) by auto
    have "set l \<inter> set (dead_list (router (bury fd s2))) = {}"
      using Cons.prems(2,3) ok2 by (auto simp: bury_def)
    with Cons.IH [OF _ _ _ r] b Cons.prems(2) show ?thesis by simp
  qed
qed simp

lemma serveSocketEmissions_ok:
  "router_ok s \<Longrightarrow> serveSocketEmissions os l nb s = Some (Inr n, t) \<Longrightarrow> router_ok t \<and> clients t = clients s
    \<and> n = nb + int (length l)"
proof (induction l arbitrary: nb s)
  case (Cons fd l)
  from Cons.prems(2) have c: "cnx s fd \<noteq> None" by (auto split: if_splits)
  then have fd: "fd \<in> clients s" using Cons.prems(1) by (blast intro: cnx_client router_ok_table)
  have own: "own_descr s" using Cons.prems(1) by (blast dest: table_okD(1) router_ok_table)
  from Cons.prems(2) c obtain r1 s1 where m: "socketDataWrite os fd s = Some (r1, s1)"
    by (auto split: option.splits)
  from socketDataWrite_frame [OF own this] have f: "frame fd s s1" .
  have ok1: "router_ok s1" "clients s1 = clients s"
    by (rule frame_round [OF Cons.prems(1) f fd])+
  from Cons.prems(2) c m obtain again where a: "r1 = Inr again"
    by (cases r1) (auto split: exn.splits)
  let ?s2 = "if again = 0
    then s1\<lparr>router := (router s1)\<lparr>select_writefds := FD_CLR fd (select_writefds (router s1))\<rparr>\<rparr> else s1"
  have "sets_ok (router s1)" "fds (select_writefds (router s1)) \<subseteq> clients s1"
    using ok1(1) by (simp_all add: router_ok_def table_ok_def)
  then have "router_ok ?s2 \<and> clients ?s2 = clients s1"
    using clients_valid [OF fd] ok1(1)
    by (intro same_table_router_ok [OF ok1(1)]) (auto simp: same_table_def sets_ok_def)
  moreover have "serveSocketEmissions os l (nb + 1) ?s2 = Some (Inr n, t)"
    using Cons.prems(2) c m a by simp
  ultimately show ?case using Cons.IH [of ?s2 "nb + 1"] ok1(2) by simp
qed simp

lemma releaseAll_ok:
  "table_ok s \<Longrightarrow> distinct l \<Longrightarrow> set l \<subseteq> clients s \<Longrightarrow> \<exists>t. releaseAll l s = (Inr (), t) \<and> table_ok t
    \<and> clients t = clients s - set l \<and> (\<forall>fd. cnx t fd = (if fd \<in> set l then None else cnx s fd))
    \<and> dead_list (router t) = dead_list (router s)"
proof (induction l arbitrary: s)
  case (Cons fd l)
  then have "fd \<in> clients s" by simp
  from ReleaseClientConnection_releases [OF Cons.prems(1) this] obtain s1
    where s1: "ReleaseClientConnection fd s = (Inr (), s1)" "table_ok s1" "clients s1 = clients s - {fd}"
      "\<forall>fd'. cnx s1 fd' = (if fd' = fd then None else cnx s fd')" "dead_list (router s1) = dead_list (router s)"
    by blast
  from Cons.IH [OF s1(2)] Cons.prems(2,3) s1(3) obtain t
    where "releaseAll l s1 = (Inr (), t)" "table_ok t" "clients t = clients s1 - set l"
      "\<forall>fd. cnx t fd = (if fd \<in> set l then None else cnx s1 fd)" "dead_list (router t) = dead_list (router s1)"
    by auto
  with s1 Cons.prems(2) show ?case by (intro exI [of _ t]) auto
qed simp

text \<open>What the documentation of \<^verbatim>\<open>pselect\<close> says of its result.\<close>

definition pselect_ok :: "'k os \<Rightarrow> bool" where
  "pselect_ok os \<longleftrightarrow> (\<forall>nfds rd wr er k n rd' wr' er' k'.
     os_pselect os nfds (rd, wr, er) k = (Inr (n, rd', wr', er'), k') \<longrightarrow>
     fd_set_ok rd \<longrightarrow> fd_set_ok wr \<longrightarrow> fd_set_ok er \<longrightarrow>
     fd_set_ok rd' \<and> fd_set_ok wr' \<and> fd_set_ok er'
     \<and> fds rd' \<subseteq> {fd \<in> fds rd. fd < nfds} \<and> fds wr' \<subseteq> {fd \<in> fds wr. fd < nfds}
     \<and> fds er' \<subseteq> {fd \<in> fds er. fd < nfds}
     \<and> n = int (card (fds rd') + card (fds wr') + card (fds er')))"

text \<open>The part of a round before the service: the sets, the clock and \<^verbatim>\<open>pselect\<close>.\<close>

definition select_phase :: "'k os \<Rightarrow> 'k server \<Rightarrow> (int result \<times> 'k server) option" where
  "select_phase os s =
    thenO (Some (prepare_sets s)) (\<lambda>_ s.
    thenO (Some (syscall (os_clock_gettime os) s)) (\<lambda>t s. case t of
        Inl _ \<Rightarrow> Some (Inl AssertFailed, s)
      | Inr _ \<Rightarrow> Some (do_pselect os s)))"

definition serve_phases :: "'k os \<Rightarrow> int \<Rightarrow> 'k server \<Rightarrow> (unit result \<times> 'k server) option" where
  "serve_phases os nb_act s =
    thenO (phase select_errorfds (\<lambda>l s. Some (handleSocketErrors os l 0 s)) nb_act s) (\<lambda>nb_act s.
    thenO (phase select_readfds (\<lambda>l. serveSocketReceptions os l 0) nb_act s) (\<lambda>nb_act s.
    thenO (phase select_writefds (\<lambda>l. serveSocketEmissions os l 0) nb_act s) (\<lambda>nb_act s.
    thenO (Some (assertS (\<lambda>_. nb_act = 0) s)) (\<lambda>_ s.
    thenO (Some (releaseAll (dead_list (router s)) s)) (\<lambda>_ s.
    Some (Inr (), s\<lparr>router := (router s)\<lparr>dead_list := []\<rparr>\<rparr>))))))"

lemma thenO_assoc: "thenO (thenO m k) h = thenO m (\<lambda>x s. thenO (k x s) h)"
  by (auto simp: thenO_def split: option.split sum.split prod.split)

lemma ServeClientSockets_eq: "ServeClientSockets os s = thenO (select_phase os s) (serve_phases os)"
  unfolding ServeClientSockets_def select_phase_def serve_phases_def thenO_assoc
  by (rule arg_cong2 [where f = thenO] refl ext)+ (simp split: sum.split)

lemma thenO_InrE:
  assumes "thenO m k = Some (Inr y, t)"
  obtains x s where "m = Some (Inr x, s)" "k x s = Some (Inr y, t)"
  using assms by (auto simp: thenO_def split: option.splits sum.splits prod.splits)

lemma phaseE:
  assumes "phase sel run nb s = Some (Inr n, t)"
  obtains "nb \<le> 0" "n = nb" "t = s"
  | l k where "fdsExtractList (clientsocks_nfds (router s)) (sel (router s)) = Inr l"
      "run l s = Some (Inr k, t)" "n = nb - k"
  using assms by (auto simp: phase_def thenO_def split: if_splits option.splits sum.splits prod.splits)

lemma nfds_range:
  assumes "table_ok s" shows "0 \<le> clientsocks_nfds (router s) \<and> clientsocks_nfds (router s) \<le> 1024"
proof (cases "clients s = {}")
  case False
  then have "Max (clients s) \<in> clients s" by simp
  then have "0 \<le> Max (clients s)" "Max (clients s) < 1024" using clients_valid fd_valid_def by blast+
  moreover have "clientsocks_nfds (router s) = Max (clients s) + 1"
    using table_okD(6) [OF assms] False by (simp add: nfds_of_def)
  ultimately show ?thesis by linarith
qed (use table_okD(6) [OF assms] in \<open>simp add: nfds_of_def\<close>)

lemma extract_distinct:
  assumes "table_ok s" and "fdsExtractList (clientsocks_nfds (router s)) x = Inr l"
  shows "distinct l"
proof -
  from nfds_range [OF assms(1)] assms(2) fd_loops_overrun(2) [of x]
  have "0 \<le> clientsocks_nfds (router s)" "clientsocks_nfds (router s) < 1024"
    by (auto simp: order_le_less)
  with fdsExtractList_eq [OF this, of x] assms(2) show ?thesis by (auto simp: distinct_map inj_on_def)
qed

lemma below_nfds: "table_ok s \<Longrightarrow> fd \<in> clients s \<Longrightarrow> 0 \<le> fd \<and> fd < clientsocks_nfds (router s)"
proof -
  assume ok: "table_ok s" and fd: "fd \<in> clients s"
  then have "fd \<le> Max (clients s)" by simp
  with fd ok clients_valid [OF fd] show ?thesis
    by (auto simp: table_okD(6) nfds_of_def fd_valid_def)
qed

lemma extract_members:
  assumes ok: "table_ok s" and n: "clientsocks_nfds (router s) < 1024" and x: "fds x \<subseteq> clients s"
  shows "\<exists>l. fdsExtractList (clientsocks_nfds (router s)) x = Inr l \<and> set l = fds x \<and> sorted l \<and> distinct l"
  using nfds_range [OF ok] n x below_nfds [OF ok] by (intro fdsExtractList_fds) auto

lemma copied_fds:
  assumes ok: "table_ok s" and n: "clientsocks_nfds (router s) < 1024" and to: "fd_set_ok to"
  shows "\<exists>to'. fdsCopy (clientsocks_nfds (router s)) (clientsocks_fds (router s)) to = Inr to'
    \<and> fd_set_ok to' \<and> {fd \<in> fds to'. fd < clientsocks_nfds (router s)} = clients s"
proof -
  have f: "fd_set_ok (clientsocks_fds (router s))" using ok by (simp add: table_ok_def sets_ok_def)
  from fdsCopy_fds [OF f to conjunct1 [OF nfds_range [OF ok]] n] obtain to'
    where t: "fdsCopy (clientsocks_nfds (router s)) (clientsocks_fds (router s)) to = Inr to'" "fd_set_ok to'"
      "\<forall>fd. 0 \<le> fd \<longrightarrow> fd < clientsocks_nfds (router s) \<longrightarrow> FD_ISSET fd to' = FD_ISSET fd (clientsocks_fds (router s))"
    by blast
  have "{fd \<in> fds to'. fd < clientsocks_nfds (router s)} = clients s"
  proof (intro set_eqI iffI)
    fix fd assume "fd \<in> {fd \<in> fds to'. fd < clientsocks_nfds (router s)}"
    then have "fd_valid fd" "fd < clientsocks_nfds (router s)" "FD_ISSET fd to'" by (simp_all add: fds_def)
    then show "fd \<in> clients s" using t(3) by (simp add: clients_def fds_def fd_valid_def)
  next
    fix fd assume fd: "fd \<in> clients s"
    then have "FD_ISSET fd (clientsocks_fds (router s))" by (simp add: clients_def fds_def)
    with below_nfds [OF ok fd] clients_valid [OF fd] t(3)
    show "fd \<in> {fd \<in> fds to'. fd < clientsocks_nfds (router s)}" by (simp add: fds_def)
  qed
  with t show ?thesis by blast
qed

lemma prepare_sets_Inr:
  assumes ok: "table_ok s" and r: "prepare_sets s = (Inr x, s1)"
  shows "clientsocks_nfds (router s) < 1024"
  using nfds_range [OF ok] r fd_loops_overrun(1)
  by (cases "clientsocks_nfds (router s) = 1024") (auto simp: prepare_sets_def)

text \<open>The sets handed to \<^verbatim>\<open>pselect\<close>: all clients below \<open>nfds\<close> for reading and for errors.\<close>

lemma prepare_sets_ok:
  assumes ok: "table_ok s" and n: "clientsocks_nfds (router s) < 1024"
  shows "\<exists>rd er. prepare_sets s = (Inr (), s\<lparr>router := (router s)\<lparr>select_readfds := rd, select_errorfds := er\<rparr>\<rparr>)
    \<and> fd_set_ok rd \<and> fd_set_ok er
    \<and> {fd \<in> fds rd. fd < clientsocks_nfds (router s)} = clients s
    \<and> {fd \<in> fds er. fd < clientsocks_nfds (router s)} = clients s"
proof -
  have "fd_set_ok (select_readfds (router s))" "fd_set_ok (select_errorfds (router s))"
    using ok by (simp_all add: table_ok_def sets_ok_def)
  from copied_fds [OF ok n this(1)] copied_fds [OF ok n this(2)] obtain rd er
    where "fdsCopy (clientsocks_nfds (router s)) (clientsocks_fds (router s)) (select_readfds (router s)) = Inr rd"
      "fdsCopy (clientsocks_nfds (router s)) (clientsocks_fds (router s)) (select_errorfds (router s)) = Inr er"
      and "fd_set_ok rd" "fd_set_ok er" "{fd \<in> fds rd. fd < clientsocks_nfds (router s)} = clients s"
      "{fd \<in> fds er. fd < clientsocks_nfds (router s)} = clients s" by blast
  then show ?thesis by (intro exI [of _ rd] exI [of _ er]) (simp add: prepare_sets_def)
qed

text \<open>
  The state in which the service starts: the three sets are \<^verbatim>\<open>pselect\<close>'s answer, which are clients, and the
  count is their total.
\<close>

lemma select_phase_ok:
  assumes ok: "router_ok s" and p: "pselect_ok os" and r: "select_phase os s = Some (Inr n, t)" and n: "0 \<le> n"
  shows "router_ok t \<and> clients t = clients s \<and> dead_list (router t) = dead_list (router s)
    \<and> (\<forall>fd. cnx t fd = cnx s fd) \<and> clientsocks_nfds (router t) < 1024
    \<and> fds (select_readfds (router t)) \<subseteq> clients s \<and> fds (select_errorfds (router t)) \<subseteq> clients s
    \<and> fds (select_writefds (router t)) \<subseteq> fds (select_writefds (router s))
    \<and> n = int (card (fds (select_readfds (router t))) + card (fds (select_writefds (router t)))
             + card (fds (select_errorfds (router t))))"
proof -
  note tab = router_ok_table [OF ok]
  have w: "sets_ok (router s)" "fds (select_writefds (router s)) \<subseteq> clients s"
    using tab by (simp_all add: table_ok_def)
  from r have "\<exists>x s1. prepare_sets s = (Inr x, s1)"
    by (auto simp: select_phase_def elim!: thenO_InrE)
  then have n: "clientsocks_nfds (router s) < 1024" using prepare_sets_Inr [OF tab] by blast
  from prepare_sets_ok [OF tab n] obtain rd er
    where 1: "prepare_sets s = (Inr (), s\<lparr>router := (router s)\<lparr>select_readfds := rd, select_errorfds := er\<rparr>\<rparr>)"
      and s1: "fd_set_ok rd" "fd_set_ok er" "{fd \<in> fds rd. fd < clientsocks_nfds (router s)} = clients s"
        "{fd \<in> fds er. fd < clientsocks_nfds (router s)} = clients s"
    by blast
  let ?s1 = "s\<lparr>router := (router s)\<lparr>select_readfds := rd, select_errorfds := er\<rparr>\<rparr>"
  obtain ck k where c: "os_clock_gettime os (kern s) = (ck, k)" by fastforce
  with r 1 obtain now where ck: "ck = Inr now" by (cases ck) (auto simp: select_phase_def)
  with r 1 c have d: "do_pselect os (?s1\<lparr>kern := k\<rparr>) = (Inr n, t)"
    by (simp add: select_phase_def)
  obtain res k' where ps: "os_pselect os (clientsocks_nfds (router s)) (rd, select_writefds (router s), er) k = (res, k')"
    by fastforce
  with d assms(4) obtain n' rd' wr' er' where res: "res = Inr (n', rd', wr', er')"
    by (cases res) (auto simp: do_pselect_def)
  with d ps have t: "t = s\<lparr>kern := k', router := (router s)\<lparr>select_readfds := rd', select_writefds := wr',
      select_errorfds := er'\<rparr>\<rparr>" and nn: "n = n'"
    by (auto simp: do_pselect_def modRouter_def)
  have q: "fd_set_ok rd' \<and> fd_set_ok wr' \<and> fd_set_ok er'
     \<and> fds rd' \<subseteq> {fd \<in> fds rd. fd < clientsocks_nfds (router s)}
     \<and> fds wr' \<subseteq> {fd \<in> fds (select_writefds (router s)). fd < clientsocks_nfds (router s)}
     \<and> fds er' \<subseteq> {fd \<in> fds er. fd < clientsocks_nfds (router s)}
     \<and> n' = int (card (fds rd') + card (fds wr') + card (fds er'))"
    using p ps s1(1,2) w(1) unfolding pselect_ok_def res sets_ok_def by blast
  have "same_table s t" "sets_ok (router t)" "fds (select_writefds (router t)) \<subseteq> clients s"
    using q w by (auto simp: t same_table_def sets_ok_def)
  from same_table_router_ok [OF ok this] have "router_ok t \<and> clients t = clients s" .
  moreover have "\<forall>fd. cnx t fd = cnx s fd" "dead_list (router t) = dead_list (router s)"
    by (simp_all add: t cnx_def)
  ultimately show ?thesis using q n nn s1(3,4) by (simp add: t) auto
qed

lemma select_phase_negative:
  assumes ok: "router_ok s" and r: "select_phase os s = Some (Inr n, t)" and n: "n < 0"
  shows "serve_phases os n t = Some (Inl AssertFailed, t)"
  using n by (simp add: serve_phases_def phase_def)

lemma serve_phases_ok:
  assumes ok: "router_ok s" and d: "dead_list (router s) = []"
    and r: "serve_phases os n s = Some (Inr (), t)"
  shows "router_ok t \<and> dead_list (router t) = [] \<and> clients t \<subseteq> clients s"
proof -
  obtain n1 s1 n2 s2 n3 s3 s4
    where 1: "phase select_errorfds (\<lambda>l s. Some (handleSocketErrors os l 0 s)) n s = Some (Inr n1, s1)"
      and 2: "phase select_readfds (\<lambda>l. serveSocketReceptions os l 0) n1 s1 = Some (Inr n2, s2)"
      and 3: "phase select_writefds (\<lambda>l. serveSocketEmissions os l 0) n2 s2 = Some (Inr n3, s3)"
      and 4: "releaseAll (dead_list (router s3)) s3 = (Inr (), s4)"
      and t: "t = s4\<lparr>router := (router s4)\<lparr>dead_list := []\<rparr>\<rparr>"
    using r unfolding serve_phases_def by (auto elim!: thenO_InrE simp: assertS_def split: if_splits)
  from 1 have ok1: "router_ok s1 \<and> clients s1 = clients s \<and> dead_list (router s1) = []"
    by (rule phaseE) (use ok d handleSocketErrors_ok [OF ok] in auto)
  from 2 have ok2: "router_ok s2 \<and> clients s2 = clients s"
  proof (rule phaseE)
    fix l k assume l: "fdsExtractList (clientsocks_nfds (router s1)) (select_readfds (router s1)) = Inr l"
      and run: "serveSocketReceptions os l 0 s1 = Some (Inr k, s2)"
    have "distinct l" by (rule extract_distinct [OF router_ok_table l]) (use ok1 in blast)
    with serveSocketReceptions_ok [OF _ _ _ run] ok1 show ?thesis by simp
  qed (use ok1 in simp)
  from 3 have ok3: "router_ok s3 \<and> clients s3 = clients s"
    by (rule phaseE) (use ok2 serveSocketEmissions_ok [of s2] in auto)
  with releaseAll_ok [of s3 "dead_list (router s3)"] 4
  have "table_ok s4" "clients s4 \<subseteq> clients s" by (auto simp: router_ok_def)
  then show ?thesis
    by (auto simp: t router_ok_def table_ok_def clients_def own_descr_def cnx_def sets_ok_def)
qed

text \<open>A normal round keeps the table consistent.\<close>

lemma round_keeps_router_ok:
  assumes ok: "router_ok s" "dead_list (router s) = []" and p: "pselect_ok os"
    and r: "ServeClientSockets os s = Some (Inr (), t)"
  shows "router_ok t \<and> dead_list (router t) = [] \<and> clients t \<subseteq> clients s"
proof -
  from r obtain n s1 where s: "select_phase os s = Some (Inr n, s1)" and v: "serve_phases os n s1 = Some (Inr (), t)"
    unfolding ServeClientSockets_eq by (rule thenO_InrE)
  then have "0 \<le> n" using select_phase_negative [OF ok(1) s] by force
  from select_phase_ok [OF ok(1) p s this] ok(2) serve_phases_ok [OF _ _ v] show ?thesis by auto
qed

subsection \<open>The accounting of a round\<close>

lemma frame_writes:
  assumes "frame fd s t" "sets_ok (router s)"
  shows "fds (select_writefds (router s)) \<subseteq> fds (select_writefds (router t))"
  using assms by (auto simp: frame_def sets_ok_def)

text \<open>During the receptions sockets are only added to the emission set.\<close>

lemma serveSocketReceptions_writes:
  "router_ok s \<Longrightarrow> distinct l \<Longrightarrow> set l \<inter> set (dead_list (router s)) = {}
    \<Longrightarrow> serveSocketReceptions os l nb s = Some (Inr n, t)
    \<Longrightarrow> fds (select_writefds (router s)) \<subseteq> fds (select_writefds (router t))"
proof (induction l arbitrary: nb s)
  case (Cons fd l)
  from Cons.prems(4) have c: "cnx s fd \<noteq> None" by (auto split: if_splits)
  then have fd: "fd \<in> clients s" using Cons.prems(1) by (blast intro: cnx_client router_ok_table)
  have own: "own_descr s" and so: "sets_ok (router s)"
    using Cons.prems(1) by (simp_all add: router_ok_def table_ok_def)
  from Cons.prems(4) c obtain r1 s1 where m: "socketDataRead os fd s = Some (r1, s1)"
    by (auto split: option.splits)
  from socketDataRead_frame [OF own this] have f: "frame fd s s1" .
  note ok1 = frame_round [OF Cons.prems(1) f fd]
  have w1: "fds (select_writefds (router s)) \<subseteq> fds (select_writefds (router s1))"
    by (rule frame_writes [OF f so])
  show ?case
  proof (cases r1)
    case (Inr u)
    with Cons.prems(4) c m have r: "serveSocketReceptions os l (nb + 1) s1 = Some (Inr n, t)" by simp
    from Cons.IH [OF ok1(1) _ _ r] ok1 Cons.prems(2,3) w1 show ?thesis by auto
  next
    case (Inl e)
    with Cons.prems(4) c m obtain en where e: "e = SocketDisconnection en" by (cases e) auto
    obtain r2 s2 where d: "socketDisconnected os fd s1 = (r2, s2)" by fastforce
    with frames_handlers(6) [of fd os] ok1(1) have f2: "frame fd s1 s2"
      unfolding frames_def by (blast dest: table_okD(1) router_ok_table)
    have "fd \<in> clients s1" using fd ok1(2) by simp
    note ok2 = frame_round [OF ok1(1) f2 this]
    have "sets_ok (router s1)" using ok1(1) by (simp add: router_ok_def table_ok_def)
    with frame_writes [OF f2] w1 have w2: "fds (select_writefds (router s)) \<subseteq> fds (select_writefds (router s2))" by auto
    from Cons.prems(4) c m Inl e d obtain u where "r2 = Inr u" by (cases r2) auto
    with Cons.prems(4) c m Inl e d
    have r: "serveSocketReceptions os l (nb + 1) (bury fd s2) = Some (Inr n, t)" by simp
    have b: "router_ok (bury fd s2) \<and> clients (bury fd s2) = clients s"
      using bury_ok [OF ok2(1), of fd] fd ok1 ok2 Cons.prems(3) by auto
    have "set l \<inter> set (dead_list (router (bury fd s2))) = {}"
      using Cons.prems(2,3) ok1 ok2 by (auto simp: bury_def)
    with Cons.IH [OF _ _ _ r] b Cons.prems(2) w2 show ?thesis by (auto simp: bury_def)
  qed
qed simp

lemma extract_sorted:
  assumes "table_ok s" "clientsocks_nfds (router s) < 1024" "fds x \<subseteq> clients s"
  shows "fdsExtractList (clientsocks_nfds (router s)) x = Inr (sorted_list_of_set (fds x))"
proof -
  from extract_members [OF assms] obtain l
    where "fdsExtractList (clientsocks_nfds (router s)) x = Inr l" "set l = fds x" "sorted l" "distinct l" by blast
  then show ?thesis by (metis sorted_list_of_set.idem_if_sorted_distinct)
qed

lemma round_accounting:
  assumes ok: "router_ok s" "dead_list (router s) = []" and p: "pselect_ok os"
    and sel: "select_phase os s = Some (Inr n, s1)" "0 \<le> n"
    and er: "fds (select_errorfds (router s1)) = {}" and wr: "fds (select_writefds (router s1)) \<noteq> {}"
    and rx: "serveSocketReceptions os (sorted_list_of_set (fds (select_readfds (router s1)))) 0 s1 = Some (Inr k, s2)"
    and tx: "serveSocketEmissions os (sorted_list_of_set (fds (select_writefds (router s2)))) 0 s2 = Some (Inr k', s3)"
  shows "\<exists>t. ServeClientSockets os s
    = Some (if fds (select_writefds (router s2)) = fds (select_writefds (router s1))
            then Inr () else Inl AssertFailed, t)"
proof -
  let ?rd = "fds (select_readfds (router s1))" and ?wr = "fds (select_writefds (router s1))"
    and ?wr2 = "fds (select_writefds (router s2))"
  from select_phase_ok [OF ok(1) p sel] ok(2) have s1: "router_ok s1" "clients s1 = clients s"
      "dead_list (router s1) = []" "clientsocks_nfds (router s1) < 1024" "?rd \<subseteq> clients s1"
      "n = int (card ?rd + card ?wr)"
    using er by auto
  note t1 = router_ok_table [OF s1(1)]
  have "0 < card ?wr" using wr by (simp add: card_gt_0_iff)
  with s1(6) have pos: "0 < n" "0 < n - int (card ?rd)" by simp_all
  have 1: "phase select_errorfds (\<lambda>l s. Some (handleSocketErrors os l 0 s)) n s1 = Some (Inr n, s1)"
    using extract_sorted [OF t1 s1(4), of "select_errorfds (router s1)"] er by (simp add: phase_def)
  have rxok: "router_ok s2 \<and> clients s2 = clients s1 \<and> k = int (card ?rd)" "?wr \<subseteq> ?wr2"
    using serveSocketReceptions_ok [OF s1(1) _ _ rx] serveSocketReceptions_writes [OF s1(1) _ _ rx] s1(3) by auto
  have 2: "phase select_readfds (\<lambda>l. serveSocketReceptions os l 0) n s1 = Some (Inr (n - k), s2)"
    using pos rx extract_sorted [OF t1 s1(4,5)] by (simp add: phase_def)
  have t2: "table_ok s2" using rxok(1) by (simp add: router_ok_table)
  have "clientsocks_nfds (router s2) < 1024"
    using table_okD(6) [OF t1] table_okD(6) [OF t2] rxok(1) s1(4) by simp
  note ex = extract_sorted [OF t2 this table_okD(7) [OF t2]]
  have 3: "phase select_writefds (\<lambda>l. serveSocketEmissions os l 0) (n - k) s2 = Some (Inr (n - k - k'), s3)"
    using pos tx ex rxok(1) by (simp add: phase_def)
  have txok: "router_ok s3" "k' = int (card ?wr2)"
    using serveSocketEmissions_ok [OF conjunct1 [OF rxok(1)] tx] by simp_all
  have "n - k - k' = int (card ?wr) - int (card ?wr2)" using s1(6) rxok(1) txok(2) by simp
  then have z: "n - k - k' = 0 \<longleftrightarrow> ?wr2 = ?wr"
    using card_subset_eq [OF _ rxok(2)] by auto
  show ?thesis
  proof (cases "?wr2 = ?wr")
    case True
    from releaseAll_ok [of s3 "dead_list (router s3)"] txok(1) obtain t
      where "releaseAll (dead_list (router s3)) s3 = (Inr (), t)" by (auto simp: router_ok_def)
    with True z sel 1 2 3 show ?thesis
      by (simp add: ServeClientSockets_eq serve_phases_def)
  next
    case False
    with z sel 1 2 3 show ?thesis
      by (simp add: ServeClientSockets_eq serve_phases_def)
  qed
qed

lemma idle_round:
  assumes ok: "router_ok s" "dead_list (router s) = []" and p: "pselect_ok os"
    and sel: "select_phase os s = Some (Inr 0, s1)"
  shows "\<exists>t. ServeClientSockets os s = Some (Inr (), t) \<and> fds (select_writefds (router t)) = {}
    \<and> (\<forall>fd. cnx t fd = cnx s fd)"
proof -
  from select_phase_ok [OF ok(1) p sel] ok(2) have s1: "dead_list (router s1) = []" "\<forall>fd. cnx s1 fd = cnx s fd"
    and "int (card (fds (select_readfds (router s1)))) + int (card (fds (select_writefds (router s1))))
       + int (card (fds (select_errorfds (router s1)))) = 0" by simp_all
  then have "card (fds (select_writefds (router s1))) = 0" by linarith
  then have "fds (select_writefds (router s1)) = {}" by simp
  note s1 = s1 this
  then show ?thesis
    using sel by (simp add: ServeClientSockets_eq serve_phases_def phase_def cnx_def)
qed

subsection \<open>A client that a round passes over\<close>

text \<open>
  The connection of \<open>fd\<close> is as before, and \<open>fd\<close> has not entered the emission set, the ready sockets or the dead list.
\<close>

definition untouched :: "int \<Rightarrow> 'k server \<Rightarrow> 'k server \<Rightarrow> bool" where
  "untouched fd s t \<longleftrightarrow> cnx t fd = cnx s fd
     \<and> (fd \<in> fds (select_writefds (router t)) \<longrightarrow> fd \<in> fds (select_writefds (router s)))
     \<and> (fd \<in> fds (select_readfds (router t)) \<longrightarrow> fd \<in> fds (select_readfds (router s)))
     \<and> (fd \<in> set (dead_list (router t)) \<longrightarrow> fd \<in> set (dead_list (router s)))"

lemma untouched_refl: "untouched fd s s"
  by (simp add: untouched_def)

lemma untouched_trans: "untouched fd s t \<Longrightarrow> untouched fd t u \<Longrightarrow> untouched fd s u"
  by (simp add: untouched_def)

lemma frame_untouched:
  assumes "frame fd' s t" "sets_ok (router s)" "fd' \<noteq> fd" shows "untouched fd s t"
  using assms by (auto simp: frame_def untouched_def sets_ok_def)

lemma router_ok_sets: "router_ok s \<Longrightarrow> sets_ok (router s) \<and> own_descr s"
  by (simp add: router_ok_def table_ok_def)

lemma handleSocketErrors_untouched:
  "router_ok s \<Longrightarrow> fd \<notin> set l \<Longrightarrow> handleSocketErrors os l nb s = (Inr n, t) \<Longrightarrow> untouched fd s t"
proof (induction l arbitrary: nb s)
  case (Cons fd' l)
  from Cons.prems(3) have c: "cnx s fd' \<noteq> None" by (auto split: if_splits)
  then have fd': "fd' \<in> clients s" using Cons.prems(1) by (blast intro: cnx_client router_ok_table)
  note so = router_ok_sets [OF Cons.prems(1)]
  obtain r1 s1 where e: "socketError os fd' s = (r1, s1)" by fastforce
  with frames_socketError [of fd' os] so have f: "frame fd' s s1" unfolding frames_def by blast
  note ok1 = frame_round [OF Cons.prems(1) f fd']
  have u1: "untouched fd s s1" by (rule frame_untouched [OF f]) (use so Cons.prems(2) in auto)
  from Cons.prems(3) c e obtain b where b: "r1 = Inr b" by (cases r1) auto
  show ?case
  proof (cases b)
    case False
    with Cons.prems(3) c e b have "handleSocketErrors os l (nb + 1) s1 = (Inr n, t)" by simp
    from Cons.IH [OF ok1(1) _ this] Cons.prems(2) u1 show ?thesis by (auto intro: untouched_trans)
  next
    case True
    obtain k r where ci: "clear_indicators fd' (router s1) = (k, r)" by fastforce
    have "untouched fd s1 (s1\<lparr>router := r\<rparr>)"
      using ci router_ok_sets [OF ok1(1)] clients_valid [OF fd']
      by (auto simp: clear_indicators_def Let_def untouched_def cnx_def sets_ok_def split: if_splits)
    with u1 have u2: "untouched fd s (s1\<lparr>router := r\<rparr>)" by (rule untouched_trans)
    from Cons.prems(3) c e b True ci
    have "handleSocketErrors os l (nb + k + 1) (s1\<lparr>router := r\<rparr>) = (Inr n, t)" by simp
    from Cons.IH [OF _ _ this] clear_indicators_ok [OF ok1(1) clients_valid [OF fd'] ci] Cons.prems(2) u2
    show ?thesis by (auto intro: untouched_trans)
  qed
qed (simp add: untouched_refl)

lemma serveSocketReceptions_untouched:
  "router_ok s \<Longrightarrow> distinct l \<Longrightarrow> set l \<inter> set (dead_list (router s)) = {} \<Longrightarrow> fd \<notin> set l
    \<Longrightarrow> serveSocketReceptions os l nb s = Some (Inr n, t) \<Longrightarrow> untouched fd s t"
proof (induction l arbitrary: nb s)
  case (Cons fd' l)
  from Cons.prems(5) have c: "cnx s fd' \<noteq> None" by (auto split: if_splits)
  then have fd': "fd' \<in> clients s" using Cons.prems(1) by (blast intro: cnx_client router_ok_table)
  note so = router_ok_sets [OF Cons.prems(1)]
  from Cons.prems(5) c obtain r1 s1 where m: "socketDataRead os fd' s = Some (r1, s1)"
    by (auto split: option.splits)
  from socketDataRead_frame [OF _ this] so have f: "frame fd' s s1" by blast
  note ok1 = frame_round [OF Cons.prems(1) f fd']
  have u1: "untouched fd s s1" by (rule frame_untouched [OF f]) (use so Cons.prems(4) in auto)
  show ?case
  proof (cases r1)
    case (Inr u)
    with Cons.prems(5) c m have r: "serveSocketReceptions os l (nb + 1) s1 = Some (Inr n, t)" by simp
    from Cons.IH [OF ok1(1) _ _ _ r] ok1 Cons.prems(2-4) u1 show ?thesis by (auto intro: untouched_trans)
  next
    case (Inl e)
    with Cons.prems(5) c m obtain en where e: "e = SocketDisconnection en" by (cases e) auto
    obtain r2 s2 where d: "socketDisconnected os fd' s1 = (r2, s2)" by fastforce
    with frames_handlers(6) [of fd' os] router_ok_sets [OF ok1(1)] have f2: "frame fd' s1 s2"
      unfolding frames_def by blast
    have "fd' \<in> clients s1" using fd' ok1(2) by simp
    note ok2 = frame_round [OF ok1(1) f2 this]
    have "untouched fd s1 s2"
      by (rule frame_untouched [OF f2]) (use router_ok_sets [OF ok1(1)] Cons.prems(4) in auto)
    moreover have "untouched fd s2 (bury fd' s2)"
      using Cons.prems(4) by (simp add: untouched_def bury_def cnx_def)
    ultimately have u3: "untouched fd s (bury fd' s2)" using u1 by (blast intro: untouched_trans)
    from Cons.prems(5) c m Inl e d obtain u where "r2 = Inr u" by (cases r2) auto
    with Cons.prems(5) c m Inl e d
    have r: "serveSocketReceptions os l (nb + 1) (bury fd' s2) = Some (Inr n, t)" by simp
    have "fd' \<in> clients s2" "fd' \<notin> set (dead_list (router s2))"
      using ok1 ok2 fd' Cons.prems(3) by auto
    from bury_ok [OF ok2(1) this] have b: "router_ok (bury fd' s2)" by blast
    have "set l \<inter> set (dead_list (router (bury fd' s2))) = {}"
      using Cons.prems(2,3) ok1 ok2 by (auto simp: bury_def)
    from Cons.IH [OF b _ this _ r] Cons.prems(2,4) u3 show ?thesis by (auto intro: untouched_trans)
  qed
qed (simp add: untouched_refl)

lemma serveSocketEmissions_untouched:
  "router_ok s \<Longrightarrow> fd \<notin> set l \<Longrightarrow> serveSocketEmissions os l nb s = Some (Inr n, t) \<Longrightarrow> untouched fd s t"
proof (induction l arbitrary: nb s)
  case (Cons fd' l)
  from Cons.prems(3) have c: "cnx s fd' \<noteq> None" by (auto split: if_splits)
  then have fd': "fd' \<in> clients s" using Cons.prems(1) by (blast intro: cnx_client router_ok_table)
  note so = router_ok_sets [OF Cons.prems(1)]
  from Cons.prems(3) c obtain r1 s1 where m: "socketDataWrite os fd' s = Some (r1, s1)"
    by (auto split: option.splits)
  from socketDataWrite_frame [OF _ this] so have f: "frame fd' s s1" by blast
  note ok1 = frame_round [OF Cons.prems(1) f fd']
  have u1: "untouched fd s s1" by (rule frame_untouched [OF f]) (use so Cons.prems(2) in auto)
  from Cons.prems(3) c m obtain again where a: "r1 = Inr again"
    by (cases r1) (auto split: exn.splits)
  let ?s2 = "if again = 0
    then s1\<lparr>router := (router s1)\<lparr>select_writefds := FD_CLR fd' (select_writefds (router s1))\<rparr>\<rparr> else s1"
  have so1: "sets_ok (router s1)" "fds (select_writefds (router s1)) \<subseteq> clients s1"
    using ok1(1) by (simp_all add: router_ok_def table_ok_def)
  then have ok2: "router_ok ?s2 \<and> clients ?s2 = clients s1"
    using clients_valid [OF fd'] ok1(1)
    by (intro same_table_router_ok [OF ok1(1)]) (auto simp: same_table_def sets_ok_def)
  have "untouched fd s1 ?s2"
    using so1 clients_valid [OF fd'] by (auto simp: untouched_def cnx_def sets_ok_def)
  with u1 have u2: "untouched fd s ?s2" by (rule untouched_trans)
  have "serveSocketEmissions os l (nb + 1) ?s2 = Some (Inr n, t)"
    using Cons.prems(3) c m a by simp
  from Cons.IH [OF conjunct1 [OF ok2] _ this] Cons.prems(2) u2 show ?case by (auto intro: untouched_trans)
qed (simp add: untouched_refl)

lemma extract_in:
  assumes "table_ok s" and "fdsExtractList (clientsocks_nfds (router s)) x = Inr l" and "fd \<in> set l"
  shows "fd \<in> fds x"
proof -
  from nfds_range [OF assms(1)] assms(2) fd_loops_overrun(2) [of x]
  have "0 \<le> clientsocks_nfds (router s)" "clientsocks_nfds (router s) < 1024"
    by (auto simp: order_le_less)
  moreover from this have "nat (clientsocks_nfds (router s) div 64) \<le> 15" by simp
  ultimately show ?thesis
    using fdsExtractList_eq [of "clientsocks_nfds (router s)" x] assms(2,3) by (auto simp: fds_def fd_valid_def)
qed

lemma releaseAll_writes:
  "table_ok s \<Longrightarrow> distinct l \<Longrightarrow> set l \<subseteq> clients s \<Longrightarrow> releaseAll l s = (Inr (), t)
    \<Longrightarrow> fds (select_writefds (router t)) \<subseteq> fds (select_writefds (router s))"
proof (induction l arbitrary: s)
  case (Cons fd l)
  then have fd: "fd \<in> clients s" by simp
  from ReleaseClientConnection_releases [OF Cons.prems(1) fd] obtain s1
    where s1: "ReleaseClientConnection fd s = (Inr (), s1)" "table_ok s1" "clients s1 = clients s - {fd}"
    by blast
  have "fd_set_ok (select_writefds (router s))" using Cons.prems(1) by (simp add: table_ok_def sets_ok_def)
  with s1(1) clients_valid [OF fd] have "fds (select_writefds (router s1)) \<subseteq> fds (select_writefds (router s))"
    by (auto simp: ReleaseClientConnection_def modRouter_def andThen_def assertS_def split: if_splits)
  with Cons.IH [OF s1(2)] Cons.prems(2-4) s1(1,3) show ?case by auto
qed simp

lemma serve_phases_untouched:
  assumes ok: "router_ok s" and d: "dead_list (router s) = []"
    and fd: "fd \<notin> fds (select_readfds (router s))" "fd \<notin> fds (select_writefds (router s))"
      "fd \<notin> fds (select_errorfds (router s))"
    and r: "serve_phases os n s = Some (Inr (), t)"
  shows "cnx t fd = cnx s fd \<and> fd \<notin> fds (select_writefds (router t))"
proof -
  obtain n1 s1 n2 s2 n3 s3 s4
    where 1: "phase select_errorfds (\<lambda>l s. Some (handleSocketErrors os l 0 s)) n s = Some (Inr n1, s1)"
      and 2: "phase select_readfds (\<lambda>l. serveSocketReceptions os l 0) n1 s1 = Some (Inr n2, s2)"
      and 3: "phase select_writefds (\<lambda>l. serveSocketEmissions os l 0) n2 s2 = Some (Inr n3, s3)"
      and 4: "releaseAll (dead_list (router s3)) s3 = (Inr (), s4)"
      and t: "t = s4\<lparr>router := (router s4)\<lparr>dead_list := []\<rparr>\<rparr>"
    using r unfolding serve_phases_def by (auto elim!: thenO_InrE simp: assertS_def split: if_splits)
  have s1: "router_ok s1 \<and> clients s1 = clients s \<and> dead_list (router s1) = []"
    using 1 by (rule phaseE) (use ok d handleSocketErrors_ok [OF ok] in auto)
  have u1: "untouched fd s s1"
    using 1
  proof (rule phaseE)
    fix l k assume l: "fdsExtractList (clientsocks_nfds (router s)) (select_errorfds (router s)) = Inr l"
      and run: "Some (handleSocketErrors os l 0 s) = Some (Inr k, s1)"
    have "fd \<notin> set l" using extract_in [OF router_ok_table [OF ok] l] fd(3) by blast
    with handleSocketErrors_untouched [OF ok this] run show ?thesis by simp
  qed (simp add: untouched_refl)
  have s2: "router_ok s2 \<and> clients s2 = clients s" and u2: "untouched fd s1 s2"
    using 2
  proof (atomize (full), rule phaseE)
    fix l k assume l: "fdsExtractList (clientsocks_nfds (router s1)) (select_readfds (router s1)) = Inr l"
      and run: "serveSocketReceptions os l 0 s1 = Some (Inr k, s2)"
    have "distinct l" by (rule extract_distinct [OF router_ok_table l]) (use s1 in blast)
    moreover have "fd \<notin> set l"
      using extract_in [OF router_ok_table l] s1 u1 fd(1) unfolding untouched_def by blast
    ultimately show "(router_ok s2 \<and> clients s2 = clients s) \<and> untouched fd s1 s2"
      using serveSocketReceptions_ok [OF _ _ _ run] serveSocketReceptions_untouched [OF _ _ _ _ run] s1 by simp
  qed (use s1 in \<open>simp add: untouched_refl\<close>)
  have s3: "router_ok s3 \<and> clients s3 = clients s" and u3: "untouched fd s2 s3"
    using 3
  proof (atomize (full), rule phaseE)
    fix l k assume l: "fdsExtractList (clientsocks_nfds (router s2)) (select_writefds (router s2)) = Inr l"
      and run: "serveSocketEmissions os l 0 s2 = Some (Inr k, s3)"
    have "fd \<notin> set l"
      using extract_in [OF router_ok_table l] s2 u2 u1 fd(2) unfolding untouched_def by blast
    with serveSocketEmissions_ok [OF _ run] serveSocketEmissions_untouched [OF _ _ run] s2
    show "(router_ok s3 \<and> clients s3 = clients s) \<and> untouched fd s2 s3" by simp
  qed (use s2 in \<open>simp add: untouched_refl\<close>)
  have u: "untouched fd s s3" using u1 u2 u3 by (blast intro: untouched_trans)
  then have nd: "fd \<notin> set (dead_list (router s3))" using d by (simp add: untouched_def)
  from s3 have "router_ok s3" by blast
  then have t3: "table_ok s3" "distinct (dead_list (router s3))" "set (dead_list (router s3)) \<subseteq> clients s3"
    by (simp_all add: router_ok_def)
  from releaseAll_ok [OF t3] 4 nd have "cnx s4 fd = cnx s3 fd" by auto
  moreover have "fds (select_writefds (router s4)) \<subseteq> fds (select_writefds (router s3))"
    by (rule releaseAll_writes [OF t3 4])
  ultimately show ?thesis using u fd(2) by (auto simp: t untouched_def cnx_def)
qed

lemma round_passes_over:
  assumes ok: "router_ok s" "dead_list (router s) = []" and p: "pselect_ok os"
    and sel: "select_phase os s = Some (Inr n, s1)" and r: "ServeClientSockets os s = Some (Inr (), t)"
    and fd: "fd \<notin> fds (select_readfds (router s1)) \<union> fds (select_writefds (router s1)) \<union> fds (select_errorfds (router s1))"
  shows "cnx t fd = cnx s fd \<and> fd \<notin> fds (select_writefds (router t))"
proof -
  from r sel have v: "serve_phases os n s1 = Some (Inr (), t)" by (simp add: ServeClientSockets_eq)
  then have "0 \<le> n" using select_phase_negative [OF ok(1) sel] by force
  from select_phase_ok [OF ok(1) p sel this] ok(2) serve_phases_untouched [OF _ _ _ _ _ v, of fd] fd
  show ?thesis by auto
qed

text \<open>
  Rounds in which neither data nor an error is reported for the socket \<open>fd\<close>; between two rounds the server may do
  whatever leaves that connection alone and does not flag it for emission, as accepting another client does.
\<close>

inductive passed_over :: "'k os \<Rightarrow> int \<Rightarrow> 'k server \<Rightarrow> 'k server \<Rightarrow> bool" for os fd s where
  Passed_start: "passed_over os fd s s"
| Passed_round: "passed_over os fd s u"
    if "passed_over os fd s t" and "select_phase os t = Some (Inr n, t1)"
      and "fd \<notin> fds (select_readfds (router t1)) \<union> fds (select_errorfds (router t1))"
      and "ServeClientSockets os t = Some (Inr (), u)"
| Passed_between: "passed_over os fd s u"
    if "passed_over os fd s t" and "router_ok u" and "dead_list (router u) = []" and "untouched fd t u"

lemma passed_over_keeps:
  assumes "passed_over os fd s t" and p: "pselect_ok os"
    and "router_ok s" "dead_list (router s) = []" "fd \<notin> fds (select_writefds (router s))"
  shows "router_ok t \<and> dead_list (router t) = [] \<and> cnx t fd = cnx s fd \<and> fd \<notin> fds (select_writefds (router t))"
  using assms(1)
proof induction
  case (Passed_round t n t1 u)
  then have t: "router_ok t" "dead_list (router t) = []" "cnx t fd = cnx s fd"
    "fd \<notin> fds (select_writefds (router t))" by simp_all
  from Passed_round(2,4) have "serve_phases os n t1 = Some (Inr (), u)" by (simp add: ServeClientSockets_eq)
  then have "0 \<le> n" using select_phase_negative [OF t(1) Passed_round(2)] by force
  from select_phase_ok [OF t(1) p Passed_round(2) this] t(4) have "fd \<notin> fds (select_writefds (router t1))" by blast
  with round_passes_over [OF t(1,2) p Passed_round(2,4)] Passed_round(3)
    round_keeps_router_ok [OF t(1,2) p Passed_round(4)] t(3)
  show ?case by auto
next
  case (Passed_between t u)
  then show ?case by (simp add: untouched_def)
qed (use assms(3-5) in simp)

lemma accepting_passes_over:
  assumes "router_ok s" "dead_list (router s) = []" "fd_valid new" "new \<noteq> 0" "new \<notin> clients s" "new \<noteq> fd"
    and r: "CreateClientConnection os addr new s = (Inr (), t)"
  shows "router_ok t \<and> dead_list (router t) = [] \<and> untouched fd s t"
proof -
  from CreateClientConnection_registers [OF router_ok_table [OF assms(1)] assms(3-5) r] assms(6)
  have "table_ok t" "cnx t fd = cnx s fd" by auto
  moreover have "dead_list (router t) = dead_list (router s) \<and> select_writefds (router t) = select_writefds (router s)
      \<and> select_readfds (router t) = select_readfds (router s)"
    using r assms(3,5) by (auto simp: CreateClientConnection_def Let_def clients_def fds_def split: if_splits prod.splits sum.splits)
  ultimately show ?thesis using assms(2) by (simp add: router_ok_def untouched_def)
qed

lemma emission_step:
  assumes "cnx s fd = Some c" "sendNextData os (enter_sock s c) = Some (Inr a, x)"
  shows "serveSocketEmissions os (fd # l) nb s = serveSocketEmissions os l (nb + 1)
    (if a = 0 then (leave_sock s fd c x)\<lparr>router := (router (leave_sock s fd c x))
       \<lparr>select_writefds := FD_CLR fd (select_writefds (router (leave_sock s fd c x)))\<rparr>\<rparr>
     else leave_sock s fd c x)"
  using assms by (simp add: socketDataWrite_def sockO_def)

section \<open>Properties\<close>

text \<open>
  Registering a client under a fresh descriptor adds exactly that descriptor to the table, with a
  connection in its initial state, and keeps the table consistent: the descriptor set, the map, the
  count and the \<^verbatim>\<open>nfds\<close> argument of \<^verbatim>\<open>pselect\<close> describe the same connections.
\<close>

theorem CreateClientConnection_inserts:
  assumes "table_ok s" and "fd_valid fd" and "fd \<noteq> 0" and "fd \<notin> clients s"
    and "CreateClientConnection os addr fd s = (Inr (), t)"
  shows "table_ok t \<and> clients t = insert fd (clients s)
    \<and> (\<exists>c. cnx t fd = Some c \<and> state c = EMPTY) \<and> (\<forall>fd'. fd' \<noteq> fd \<longrightarrow> cnx t fd' = cnx s fd')"
  by (rule CreateClientConnection_registers [OF assms])

lemma new_Router_ok: "table_ok \<lparr>kern = k, errno = e, router = new_Router FD_ZERO FD_ZERO FD_ZERO\<rparr>"
  by (simp add: table_ok_def own_descr_def cnx_def new_Router_def sets_ok_def clients_def nfds_of_def)

definition accepting_os :: "'k os" where
  "accepting_os = failing_os\<lparr>os_nonblock := \<lambda>_. Pair (Inr ()), os_close := \<lambda>_. Pair (Inr ())\<rparr>"

lemma CreateClientConnection_inserts_witness:
  "\<exists>t. CreateClientConnection accepting_os \<lparr>s_addr = 0, sin_port = 0\<rparr> 7
       \<lparr>kern = (), errno = 0, router = new_Router FD_ZERO FD_ZERO FD_ZERO\<rparr> = (Inr (), t)
     \<and> table_ok t \<and> clients t = {7} \<and> clientsocks_nfds (router t) = 8"
proof -
  let ?s = "\<lparr>kern = (), errno = 0, router = new_Router FD_ZERO FD_ZERO FD_ZERO\<rparr> :: unit server"
  have v: "fd_valid 7" by (simp add: fd_valid_def)
  have n: "clients ?s = {}" by (simp add: clients_def new_Router_def)
  have "\<not> FD_ISSET 7 FD_ZERO" using v by (rule FD_ISSET_ZERO)
  then obtain t where t: "CreateClientConnection accepting_os \<lparr>s_addr = 0, sin_port = 0\<rparr> 7 ?s = (Inr (), t)"
    using v by (simp add: CreateClientConnection_def new_Router_def new_ServerSocket_def accepting_os_def
        failing_os_def socketConfiguration_def syscall_def andThen_def)
  from CreateClientConnection_inserts [OF new_Router_ok v _ _ t] n have "table_ok t" "clients t = {7}" by simp_all
  moreover from this have "clientsocks_nfds (router t) = 8" by (simp add: table_okD nfds_of_def)
  ultimately show ?thesis using t by blast
qed

text \<open>
  C12. Releasing a registered client removes exactly its descriptor, from the table and from the emission
  set, keeps every other connection, recomputes \<^verbatim>\<open>nfds\<close> as the highest descriptor left plus one and fails
  no assertion.
\<close>

theorem ReleaseClientConnection_removes:
  assumes "table_ok s" and "fd \<in> clients s"
  shows "\<exists>t. ReleaseClientConnection fd s = (Inr (), t) \<and> table_ok t \<and> clients t = clients s - {fd}
    \<and> (\<forall>fd'. cnx t fd' = (if fd' = fd then None else cnx s fd'))"
  using ReleaseClientConnection_releases [OF assms] by blast

text \<open>A server with two clients, 5 and 6.\<close>

definition two_clients :: "ServerClientConnection \<Rightarrow> ServerClientConnection \<Rightarrow> fd_set \<Rightarrow> unit server" where
  "two_clients c5 c6 wr = \<lparr>kern = (), errno = 0, router =
     \<lparr>socket_map = [5 \<mapsto> c5, 6 \<mapsto> c6], nb_client_connections = 2, dead_list = [],
      clientsocks_fds = FD_SET 6 (FD_SET 5 FD_ZERO), clientsocks_nfds = 7, select_readfds = FD_ZERO,
      select_writefds = wr, select_errorfds = FD_ZERO\<rparr>\<rparr>"

lemma valid56: "fd_valid 5" "fd_valid 6"
  by (simp_all add: fd_valid_def)

lemma two_clients_ok:
  assumes "socket_descr (servSock c5) = 5" "socket_descr (servSock c6) = 6" "fd_set_ok wr" "fds wr \<subseteq> {5, 6}"
  shows "router_ok (two_clients c5 c6 wr)" "clients (two_clients c5 c6 wr) = {5, 6}"
proof -
  show cl: "clients (two_clients c5 c6 wr) = {5, 6}"
    using valid56 by (auto simp: clients_def two_clients_def)
  have "own_descr (two_clients c5 c6 wr)"
    using assms by (auto simp: own_descr_def cnx_def two_clients_def split: if_splits)
  moreover have "nfds_of {5, 6} = 7" by (simp add: nfds_of_def)
  ultimately show "router_ok (two_clients c5 c6 wr)"
    using assms unfolding router_ok_def table_ok_def cl
    by (auto simp: two_clients_def sets_ok_def cnx_def)
qed

definition sample_cnx_at :: "int \<Rightarrow> mem list \<Rightarrow> ServerClientConnection" where
  "sample_cnx_at fd ms = new_ServerClientConnection
     ((new_MsgSocket ServerSocket_class \<lparr>s_addr = 0, sin_port = 0\<rparr> fd FROM_SERVER (\<lambda>_. 0))\<lparr>rx_fifo := ms\<rparr>)"

lemma sample_cnx_at_sel [simp]:
  "socket_descr (servSock (sample_cnx_at fd ms)) = fd" "rx_fifo (servSock (sample_cnx_at fd ms)) = ms"
  "state (sample_cnx_at fd ms) = EMPTY" "tx_fifo (servSock (sample_cnx_at fd ms)) = []"
  "rx_lenght (servSock (sample_cnx_at fd ms)) = 0" "tx_idle [] (servSock (sample_cnx_at fd ms))"
  "sock_class (servSock (sample_cnx_at fd ms)) = ServerSocket_class"
  by (simp_all add: sample_cnx_at_def new_ServerClientConnection_def new_MsgSocket_def rxReset_def tx_idle_def
      tx_clear_def)

lemma ReleaseClientConnection_removes_witness:
  "\<exists>t. ReleaseClientConnection 6 (two_clients (sample_cnx_at 5 []) (sample_cnx_at 6 []) FD_ZERO) = (Inr (), t)
     \<and> clients t = {5} \<and> clientsocks_nfds (router t) = 6"
proof -
  let ?s = "two_clients (sample_cnx_at 5 []) (sample_cnx_at 6 []) FD_ZERO"
  have ok: "router_ok ?s" "clients ?s = {5, 6}" by (rule two_clients_ok; simp)+
  have d: "{5, 6} - {6} = {5 :: int}" by auto
  from ok(2) have "6 \<in> clients ?s" by simp
  from ReleaseClientConnection_removes [OF router_ok_table [OF ok(1)] this, unfolded ok(2) d] obtain t
    where t: "ReleaseClientConnection 6 ?s = (Inr (), t)" "table_ok t" "clients t = {5}" by blast
  then have "clientsocks_nfds (router t) = 6" by (simp add: table_okD nfds_of_def)
  with t show ?thesis by blast
qed

text \<open>
  C17. A round of \<^verbatim>\<open>ServeClientSockets\<close> that returns keeps the router consistent, whatever the clients have sent:
  it adds no client and leaves the dead list empty again.
\<close>

theorem ServeClientSockets_keeps_router_ok:
  assumes "router_ok s" and "dead_list (router s) = []" and "pselect_ok os"
    and "ServeClientSockets os s = Some (Inr (), t)"
  shows "router_ok t \<and> dead_list (router t) = [] \<and> clients t \<subseteq> clients s"
  by (rule round_keeps_router_ok [OF assms])

text \<open>A kernel where nothing is ready, and one where 5 is readable and 6 writable.\<close>

definition only :: "int \<Rightarrow> int \<Rightarrow> fd_set \<Rightarrow> fd_set" where
  "only fd nfds x = (if FD_ISSET fd x \<and> fd < nfds then FD_SET fd FD_ZERO else FD_ZERO)"

definition idle_os :: "unit os" where
  "idle_os = accepting_os\<lparr>os_clock_gettime := Pair (Inr 0),
     os_pselect := \<lambda>nfds x. Pair (Inr (0, FD_ZERO, FD_ZERO, FD_ZERO))\<rparr>"

definition busy_os :: "unit os" where
  "busy_os = accepting_os\<lparr>os_clock_gettime := Pair (Inr 0),
     os_recv := \<lambda>fd n peek. Pair (Inl EWOULDBLOCK), os_send := \<lambda>fd bs. Pair (Inr (length bs)),
     os_pselect := \<lambda>nfds (rd, wr, er). Pair (Inr
       (int (card (fds (only 5 nfds rd)) + card (fds (only 6 nfds wr))), only 5 nfds rd, only 6 nfds wr, FD_ZERO))\<rparr>"

lemma idle_os_pselect_ok: "pselect_ok idle_os"
  by (simp add: pselect_ok_def idle_os_def)

lemma busy_os_pselect_ok: "pselect_ok busy_os"
  using valid56 by (auto simp: pselect_ok_def busy_os_def only_def in_fds split: if_splits)

lemma idle_select:
  assumes ok: "router_ok s" and n: "clientsocks_nfds (router s) < 1024"
  shows "\<exists>s1. select_phase idle_os s = Some (Inr 0, s1)"
proof -
  from prepare_sets_ok [OF router_ok_table [OF ok] n] obtain rd er
    where "prepare_sets s = (Inr (), s\<lparr>router := (router s)\<lparr>select_readfds := rd, select_errorfds := er\<rparr>\<rparr>)" by blast
  then show ?thesis
    by (simp add: select_phase_def syscall_def idle_os_def do_pselect_def modRouter_def)
qed

lemma ServeClientSockets_keeps_router_ok_witness:
  "\<exists>t. ServeClientSockets idle_os (two_clients (sample_cnx_at 5 []) (sample_cnx_at 6 []) FD_ZERO) = Some (Inr (), t)
     \<and> router_ok t \<and> clients t \<subseteq> {5, 6}"
proof -
  let ?s = "two_clients (sample_cnx_at 5 []) (sample_cnx_at 6 []) FD_ZERO"
  have ok: "router_ok ?s" "clients ?s = {5, 6}" by (rule two_clients_ok; simp)+
  have d: "dead_list (router ?s) = []" "clientsocks_nfds (router ?s) < 1024" by (simp_all add: two_clients_def)
  from idle_select [OF ok(1) d(2)] obtain s1 where "select_phase idle_os ?s = Some (Inr 0, s1)" by blast
  from idle_round [OF ok(1) d(1) idle_os_pselect_ok this] obtain t
    where t: "ServeClientSockets idle_os ?s = Some (Inr (), t)" by blast
  with ServeClientSockets_keeps_router_ok [OF ok(1) d(1) idle_os_pselect_ok t] ok(2) show ?thesis by auto
qed

text \<open>
  C33. The emission set is not permanent: \<^verbatim>\<open>pselect\<close> overwrites it. A client that a round reports in none of its three
  sets, although replies are queued for it, is out of the emission set after the round, and no number of further
  rounds sends anything to it or even looks at it, as long as it sends nothing itself, has no error and
  nobody flags it anew: its connection, with the queue, stays as it was. (The next message that is queued for
  it flags it again, and then the old replies go out too.)
\<close>

theorem pending_replies_forgotten:
  assumes "router_ok s" and "dead_list (router s) = []" and "pselect_ok os"
    and "select_phase os s = Some (Inr n, s1)" and "ServeClientSockets os s = Some (Inr (), t)"
    and "fd \<notin> fds (select_readfds (router s1)) \<union> fds (select_writefds (router s1)) \<union> fds (select_errorfds (router s1))"
    and "passed_over os fd t u"
  shows "cnx u fd = cnx s fd \<and> fd \<notin> fds (select_writefds (router u))"
proof -
  note t = round_passes_over [OF assms(1-6)]
  from round_keeps_router_ok [OF assms(1-3,5)] have "router_ok t" "dead_list (router t) = []" by simp_all
  from passed_over_keeps [OF assms(7,3) this conjunct2 [OF t]] t show ?thesis by simp
qed

lemma pending_replies_forgotten_witness:
  "\<exists>c t u. tx_fifo (servSock c) \<noteq> []
     \<and> ServeClientSockets idle_os (two_clients c (sample_cnx_at 6 []) (FD_SET 5 FD_ZERO)) = Some (Inr (), t)
     \<and> ServeClientSockets idle_os t = Some (Inr (), u) \<and> cnx u 5 = Some c \<and> 5 \<notin> fds (select_writefds (router u))"
proof -
  let ?c = "queued (msg_request (REGISTRATION_CNF, \<lambda>_. 0, 1)) (sample_cnx_at 5 [])"
  let ?s = "two_clients ?c (sample_cnx_at 6 []) (FD_SET 5 FD_ZERO)"
  have x: "socket_descr (servSock ?c) = 5" "tx_fifo (servSock ?c) \<noteq> []" by (simp_all add: sendMsg_def)
  have ok: "router_ok ?s" by (rule two_clients_ok) (use x valid56 in simp_all)
  have d: "dead_list (router ?s) = []" "clientsocks_nfds (router ?s) < 1024" "cnx ?s 5 = Some ?c"
    by (simp_all add: two_clients_def cnx_def)
  have quiet: "fds (select_readfds (router v1)) \<union> fds (select_writefds (router v1)) \<union> fds (select_errorfds (router v1)) = {}"
    if "router_ok v" "select_phase idle_os v = Some (Inr 0, v1)" for v v1
  proof -
    from select_phase_ok [OF that(1) idle_os_pselect_ok that(2)]
    have "int (card (fds (select_readfds (router v1)))) + int (card (fds (select_writefds (router v1))))
       + int (card (fds (select_errorfds (router v1)))) = 0" by simp
    then have "card (fds (select_readfds (router v1))) = 0" "card (fds (select_writefds (router v1))) = 0"
      "card (fds (select_errorfds (router v1))) = 0" by linarith+
    then show ?thesis by simp
  qed
  from idle_select [OF ok d(2)] obtain s1 where s1: "select_phase idle_os ?s = Some (Inr 0, s1)" by blast
  from idle_round [OF ok d(1) idle_os_pselect_ok s1] obtain t where t: "ServeClientSockets idle_os ?s = Some (Inr (), t)"
    by blast
  from round_keeps_router_ok [OF ok d(1) idle_os_pselect_ok t]
  have ok': "router_ok t" "dead_list (router t) = []" "clients t \<subseteq> clients ?s" by simp_all
  have "clients t \<subseteq> {5, 6}" using ok'(3) two_clients_ok(2) [of ?c "sample_cnx_at 6 []" "FD_SET 5 FD_ZERO"] x valid56
    by simp
  then have "clientsocks_nfds (router t) < 1024"
    using table_okD(6) [OF router_ok_table [OF ok'(1)]] by (auto simp: nfds_of_def)
  from idle_select [OF ok'(1) this] obtain t1 where t1: "select_phase idle_os t = Some (Inr 0, t1)" by blast
  from idle_round [OF ok'(1,2) idle_os_pselect_ok t1] obtain u where u: "ServeClientSockets idle_os t = Some (Inr (), u)"
    by blast
  have "passed_over idle_os 5 t u"
    by (rule Passed_round [OF Passed_start t1 _ u]) (use quiet [OF ok'(1) t1] in blast)
  from pending_replies_forgotten [OF ok d(1) idle_os_pselect_ok s1 t _ this] quiet [OF ok s1] d(3)
  have "cnx u 5 = Some ?c \<and> 5 \<notin> fds (select_writefds (router u))" by simp
  with x(2) t u show ?thesis by (intro exI [of _ ?c] exI [of _ t] exI [of _ u]) simp
qed

text \<open>
  When \<^verbatim>\<open>pselect\<close> fails, for instance interrupted by a signal or given the descriptor of a socket that has
  been closed, the server fails its assertion on the number of activities.
\<close>

theorem pselect_failure_aborts:
  assumes "router_ok s" and "clientsocks_nfds (router s) < 1024"
    and "os_clock_gettime os (kern s) = (Inr now, k)"
    and "\<And>rd wr er. \<exists>e k'. os_pselect os (clientsocks_nfds (router s)) (rd, wr, er) k = (Inl e, k')"
  shows "\<exists>t. ServeClientSockets os s = Some (Inl AssertFailed, t)"
proof -
  from prepare_sets_ok [OF router_ok_table [OF assms(1)] assms(2)] obtain rd er
    where p: "prepare_sets s = (Inr (), s\<lparr>router := (router s)\<lparr>select_readfds := rd, select_errorfds := er\<rparr>\<rparr>)"
    by blast
  from assms(4) obtain e k'
    where "os_pselect os (clientsocks_nfds (router s)) (rd, select_writefds (router s), er) k = (Inl e, k')" by blast
  with p assms(3) obtain t where sel: "select_phase os s = Some (Inr (-1), t)"
    by (simp add: select_phase_def do_pselect_def)
  with select_phase_negative [OF assms(1) sel] show ?thesis by (simp add: ServeClientSockets_eq)
qed

lemma pselect_failure_aborts_witness:
  "\<exists>t. ServeClientSockets (failing_os\<lparr>os_clock_gettime := Pair (Inr 0)\<rparr>)
     (two_clients (sample_cnx_at 5 []) (sample_cnx_at 6 []) FD_ZERO) = Some (Inl AssertFailed, t)"
proof (rule pselect_failure_aborts)
  show "router_ok (two_clients (sample_cnx_at 5 []) (sample_cnx_at 6 []) FD_ZERO)"
    by (rule two_clients_ok; simp)
qed (simp_all add: two_clients_def failing_os_def)

text \<open>
  C34. A round in which some socket is writable, no socket is in error and all the readable sockets are
  read and all the flagged ones written without failure ends normally exactly when the
  handling of the received messages has flagged no further socket for emission. A reply to one
  client while another is writable makes the count of activities negative: the server aborts.
\<close>

theorem reply_during_emissions_aborts:
  assumes "router_ok s" and "dead_list (router s) = []" and "pselect_ok os"
    and "select_phase os s = Some (Inr n, s1)" and "0 \<le> n"
    and "fds (select_errorfds (router s1)) = {}" and "fds (select_writefds (router s1)) \<noteq> {}"
    and "serveSocketReceptions os (sorted_list_of_set (fds (select_readfds (router s1)))) 0 s1 = Some (Inr k, s2)"
    and "serveSocketEmissions os (sorted_list_of_set (fds (select_writefds (router s2)))) 0 s2 = Some (Inr k', s3)"
  shows "\<exists>t. ServeClientSockets os s
    = Some (if fds (select_writefds (router s2)) = fds (select_writefds (router s1))
            then Inr () else Inl AssertFailed, t)"
  by (rule round_accounting [OF assms])

text \<open>Client 5 says goodbye while client 6 is writable.\<close>

definition goodbye :: mem where
  "goodbye = sample_message DISCONNECTION_REQ [(0, [1])]"

lemma goodbye_decodes: "decode_client_msg goodbye = Some (DisconnectionReqMsg (disconnection_req_val USER_SHUTDOWN))"
proof -
  have "l1_id goodbye = id_val DISCONNECTION_REQ"
    by (simp add: goodbye_def l1_id_def sample_message_def)
  then have "id_of (l1_id goodbye) = Some DISCONNECTION_REQ" by (simp only: id_of_id_val)
  moreover have "get_enum (l1_body goodbye) = 1"
    by (simp add: get_enum_def l1_body_def goodbye_def sample_message_def store16_def write_bytes_def load32_def load16_def)
  ultimately show ?thesis by (simp add: decode_client_msg_def)
qed

lemma recv_nothing:
  assumes "rx_lenght (sock s) = 0" "sock_class (sock s) = ServerSocket_class"
    and "os_recv os (socket_descr (sock s)) 4 True (kern s) = (Inl EWOULDBLOCK, kern s)"
  shows "recvNextData os s = Some (Inr (rx_fifo (sock s) \<noteq> []),
    s\<lparr>errno := EWOULDBLOCK, sock := (sock s)\<lparr>rx_state := RX_IDLE, rx_msg := None\<rparr>\<rparr>)"
  using assms
  by (simp add: recvNextData_def recvLoop.simps recvLoop_step_def recvLoop_begin_def recvBeginNewMsg_def
      socketReceive_def syscall_def getRxErrorType_defs andThen_def)

lemma busy_sends: "sent_all busy_os fd k cs k"
  by (induction cs) (simp_all add: busy_os_def)

lemma busy_read:
  assumes own: "own_descr s" and c: "cnx s 5 = Some (sample_cnx_at 5 [goodbye])"
    and w: "fd_set_ok (select_writefds (router s))"
  shows "\<exists>t c'. socketDataRead busy_os 5 s = Some (Inr (), t) \<and> cnx t 5 = Some c'
    \<and> (\<exists>m. tx_idle [(DISCONNECTION_CNF, m, 1)] (servSock c')) \<and> socket_descr (servSock c') = 5
    \<and> frame 5 s t \<and> fds (select_writefds (router t)) = insert 5 (fds (select_writefds (router s)))"
proof -
  let ?c = "sample_cnx_at 5 [goodbye]"
  let ?x = "(servSock ?c)\<lparr>rx_state := RX_IDLE, rx_msg := None\<rparr>"
  let ?c1 = "?c\<lparr>servSock := ?x\<rparr>"
  define s1 where "s1 = leave_sock s 5 ?c ((enter_sock s ?c)\<lparr>errno := EWOULDBLOCK, sock := ?x\<rparr>)"
  have "recvNextData busy_os (enter_sock s ?c)
      = Some (Inr True, (enter_sock s ?c)\<lparr>errno := EWOULDBLOCK, sock := ?x\<rparr>)"
    using recv_nothing [of "enter_sock s ?c" busy_os] by (simp add: enter_sock_def busy_os_def)
  then have o: "sockO 5 (recvNextData busy_os) s = Some (Inr True, s1)"
    using c by (simp add: sockO_def s1_def)
  have f1: "frame 5 s s1"
    by (rule sockO_frame [OF own o]) (rule recvNextData_descr)
  have c1: "cnx s1 5 = Some ?c1" by (simp add: s1_def leave_sock_def enter_sock_def cnx_def)
  have x: "socket_descr (servSock ?c1) = 5" "state ?c1 \<noteq> DISCONNECTING"
    "map decode_client_msg (rx_fifo (servSock ?c1)) = map Some [DisconnectionReqMsg (disconnection_req_val USER_SHUTDOWN)]"
    by (simp_all add: goodbye_decodes del: disconnection_req_val.simps)
  note r = session_reacts [OF frame_own [OF f1] c1 x(1) valid56(1) x(2,3), of busy_os]
  define a where "a = (abs_of ?c1)\<lparr>a_state := CLOSING\<rparr>"
  have "react_all [DisconnectionReqMsg (disconnection_req_val USER_SHUTDOWN)] (abs_of ?c1)
      = Some (a, [DisconnectionCnfRep])" by (simp add: a_def)
  with r obtain t where t: "dispatch (nextReceived 5) (handle_client_message busy_os 5) s1 = Some (Inr (), t)"
    "answered 5 (drained [] ?c1) a [DisconnectionCnfRep] t" "frame 5 s1 t"
    by auto
  from t(2) obtain c' rs where c': "cnx t 5 = Some c'"
      "servSock c' = (servSock ?c1)\<lparr>rx_fifo := [], tx_fifo := tx_fifo (servSock ?c1) @ rs\<rparr>"
      "list_all2 is_reply [DisconnectionCnfRep] rs"
      "fd_set_ok (select_writefds (router t)) \<longrightarrow> FD_ISSET 5 (select_writefds (router t))"
    unfolding answered_def by auto
  from c'(3) obtain q where q: "rs = [q]" "is_reply DisconnectionCnfRep q"
    by (auto simp: list_all2_Cons1)
  then obtain m where m: "q = msg_request (DISCONNECTION_CNF, m, 1)"
    by (cases q) (auto simp: msg_of_def msg_request_def split: request_kind.splits)
  have "tx_idle [(DISCONNECTION_CNF, m, 1)] (servSock c')"
    using c'(2) q(1) m by (simp add: tx_idle_def tx_clear_def msg_ok_def sample_cnx_at_def
        new_ServerClientConnection_def new_MsgSocket_def rxReset_def)
  moreover have "frame 5 s t" by (rule frame_trans [OF f1 t(3)])
  moreover from this c'(4) w valid56(1)
  have "fds (select_writefds (router t)) = insert 5 (fds (select_writefds (router s)))"
    by (auto simp: frame_def in_fds insert_absorb)
  moreover have "socketDataRead busy_os 5 s = Some (Inr (), t)" using o t(1) by (simp add: socketDataRead_def)
  moreover have "socket_descr (servSock c') = 5" using c'(2) by simp
  ultimately show ?thesis using c'(1) by blast
qed

lemma busy_select:
  "\<exists>s1. select_phase busy_os (two_clients (sample_cnx_at 5 [goodbye]) (sample_cnx_at 6 []) (FD_SET 6 FD_ZERO))
      = Some (Inr 2, s1)
    \<and> fds (select_readfds (router s1)) = {5} \<and> fds (select_writefds (router s1)) = {6}
    \<and> fds (select_errorfds (router s1)) = {}"
proof -
  let ?s = "two_clients (sample_cnx_at 5 [goodbye]) (sample_cnx_at 6 []) (FD_SET 6 FD_ZERO)"
  have ok: "router_ok ?s" "clients ?s = {5, 6}" by (rule two_clients_ok; use valid56 in simp)+
  have n: "clientsocks_nfds (router ?s) = 7" by (simp add: two_clients_def)
  then have "clientsocks_nfds (router ?s) < 1024" by simp
  from prepare_sets_ok [OF router_ok_table [OF ok(1)] this, unfolded n ok(2)] obtain rd er
    where p: "prepare_sets ?s = (Inr (), ?s\<lparr>router := (router ?s)\<lparr>select_readfds := rd, select_errorfds := er\<rparr>\<rparr>)"
      and "{fd \<in> fds rd. fd < 7} = {5, 6}" by blast
  then have "5 \<in> fds rd" by blast
  then have rd: "only 5 7 rd = FD_SET 5 FD_ZERO" by (simp add: only_def in_fds valid56)
  have wr: "only 6 7 (FD_SET 6 FD_ZERO) = FD_SET 6 FD_ZERO"
    using valid56 by (simp add: only_def FD_ISSET_SET)
  have "select_writefds (router ?s) = FD_SET 6 FD_ZERO" by (simp add: two_clients_def)
  with p n rd wr valid56 show ?thesis
    by (simp add: select_phase_def do_pselect_def syscall_def busy_os_def modRouter_def)
qed

lemma reply_during_emissions_aborts_witness:
  "\<exists>t. ServeClientSockets busy_os
      (two_clients (sample_cnx_at 5 [goodbye]) (sample_cnx_at 6 []) (FD_SET 6 FD_ZERO)) = Some (Inl AssertFailed, t)"
proof -
  let ?s = "two_clients (sample_cnx_at 5 [goodbye]) (sample_cnx_at 6 []) (FD_SET 6 FD_ZERO)"
  have ok: "router_ok ?s" by (rule two_clients_ok; use valid56 in simp)
  have d: "dead_list (router ?s) = []" by (simp add: two_clients_def)
  from busy_select obtain s1 where sel: "select_phase busy_os ?s = Some (Inr 2, s1)"
    and rd: "fds (select_readfds (router s1)) = {5}" and wr: "fds (select_writefds (router s1)) = {6}"
    and er: "fds (select_errorfds (router s1)) = {}" by blast
  from select_phase_ok [OF ok busy_os_pselect_ok sel]
  have s1: "router_ok s1" "\<forall>fd. cnx s1 fd = cnx ?s fd" by simp_all
  then have own: "own_descr s1" and so: "sets_ok (router s1)"
    and c: "cnx s1 5 = Some (sample_cnx_at 5 [goodbye])" "cnx s1 6 = Some (sample_cnx_at 6 [])"
    by (simp_all add: router_ok_def table_ok_def) (simp_all add: two_clients_def cnx_def)
  have w1: "fd_set_ok (select_writefds (router s1))" using so by (simp add: sets_ok_def)
  from busy_read [OF own c(1) w1] obtain s2 c' m
    where s2: "socketDataRead busy_os 5 s1 = Some (Inr (), s2)" "cnx s2 5 = Some c'"
      "tx_idle [(DISCONNECTION_CNF, m, 1)] (servSock c')" "socket_descr (servSock c') = 5"
      "frame 5 s1 s2" "fds (select_writefds (router s2)) = {5, 6}"
    unfolding wr by blast
  have rx: "serveSocketReceptions busy_os (sorted_list_of_set (fds (select_readfds (router s1)))) 0 s1 = Some (Inr 1, s2)"
    using c(1) s2(1) by (simp add: rd)
  have c6: "cnx s2 6 = Some (sample_cnx_at 6 [])" using s2(5) c(2) by (simp add: frame_def)
  from sendNextData_idle_Cons [of "(DISCONNECTION_CNF, m, 1)" "[]" "enter_sock s2 c'" busy_os "()"] s2(3) busy_sends
  obtain x where x: "sendNextData busy_os (enter_sock s2 c') = Some (Inr 1, x)"
    by (auto simp: enter_sock_def)
  define s3 where "s3 = leave_sock s2 5 c' x"
  have c63: "cnx s3 6 = Some (sample_cnx_at 6 [])" using c6 by (simp add: s3_def leave_sock_def cnx_def)
  from sendNextData_idle_empty [of "enter_sock s3 (sample_cnx_at 6 [])" busy_os] obtain y
    where y: "sendNextData busy_os (enter_sock s3 (sample_cnx_at 6 [])) = Some (Inr 0, y)"
    by (auto simp: enter_sock_def)
  have "sorted_list_of_set {5, 6} = [5, 6 :: int]" by simp
  with emission_step [OF s2(2) x, of "[6]" 0] emission_step [OF c63 y, of "[]" 1] s2(6)
  obtain k s4 where tx: "serveSocketEmissions busy_os (sorted_list_of_set (fds (select_writefds (router s2)))) 0 s2
      = Some (Inr k, s4)"
    by (simp add: s3_def del: serveSocketEmissions.simps(2))
  have "{5, 6} \<noteq> {6 :: int}" by auto
  with reply_during_emissions_aborts [OF ok d busy_os_pselect_ok sel _ er _ rx tx] wr s2(6)
  show ?thesis by simp
qed

text \<open>
  C35. A client that is found gone while the server sends to it, at the header of a message or at its body, brings
  the server into undefined behaviour: the handler of \<^verbatim>\<open>socket_disconnection\<close> in the emissions calls through a
  null pointer, since the pointer set in the \<^verbatim>\<open>try\<close> block is another variable. (At \<^verbatim>\<open>EPIPE\<close> the signal
  \<^verbatim>\<open>SIGPIPE\<close> ends the process even before.)
\<close>

theorem emission_disconnection_undefined:
  assumes "cnx s fd = Some c" and "tx_idle ((i, m, n) # ps) (servSock c)"
    and "broken_send os (socket_descr (servSock c)) (kern s)
      (header_bytes i (int n + 8) (from_dir (servSock c)) (tx_header (servSock c) 7)) (read_bytes m 0 n) e"
    and "getTxErrorType e = ERR_DISCONNECTED"
  shows "\<exists>t. serveSocketEmissions os (fd # l) nb s = Some (Inl Undefined, t)"
proof -
  from sendNextData_disconnected [of i m n ps "enter_sock s c" os e] assms(2-4) obtain x
    where "sendNextData os (enter_sock s c) = Some (Inl (SocketDisconnection e), x)"
    by (auto simp: enter_sock_def)
  with assms(1) show ?thesis by (simp add: socketDataWrite_def sockO_def)
qed

lemma emission_disconnection_undefined_witness:
  "\<exists>t. serveSocketEmissions gone_os [5, 6]
     0 (two_clients (queued (msg_request (REGISTRATION_CNF, \<lambda>_. 0, 1)) (sample_cnx_at 5 [])) (sample_cnx_at 6 []) FD_ZERO)
     = Some (Inl Undefined, t)"
proof -
  let ?c = "queued (msg_request (REGISTRATION_CNF, \<lambda>_. 0, 1)) (sample_cnx_at 5 [])"
  let ?s = "two_clients ?c (sample_cnx_at 6 []) FD_ZERO"
  have "cnx ?s 5 = Some ?c" by (simp add: two_clients_def cnx_def)
  moreover have "tx_idle [(REGISTRATION_CNF, \<lambda>_. 0, 1)] (servSock ?c)"
    by (simp add: tx_idle_def tx_clear_def msg_ok_def sample_cnx_at_def new_ServerClientConnection_def
        new_MsgSocket_def rxReset_def sendMsg_def)
  ultimately show ?thesis
    by (rule emission_disconnection_undefined [where e = 104])
      (simp_all add: gone_os_def broken_send_def getTxErrorType_def)
qed

text \<open>
  A connection whose socket is found disconnected in the error phase is stopped but not released: its
  descriptor is closed, yet stays in the table and in the set given to the next \<^verbatim>\<open>pselect\<close>, and is not in the
  dead list.
\<close>

theorem errored_connection_not_released:
  assumes "router_ok s" and "cnx s fd = Some c"
    and "determineErrorType os (enter_sock s c) = (Inr ERR_DISCONNECTED, x)"
  shows "\<exists>t c'. handleSocketErrors os [fd] 0 s = (Inr (1
        + (if FD_ISSET fd (select_readfds (router s)) then 1 else 0)
        + (if FD_ISSET fd (select_writefds (router s)) then 1 else 0)), t)
    \<and> cnx t fd = Some c' \<and> state c' = DISCONNECTED \<and> socket_descr (servSock c') = -1
    \<and> fd \<in> clients t \<and> dead_list (router t) = dead_list (router s)"
proof -
  define s0 where "s0 = leave_sock s fd c x"
  have c0: "cnx s0 fd = Some (c\<lparr>servSock := sock x\<rparr>)" by (simp add: s0_def leave_sock_def cnx_def)
  obtain r y where st: "stop os (enter_sock s0 (c\<lparr>servSock := sock x\<rparr>)) = (r, y)" by fastforce
  have r: "r = Inr ()" using st
    by (auto simp: stop_def andThen_def syscall_def split: prod.splits sum.splits)
  define c' where "c' = c\<lparr>servSock := sock y, state := DISCONNECTED\<rparr>"
  define s1 where "s1 = put_cnx fd c' (leave_sock s0 fd (c\<lparr>servSock := sock x\<rparr>) y)"
  have "socketDisconnected os fd s0 = (Inr (), s1)"
    using st r c0
    by (simp add: socketDisconnected_def sockS_def s1_def c'_def) (simp add: leave_sock_def cnx_def)
  then have e: "socketError os fd s = (Inr True, s1)"
    using assms(2,3) by (simp add: socketError_def sockS_def s0_def)
  have fd: "fd \<in> clients s" using assms(1,2) by (auto intro: cnx_client router_ok_table)
  have "clients s1 = clients s" "dead_list (router s1) = dead_list (router s)"
    "select_readfds (router s1) = select_readfds (router s)" "select_writefds (router s1) = select_writefds (router s)"
    by (simp_all add: s1_def s0_def put_cnx_def leave_sock_def clients_def)
  moreover have "cnx s1 fd = Some c'" by (simp add: s1_def)
  moreover have "socket_descr (servSock c') = -1" "state c' = DISCONNECTED"
    using stop_descr [OF st] by (simp_all add: c'_def)
  ultimately show ?thesis
    using e fd assms(2)
    by (auto simp: clear_indicators_def Let_def clients_def cnx_def)
qed

definition reset_os :: "unit os" where
  "reset_os = failing_os\<lparr>os_recvmsg_peek := \<lambda>fd. Pair (Inl ECONNRESET)\<rparr>"

lemma errored_connection_not_released_witness:
  "\<exists>t. handleSocketErrors reset_os [5] 0
      (two_clients (sample_cnx_at 5 []) (sample_cnx_at 6 []) FD_ZERO) = (Inr 1, t) \<and> 5 \<in> clients t"
proof -
  let ?c = "sample_cnx_at 5 []"
  let ?s = "two_clients ?c (sample_cnx_at 6 []) FD_ZERO"
  have ok: "router_ok ?s" by (rule two_clients_ok) simp_all
  have c: "cnx ?s 5 = Some ?c" by (simp add: two_clients_def cnx_def)
  obtain x where d: "determineErrorType reset_os (enter_sock ?s ?c) = (Inr ERR_DISCONNECTED, x)"
    by (simp add: determineErrorType_def reset_os_def enter_sock_def syscall_def andThen_def getRxErrorType_defs
        getRxErrorType_base_def sample_cnx_at_def new_ServerClientConnection_def new_MsgSocket_def rxReset_def)
  have "\<not> FD_ISSET 5 (select_readfds (router ?s))" "\<not> FD_ISSET 5 (select_writefds (router ?s))"
    using valid56 by (simp_all add: two_clients_def FD_ISSET_ZERO)
  then have n: "1 + (if FD_ISSET 5 (select_readfds (router ?s)) then 1 else 0)
      + (if FD_ISSET 5 (select_writefds (router ?s)) then 1 else 0) = (1 :: int)" by simp
  from errored_connection_not_released [OF ok c d, unfolded n] show ?thesis by blast
qed

text \<open>
  When the socket of a new client cannot be made non-blocking the registration throws half way: the
  descriptor is in the set, without a connection behind it, and the next message for it would be
  looked up in vain.
\<close>

theorem CreateClientConnection_half_done:
  assumes "table_ok s" and "fd_valid fd" and "fd \<notin> clients s"
    and "new_ServerSocket os addr fd \<lparr>kern = kern s, errno = errno s\<rparr> = (Inl e, x)"
  shows "\<exists>t. CreateClientConnection os addr fd s = (Inl e, t) \<and> fd \<in> clients t \<and> cnx t fd = None
    \<and> \<not> table_ok t \<and> OutgoingDataForClient fd t = (Inl OutOfRange, t)"
proof -
  have ni: "\<not> FD_ISSET fd (clientsocks_fds (router s))" using assms(2,3) by (simp add: clients_def in_fds)
  have s: "fd_set_ok (clientsocks_fds (router s))" using assms(1) by (simp add: table_ok_def sets_ok_def)
  define t where "t = s\<lparr>kern := kern x, errno := errno x, router := (router s)\<lparr>clientsocks_nfds :=
      (if fd \<ge> clientsocks_nfds (router s) then fd + 1 else clientsocks_nfds (router s)),
      clientsocks_fds := FD_SET fd (clientsocks_fds (router s))\<rparr>\<rparr>"
  have c: "cnx t fd = None" using table_okD(3) [OF assms(1), of fd] assms(3) by (simp add: t_def cnx_def)
  have cl: "fd \<in> clients t" using s assms(2) by (simp add: t_def clients_def)
  have "\<not> table_ok t" using table_okD(3) [of t fd] c cl by auto
  moreover have "CreateClientConnection os addr fd s = (Inl e, t)"
    using assms(2,4) ni by (simp add: CreateClientConnection_def Let_def t_def)
  ultimately show ?thesis using c cl by (simp add: OutgoingDataForClient_def)
qed

lemma CreateClientConnection_half_done_witness:
  "\<exists>t e. CreateClientConnection failing_os \<lparr>s_addr = 0, sin_port = 0\<rparr> 7
       \<lparr>kern = (), errno = 0, router = new_Router FD_ZERO FD_ZERO FD_ZERO\<rparr> = (Inl e, t) \<and> \<not> table_ok t"
proof -
  let ?s = "\<lparr>kern = (), errno = 0, router = new_Router FD_ZERO FD_ZERO FD_ZERO\<rparr> :: unit server"
  have v: "fd_valid 7" "7 \<notin> clients ?s" by (simp_all add: fd_valid_def clients_def new_Router_def)
  obtain e x where "new_ServerSocket failing_os \<lparr>s_addr = 0, sin_port = 0\<rparr> 7 \<lparr>kern = kern ?s, errno = errno ?s\<rparr> = (Inl e, x)"
    by (simp add: new_ServerSocket_def failing_os_def socketConfiguration_def syscall_def andThen_def)
  from CreateClientConnection_half_done [OF new_Router_ok v this] show ?thesis by blast
qed

end
