(* ===== verification/Utilities.thy ===== *)
theory Utilities
  imports System_Calls "HOL-Library.Signed_Division"
begin

text \<open>
  The directory \<^verbatim>\<open>util\<close> without the list: \<^verbatim>\<open>waitUsec\<close>, the pause that survives signals,
  \<^verbatim>\<open>display_network_addresses\<close>, which prints the interfaces of the host, and \<^verbatim>\<open>get_ipv4_address\<close>, the search of an
  interface by its name.
\<close>

section \<open>Waiting\<close>

text \<open>
  The loop around \<^verbatim>\<open>nanosleep\<close>: when a signal interrupts the pause it is taken up again for the time the
  kernel says remains.
\<close>

partial_function (option) nanosleep_loop ::
    "'k os \<Rightarrow> int \<times> int \<Rightarrow> ('k, 'z) sys_scheme \<Rightarrow> (unit result \<times> ('k, 'z) sys_scheme) option" where
  "nanosleep_loop os req s = (case os_nanosleep os req (kern s) of
      (Inr _, k) \<Rightarrow> Some (Inr (), s\<lparr>kern := k\<rparr>)
    | (Inl (e, remaining), k) \<Rightarrow>
        if e = EINTR then nanosleep_loop os remaining (s\<lparr>kern := k, errno := e\<rparr>)
        else Some (Inl AssertFailed, s\<lparr>kern := k, errno := e\<rparr>))"

text \<open>C's \<^verbatim>\<open>div\<close> truncates towards zero.\<close>

definition waitUsec ::
    "'k os \<Rightarrow> int \<Rightarrow> ('k, 'z) sys_scheme \<Rightarrow> (unit result \<times> ('k, 'z) sys_scheme) option" where
  "waitUsec os usec = nanosleep_loop os (usec sdiv 1000000, (usec smod 1000000) * 1000)"

text \<open>A time in nanoseconds.\<close>

definition nanos :: "int \<times> int \<Rightarrow> int" where
  "nanos t = fst t * 1000000000 + snd t"

text \<open>
  What the documentation of \<^verbatim>\<open>nanosleep\<close> says, over a clock of the kernel: it does not return before the
  requested time unless a signal interrupts it, and then gives back what remains, which is not
  negative and less than what was asked.
\<close>

definition nanosleep_ok :: "('k \<Rightarrow> int) \<Rightarrow> 'k os \<Rightarrow> bool" where
  "nanosleep_ok now os \<longleftrightarrow> (\<forall>req k r k'. os_nanosleep os req k = (r, k') \<longrightarrow> (case r of
      Inr _ \<Rightarrow> now k' \<ge> now k + nanos req
    | Inl (e, remaining) \<Rightarrow> e = EINTR \<longrightarrow>
        0 \<le> nanos remaining \<and> nanos remaining < nanos req \<and> now k' + nanos remaining \<ge> now k + nanos req))"

lemma nanosleep_loop_ends:
  assumes "nanosleep_ok now os"
  shows "\<exists>r t. nanosleep_loop os req s = Some (r, t)
    \<and> (r = Inr () \<and> now (kern t) \<ge> now (kern s) + nanos req
       \<or> r = Inl AssertFailed \<and> errno t \<noteq> EINTR)
    \<and> sys.more t = sys.more s"
proof (induction "nat (nanos req)" arbitrary: req s rule: less_induct)
  case less
  obtain r k where r: "os_nanosleep os req (kern s) = (r, k)" by fastforce
  note ok = assms [unfolded nanosleep_ok_def, rule_format, OF r]
  show ?case
  proof (cases r)
    case (Inr u)
    with r ok show ?thesis by (simp add: nanosleep_loop.simps [of os req s])
  next
    case (Inl p)
    obtain e remaining where p: "p = (e, remaining)" by (rule prod.exhaust)
    show ?thesis
    proof (cases "e = EINTR")
      case True
      with ok Inl p have m: "0 \<le> nanos remaining" "nanos remaining < nanos req"
        "now k + nanos remaining \<ge> now (kern s) + nanos req" by simp_all
      then have "nat (nanos remaining) < nat (nanos req)" by simp
      from less [OF this, of "s\<lparr>kern := k, errno := e\<rparr>"] r Inl p True m(3) show ?thesis
        by (auto simp: nanosleep_loop.simps [of os req s])
    next
      case False
      with r Inl p show ?thesis by (simp add: nanosleep_loop.simps [of os req s])
    qed
  qed
qed

text \<open>A pause changes only the kernel and \<^verbatim>\<open>errno\<close>.\<close>

lemma nanosleep_loop_rest:
  "nanosleep_loop os req s = Some (r, t) \<Longrightarrow> sys.more t = sys.more s \<and> (r = Inr () \<or> r = Inl AssertFailed)"
proof (rule nanosleep_loop.raw_induct [where P = "\<lambda>os req s y. sys.more (snd y) = sys.more s
      \<and> (fst y = Inr () \<or> fst y = Inl AssertFailed)", of os req s "(r, t)", simplified], goal_cases)
  case (1 f os req s y)
  then show ?case by (auto split: prod.splits sum.splits if_splits)
qed

lemma waitUsec_nanos:
  assumes "0 \<le> usec" shows "nanos (usec sdiv 1000000, (usec smod 1000000) * 1000) = usec * 1000"
proof -
  have "a * 1000000000 + b * 1000 = (a * 1000000 + b) * 1000" for a b :: int by simp
  from this [of "usec div 1000000" "usec mod 1000000", unfolded div_mult_mod_eq] assms show ?thesis
    by (cases "usec = 0") (simp_all add: nanos_def signed_divide_int_def signed_modulo_int_def)
qed

section \<open>The address of an interface\<close>

text \<open>
  An entry of \<^verbatim>\<open>getifaddrs\<close>: its name, when it has one the family and the content of its address, and when it has
  some its statistics (packets sent and received, bytes sent and received).
\<close>

abbreviation (input) "AF_INET \<equiv> 2 :: nat"
abbreviation (input) "AF_INET6 \<equiv> 10 :: nat"
abbreviation (input) "AF_PACKET \<equiv> 17 :: nat"

record ifaddrs =
  ifa_name :: "byte list"
  ifa_addr :: "(nat \<times> sockaddr_in) option"
  ifa_data :: "(32 word \<times> 32 word \<times> 32 word \<times> 32 word) option"

text \<open>
  What the display prints, one value per call of \<^verbatim>\<open>printf\<close> (and \<^verbatim>\<open>perror\<close>), before it returns or ends the process.
  \<open>getnameinfo\<close> gives the text of an address or an error.
\<close>

datatype display_line =
    Interface "byte list" string nat
  | Address "byte list"
  | Statistics "32 word" "32 word" "32 word" "32 word"
  | Getnameinfo_failed int
  | Getifaddrs_failed

definition family_name :: "nat \<Rightarrow> string" where
  "family_name family = (if family = AF_PACKET then ''AF_PACKET'' else if family = AF_INET then ''AF_INET''
     else if family = AF_INET6 then ''AF_INET6'' else ''???'')"

fun display_loop :: "(nat \<times> sockaddr_in \<Rightarrow> int + byte list) \<Rightarrow> ifaddrs list \<Rightarrow> display_line list
    \<Rightarrow> unit result \<times> display_line list" where
  "display_loop getnameinfo [] out = (Inr (), out)"
| "display_loop getnameinfo (ifa # l) out = (case ifa_addr ifa of
      None \<Rightarrow> display_loop getnameinfo l out
    | Some (family, addr) \<Rightarrow>
        let out = out @ [Interface (ifa_name ifa) (family_name family) family] in
        if family = AF_INET \<or> family = AF_INET6 then
          (case getnameinfo (family, addr) of
             Inl e \<Rightarrow> (Inl Exited, out @ [Getnameinfo_failed e])
           | Inr host \<Rightarrow> display_loop getnameinfo l (out @ [Address host]))
        else if family = AF_PACKET then
          (case ifa_data ifa of
             None \<Rightarrow> display_loop getnameinfo l out
           | Some (tx, rx, tx_bytes, rx_bytes) \<Rightarrow>
               display_loop getnameinfo l (out @ [Statistics tx rx tx_bytes rx_bytes]))
        else display_loop getnameinfo l out)"

text \<open>\<open>None\<close> stands for a failure of \<^verbatim>\<open>getifaddrs\<close>, which ends the process, here and in the search.\<close>

definition display_network_addresses ::
    "(nat \<times> sockaddr_in \<Rightarrow> int + byte list) \<Rightarrow> ifaddrs list option \<Rightarrow> unit result \<times> display_line list" where
  "display_network_addresses getnameinfo ifs = (case ifs of
      None \<Rightarrow> (Inl Exited, [Getifaddrs_failed])
    | Some l \<Rightarrow> display_loop getnameinfo l [])"

fun get_ipv4_loop :: "ifaddrs list \<Rightarrow> byte list \<Rightarrow> sockaddr_in \<times> int \<Rightarrow> sockaddr_in \<times> int" where
  "get_ipv4_loop [] name st = st"
| "get_ipv4_loop (ifa # l) name st = (case ifa_addr ifa of
      None \<Rightarrow> get_ipv4_loop l name st
    | Some (family, addr) \<Rightarrow>
        get_ipv4_loop l name (if family = AF_INET \<and> ifa_name ifa = name then (addr, 0) else st))"

definition get_ipv4_address ::
    "ifaddrs list option \<Rightarrow> byte list \<Rightarrow> sockaddr_in \<Rightarrow> (sockaddr_in \<times> int) result" where
  "get_ipv4_address ifs name recipient = (case ifs of
      None \<Rightarrow> Inl Exited
    | Some l \<Rightarrow> Inr (get_ipv4_loop l name (recipient, -1)))"

text \<open>The addresses of the interfaces with a name, in the order of the list.\<close>

definition ipv4_of :: "ifaddrs list \<Rightarrow> byte list \<Rightarrow> sockaddr_in list" where
  "ipv4_of l name = map (\<lambda>ifa. snd (the (ifa_addr ifa)))
     (filter (\<lambda>ifa. ifa_name ifa = name \<and> map_option fst (ifa_addr ifa) = Some AF_INET) l)"

lemma get_ipv4_loop_eq:
  "get_ipv4_loop l name st = (if ipv4_of l name = [] then st else (last (ipv4_of l name), 0))"
proof (induction l arbitrary: st)
  case Nil
  then show ?case by (simp add: ipv4_of_def)
next
  case (Cons ifa l)
  then show ?case by (cases "ifa_addr ifa") (auto simp: ipv4_of_def)
qed

section \<open>Properties\<close>

text \<open>
  A pause ends although signals interrupt it, changes nothing but the kernel and \<^verbatim>\<open>errno\<close>, and when it
  returns at least the requested time has gone by; another error than an interruption aborts.
\<close>

theorem waitUsec_waits:
  assumes "nanosleep_ok now os" and "0 \<le> usec"
  shows "\<exists>r t. waitUsec os usec s = Some (r, t)
    \<and> (r = Inr () \<and> now (kern t) \<ge> now (kern s) + usec * 1000
       \<or> r = Inl AssertFailed \<and> errno t \<noteq> EINTR)
    \<and> sys.more t = sys.more s"
  using nanosleep_loop_ends [OF assms(1)] waitUsec_nanos [OF assms(2)] by (metis waitUsec_def)

text \<open>A kernel that a signal interrupts one nanosecond before the end of every pause.\<close>

definition ticking_os :: "int os" where
  "ticking_os = failing_os\<lparr>os_nanosleep := \<lambda>req k.
     if nanos req > 1 then (Inl (EINTR, (0, 1)), k + nanos req - 1)
     else (Inr (), k + nanos req)\<rparr>"

lemma waitUsec_waits_witness:
  "\<exists>r t. waitUsec ticking_os 500000 \<lparr>kern = 0, errno = 0\<rparr> = Some (r, t)
     \<and> (r = Inr () \<and> kern t \<ge> 500000000 \<or> r = Inl AssertFailed)"
proof -
  have "nanosleep_ok id ticking_os"
    unfolding nanosleep_ok_def
  proof (intro allI impI)
    fix req k r k' assume r: "os_nanosleep ticking_os req k = (r, k')"
    show "case r of Inr _ \<Rightarrow> id k' \<ge> id k + nanos req
      | Inl (e, remaining) \<Rightarrow> e = EINTR \<longrightarrow> 0 \<le> nanos remaining \<and> nanos remaining < nanos req
          \<and> id k' + nanos remaining \<ge> id k + nanos req"
    proof (cases "nanos req > 1")
      case True
      then have "r = Inl (EINTR, (0, 1))" "k' = k + nanos req - 1" using r by (simp_all add: ticking_os_def)
      moreover have "nanos (0, 1) = 1" by (simp add: nanos_def)
      ultimately show ?thesis using True by simp
    next
      case False
      then show ?thesis using r by (auto simp: ticking_os_def)
    qed
  qed
  from waitUsec_waits [OF this, of 500000 "\<lparr>kern = 0, errno = 0\<rparr>"] show ?thesis by auto
qed

text \<open>
  The search returns 0 and the last IPv4 address of the interfaces with the given name, or -1 and leaves the
  recipient alone when none has one.
\<close>

theorem get_ipv4_address_finds:
  "get_ipv4_address (Some l) name recipient = Inr (if ipv4_of l name = [] then (recipient, -1)
     else (last (ipv4_of l name), 0))"
  by (simp add: get_ipv4_address_def get_ipv4_loop_eq)

text \<open>The lines for one interface when its address has a text.\<close>

fun lines_of :: "(nat \<times> sockaddr_in \<Rightarrow> int + byte list) \<Rightarrow> ifaddrs \<Rightarrow> display_line list" where
  "lines_of getnameinfo ifa = (case ifa_addr ifa of
      None \<Rightarrow> []
    | Some (family, addr) \<Rightarrow> Interface (ifa_name ifa) (family_name family) family
        # (if family \<in> {AF_INET, AF_INET6} then (case getnameinfo (family, addr) of Inl _ \<Rightarrow> [] | Inr host \<Rightarrow> [Address host])
           else if family = AF_PACKET then (case ifa_data ifa of None \<Rightarrow> [] | Some (a, b, c, d) \<Rightarrow> [Statistics a b c d])
           else []))"

text \<open>An interface whose address \<^verbatim>\<open>getnameinfo\<close> cannot translate.\<close>

definition nameless :: "(nat \<times> sockaddr_in \<Rightarrow> int + byte list) \<Rightarrow> ifaddrs \<Rightarrow> bool" where
  "nameless getnameinfo ifa \<longleftrightarrow> (\<exists>a e. ifa_addr ifa = Some a \<and> fst a \<in> {AF_INET, AF_INET6} \<and> getnameinfo a = Inl e)"

lemma display_loop_append:
  "(\<forall>ifa\<in>set l. \<not> nameless g ifa) \<Longrightarrow> display_loop g (l @ l') out = display_loop g l' (out @ concat (map (lines_of g) l))"
  by (induction g l out rule: display_loop.induct)
    (auto simp: nameless_def Let_def split: option.split prod.split sum.split)

text \<open>
  The display either shows every interface with an address, in order, and returns, or ends the process at the first one
  whose address has no text, after showing those before it: one address that \<^verbatim>\<open>getnameinfo\<close> rejects on any
  interface is enough to end the client before it starts.
\<close>

theorem display_network_addresses_shows:
  "display_network_addresses g (Some l) = (case filter (nameless g) l of
      [] \<Rightarrow> (Inr (), concat (map (lines_of g) l))
    | ifa # _ \<Rightarrow> (Inl Exited, concat (map (lines_of g) (takeWhile (Not \<circ> nameless g) l)) @ lines_of g ifa
        @ [Getnameinfo_failed (projl (g (the (ifa_addr ifa))))]))"
proof (cases "filter (nameless g) l")
  case Nil
  then have "\<forall>ifa\<in>set l. \<not> nameless g ifa" by (simp add: filter_empty_conv)
  from display_loop_append [OF this, of "[]" "[]"] show ?thesis
    using Nil by (simp add: display_network_addresses_def)
next
  case (Cons ifa rest)
  let ?pre = "takeWhile (Not \<circ> nameless g) l"
  obtain us vs where us: "l = us @ ifa # vs" "\<forall>u\<in>set us. \<not> nameless g u" "nameless g ifa"
    using Cons unfolding filter_eq_Cons_iff by blast
  then have "?pre = us" by (simp add: takeWhile_tail)
  moreover obtain f a e where "ifa_addr ifa = Some (f, a)" "f \<in> {AF_INET, AF_INET6}" "g (f, a) = Inl e"
    using us(3) by (auto simp: nameless_def)
  ultimately show ?thesis
    using Cons us(1) display_loop_append [OF us(2), of "ifa # vs" "[]"]
    by (auto simp: display_network_addresses_def)
qed

lemma display_network_addresses_exits:
  "fst (display_network_addresses g (Some l)) = (if \<exists>ifa\<in>set l. nameless g ifa then Inl Exited else Inr ())"
  unfolding display_network_addresses_shows
  by (auto split: list.split simp: filter_empty_conv filter_eq_Cons_iff)

end
