(* ===== verification/GameServer.thy ===== *)
theory GameServer
  imports Router Utilities
begin

text \<open>
  \<^verbatim>\<open>gameServer.cpp\<close>: the listening socket, the acceptance of new clients and the endless loop of the server,
  which swallows every exception. The state is the one of the router; the members of the class
  \<^verbatim>\<open>GameServer\<close>, which do not change once it is constructed, are a record of their own.
\<close>

section \<open>Construction\<close>

record GameServer =
  gs_port :: "16 word"
  ipAddr :: sockaddr_in
  server_socket :: int

abbreviation (input) "SOCK_MAX_PENDING \<equiv> 16 :: int"

definition SetupListenSocket :: "'k os \<Rightarrow> sockaddr_in \<Rightarrow> ('k server, int) stm" where
  "SetupListenSocket os addr =
     andThen (or_throw (os_socket os) ''Server's socket creation error'') (\<lambda>fd.
     andThen (or_throw (os_bind os fd addr) ''Server's bind() error'') (\<lambda>_.
     andThen (or_throw (os_listen os fd SOCK_MAX_PENDING) ''Server's listen() error'') (\<lambda>_.
     andThen (or_throw (os_nonblock os fd) ''client socket's fcntl() error'') (\<lambda>_.
     retS fd))))"

text \<open>
  The constructor creates the router first; \<open>rd\<close>, \<open>wr\<close> and \<open>er\<close> are what the memory of the router held for
  the three sets it does not initialise.
\<close>

definition new_GameServer ::
    "'k os \<Rightarrow> fd_set \<times> fd_set \<times> fd_set \<Rightarrow> sockaddr_in \<Rightarrow> 16 word \<Rightarrow> 'k sys \<Rightarrow> GameServer result \<times> 'k server" where
  "new_GameServer os held serverAddr serverPort s = (case held of (rd, wr, er) \<Rightarrow>
     andThen (SetupListenSocket os serverAddr)
       (\<lambda>fd. retS \<lparr>gs_port = serverPort, ipAddr = serverAddr, server_socket = fd\<rparr>)
       \<lparr>kern = kern s, errno = errno s, router = the (createRouter rd wr er None)\<rparr>)"

lemma createRouter_first [simp]: "createRouter rd wr er None = Some (new_Router rd wr er)"
  by (simp add: createRouter_def)

definition get_ipAddr :: "GameServer \<Rightarrow> sockaddr_in" where
  "get_ipAddr gs = ipAddr gs"

definition get_ipPort :: "GameServer \<Rightarrow> 16 word" where
  "get_ipPort gs = gs_port gs"

text \<open>Three operations whose code is still to be written; nothing calls them.\<close>

definition existing_connection :: "GameServer \<Rightarrow> bool" where
  "existing_connection gs = False"

definition handle_new_client_connection :: "int \<Rightarrow> ('k server, unit) stm" where
  "handle_new_client_connection new_client = retS ()"

definition ActiveClientSocket :: "int \<Rightarrow> ('k server, bool) stm" where
  "ActiveClientSocket clientSock = retS False"

section \<open>The loop\<close>

text \<open>\<open>None\<close> when no request is pending.\<close>

definition IncomingConnectionRequest :: "'k os \<Rightarrow> GameServer \<Rightarrow> ('k server, (int \<times> sockaddr_in) option) stm" where
  "IncomingConnectionRequest os gs = andThen (syscall (os_accept os (server_socket gs))) (\<lambda>r. case r of
      Inl e \<Rightarrow> if e = EWOULDBLOCK then retS None else failS (ThrownString ''Server's accept() error'')
    | Inr p \<Rightarrow> retS (Some p))"

definition accept_client :: "'k os \<Rightarrow> GameServer \<Rightarrow> ('k server, unit) stm" where
  "accept_client os gs = andThen (IncomingConnectionRequest os gs) (\<lambda>p. case p of
      None \<Rightarrow> retS ()
    | Some (fd, addr) \<Rightarrow> CreateClientConnection os addr fd)"

text \<open>The body of the \<^verbatim>\<open>try\<close> block.\<close>

definition server_body :: "'k os \<Rightarrow> GameServer \<Rightarrow> 'k server \<Rightarrow> (unit result \<times> 'k server) option" where
  "server_body os gs s =
    thenO (Some (accept_client os gs s)) (\<lambda>_ s.
    thenO (ServeClientSockets os s) (\<lambda>_ s.
    waitUsec os 500000 s))"

definition server_iteration :: "'k os \<Rightarrow> GameServer \<Rightarrow> 'k server \<Rightarrow> (unit result \<times> 'k server) option" where
  "server_iteration os gs s = (case server_body os gs s of
      Some (Inl e, t) \<Rightarrow> if is_exception e then Some (Inr (), t) else Some (Inl e, t)
    | r \<Rightarrow> r)"

partial_function (option) server_loop :: "'k os \<Rightarrow> GameServer \<Rightarrow> 'k server \<Rightarrow> (unit result \<times> 'k server) option" where
  "server_loop os gs s = (case server_iteration os gs s of
      None \<Rightarrow> None
    | Some (Inl e, t) \<Rightarrow> Some (Inl e, t)
    | Some (Inr _, t) \<Rightarrow> server_loop os gs t)"

definition server_start :: "'k os \<Rightarrow> GameServer \<Rightarrow> 'k server \<Rightarrow> (unit result \<times> 'k server) option" where
  "server_start os gs s = (case server_loop os gs s of
      Some (Inl e, t) \<Rightarrow> if is_exception e then Some (Inr (), t) else Some (Inl e, t)
    | r \<Rightarrow> r)"

definition server_main :: "'k os \<Rightarrow> fd_set \<times> fd_set \<times> fd_set \<Rightarrow> 'k sys \<Rightarrow> (unit result \<times> 'k server) option" where
  "server_main os held s =
    thenO (Some (new_GameServer os held \<lparr>s_addr = htonl 0, sin_port = htons HEX1_IP_PORT\<rparr> HEX1_IP_PORT s))
      (server_start os)"

text \<open>The states at the head of the loop.\<close>

inductive at_head :: "'k os \<Rightarrow> GameServer \<Rightarrow> 'k server \<Rightarrow> 'k server \<Rightarrow> bool" for os gs s where
  Start: "at_head os gs s s"
| Again: "at_head os gs s u" if "at_head os gs s t" and "server_iteration os gs t = Some (Inr (), u)"

lemma at_head_invariant:
  assumes "at_head os gs s t" "I s" "\<And>u v. I u \<Longrightarrow> server_iteration os gs u = Some (Inr (), v) \<Longrightarrow> I v"
  shows "I t"
  using assms by (induction rule: at_head.induct) blast+

section \<open>The table of connections, whatever the outcome\<close>

text \<open>
  An exception may leave a round half way; what is kept then is the consistency of the table, not the one
  of the dead list.
\<close>

lemma same_table_ok:
  assumes "table_ok s" "same_table s t" "sets_ok (router t)" "fds (select_writefds (router t)) \<subseteq> clients s"
  shows "table_ok t \<and> clients t = clients s"
  using assms by (auto simp: same_table_def table_ok_def clients_def own_descr_def cnx_def)

lemma frame_table:
  "table_ok s \<Longrightarrow> frame fd s t \<Longrightarrow> cnx s fd \<noteq> None \<Longrightarrow> table_ok t \<and> clients t = clients s"
  using frame_table_ok frame_clients cnx_client by blast

lemma dead_list_table: "table_ok (s\<lparr>router := (router s)\<lparr>dead_list := l\<rparr>\<rparr>) = table_ok s"
  by (simp add: table_ok_def clients_def own_descr_def cnx_def sets_ok_def)

lemma clear_indicators_table:
  assumes ok: "table_ok s" and fd: "fd_valid fd" and r: "clear_indicators fd (router s) = (n, r)"
  shows "table_ok (s\<lparr>router := r\<rparr>) \<and> clients (s\<lparr>router := r\<rparr>) = clients s"
proof -
  have s: "sets_ok (router s)" "fds (select_writefds (router s)) \<subseteq> clients s"
    using ok by (simp_all add: table_ok_def)
  have "same_table s (s\<lparr>router := r\<rparr>)" "sets_ok r" "fds (select_writefds r) \<subseteq> clients s"
    using r s fd by (auto simp: clear_indicators_def Let_def same_table_def sets_ok_def split: if_splits)
  with ok show ?thesis by (intro same_table_ok) simp_all
qed

lemma handleSocketErrors_table:
  "table_ok s \<Longrightarrow> handleSocketErrors os l nb s = (r, t) \<Longrightarrow> table_ok t"
proof (induction l arbitrary: nb s)
  case (Cons fd l)
  show ?case
  proof (cases "cnx s fd = None")
    case False
    obtain r1 s1 where e: "socketError os fd s = (r1, s1)" by fastforce
    with frames_socketError [of fd os] Cons.prems(1) have "frame fd s s1"
      unfolding frames_def by (blast dest: table_okD(1))
    with frame_table [OF Cons.prems(1) _ False] have ok1: "table_ok s1" by blast
    have v: "fd_valid fd" using cnx_client [OF Cons.prems(1) False] by (rule clients_valid)
    show ?thesis
    proof (cases r1)
      case (Inl x)
      with Cons.prems(2) False e ok1 show ?thesis by simp
    next
      case (Inr broken)
      obtain n r' where c: "clear_indicators fd (router s1) = (n, r')" by fastforce
      with clear_indicators_table [OF ok1 v] have "table_ok (s1\<lparr>router := r'\<rparr>)" by blast
      with Cons.prems(2) False e Inr c ok1 Cons.IH show ?thesis by (auto split: if_splits)
    qed
  qed (use Cons.prems in simp)
qed simp

lemma serveSocketReceptions_table:
  "table_ok s \<Longrightarrow> serveSocketReceptions os l nb s = Some (r, t) \<Longrightarrow> table_ok t"
proof (induction l arbitrary: nb s)
  case (Cons fd l)
  show ?case
  proof (cases "cnx s fd = None")
    case False
    with Cons.prems(2) obtain r1 s1 where m: "socketDataRead os fd s = Some (r1, s1)"
      by (auto split: option.splits)
    from socketDataRead_frame [OF table_okD(1) [OF Cons.prems(1)] this] have f: "frame fd s s1" .
    with frame_table [OF Cons.prems(1) _ False] have ok1: "table_ok s1" by blast
    have F1: "cnx s1 fd \<noteq> None" using f False by (simp add: frame_def)
    show ?thesis
    proof (cases "\<exists>en. r1 = Inl (SocketDisconnection en)")
      case True
      obtain r2 s2 where d: "socketDisconnected os fd s1 = (r2, s2)" by fastforce
      with frames_handlers(6) [of fd os] ok1 have "frame fd s1 s2"
        unfolding frames_def by (blast dest: table_okD(1))
      with frame_table [OF ok1 _ F1] have ok2: "table_ok s2" by blast
      then have "table_ok (bury fd s2)" by (simp add: bury_def dead_list_table)
      with Cons.prems(2) False m True d ok2 Cons.IH [of "bury fd s2" "nb + 1"] show ?thesis by (cases r2) auto
    next
      case ne: False
      show ?thesis
      proof (cases r1)
        case (Inl e)
        with ne Cons.prems(2) False m ok1 show ?thesis by (cases e) auto
      next
        case (Inr u)
        with Cons.prems(2) False m ok1 Cons.IH show ?thesis by auto
      qed
    qed
  qed (use Cons.prems in simp)
qed simp

lemma serveSocketEmissions_table:
  "table_ok s \<Longrightarrow> serveSocketEmissions os l nb s = Some (r, t) \<Longrightarrow> table_ok t"
proof (induction l arbitrary: nb s)
  case (Cons fd l)
  show ?case
  proof (cases "cnx s fd = None")
    case False
    with Cons.prems(2) obtain r1 s1 where m: "socketDataWrite os fd s = Some (r1, s1)"
      by (auto split: option.splits)
    from socketDataWrite_frame [OF table_okD(1) [OF Cons.prems(1)] this] have "frame fd s s1" .
    with frame_table [OF Cons.prems(1) _ False] have ok1: "table_ok s1" by blast
    show ?thesis
    proof (cases r1)
      case (Inl e)
      with Cons.prems(2) False m ok1 show ?thesis by (cases e) auto
    next
      case (Inr again)
      let ?s2 = "s1\<lparr>router := (router s1)\<lparr>select_writefds := FD_CLR fd (select_writefds (router s1))\<rparr>\<rparr>"
      have "fd_valid fd" using cnx_client [OF Cons.prems(1) False] by (rule clients_valid)
      moreover have "sets_ok (router s1)" "fds (select_writefds (router s1)) \<subseteq> clients s1"
        using ok1 by (simp_all add: table_ok_def)
      ultimately have "table_ok ?s2"
        by (intro conjunct1 [OF same_table_ok [OF ok1]]) (auto simp: same_table_def sets_ok_def)
      with Cons.prems(2) False m Inr ok1 Cons.IH [of ?s2 "nb + 1"] Cons.IH [of s1 "nb + 1"] show ?thesis
        by (auto split: if_splits)
    qed
  qed (use Cons.prems in simp)
qed simp

lemma releaseAll_table:
  "table_ok s \<Longrightarrow> releaseAll l s = (r, t) \<Longrightarrow> r \<noteq> Inl AssertFailed \<Longrightarrow> r \<noteq> Inl Undefined \<Longrightarrow> r = Inr () \<and> table_ok t"
proof (induction l arbitrary: s)
  case (Cons fd l)
  show ?case
  proof (cases "fd \<in> clients s")
    case True
    from ReleaseClientConnection_releases [OF Cons.prems(1) this] obtain s1
      where "ReleaseClientConnection fd s = (Inr (), s1)" "table_ok s1" by blast
    with Cons show ?thesis by simp
  next
    case False
    then have "cnx s fd = None" using table_okD(3) [OF Cons.prems(1), of fd] by simp
    then have "fst (ReleaseClientConnection fd s) \<in> {Inl Undefined, Inl AssertFailed}"
      by (simp add: ReleaseClientConnection_def andThen_def modRouter_def assertS_def cnx_def)
    with Cons.prems show ?thesis by (cases "ReleaseClientConnection fd s") auto
  qed
qed simp

lemma select_phase_table:
  assumes ok: "table_ok s" and p: "pselect_ok os" and r: "select_phase os s = Some (r, t)"
  shows "table_ok t"
proof (cases "clientsocks_nfds (router s) < 1024")
  case False
  with nfds_range [OF ok] have "clientsocks_nfds (router s) = 1024" by simp
  then have "prepare_sets s = (Inl Undefined, s)" by (simp add: prepare_sets_def fd_loops_overrun)
  with r ok show ?thesis by (simp add: select_phase_def)
next
  case True
  from prepare_sets_ok [OF ok True] obtain rd er
    where 1: "prepare_sets s = (Inr (), s\<lparr>router := (router s)\<lparr>select_readfds := rd, select_errorfds := er\<rparr>\<rparr>)"
      and s1: "fd_set_ok rd" "fd_set_ok er"
    by blast
  have w: "sets_ok (router s)" "fds (select_writefds (router s)) \<subseteq> clients s"
    using ok by (simp_all add: table_ok_def)
  have keep: "table_ok u" if "same_table s u" "sets_ok (router u)"
    "fds (select_writefds (router u)) \<subseteq> fds (select_writefds (router s))" for u
    using same_table_ok [OF ok that(1,2)] that(3) w by blast
  obtain ck k where c: "os_clock_gettime os (kern s) = (ck, k)" by fastforce
  show ?thesis
  proof (cases ck)
    case (Inl e)
    with r 1 c have "t = s\<lparr>kern := k, errno := e, router := (router s)\<lparr>select_readfds := rd, select_errorfds := er\<rparr>\<rparr>"
      by (auto simp: select_phase_def)
    with s1 w show ?thesis by (intro keep) (auto simp: same_table_def sets_ok_def)
  next
    case (Inr now)
    obtain res k' where ps: "os_pselect os (clientsocks_nfds (router s)) (rd, select_writefds (router s), er) k = (res, k')"
      by fastforce
    show ?thesis
    proof (cases res)
      case (Inl e)
      with r 1 c Inr ps
      have "t = s\<lparr>kern := k', errno := e, router := (router s)\<lparr>select_readfds := rd, select_errorfds := er\<rparr>\<rparr>"
        by (auto simp: select_phase_def do_pselect_def)
      with s1 w show ?thesis by (intro keep) (auto simp: same_table_def sets_ok_def)
    next
      case (Inr q)
      obtain n rd' wr' er' where q: "q = (n, rd', wr', er')" by (metis prod_cases4)
      with p ps Inr s1 w(1) have o: "fd_set_ok rd' \<and> fd_set_ok wr' \<and> fd_set_ok er'"
        "fds wr' \<subseteq> fds (select_writefds (router s))"
        unfolding pselect_ok_def sets_ok_def by blast+
      from r 1 c \<open>ck = Inr now\<close> ps Inr q
      have "t = s\<lparr>kern := k', router := (router s)\<lparr>select_readfds := rd', select_writefds := wr',
          select_errorfds := er'\<rparr>\<rparr>"
        by (auto simp: select_phase_def do_pselect_def modRouter_def)
      with o w show ?thesis by (intro keep) (auto simp: same_table_def sets_ok_def)
    qed
  qed
qed

lemma thenO_cases:
  assumes "thenO m k = Some (r, t)"
  obtains e where "m = Some (Inl e, t)" "r = Inl e"
  | x u where "m = Some (Inr x, u)" "k x u = Some (r, t)"
  using assms by (auto simp: thenO_def split: option.splits sum.splits prod.splits)

lemma phase_table:
  assumes "table_ok s" "phase sel run n s = Some (r, t)" "\<And>l r u. run l s = Some (r, u) \<Longrightarrow> table_ok u"
  shows "table_ok t"
  using assms by (auto simp: phase_def split: if_splits sum.splits elim!: thenO_cases)

lemma thenO_keeps:
  assumes "thenO m k = Some (r, t)" "\<And>r u. m = Some (r, u) \<Longrightarrow> I u"
    and "\<And>x u. I u \<Longrightarrow> k x u = Some (r, t) \<Longrightarrow> I t"
  shows "I t"
  using assms(1) by (rule thenO_cases) (use assms(2,3) in blast)+

lemma end_of_round_table:
  assumes ok: "table_ok s" and g: "goes_on r"
    and r: "thenO (Some (releaseAll l s)) (\<lambda>_ s. Some (Inr (), s\<lparr>router := (router s)\<lparr>dead_list := []\<rparr>\<rparr>)) = Some (r, t)"
  shows "table_ok t"
proof -
  obtain r1 s1 where e: "releaseAll l s = (r1, s1)" by fastforce
  with r g have "r1 \<noteq> Inl AssertFailed" "r1 \<noteq> Inl Undefined" by auto
  with releaseAll_table [OF ok e] r e show ?thesis by (auto simp: dead_list_table)
qed

lemma serve_phases_table:
  assumes ok: "table_ok s" and r: "serve_phases os n s = Some (r, t)" and g: "goes_on r"
  shows "table_ok t"
  using r unfolding serve_phases_def
proof (rule thenO_keeps)
  show "table_ok u" if "phase select_errorfds (\<lambda>l s. Some (handleSocketErrors os l 0 s)) n s = Some (q, u)" for q u
    using phase_table [OF ok that] handleSocketErrors_table [OF ok] by blast
next
  fix n1 s1 assume ok1: "table_ok s1" and "thenO (phase select_readfds (\<lambda>l. serveSocketReceptions os l 0) n1 s1) (\<lambda>nb_act s.
    thenO (phase select_writefds (\<lambda>l. serveSocketEmissions os l 0) nb_act s) (\<lambda>nb_act s.
    thenO (Some (assertS (\<lambda>_. nb_act = 0) s)) (\<lambda>_ s.
    thenO (Some (releaseAll (dead_list (router s)) s)) (\<lambda>_ s.
    Some (Inr (), s\<lparr>router := (router s)\<lparr>dead_list := []\<rparr>\<rparr>))))) = Some (r, t)"
  from this(2) show "table_ok t"
  proof (rule thenO_keeps)
    show "table_ok u" if "phase select_readfds (\<lambda>l. serveSocketReceptions os l 0) n1 s1 = Some (q, u)" for q u
      using phase_table [OF ok1 that] serveSocketReceptions_table [OF ok1] by blast
  next
    fix n2 s2 assume ok2: "table_ok s2" and "thenO (phase select_writefds (\<lambda>l. serveSocketEmissions os l 0) n2 s2) (\<lambda>nb_act s.
      thenO (Some (assertS (\<lambda>_. nb_act = 0) s)) (\<lambda>_ s.
      thenO (Some (releaseAll (dead_list (router s)) s)) (\<lambda>_ s.
      Some (Inr (), s\<lparr>router := (router s)\<lparr>dead_list := []\<rparr>\<rparr>)))) = Some (r, t)"
    from this(2) show "table_ok t"
    proof (rule thenO_keeps)
      show "table_ok u" if "phase select_writefds (\<lambda>l. serveSocketEmissions os l 0) n2 s2 = Some (q, u)" for q u
        using phase_table [OF ok2 that] serveSocketEmissions_table [OF ok2] by blast
    next
      fix n3 :: int and s3 assume ok3: "table_ok s3" and "thenO (Some (assertS (\<lambda>_. n3 = 0) s3)) (\<lambda>_ s.
        thenO (Some (releaseAll (dead_list (router s)) s)) (\<lambda>_ s.
        Some (Inr (), s\<lparr>router := (router s)\<lparr>dead_list := []\<rparr>\<rparr>))) = Some (r, t)"
      with end_of_round_table [OF ok3 g] show "table_ok t" by (cases "n3 = 0") auto
    qed
  qed
qed

lemma ServeClientSockets_table:
  assumes "table_ok s" "pselect_ok os" "ServeClientSockets os s = Some (r, t)" "goes_on r"
  shows "table_ok t"
  using assms(3) unfolding ServeClientSockets_eq
  by (rule thenO_keeps) (use select_phase_table [OF assms(1,2)] serve_phases_table [OF _ _ assms(4)] in blast)+

section \<open>The kernel the server relies on\<close>

text \<open>
  What the properties of the loop suppose: \<^verbatim>\<open>pselect\<close> as documented, standard input still open, so that no
  client gets descriptor 0, and no failure of the \<^verbatim>\<open>fcntl\<close> that makes a socket non-blocking.
\<close>

definition kernel_ok :: "'k os \<Rightarrow> bool" where
  "kernel_ok os \<longleftrightarrow> pselect_ok os \<and> (\<forall>fd k. \<exists>k'. os_nonblock os fd k = (Inr (), k'))
     \<and> (\<forall>fd k p k'. os_accept os fd k = (Inr p, k') \<longrightarrow> fst p \<noteq> 0)"

lemma sys_only_table: "sys.more t = sys.more s \<Longrightarrow> table_ok s \<Longrightarrow> table_ok (t :: 'k server)"
  by (cases s; cases t) (simp add: table_ok_def clients_def own_descr_def cnx_def)

lemma CreateClientConnection_table:
  assumes ok: "table_ok s" and k: "kernel_ok os" and fd: "fd \<noteq> 0"
    and r: "CreateClientConnection os addr fd s = (r, t)"
  shows "table_ok t"
proof (cases "fd_valid fd \<and> fd \<notin> clients s")
  case False
  then have "t = s" using r by (auto simp: CreateClientConnection_def clients_def in_fds split: if_splits)
  with ok show ?thesis by simp
next
  case True
  obtain m k1 where m: "os_new os (kern s) = (m, k1)" by fastforce
  from k obtain k2 where "os_nonblock os fd k1 = (Inr (), k2)" unfolding kernel_ok_def by blast
  with m have "\<exists>x. new_ServerSocket os addr fd \<lparr>kern = kern s, errno = errno s\<rparr> = (Inr (), x)"
    by (simp add: new_ServerSocket_def socketConfiguration_def andThen_def syscall_def new_MsgSocket_def rxReset_def)
  moreover have "cnx s fd = None" using True table_okD(3) [OF ok, of fd] by simp
  ultimately have "r = Inr ()"
    using r True by (auto simp: CreateClientConnection_def Let_def cnx_def clients_def in_fds split: if_splits)
  with CreateClientConnection_registers [OF ok _ fd] True r show ?thesis by blast
qed

lemma accept_client_table:
  assumes ok: "table_ok s" and k: "kernel_ok os" and r: "accept_client os gs s = (r, t)"
  shows "table_ok t"
proof -
  obtain a k1 where a: "os_accept os (server_socket gs) (kern s) = (a, k1)" by fastforce
  have ok1: "table_ok (s\<lparr>kern := k1, errno := e\<rparr>)" "table_ok (s\<lparr>kern := k1\<rparr>)" for e
    using ok by (rule sys_only_table [rotated]; simp)+
  show ?thesis
  proof (cases a)
    case (Inl e)
    then have "t = s\<lparr>kern := k1, errno := e\<rparr>" using a r
      by (auto simp: accept_client_def IncomingConnectionRequest_def andThen_def split: if_splits)
    with ok1 show ?thesis by simp
  next
    case (Inr p)
    then have "CreateClientConnection os (snd p) (fst p) (s\<lparr>kern := k1\<rparr>) = (r, t)" using a r
      by (cases p) (simp add: accept_client_def IncomingConnectionRequest_def andThen_def)
    moreover have "fst p \<noteq> 0" using k a Inr unfolding kernel_ok_def by blast
    ultimately show ?thesis using CreateClientConnection_table [OF ok1(2) k] by blast
  qed
qed

lemma server_body_table:
  assumes ok: "table_ok s" and k: "kernel_ok os" and r: "server_body os gs s = Some (r, t)" and g: "goes_on r"
  shows "table_ok t"
  using r unfolding server_body_def
proof (rule thenO_keeps)
  show "table_ok u" if "Some (accept_client os gs s) = Some (q, u)" for q u
    using that by (intro accept_client_table [OF ok k]) simp
next
  fix x u assume oku: "table_ok u" and "thenO (ServeClientSockets os u) (\<lambda>_. waitUsec os 500000) = Some (r, t)"
  from this(2) show "table_ok t"
  proof (rule thenO_cases)
    fix e assume "ServeClientSockets os u = Some (Inl e, t)" "r = Inl e"
    with g ServeClientSockets_table [OF oku] k show ?thesis unfolding kernel_ok_def by auto
  next
    fix y v assume "ServeClientSockets os u = Some (Inr y, v)" and w: "waitUsec os 500000 v = Some (r, t)"
    then have "table_ok v" using ServeClientSockets_table [OF oku] k unfolding kernel_ok_def by auto
    with nanosleep_loop_rest w show ?thesis unfolding waitUsec_def by (blast intro: sys_only_table)
  qed
qed

lemma server_iteration_table:
  assumes "table_ok s" "kernel_ok os" "server_iteration os gs s = Some (Inr (), t)"
  shows "table_ok t"
proof -
  from assms(3) obtain r where "server_body os gs s = Some (r, t)" "goes_on r"
    by (auto simp: server_iteration_def split: option.splits sum.splits if_splits)
  with server_body_table [OF assms(1,2)] show ?thesis by blast
qed

section \<open>Properties\<close>

lemma SetupListenSocket_router: "SetupListenSocket os addr s = (r, t) \<Longrightarrow> router t = router s"
  by (auto simp: SetupListenSocket_def or_throw_def andThen_def syscall_def split: prod.splits sum.splits)

lemma new_GameServer_table:
  assumes "new_GameServer os (rd, wr, er) addr prt s = (r, t)"
    and "fd_set_ok rd" "fd_set_ok wr" "fd_set_ok er" "fds wr = {}"
  shows "table_ok t \<and> clients t = {}"
proof -
  have "router t = new_Router rd wr er"
    using assms(1) by (auto simp: new_GameServer_def andThen_def dest!: SetupListenSocket_router
        split: prod.splits sum.splits)
  with assms(2-5) show ?thesis
    by (simp add: table_ok_def own_descr_def cnx_def new_Router_def sets_ok_def clients_def nfds_of_def)
qed

text \<open>
  C5. The table of connections is consistent whenever the server is at the head of its loop, from the start and for
  whatever the clients send, also after the exceptions that left a round half way or refused an acceptance and
  that the loop has swallowed, with one exception that the theorem leaves out: it supposes of the kernel
  (\<open>kernel_ok\<close>) that the \<^verbatim>\<open>fcntl\<close> that makes an accepted socket non-blocking never fails, since that failure does
  leave the table inconsistent (\<open>CreateClientConnection_half_done\<close>), that \<^verbatim>\<open>pselect\<close> answers as documented and
  that no client gets descriptor 0. It also supposes that the emission set, which the constructor of the router
  does not initialise, happens to start empty.
\<close>

theorem server_loop_keeps_table:
  assumes "new_GameServer os (rd, wr, er) addr prt s0 = (Inr gs, s)"
    and "fd_set_ok rd" and "fd_set_ok wr" and "fd_set_ok er" and "fds wr = {}"
    and "kernel_ok os" and "at_head os gs s t"
  shows "table_ok t"
  using assms(7) conjunct1 [OF new_GameServer_table [OF assms(1-5)]] server_iteration_table [OF _ assms(6)]
  by (rule at_head_invariant)

text \<open>A kernel where the same client comes again and again: the second time the registration throws.\<close>

definition insistent_os :: "unit os" where
  "insistent_os = idle_os\<lparr>os_socket := Pair (Inr 3), os_bind := \<lambda>_ _. Pair (Inr ()),
     os_listen := \<lambda>_ _. Pair (Inr ()), os_accept := \<lambda>_. Pair (Inr (5, \<lparr>s_addr = 0, sin_port = 0\<rparr>))\<rparr>"

lemma insistent_kernel_ok: "kernel_ok insistent_os"
  by (simp add: kernel_ok_def pselect_ok_def insistent_os_def idle_os_def accepting_os_def)

lemma fresh_iteration:
  assumes "router_ok s" "dead_list (router s) = []" "clients s = {}"
  shows "\<exists>t. server_iteration insistent_os gs s = Some (Inr (), t) \<and> clients t \<subseteq> {5} \<and> router_ok t"
proof -
  let ?a = "\<lparr>s_addr = 0, sin_port = 0\<rparr>"
  have v: "fd_valid 5" "5 \<notin> clients s" using assms(3) by (simp_all add: fd_valid_def)
  then have i: "\<not> FD_ISSET 5 (clientsocks_fds (router s))" by (simp add: clients_def in_fds)
  have n: "cnx s 5 = None" using table_okD(3) [OF router_ok_table [OF assms(1)], of 5] v(2) by simp
  obtain u where u: "CreateClientConnection insistent_os ?a 5 s = (Inr (), u)" "dead_list (router u) = []"
    using v(1) i n assms(2)
    by (simp add: CreateClientConnection_def new_ServerSocket_def insistent_os_def idle_os_def accepting_os_def
        failing_os_def socketConfiguration_def syscall_def andThen_def cnx_def)
  from CreateClientConnection_registers [OF router_ok_table [OF assms(1)] v(1) _ v(2) u(1)] assms(3)
  have t: "table_ok u" "clients u = {5}" by auto
  then have ok: "router_ok u" "clientsocks_nfds (router u) < 1024"
    using u(2) by (simp_all add: router_ok_def table_okD nfds_of_def)
  have d: "do_pselect insistent_os = do_pselect idle_os"
    by (intro ext) (simp add: do_pselect_def insistent_os_def)
  have c: "os_clock_gettime insistent_os = os_clock_gettime idle_os" by (simp add: insistent_os_def)
  have e: "select_phase insistent_os x = select_phase idle_os x" for x
    unfolding select_phase_def d c by (rule refl)
  from idle_select [OF ok] obtain s1 where "select_phase insistent_os u = Some (Inr 0, s1)" unfolding e by blast
  moreover have p: "pselect_ok insistent_os" using insistent_kernel_ok by (simp add: kernel_ok_def)
  ultimately obtain w where w: "ServeClientSockets insistent_os u = Some (Inr (), w)"
    using idle_round [OF ok(1) u(2)] by blast
  from round_keeps_router_ok [OF ok(1) u(2) p w] t(2) have "router_ok w" "clients w \<subseteq> {5}" by auto
  moreover have "waitUsec insistent_os 500000 w = Some (Inr (), w)"
    by (simp add: waitUsec_def nanosleep_loop.simps insistent_os_def idle_os_def accepting_os_def failing_os_def)
  moreover have sk: "s\<lparr>kern := ()\<rparr> = s" by (cases s) simp
  have "accept_client insistent_os gs s = CreateClientConnection insistent_os ?a 5 (s\<lparr>kern := ()\<rparr>)"
    by (simp add: accept_client_def IncomingConnectionRequest_def andThen_def syscall_def insistent_os_def)
  then have "accept_client insistent_os gs s = CreateClientConnection insistent_os ?a 5 s"
    unfolding sk .
  ultimately show ?thesis using u(1) w by (simp add: server_iteration_def server_body_def)
qed

lemma insistent_turn:
  obtains gs s t where "new_GameServer insistent_os (FD_ZERO, FD_ZERO, FD_ZERO) \<lparr>s_addr = 0, sin_port = 0\<rparr> 1
       \<lparr>kern = (), errno = 0\<rparr> = (Inr gs, s)"
    and "server_iteration insistent_os gs s = Some (Inr (), t)"
proof -
  obtain gs s where g: "new_GameServer insistent_os (FD_ZERO, FD_ZERO, FD_ZERO) \<lparr>s_addr = 0, sin_port = 0\<rparr> 1
       \<lparr>kern = (), errno = 0\<rparr> = (Inr gs, s)" and r: "router s = new_Router FD_ZERO FD_ZERO FD_ZERO"
    by (simp add: new_GameServer_def SetupListenSocket_def or_throw_def andThen_def syscall_def insistent_os_def
        idle_os_def accepting_os_def)
  have z: "fd_set_ok FD_ZERO" "fds FD_ZERO = {}" by simp_all
  from new_GameServer_table [OF g z(1,1,1,2)] r have ok: "router_ok s" "dead_list (router s) = []" "clients s = {}"
    by (simp_all add: router_ok_def new_Router_def)
  from fresh_iteration [OF ok] g that show thesis by blast
qed

lemma server_loop_keeps_table_witness:
  "\<exists>gs s t. new_GameServer insistent_os (FD_ZERO, FD_ZERO, FD_ZERO) \<lparr>s_addr = 0, sin_port = 0\<rparr> 1
       \<lparr>kern = (), errno = 0\<rparr> = (Inr gs, s)
     \<and> server_iteration insistent_os gs s = Some (Inr (), t) \<and> table_ok t"
proof -
  obtain gs s t where g: "new_GameServer insistent_os (FD_ZERO, FD_ZERO, FD_ZERO) \<lparr>s_addr = 0, sin_port = 0\<rparr> 1
       \<lparr>kern = (), errno = 0\<rparr> = (Inr gs, s)" and t: "server_iteration insistent_os gs s = Some (Inr (), t)"
    by (rule insistent_turn)
  have z: "fd_set_ok FD_ZERO" "fds FD_ZERO = {}" by simp_all
  from t have "at_head insistent_os gs s t" by (blast intro: at_head.intros)
  from server_loop_keeps_table [OF g z(1,1,1,2) insistent_kernel_ok this] g t show ?thesis by blast
qed

text \<open>
  No exception ends the loop of the server: if it ends at all the process is aborted by an assertion, by
  undefined behaviour or by \<^verbatim>\<open>exit\<close>.
\<close>

theorem server_loop_only_aborts:
  assumes "server_loop os gs s = Some (r, t)"
  shows "\<exists>e. r = Inl e \<and> \<not> is_exception e \<and> server_start os gs s = Some (Inl e, t)"
proof -
  have "\<exists>e. r = Inl e \<and> \<not> is_exception e"
    using server_loop.raw_induct [where P = "\<lambda>os gs s y. \<exists>e. fst y = Inl e \<and> \<not> is_exception e", OF _ assms]
    by (fastforce simp: server_iteration_def split: option.splits sum.splits if_splits exn.splits)
  with assms show ?thesis by (auto simp: server_start_def)
qed

text \<open>
  While \<^verbatim>\<open>accept\<close> fails, for instance because the process has no descriptor left, the server serves nobody: each turn
  of the loop swallows the exception before the service and before the pause, and the loop spins for ever
  without touching the router.
\<close>

theorem accept_failure_starves:
  assumes "\<And>k. \<exists>e k'. e \<noteq> EWOULDBLOCK \<and> os_accept os (server_socket gs) k = (Inl e, k')"
  shows "server_loop os gs s = None \<and> (\<forall>t. at_head os gs s t \<longrightarrow> router t = router s)"
proof -
  have it: "\<exists>e k. server_iteration os gs t = Some (Inr (), t\<lparr>kern := k, errno := e\<rparr>)" for t
  proof -
    from assms [of "kern t"] obtain e k where "e \<noteq> EWOULDBLOCK" "os_accept os (server_socket gs) (kern t) = (Inl e, k)"
      by blast
    then show ?thesis
      by (intro exI [of _ e] exI [of _ k])
        (simp add: server_iteration_def server_body_def accept_client_def IncomingConnectionRequest_def andThen_def)
  qed
  have "router t = router s" if "at_head os gs s t" for t
    using that
  proof (rule at_head_invariant)
    fix u v assume "router u = router s" "server_iteration os gs u = Some (Inr (), v)"
    with it [of u] show "router v = router s" by auto
  qed simp
  moreover have "server_loop os gs s = None"
  proof (rule ccontr)
    assume "server_loop os gs s \<noteq> None"
    then obtain y where y: "server_loop os gs s = Some y" by blast
    have "gs' = gs \<longrightarrow> os' = os \<longrightarrow> False" if "server_loop os' gs' s = Some y" for os' gs'
    proof (rule server_loop.raw_induct [where P = "\<lambda>os' gs' s y. gs' = gs \<longrightarrow> os' = os \<longrightarrow> False", OF _ that])
      fix f :: "'a os \<Rightarrow> GameServer \<Rightarrow> 'a server \<Rightarrow> (unit result \<times> 'a server) option"
        and os' :: "'a os" and gs' u z
      assume IH: "\<And>os' gs' s y. f os' gs' s = Some y \<Longrightarrow> gs' = gs \<longrightarrow> os' = os \<longrightarrow> False"
        and u: "(case server_iteration os' gs' u of None \<Rightarrow> None | Some (Inl e, t) \<Rightarrow> Some (Inl e, t)
             | Some (Inr x, t) \<Rightarrow> f os' gs' t) = Some z"
      show "gs' = gs \<longrightarrow> os' = os \<longrightarrow> False"
      proof (intro impI)
        assume "gs' = gs" "os' = os"
        with it [of u] u obtain v where "f os gs v = Some z" by auto
        with IH [of os gs v z] show False by blast
      qed
    qed
    with y show False by blast
  qed
  ultimately show ?thesis by blast
qed

lemma accept_failure_starves_witness:
  "server_loop failing_os \<lparr>gs_port = 1, ipAddr = \<lparr>s_addr = 0, sin_port = 1\<rparr>, server_socket = 3\<rparr>
     (sample_server () (sample_cnx EMPTY [])) = None"
  using accept_failure_starves [of failing_os "\<lparr>gs_port = 1, ipAddr = \<lparr>s_addr = 0, sin_port = 1\<rparr>, server_socket = 3\<rparr>"
      "sample_server () (sample_cnx EMPTY [])"]
  by (simp add: failing_os_def)

text \<open>
  A bit that the uninitialised emission set of the router happened to hold is given to \<^verbatim>\<open>pselect\<close> as soon as the
  descriptors of the clients lie above it: when that descriptor, standard output for instance, is reported
  writable the server aborts, since there is no connection behind it.
\<close>

theorem stray_emission_bit_aborts:
  assumes "select_phase os s = Some (Inr n, s1)" and "0 < n"
    and "clientsocks_nfds (router s1) < 1024" and "fd < clientsocks_nfds (router s1)" and "fd_valid fd"
    and "fds (select_errorfds (router s1)) = {}" and "fds (select_readfds (router s1)) = {}"
    and "fds (select_writefds (router s1)) = {fd}" and "cnx s1 fd = None"
  shows "ServeClientSockets os s = Some (Inl AssertFailed, s1)"
proof -
  have z: "0 \<le> clientsocks_nfds (router s1)" using assms(4,5) by (simp add: fd_valid_def)
  have e: "fdsExtractList (clientsocks_nfds (router s1)) x = Inr (sorted_list_of_set (fds x))"
    if "\<forall>f\<in>fds x. f < clientsocks_nfds (router s1)" for x
    using fdsExtractList_fds [OF z assms(3) that] by (metis sorted_list_of_set.idem_if_sorted_distinct)
  have "phase select_errorfds (\<lambda>l s. Some (handleSocketErrors os l 0 s)) n s1 = Some (Inr n, s1)"
    using e [of "select_errorfds (router s1)"] assms(2,6) by (simp add: phase_def)
  moreover have "phase select_readfds (\<lambda>l. serveSocketReceptions os l 0) n s1 = Some (Inr n, s1)"
    using e [of "select_readfds (router s1)"] assms(2,7) by (simp add: phase_def)
  moreover have "phase select_writefds (\<lambda>l. serveSocketEmissions os l 0) n s1 = Some (Inl AssertFailed, s1)"
    using e [of "select_writefds (router s1)"] assms(2,4,8,9) by (simp add: phase_def)
  ultimately show ?thesis using assms(1) by (simp add: ServeClientSockets_eq serve_phases_def)
qed

text \<open>One client, with descriptor 5, and standard output left in the set.\<close>

definition stdout_os :: "unit os" where
  "stdout_os = accepting_os\<lparr>os_clock_gettime := Pair (Inr 0),
     os_pselect := \<lambda>nfds x. Pair (Inr (1, FD_ZERO, FD_SET 1 FD_ZERO, FD_ZERO))\<rparr>"

lemma stray_emission_bit_aborts_witness:
  "\<exists>t. ServeClientSockets stdout_os
     (two_clients (sample_cnx_at 5 []) (sample_cnx_at 6 []) (FD_SET 1 FD_ZERO)) = Some (Inl AssertFailed, t)"
proof -
  let ?c = "two_clients (sample_cnx_at 5 []) (sample_cnx_at 6 [])"
  have v: "fd_valid 1" by (simp add: fd_valid_def)
  have ok: "table_ok (?c FD_ZERO)" by (rule router_ok_table) (rule two_clients_ok; simp)
  have n: "clientsocks_nfds (router (?c x)) = 7" for x by (simp add: two_clients_def)
  from prepare_sets_ok [OF ok] n obtain rd er where
    "prepare_sets (?c FD_ZERO) = (Inr (), (?c FD_ZERO)\<lparr>router := (router (?c FD_ZERO))\<lparr>select_readfds := rd, select_errorfds := er\<rparr>\<rparr>)"
    by auto
  then have "fdsCopy 7 (FD_SET 6 (FD_SET 5 FD_ZERO)) FD_ZERO = Inr rd"
    "fdsCopy 7 (FD_SET 6 (FD_SET 5 FD_ZERO)) FD_ZERO = Inr er"
    by (auto simp: prepare_sets_def two_clients_def split: sum.splits)
  then obtain s1 where s1: "select_phase stdout_os (?c (FD_SET 1 FD_ZERO)) = Some (Inr 1, s1)"
    "select_errorfds (router s1) = FD_ZERO" "select_readfds (router s1) = FD_ZERO"
    "select_writefds (router s1) = FD_SET 1 FD_ZERO" "clientsocks_nfds (router s1) = 7" "cnx s1 1 = None"
    by (simp add: select_phase_def prepare_sets_def do_pselect_def modRouter_def two_clients_def stdout_os_def
        syscall_def cnx_def)
  from stray_emission_bit_aborts [OF s1(1), where fd = 1] s1 v show ?thesis by auto
qed

end
