(* ===== verification/ClientConnection.thy ===== *)
theory ClientConnection
  imports ClientSocket Dispatch
begin

text \<open>
  The class \<^verbatim>\<open>ClientConnection\<close>, the client's end of the protocol: its state machine with the assertions of
  \<^verbatim>\<open>setState\<close>, the messages it sends, the handlers of the server's messages, the events that come
  from the user interface and \<^verbatim>\<open>poll\<close>, which serves the socket. The state is the kernel, \<^verbatim>\<open>errno\<close>, the
  socket object the class owns and its other members; the mutexes are not modelled.
\<close>

section \<open>State\<close>

datatype CnxState =
    NO_SOCKET | CNX_ERROR | NO_CONNECTION | CONNECTING | CONNECTED_NO_CREDENTIALS | CONNECTED
  | REGISTERING | REGISTERED | DISCONNECTING | CLOSING | CNX_REJECTED | AUTH_REJECTED

fun cnx_state_val :: "CnxState \<Rightarrow> int" where
  "cnx_state_val NO_SOCKET = 0"
| "cnx_state_val CNX_ERROR = 1"
| "cnx_state_val NO_CONNECTION = 2"
| "cnx_state_val CONNECTING = 3"
| "cnx_state_val CONNECTED_NO_CREDENTIALS = 4"
| "cnx_state_val CONNECTED = 5"
| "cnx_state_val REGISTERING = 6"
| "cnx_state_val REGISTERED = 7"
| "cnx_state_val DISCONNECTING = 8"
| "cnx_state_val CLOSING = 9"
| "cnx_state_val CNX_REJECTED = 10"
| "cnx_state_val AUTH_REJECTED = 11"

datatype CnxExtEvent = NO_EVENT | NEW_CREDENTIALS

record ClientConnection =
  cnx_state :: CnxState
  server_ip_addr :: sockaddr_in
  ip_interface_name :: "byte list"
  ciphering :: Cyphering
  ciph_kea :: mem
  ext_event :: "CnxExtEvent set"
  user_name :: "byte list"
  user_passwd :: "byte list"
  user_email :: "byte list"

record 'k client = "'k sock_ctx" +
  conn :: ClientConnection

definition modConn :: "(ClientConnection \<Rightarrow> ClientConnection) \<Rightarrow> ('k client, unit) stm" where
  "modConn f = modS (\<lambda>s. s\<lparr>conn := f (conn s)\<rparr>)"

lemma modConn_apply [simp]: "modConn f s = (Inr (), s\<lparr>conn := f (conn s)\<rparr>)"
  by (simp add: modConn_def)

text \<open>An operation of the socket object the class owns.\<close>

definition onSock :: "('k sock_ctx, 'a) stm \<Rightarrow> ('k client, 'a) stm" where
  "onSock m s = (case m \<lparr>kern = kern s, errno = errno s, sock = sock s\<rparr> of
     (r, t) \<Rightarrow> (r, s\<lparr>kern := kern t, errno := errno t, sock := sock t\<rparr>))"

section \<open>The state machine\<close>

fun state_change_ok :: "CnxState \<Rightarrow> CnxState \<Rightarrow> bool" where
  "state_change_ok old CONNECTING = (old = NO_SOCKET)"
| "state_change_ok old CONNECTED_NO_CREDENTIALS = (old = CONNECTING \<or> old = REGISTERING)"
| "state_change_ok old CONNECTED = (old = CONNECTED_NO_CREDENTIALS)"
| "state_change_ok old REGISTERING = (old = CONNECTED)"
| "state_change_ok old REGISTERED = (old = REGISTERING)"
| "state_change_ok old CNX_REJECTED = (old = CONNECTING)"
| "state_change_ok old AUTH_REJECTED = (old = REGISTERING)"
| "state_change_ok old _ = True"

definition set_cnx_state :: "CnxState \<Rightarrow> ('k client, unit) stm" where
  "set_cnx_state new_state =
     andThen (assertS (\<lambda>s. state_change_ok (cnx_state (conn s)) new_state)) (\<lambda>_.
     modConn (\<lambda>c. c\<lparr>cnx_state := new_state\<rparr>))"

section \<open>Construction\<close>

definition configureSocket :: "'k os \<Rightarrow> ClientConnection \<Rightarrow> 'k sys \<Rightarrow> 'k client result" where
  "configureSocket os c s = check_assert (cnx_state c = NO_SOCKET) (case os_socket os (kern s) of
      (Inl e, k) \<Rightarrow> Inl (ThrownString ''CLient application's socket creation error'')
    | (Inr fd, k) \<Rightarrow> (case new_ClientSocket os (server_ip_addr c) fd (s\<lparr>kern := k\<rparr>) of
          (Inl e, t) \<Rightarrow> Inl e
        | (Inr _, t) \<Rightarrow> Inr \<lparr>kern = kern t, errno = errno t, sock = sock t, conn = c\<rparr>))"

definition new_ClientConnection :: "'k os \<Rightarrow> sockaddr_in \<Rightarrow> byte list \<Rightarrow> 'k sys \<Rightarrow> 'k client result" where
  "new_ClientConnection os serverAddr ip_name s = configureSocket os
     \<lparr>cnx_state = NO_SOCKET, server_ip_addr = serverAddr, ip_interface_name = ip_name,
      ciphering = NO_CICPHERING, ciph_kea = (\<lambda>_. 0), ext_event = {}, user_name = [],
      user_passwd = [], user_email = []\<rparr> s"

lemma new_ClientConnection_eq:
  "new_ClientConnection os serverAddr ip_name s = (case os_socket os (kern s) of
      (Inl e, k) \<Rightarrow> Inl (ThrownString ''CLient application's socket creation error'')
    | (Inr fd, k) \<Rightarrow> (case new_ClientSocket os serverAddr fd (s\<lparr>kern := k\<rparr>) of
          (Inl e, t) \<Rightarrow> Inl e
        | (Inr _, t) \<Rightarrow> Inr \<lparr>kern = kern t, errno = errno t, sock = sock t, conn =
            \<lparr>cnx_state = NO_SOCKET, server_ip_addr = serverAddr, ip_interface_name = ip_name,
             ciphering = NO_CICPHERING, ciph_kea = (\<lambda>_. 0), ext_event = {}, user_name = [],
             user_passwd = [], user_email = []\<rparr>\<rparr>))"
  by (simp add: new_ClientConnection_def configureSocket_def split: prod.split sum.split)

text \<open>The one object of the class: a second creation leaves the first.\<close>

definition createObject :: "'k os \<Rightarrow> sockaddr_in \<Rightarrow> byte list \<Rightarrow> 'k client option \<Rightarrow> 'k sys \<Rightarrow> 'k client result" where
  "createObject os serverAddr ip_name clientModeConnection s = (case clientModeConnection of
      None \<Rightarrow> new_ClientConnection os serverAddr ip_name s
    | Some c \<Rightarrow> Inr c)"

text \<open>
  The destructor deletes the one object of the class, which is the object under destruction: the static
  pointer is reset only after that. \<open>None\<close> is a destruction that does not end; the parameter is the pointer.
\<close>

partial_function (option) delete_ClientConnection ::
    "'k client option \<Rightarrow> (unit result \<times> 'k client option) option" where
  "delete_ClientConnection clientModeConnection = (case clientModeConnection of
      None \<Rightarrow> Some (Inl AssertFailed, None)
    | Some c \<Rightarrow> Option.bind (delete_ClientConnection (Some c)) (\<lambda>(r, p).
        Some (case r of Inl e \<Rightarrow> (Inl e, p) | Inr _ \<Rightarrow> (Inr (), None))))"

text \<open>Once the object exists its destruction does not end, whatever created it.\<close>

theorem destruction_never_ends: "delete_ClientConnection (Some c) = None"
proof (cases "delete_ClientConnection (Some c)")
  case (Some y)
  have "p = None" if "delete_ClientConnection p = Some y" for p
    by (rule delete_ClientConnection.raw_induct [where P = "\<lambda>p _. p = None", OF _ that])
      (auto split: option.splits Option.bind_splits)
  from this [OF Some] show ?thesis by simp
qed

section \<open>Sending\<close>

definition sendMsgToServer :: "request \<Rightarrow> ('k client, unit) stm" where
  "sendMsgToServer r = modS (\<lambda>s. s\<lparr>sock := sendMsg r (sock s)\<rparr>)"

definition sendBodyToServer :: "mem \<Rightarrow> int \<Rightarrow> ClientServerL1MessageId \<Rightarrow> ('k client, unit) stm" where
  "sendBodyToServer m size_of i = (case new_MsgRequest m size_of i of
      Inl e \<Rightarrow> failS e
    | Inr r \<Rightarrow> sendMsgToServer r)"

definition sendConnectionReq :: "'k os \<Rightarrow> ('k client, unit) stm" where
  "sendConnectionReq os = andThen (new_mem os) (\<lambda>m.
     case mainVersionString of
       Inl e \<Rightarrow> failS e
     | Inr v \<Rightarrow> (case put_string v 0 (length v) m of
           Inl e \<Rightarrow> failS e
         | Inr m' \<Rightarrow> sendBodyToServer m' sizeof_ConnectionReq CONNECTION_REQ))"

text \<open>The three strings of the credentials, one after the other.\<close>

definition put_credentials :: "ClientConnection \<Rightarrow> mem \<Rightarrow> mem result" where
  "put_credentials c m =
    (case put_string (user_name c) 0 (length (user_name c)) m of
       Inl e \<Rightarrow> Inl e
     | Inr m1 \<Rightarrow> (case put_string (user_passwd c) off_password (length (user_passwd c)) m1 of
           Inl e \<Rightarrow> Inl e
         | Inr m2 \<Rightarrow> put_string (user_email c) off_mail_address CLIENTSERVER_USER_MAIL_STRING_LENGTH m2))"

definition sendRegistrationReq :: "'k os \<Rightarrow> ('k client, unit) stm" where
  "sendRegistrationReq os = andThen (new_mem os) (\<lambda>m s.
     case put_credentials (conn s) m of
       Inl e \<Rightarrow> (Inl e, s)
     | Inr m' \<Rightarrow> sendBodyToServer m' sizeof_RegistrationReq REGISTRATION_REQ s)"

definition sendUserLoginReq :: "'k os \<Rightarrow> ('k client, unit) stm" where
  "sendUserLoginReq os = andThen (new_mem os) (\<lambda>m s.
     case string_copy (user_name (conn s)) 0 CLIENTSERVER_VERSION_STRING_LENGTH m of
       Inl e \<Rightarrow> (Inl e, s)
     | Inr m1 \<Rightarrow> (case string_copy (user_passwd (conn s)) off_password CLIENTSERVER_USER_PASSWD_STRING_LENGTH m1 of
           Inl e \<Rightarrow> (Inl e, s)
         | Inr m2 \<Rightarrow> sendBodyToServer m2 sizeof_UserLoginReq USER_LOGGING_REQ s))"

definition sendDisconnectionCnf :: "'k os \<Rightarrow> ('k client, unit) stm" where
  "sendDisconnectionCnf os = andThen (new_mem os) (\<lambda>m.
     sendBodyToServer m sizeof_DisconnectionCnf DISCONNECTION_CNF)"

definition sendDisconnectionReq :: "'k os \<Rightarrow> ('k client, unit) stm" where
  "sendDisconnectionReq os = andThen (new_mem os) (\<lambda>m.
     sendBodyToServer (put_enum (disconnection_req_val USER_SHUTDOWN) m) sizeof_DisconnectionReq DISCONNECTION_REQ)"

section \<open>Starting and stopping\<close>

definition StartConnectionToServer :: "'k os \<Rightarrow> ('k client, unit) stm" where
  "StartConnectionToServer os =
     andThen (set_cnx_state CONNECTING) (\<lambda>_.
     andThen (onSock (connect os)) (\<lambda>_.
     sendConnectionReq os))"

definition StopConnectionToServer :: "'k os \<Rightarrow> bool \<Rightarrow> ('k client, unit) stm" where
  "StopConnectionToServer os flush =
     andThen (set_cnx_state DISCONNECTING) (\<lambda>_.
     andThen (if flush then modS (\<lambda>s. s\<lparr>sock := discardDataBuffers (sock s)\<rparr>) else retS ()) (\<lambda>_.
     sendDisconnectionReq os))"

section \<open>Events of the user interface\<close>

definition setExtEvent :: "CnxExtEvent \<Rightarrow> ('k client, unit) stm" where
  "setExtEvent ev = modConn (\<lambda>c. c\<lparr>ext_event := insert ev (ext_event c)\<rparr>)"

text \<open>\<^verbatim>\<open>resize\<close> to one less than the field when the string fills it.\<close>

definition fit :: "nat \<Rightarrow> byte list \<Rightarrow> byte list" where
  "fit n v = (if length v \<ge> n then take (n - 1) v else v)"

definition RegistrationDataFromUserInterface ::
    "byte list \<Rightarrow> byte list \<Rightarrow> byte list \<Rightarrow> ('k client, unit) stm" where
  "RegistrationDataFromUserInterface uname upasswd email =
     andThen (modConn (\<lambda>c. c\<lparr>user_name := fit CLIENTSERVER_USER_NAME_LENGTH uname,
         user_passwd := fit CLIENTSERVER_USER_PASSWD_STRING_LENGTH upasswd,
         user_email := fit CLIENTSERVER_USER_MAIL_STRING_LENGTH email\<rparr>)) (\<lambda>_.
     setExtEvent NEW_CREDENTIALS)"

definition handleOneExtEvent :: "'k os \<Rightarrow> CnxExtEvent \<Rightarrow> ('k client, unit) stm" where
  "handleOneExtEvent os ev = (case ev of
      NEW_CREDENTIALS \<Rightarrow>
        andThen (set_cnx_state CONNECTED) (\<lambda>_.
        andThen (sendRegistrationReq os) (\<lambda>_.
        set_cnx_state REGISTERING))
    | _ \<Rightarrow> failS AssertFailed)"

text \<open>The set is traversed in the order of the enumeration; no handler inserts an event.\<close>

fun handle_events :: "'k os \<Rightarrow> CnxExtEvent list \<Rightarrow> ('k client, unit) stm" where
  "handle_events os [] = retS ()"
| "handle_events os (ev # evs) = andThen (handleOneExtEvent os ev) (\<lambda>_. handle_events os evs)"

definition handleExtEvents :: "'k os \<Rightarrow> ('k client, unit) stm" where
  "handleExtEvents os s =
    (if ext_event (conn s) \<noteq> {} then
       andThen (handle_events os (filter (\<lambda>e. e \<in> ext_event (conn s)) [NO_EVENT, NEW_CREDENTIALS])) (\<lambda>_.
       modConn (\<lambda>c. c\<lparr>ext_event := {}\<rparr>)) s
     else (Inr (), s))"

section \<open>Handling the messages of the server\<close>

definition handleConnectionCnf :: "'k os \<Rightarrow> mem \<Rightarrow> ('k client, unit) stm" where
  "handleConnectionCnf os p_msg =
     andThen (assertS (\<lambda>s. cnx_state (conn s) = CONNECTING)) (\<lambda>_.
     andThen (set_cnx_state CONNECTED_NO_CREDENTIALS) (\<lambda>_.
     andThen (modConn (\<lambda>c. c\<lparr>ciph_kea := cipheringKeyDataCopy (ciph_kea c) 0 (l1_body p_msg) off_cnf_key\<rparr>)) (\<lambda>_.
     RegistrationDataFromUserInterface (bytes_of ''Alberto'') (bytes_of ''toto66'')
       (bytes_of ''alberto.alberto@zazou.com''))))"

text \<open>The text shown to the user; only an unknown cause has an effect, a failed assertion.\<close>

definition handleConnectionRej :: "mem \<Rightarrow> ('k client, unit) stm" where
  "handleConnectionRej p_msg = (case connection_rej_of (get_enum (l1_body p_msg)) of
      None \<Rightarrow> failS AssertFailed
    | Some _ \<Rightarrow> retS ())"

definition handleRegistrationCnf :: "('k client, unit) stm" where
  "handleRegistrationCnf = set_cnx_state REGISTERED"

definition handleRegistrationRej :: "('k client, unit) stm" where
  "handleRegistrationRej = set_cnx_state CONNECTED_NO_CREDENTIALS"

definition handleUserLoginCnf :: "('k client, unit) stm" where
  "handleUserLoginCnf = set_cnx_state REGISTERED"

definition handleUserLoginRej :: "('k client, unit) stm" where
  "handleUserLoginRej = set_cnx_state AUTH_REJECTED"

definition handleDisconnectionReq :: "'k os \<Rightarrow> mem \<Rightarrow> ('k client, unit) stm" where
  "handleDisconnectionReq os p_msg =
     andThen (assertS (\<lambda>_. get_enum (l1_body p_msg) = disconnection_req_val SERVER_SHUTDOWN)) (\<lambda>_.
     andThen (sendDisconnectionCnf os) (\<lambda>_.
     set_cnx_state CLOSING))"

definition handleDisconnectionCnf :: "'k os \<Rightarrow> ('k client, unit) stm" where
  "handleDisconnectionCnf os =
     andThen (assertS (\<lambda>s. cnx_state (conn s) = DISCONNECTING)) (\<lambda>_.
     andThen (onSock (stop os)) (\<lambda>_.
     set_cnx_state CLOSING))"

definition handle_server_message :: "'k os \<Rightarrow> mem \<Rightarrow> ('k client, unit) stm" where
  "handle_server_message os p_msg = (case id_of (l1_id p_msg) of
      Some CONNECTION_CNF \<Rightarrow> handleConnectionCnf os p_msg
    | Some CONNECTION_REJ \<Rightarrow> handleConnectionRej p_msg
    | Some USER_LOGGING_CNF \<Rightarrow> handleUserLoginCnf
    | Some USER_LOGGING_REJ \<Rightarrow> handleUserLoginRej
    | Some REGISTRATION_CNF \<Rightarrow> handleRegistrationCnf
    | Some REGISTRATION_REJ \<Rightarrow> handleRegistrationRej
    | Some DISCONNECTION_REQ \<Rightarrow> handleDisconnectionReq os p_msg
    | Some DISCONNECTION_CNF \<Rightarrow> handleDisconnectionCnf os
    | Some POLL_REQ \<Rightarrow> retS ()
    | Some POLL_CNF \<Rightarrow> retS ()
    | Some DATA_TRANSFER_REQ \<Rightarrow> retS ()
    | Some TRANSFER_DATA_BLK \<Rightarrow> retS ()
    | Some FILE_TRANSFER_REQ \<Rightarrow> retS ()
    | _ \<Rightarrow> failS AssertFailed)"

section \<open>Polling\<close>

definition nextFromServer :: "'k client \<Rightarrow> mem option \<times> 'k client" where
  "nextFromServer s = (case getNextReceivedMsg (sock s) of (m, x) \<Rightarrow> (m, s\<lparr>sock := x\<rparr>))"

definition poll_socket :: "'k os \<Rightarrow> 'k client \<Rightarrow> (bool result \<times> 'k client) option" where
  "poll_socket os s =
    map_option (\<lambda>(r, t). (r, s\<lparr>kern := kern t, errno := errno t, sock := sock t\<rparr>))
      (poll os \<lparr>kern = kern s, errno = errno s, sock = sock s\<rparr>)"

definition poll_body :: "'k os \<Rightarrow> 'k client \<Rightarrow> (unit result \<times> 'k client) option" where
  "poll_body os s =
    thenO (Some (handleExtEvents os s)) (\<lambda>_ s.
    thenO (poll_socket os s) (\<lambda>incoming_msg s.
      if incoming_msg then dispatch nextFromServer (handle_server_message os) s
      else Some (Inr (), s)))"

text \<open>The catch clause puts the connection in \<open>NO_CONNECTION\<close>; every other exception goes through.\<close>

definition client_socketDisconnected :: "int \<Rightarrow> ('k client, unit) stm" where
  "client_socketDisconnected disc = set_cnx_state NO_CONNECTION"

definition cnx_poll :: "'k os \<Rightarrow> 'k client \<Rightarrow> (unit result \<times> 'k client) option" where
  "cnx_poll os s =
    (if cnx_state_val (cnx_state (conn s)) \<le> cnx_state_val NO_CONNECTION then Some (Inr (), s)
     else case poll_body os s of
         Some (Inl (SocketDisconnection e), t) \<Rightarrow> Some (client_socketDisconnected e t)
       | r \<Rightarrow> r)"

lemma cnx_poll_eq:
  "cnx_poll os s =
    (if cnx_state_val (cnx_state (conn s)) \<le> cnx_state_val NO_CONNECTION then Some (Inr (), s)
     else case poll_body os s of
         Some (Inl (SocketDisconnection e), t) \<Rightarrow> Some (set_cnx_state NO_CONNECTION t)
       | r \<Rightarrow> r)"
  by (simp only: cnx_poll_def client_socketDisconnected_def)

section \<open>The moves of the state machine\<close>

text \<open>
  The changes of state that a poll can make. The assertions of \<^verbatim>\<open>setState\<close> let no other through, and
  no handler ever asks for \<open>CNX_REJECTED\<close>, \<open>CNX_ERROR\<close> or \<open>NO_SOCKET\<close>.
\<close>

inductive client_step :: "CnxState \<Rightarrow> CnxState \<Rightarrow> bool" where
  Accepted: "client_step CONNECTING CONNECTED_NO_CREDENTIALS"
| Refused_credentials: "client_step REGISTERING CONNECTED_NO_CREDENTIALS"
| Credentials: "client_step CONNECTED_NO_CREDENTIALS CONNECTED"
| Requested: "client_step CONNECTED REGISTERING"
| Registered: "client_step REGISTERING REGISTERED"
| Refused_login: "client_step REGISTERING AUTH_REJECTED"
| Closing: "client_step st CLOSING"
| Lost: "client_step st NO_CONNECTION"

inductive_cases client_stepE [elim!]:
  "client_step NO_CONNECTION st" "client_step CLOSING st" "client_step REGISTERED st" "client_step AUTH_REJECTED st"

inductive_simps client_step_REGISTERED: "client_step st REGISTERED"
inductive_simps client_step_AUTH_REJECTED: "client_step st AUTH_REJECTED"
inductive_simps client_step_never:
  "client_step st CNX_REJECTED" "client_step st CNX_ERROR" "client_step st NO_SOCKET" "client_step st CONNECTING"
  "client_step st DISCONNECTING"

abbreviation client_steps :: "CnxState \<Rightarrow> CnxState \<Rightarrow> bool" where
  "client_steps \<equiv> client_step\<^sup>*\<^sup>*"

lemmas client_moves = client_step.intros [THEN r_into_rtranclp [of client_step]]

definition tame :: "('k client, 'a) stm \<Rightarrow> bool" where
  "tame m \<longleftrightarrow> (\<forall>s. client_steps (cnx_state (conn s)) (cnx_state (conn (snd (m s))))
     \<and> (rx_fifo (sock (snd (m s))) = rx_fifo (sock s) \<or> rx_fifo (sock (snd (m s))) = []))"

named_theorems tame_rules

lemma tameD:
  "tame m \<Longrightarrow> m s = (r, t) \<Longrightarrow> client_steps (cnx_state (conn s)) (cnx_state (conn t))
    \<and> (rx_fifo (sock t) = rx_fifo (sock s) \<or> rx_fifo (sock t) = [])"
  unfolding tame_def by (metis snd_conv)

lemma tame_basic [tame_rules]:
  "tame (retS x)" "tame (failS e)" "tame (assertS P)" "tame (new_mem os)"
  "tame m \<Longrightarrow> tame n \<Longrightarrow> tame (if b then m else n)"
  by (simp_all add: tame_def assertS_def new_mem_def split: prod.split)

lemma tame_andThen [tame_rules]:
  fixes m :: "('k client, 'a) stm"
  assumes "tame m" "\<And>x. tame (k x)" shows "tame (andThen m k)"
  unfolding tame_def
proof
  fix s :: "'k client"
  obtain r1 s1 where m: "m s = (r1, s1)" by fastforce
  note 1 = tameD [OF assms(1) m]
  show "client_steps (cnx_state (conn s)) (cnx_state (conn (snd (andThen m k s))))
     \<and> (rx_fifo (sock (snd (andThen m k s))) = rx_fifo (sock s) \<or> rx_fifo (sock (snd (andThen m k s))) = [])"
  proof (cases r1)
    case (Inl e)
    with m 1 show ?thesis by simp
  next
    case (Inr x)
    obtain r t where k: "k x s1 = (r, t)" by fastforce
    from tameD [OF assms(2) k] 1 m Inr k show ?thesis by auto
  qed
qed

lemma tame_modConn [tame_rules]: "(\<And>c. cnx_state (f c) = cnx_state c) \<Longrightarrow> tame (modConn f)"
  by (simp add: tame_def)

lemma tame_set_cnx_state [tame_rules]:
  "st \<in> {CONNECTED_NO_CREDENTIALS, CONNECTED, REGISTERING, REGISTERED, AUTH_REJECTED, CLOSING, NO_CONNECTION}
    \<Longrightarrow> tame (set_cnx_state st)"
  by (auto simp: tame_def set_cnx_state_def andThen_def assertS_def client_moves)

lemma tame_sendMsgToServer [tame_rules]: "tame (sendMsgToServer r)"
  by (simp add: tame_def sendMsgToServer_def sendMsg_def)

lemma tame_sendBodyToServer [tame_rules]: "tame (sendBodyToServer m n i)"
  by (auto simp: sendBodyToServer_def tame_rules split: sum.split)

lemma tame_stop [tame_rules]: "tame (onSock (stop os))"
  by (auto simp: tame_def onSock_def stop_def andThen_def syscall_def discardDataBuffers_def setState_eq
      rxReset_def txReset_def split: prod.split sum.split)

lemma tame_send [tame_rules]:
  "tame (sendRegistrationReq os)" "tame (sendDisconnectionCnf os)"
proof -
  have "tame (\<lambda>s. case put_credentials (conn s) m of
       Inl e \<Rightarrow> (Inl e, s)
     | Inr m' \<Rightarrow> sendBodyToServer m' sizeof_RegistrationReq REGISTRATION_REQ s)" for m
    using tame_sendBodyToServer unfolding tame_def by (auto split: sum.split)
  then show "tame (sendRegistrationReq os)" unfolding sendRegistrationReq_def by (intro tame_rules)
qed (simp add: sendDisconnectionCnf_def tame_rules)

lemma tame_RegistrationData [tame_rules]: "tame (RegistrationDataFromUserInterface n p e)"
  unfolding RegistrationDataFromUserInterface_def setExtEvent_def by (intro tame_rules) simp_all

lemma tame_events [tame_rules]: "tame (handle_events os evs)"
proof (induction evs)
  case (Cons ev evs)
  have "tame (handleOneExtEvent os ev)"
    unfolding handleOneExtEvent_def by (cases ev) (auto intro!: tame_rules)
  with Cons show ?case by (simp add: tame_andThen)
qed (simp add: tame_def)

lemma tame_handleExtEvents: "tame (handleExtEvents os)"
proof -
  have "tame (andThen (handle_events os evs) (\<lambda>_. modConn (\<lambda>c. c\<lparr>ext_event := {}\<rparr>)))" for evs
    by (intro tame_rules) simp
  then show ?thesis unfolding handleExtEvents_def tame_def by simp
qed

lemma tame_handle_server_message: "tame (handle_server_message os m)"
proof -
  have "tame (handleConnectionCnf os m)" unfolding handleConnectionCnf_def by (intro tame_rules) simp_all
  moreover have "tame (handleConnectionRej m)"
    unfolding handleConnectionRej_def by (auto intro: tame_rules split: option.split)
  moreover have "tame handleRegistrationCnf" "tame handleRegistrationRej" "tame handleUserLoginCnf"
    "tame handleUserLoginRej"
    unfolding handleRegistrationCnf_def handleRegistrationRej_def handleUserLoginCnf_def handleUserLoginRej_def
    by (intro tame_rules; simp)+
  moreover have "tame (handleDisconnectionReq os m)" "tame (handleDisconnectionCnf os)"
    unfolding handleDisconnectionReq_def handleDisconnectionCnf_def by (intro tame_rules; simp)+
  ultimately show ?thesis
    unfolding handle_server_message_def
    by (auto intro!: tame_rules split: option.split ClientServerL1MessageId.split)
qed

section \<open>The message loop of the client\<close>

lemma nextFromServer_simps:
  "rx_fifo (sock s) = [] \<Longrightarrow> nextFromServer s = (None, s)"
  "rx_fifo (sock s) = m # ms \<Longrightarrow> nextFromServer s = (Some m, s\<lparr>sock := (sock s)\<lparr>rx_fifo := ms\<rparr>\<rparr>)"
  by (simp_all add: nextFromServer_def getNextReceivedMsg_def)

lemma nextFromServer_state: "nextFromServer s = (m, t) \<Longrightarrow> conn t = conn s"
  by (auto simp: nextFromServer_def split: prod.splits)

interpretation client_msgs: message_handler nextFromServer "handle_server_message os"
    "\<lambda>s. rx_fifo (sock s)" "\<lambda>s. client_steps st0 (cnx_state (conn s))" for os st0
proof
  fix s s' t :: "'a client" and m r
  assume s: "client_steps st0 (cnx_state (conn s))" "nextFromServer s = (Some m, s')"
    and h: "handle_server_message os m s' = (r, t)"
  from tameD [OF tame_handle_server_message h] nextFromServer_state [OF s(2)] s(1)
  show "rx_fifo (sock t) = rx_fifo (sock s') \<or> rx_fifo (sock t) = []"
    and "client_steps st0 (cnx_state (conn t))" by auto
qed (simp_all add: nextFromServer_simps)

lemma poll_body_steps:
  assumes "poll_body os s = Some (r, t)" shows "client_steps (cnx_state (conn s)) (cnx_state (conn t))"
proof -
  obtain r1 s1 where e: "handleExtEvents os s = (r1, s1)" by fastforce
  note s1 = conjunct1 [OF tameD [OF tame_handleExtEvents e]]
  show ?thesis
  proof (cases r1)
    case (Inl x)
    with assms e s1 show ?thesis by (simp add: poll_body_def)
  next
    case (Inr x)
    with assms e obtain r2 s2 where p: "poll_socket os s1 = Some (r2, s2)"
      by (cases "poll_socket os s1") (auto simp: poll_body_def)
    then have c: "conn s2 = conn s1" by (auto simp: poll_socket_def)
    show ?thesis
    proof (cases r2)
      case (Inl x)
      with assms e Inr p s1 c show ?thesis by (simp add: poll_body_def)
    next
      case (Inr incoming)
      show ?thesis
      proof (cases incoming)
        case True
        with assms e \<open>r1 = Inr x\<close> p Inr
        have "dispatch nextFromServer (handle_server_message os) s2 = Some (r, t)" by (simp add: poll_body_def)
        from client_msgs.dispatch_keeps [OF _ this, of "cnx_state (conn s)"] s1 c show ?thesis by simp
      next
        case False
        with assms e \<open>r1 = Inr x\<close> p Inr s1 c show ?thesis by (simp add: poll_body_def)
      qed
    qed
  qed
qed

lemma cnx_poll_steps:
  assumes "cnx_poll os s = Some (r, t)" shows "client_steps (cnx_state (conn s)) (cnx_state (conn t))"
proof (cases "cnx_state_val (cnx_state (conn s)) \<le> cnx_state_val NO_CONNECTION")
  case True
  with assms show ?thesis by (simp add: cnx_poll_eq)
next
  case False
  with assms obtain r1 t1 where p: "poll_body os s = Some (r1, t1)"
    by (auto simp: cnx_poll_eq split: option.splits)
  note st = poll_body_steps [OF p]
  show ?thesis
  proof (cases "\<exists>e. r1 = Inl (SocketDisconnection e)")
    case True
    with assms False p have "set_cnx_state NO_CONNECTION t1 = (r, t)" by (auto simp: cnx_poll_eq)
    with tameD [OF tame_set_cnx_state [of NO_CONNECTION] this] st show ?thesis by auto
  next
    case False
    with assms p \<open>\<not> _ \<le> _\<close> have "t = t1"
      by (cases r1) (auto simp: cnx_poll_eq split: exn.splits)
    with st show ?thesis by simp
  qed
qed

section \<open>The protocol of the client\<close>

text \<open>
  What the client does on each message of the server: \<open>obey\<close> gives its next state and the effect on the
  socket, \<open>None\<close> where it aborts.
\<close>

datatype server_msg =
    ConnectionCnfMsg
  | ConnectionRejMsg "ConnectionRejCause option"
  | UserLoginCnfMsg
  | UserLoginRejMsg
  | RegistrationCnfMsg
  | RegistrationRejMsg
  | ServerDisconnectionReqMsg "32 word"
  | ServerDisconnectionCnfMsg
  | ServerIgnoredMsg
  | ServerUnexpectedMsg

datatype effect = No_effect | Confirm_disconnection | Close_socket

record abs_client =
  s_state :: CnxState
  s_pending :: bool
  s_name :: "byte list"
  s_passwd :: "byte list"
  s_email :: "byte list"

definition abs_client_of :: "ClientConnection \<Rightarrow> abs_client" where
  "abs_client_of c = \<lparr>s_state = cnx_state c, s_pending = (NEW_CREDENTIALS \<in> ext_event c),
     s_name = user_name c, s_passwd = user_passwd c, s_email = user_email c\<rparr>"

fun obey :: "server_msg \<Rightarrow> abs_client \<Rightarrow> (abs_client \<times> effect) option" where
  "obey ConnectionCnfMsg a =
    (if s_state a = CONNECTING
     then Some (a\<lparr>s_state := CONNECTED_NO_CREDENTIALS, s_pending := True, s_name := bytes_of ''Alberto'',
                  s_passwd := bytes_of ''toto66'', s_email := bytes_of ''alberto.alberto@zazou.com''\<rparr>, No_effect)
     else None)"
| "obey (ConnectionRejMsg cause) a = (if cause = None then None else Some (a, No_effect))"
| "obey UserLoginCnfMsg a =
    (if s_state a = REGISTERING then Some (a\<lparr>s_state := REGISTERED\<rparr>, No_effect) else None)"
| "obey UserLoginRejMsg a =
    (if s_state a = REGISTERING then Some (a\<lparr>s_state := AUTH_REJECTED\<rparr>, No_effect) else None)"
| "obey RegistrationCnfMsg a =
    (if s_state a = REGISTERING then Some (a\<lparr>s_state := REGISTERED\<rparr>, No_effect) else None)"
| "obey RegistrationRejMsg a =
    (if s_state a \<in> {CONNECTING, REGISTERING}
     then Some (a\<lparr>s_state := CONNECTED_NO_CREDENTIALS\<rparr>, No_effect) else None)"
| "obey (ServerDisconnectionReqMsg cause) a =
    (if cause = disconnection_req_val SERVER_SHUTDOWN
     then Some (a\<lparr>s_state := CLOSING\<rparr>, Confirm_disconnection) else None)"
| "obey ServerDisconnectionCnfMsg a =
    (if s_state a = DISCONNECTING then Some (a\<lparr>s_state := CLOSING\<rparr>, Close_socket) else None)"
| "obey ServerIgnoredMsg a = Some (a, No_effect)"
| "obey ServerUnexpectedMsg a = None"

text \<open>
  The messages of one poll: the state at the end, the number of confirmations queued and whether the socket
  was closed, which drops the messages after.
\<close>

fun obey_all :: "server_msg list \<Rightarrow> abs_client \<Rightarrow> (abs_client \<times> nat \<times> bool) option" where
  "obey_all [] a = Some (a, 0, False)"
| "obey_all (e # es) a = (case obey e a of
      None \<Rightarrow> None
    | Some (b, No_effect) \<Rightarrow> obey_all es b
    | Some (b, Confirm_disconnection) \<Rightarrow> map_option (\<lambda>(c, n, z). (c, n + 1, z)) (obey_all es b)
    | Some (b, Close_socket) \<Rightarrow> Some (b, 0, True))"

definition decode_server_msg :: "mem \<Rightarrow> server_msg" where
  "decode_server_msg m = (case id_of (l1_id m) of
      Some CONNECTION_CNF \<Rightarrow> ConnectionCnfMsg
    | Some CONNECTION_REJ \<Rightarrow> ConnectionRejMsg (connection_rej_of (get_enum (l1_body m)))
    | Some USER_LOGGING_CNF \<Rightarrow> UserLoginCnfMsg
    | Some USER_LOGGING_REJ \<Rightarrow> UserLoginRejMsg
    | Some REGISTRATION_CNF \<Rightarrow> RegistrationCnfMsg
    | Some REGISTRATION_REJ \<Rightarrow> RegistrationRejMsg
    | Some DISCONNECTION_REQ \<Rightarrow> ServerDisconnectionReqMsg (get_enum (l1_body m))
    | Some DISCONNECTION_CNF \<Rightarrow> ServerDisconnectionCnfMsg
    | Some i \<Rightarrow> (if i \<in> {POLL_REQ, POLL_CNF, DATA_TRANSFER_REQ, TRANSFER_DATA_BLK, FILE_TRANSFER_REQ}
                 then ServerIgnoredMsg else ServerUnexpectedMsg)
    | None \<Rightarrow> ServerUnexpectedMsg)"

definition is_disconnection_cnf :: "request \<Rightarrow> bool" where
  "is_disconnection_cnf r \<longleftrightarrow> l2_payload_length r = 1 \<and> nb_payload_bytes_sent r = 0
     \<and> (case kind r of MsgRequest i m \<Rightarrow> i = DISCONNECTION_CNF | _ \<Rightarrow> False)"

text \<open>The socket after one message with the given effect.\<close>

fun sock_effect :: "effect \<Rightarrow> MsgSocket \<Rightarrow> MsgSocket \<Rightarrow> bool" where
  "sock_effect No_effect x y \<longleftrightarrow> y = x"
| "sock_effect Confirm_disconnection x y \<longleftrightarrow> (\<exists>r. y = sendMsg r x \<and> is_disconnection_cnf r)"
| "sock_effect Close_socket x y \<longleftrightarrow> socket_descr y = -1 \<and> tx_fifo y = [] \<and> rx_fifo y = []"

lemma set_cnx_state_simp:
  "set_cnx_state st s = (if state_change_ok (cnx_state (conn s)) st
     then (Inr (), s\<lparr>conn := (conn s)\<lparr>cnx_state := st\<rparr>\<rparr>) else (Inl AssertFailed, s))"
  by (simp add: set_cnx_state_def andThen_def assertS_def)

lemma sendDisconnectionCnf_simp:
  "\<exists>k r. sendDisconnectionCnf os s = (Inr (), s\<lparr>kern := k, sock := sendMsg r (sock s)\<rparr>) \<and> is_disconnection_cnf r"
proof -
  obtain b k where "os_new os (kern s) = (b, k)" by fastforce
  then show ?thesis
    by (intro exI [of _ k] exI [of _ "\<lparr>l2_payload_length = 1, nb_payload_bytes_sent = 0,
        kind = MsgRequest DISCONNECTION_CNF b\<rparr>"])
      (simp add: sendDisconnectionCnf_def sendBodyToServer_def new_MsgRequest_def sendMsgToServer_def
        is_disconnection_cnf_def)
qed

lemma onSock_stop: "\<exists>t. onSock (stop os) s = (Inr (), t) \<and> conn t = conn s
  \<and> socket_descr (sock t) = -1 \<and> tx_fifo (sock t) = [] \<and> rx_fifo (sock t) = []"
  by (auto simp: onSock_def stop_def andThen_def syscall_def discardDataBuffers_def setState_eq
      rxReset_def txReset_def split: prod.split sum.split)

lemma handle_server_message_obeys:
  "case obey (decode_server_msg m) (abs_client_of (conn s)) of
     None \<Rightarrow> fst (handle_server_message os m s) = Inl AssertFailed
   | Some (a, ef) \<Rightarrow> \<exists>t. handle_server_message os m s = (Inr (), t) \<and> abs_client_of (conn t) = a
       \<and> sock_effect ef (sock s) (sock t)"
proof (cases "id_of (l1_id m)")
  case None
  then show ?thesis by (simp add: decode_server_msg_def handle_server_message_def)
next
  case (Some i)
  note d = decode_server_msg_def Some handle_server_message_def abs_client_of_def
  show ?thesis
  proof (cases i)
    case CONNECTION_CNF
    then show ?thesis
      by (auto simp: d handleConnectionCnf_def set_cnx_state_simp RegistrationDataFromUserInterface_def
          setExtEvent_def fit_def bytes_of_def andThen_def assertS_def)
  next
    case CONNECTION_REJ
    then show ?thesis by (auto simp: d handleConnectionRej_def split: option.split)
  next
    case USER_LOGGING_CNF
    then show ?thesis by (auto simp: d handleUserLoginCnf_def set_cnx_state_simp)
  next
    case USER_LOGGING_REJ
    then show ?thesis by (auto simp: d handleUserLoginRej_def set_cnx_state_simp)
  next
    case REGISTRATION_CNF
    then show ?thesis by (auto simp: d handleRegistrationCnf_def set_cnx_state_simp)
  next
    case REGISTRATION_REJ
    then show ?thesis by (auto simp: d handleRegistrationRej_def set_cnx_state_simp)
  next
    case DISCONNECTION_REQ
    from sendDisconnectionCnf_simp [of os s] DISCONNECTION_REQ show ?thesis
      by (auto simp: d handleDisconnectionReq_def set_cnx_state_simp andThen_def assertS_def)
  next
    case DISCONNECTION_CNF
    from onSock_stop [of os s] DISCONNECTION_CNF show ?thesis
      by (auto simp: d handleDisconnectionCnf_def set_cnx_state_simp andThen_def assertS_def)
  qed (simp_all add: d)
qed

definition obeyed :: "MsgSocket \<Rightarrow> nat \<Rightarrow> bool \<Rightarrow> MsgSocket \<Rightarrow> bool" where
  "obeyed x n closed y \<longleftrightarrow>
    (if closed then socket_descr y = -1 \<and> tx_fifo y = [] \<and> rx_fifo y = []
     else \<exists>rs. y = x\<lparr>rx_fifo := [], tx_fifo := tx_fifo x @ rs\<rparr> \<and> length rs = n \<and> list_all is_disconnection_cnf rs)"

lemma obeyed_send:
  assumes "is_disconnection_cnf r" "obeyed ((sendMsg r x)) n z y" shows "obeyed x (n + 1) z y"
proof (cases z)
  case True
  with assms show ?thesis by (simp add: obeyed_def)
next
  case False
  with assms(2) obtain rs where "y = (sendMsg r x)\<lparr>rx_fifo := [], tx_fifo := tx_fifo (sendMsg r x) @ rs\<rparr>"
    "length rs = n" "list_all is_disconnection_cnf rs" by (auto simp: obeyed_def)
  with assms(1) False show ?thesis
    by (auto simp: obeyed_def sendMsg_def intro!: exI [of _ "r # rs"])
qed

lemma obeyed_rx: "obeyed (x\<lparr>rx_fifo := ms\<rparr>) n z y \<longleftrightarrow> obeyed x n z y"
  by (simp add: obeyed_def)

lemma client_session_obeys:
  "map decode_server_msg (rx_fifo (sock s)) = evs \<Longrightarrow>
   case obey_all evs (abs_client_of (conn s)) of
      None \<Rightarrow> \<exists>t. dispatch nextFromServer (handle_server_message os) s = Some (Inl AssertFailed, t)
    | Some (a, n, closed) \<Rightarrow> \<exists>t. dispatch nextFromServer (handle_server_message os) s = Some (Inr (), t)
        \<and> abs_client_of (conn t) = a \<and> obeyed (sock s) n closed (sock t)"
proof (induction evs arbitrary: s)
  case Nil
  then have "rx_fifo (sock s) = []" by simp
  then show ?case by (simp add: dispatch.simps [of _ _ s] nextFromServer_simps obeyed_def exI [of _ "[]"])
next
  case (Cons ev evs)
  from Cons.prems obtain m ms where rx: "rx_fifo (sock s) = m # ms" "decode_server_msg m = ev"
    "map decode_server_msg ms = evs" by (auto simp: map_eq_Cons_conv)
  define s' where "s' = s\<lparr>sock := (sock s)\<lparr>rx_fifo := ms\<rparr>\<rparr>"
  have n: "nextFromServer s = (Some m, s')" using rx(1) by (simp add: nextFromServer_simps s'_def)
  have s': "conn s' = conn s" "sock s' = (sock s)\<lparr>rx_fifo := ms\<rparr>" by (simp_all add: s'_def)
  note h = handle_server_message_obeys [where m = m and s = s' and os = os, unfolded rx(2) s']
  show ?case
  proof (cases "obey ev (abs_client_of (conn s))")
    case None
    with h obtain t where "handle_server_message os m s' = (Inl AssertFailed, t)"
      by (cases "handle_server_message os m s'") auto
    with None n show ?thesis by (simp add: dispatch.simps [of _ _ s])
  next
    case (Some p)
    obtain a ef where p: "p = (a, ef)" by fastforce
    with h Some obtain t where t: "handle_server_message os m s' = (Inr (), t)" "abs_client_of (conn t) = a"
      "sock_effect ef ((sock s)\<lparr>rx_fifo := ms\<rparr>) (sock t)" by auto
    have rest: "dispatch nextFromServer (handle_server_message os) s = dispatch nextFromServer (handle_server_message os) t"
      using n t(1) by (simp add: dispatch.simps [of _ _ s])
    show ?thesis
    proof (cases ef)
      case No_effect
      with t(3) have x: "sock t = (sock s)\<lparr>rx_fifo := ms\<rparr>" by simp
      then have "map decode_server_msg (rx_fifo (sock t)) = evs" using rx(3) by simp
      from Cons.IH [OF this] t(2) rest Some p No_effect x show ?thesis
        by (auto simp: obeyed_rx split: option.splits prod.splits)
    next
      case Confirm_disconnection
      with t(3) obtain r where x: "sock t = sendMsg r ((sock s)\<lparr>rx_fifo := ms\<rparr>)" and r: "is_disconnection_cnf r"
        by auto
      then have "map decode_server_msg (rx_fifo (sock t)) = evs" using rx(3) by (simp add: sendMsg_def)
      from Cons.IH [OF this] t(2) rest Some p Confirm_disconnection x show ?thesis
        by (auto split: option.splits prod.splits dest!: obeyed_send [OF r] simp: obeyed_rx)
    next
      case Close_socket
      with t(3) have x: "socket_descr (sock t) = -1" "tx_fifo (sock t) = []" "rx_fifo (sock t) = []" by simp_all
      then have "dispatch nextFromServer (handle_server_message os) t = Some (Inr (), t)"
        by (simp add: dispatch.simps [of _ _ t] nextFromServer_simps)
      with t(2) rest Some p Close_socket x show ?thesis by (simp add: obeyed_def)
    qed
  qed
qed

section \<open>What the client sends\<close>

text \<open>
  The senders copy a string without its NUL and write the NUL one byte too far, so the byte between is
  the one the fresh memory held: the receiver reads the string, followed by that byte unless it is 0.
\<close>

definition padded :: "byte list \<Rightarrow> byte \<Rightarrow> byte list" where
  "padded v b = (if b = 0 then v else v @ [b])"

lemma cstring_cong:
  assumes "cstring m n p = Some v" "\<And>i. i \<le> length v \<Longrightarrow> m' (p + i) = m (p + i)"
  shows "cstring m' n p = Some v"
proof (rule cstring_eq_Some)
  note d = cstring_SomeD [OF assms(1)]
  show "length v < n" "0 \<notin> set v" using d by simp_all
  show "m' (p + length v) = 0" using d assms(2) by simp
  have "read_bytes m' p (length v) = read_bytes m p (length v)"
    using assms(2) by (simp add: list_eq_iff_nth_eq)
  then show "read_bytes m' p (length v) = v" using d by simp
qed

lemma put_string_reads:
  assumes "length s \<le> n" and "p + length s + 1 < CLIENTSERVER_MAX_L1_MSG_BODY_SIZE" and "0 \<notin> set s"
    and "length s + 1 < k"
  shows "\<exists>m'. put_string s p n m = Inr m' \<and> cstring m' k p = Some (padded s (m (p + length s)))
    \<and> (\<forall>i. i < p \<or> p + length s + 1 < i \<longrightarrow> m' i = m i)"
proof -
  note e = put_string_eq [OF assms(1,2), of m]
  from cstring_put_string [OF assms(1,2) e assms(3,4)] e show ?thesis
    by (auto simp: padded_def write_bytes_out)
qed

definition creds_fit :: "ClientConnection \<Rightarrow> bool" where
  "creds_fit c \<longleftrightarrow> length (user_name c) \<le> 30 \<and> length (user_passwd c) \<le> 30 \<and> length (user_email c) \<le> 126
     \<and> 0 \<notin> set (user_name c) \<and> 0 \<notin> set (user_passwd c) \<and> 0 \<notin> set (user_email c)"

lemma length_padded: "length (padded v b) \<le> length v + 1"
  by (simp add: padded_def)

lemma put_credentials_reads:
  assumes "creds_fit c"
  shows "\<exists>m'. put_credentials c m = Inr m'
    \<and> cstring m' 8192 0 = Some (padded (user_name c) (m (length (user_name c))))
    \<and> cstring m' 8160 off_password = Some (padded (user_passwd c) (m (off_password + length (user_passwd c))))
    \<and> cstring m' 8128 off_mail_address = Some (padded (user_email c) (m (off_mail_address + length (user_email c))))"
proof -
  note f = assms [unfolded creds_fit_def]
  from put_string_reads [of "user_name c" "length (user_name c)" 0 8192 m] f obtain m1
    where 1: "put_string (user_name c) 0 (length (user_name c)) m = Inr m1"
      "cstring m1 8192 0 = Some (padded (user_name c) (m (length (user_name c))))"
      "\<forall>i. length (user_name c) + 1 < i \<longrightarrow> m1 i = m i" by auto
  from put_string_reads [of "user_passwd c" "length (user_passwd c)" 32 8160 m1] f obtain m2
    where 2: "put_string (user_passwd c) 32 (length (user_passwd c)) m1 = Inr m2"
      "cstring m2 8160 32 = Some (padded (user_passwd c) (m1 (32 + length (user_passwd c))))"
      "\<forall>i. i < 32 \<or> 32 + length (user_passwd c) + 1 < i \<longrightarrow> m2 i = m1 i" by auto
  from put_string_reads [of "user_email c" 128 64 8128 m2] f obtain m3
    where 3: "put_string (user_email c) 64 128 m2 = Inr m3"
      "cstring m3 8128 64 = Some (padded (user_email c) (m2 (64 + length (user_email c))))"
      "\<forall>i. i < 64 \<or> 64 + length (user_email c) + 1 < i \<longrightarrow> m3 i = m2 i" by auto
  have "cstring m3 8192 0 = Some (padded (user_name c) (m (length (user_name c))))"
    by (rule cstring_cong [OF 1(2)])
      (use f 2(3) 3(3) length_padded [of "user_name c" "m (length (user_name c))"] in simp)
  moreover have "cstring m3 8160 32 = Some (padded (user_passwd c) (m (32 + length (user_passwd c))))"
  proof -
    have "m1 (32 + length (user_passwd c)) = m (32 + length (user_passwd c))" using 1(3) f by simp
    with 2(2) have "cstring m2 8160 32 = Some (padded (user_passwd c) (m (32 + length (user_passwd c))))" by simp
    then show ?thesis
      by (rule cstring_cong)
        (use f 3(3) length_padded [of "user_passwd c" "m (32 + length (user_passwd c))"] in simp)
  qed
  moreover have "m2 (64 + length (user_email c)) = m (64 + length (user_email c))"
    using 1(3) 2(3) f by simp
  ultimately show ?thesis
    using 1(1) 2(1) 3(1,2) by (simp add: put_credentials_def off_password_def off_mail_address_def)
qed

lemma connect_cases:
  assumes "from_dir (sock s) = FROM_CLIENT"
    and "os_connect os (socket_descr (sock s)) (peer_ip_addr (sock s)) (kern s) = (r, k)"
  shows "onSock (connect os) s = (case r of
        Inr _ \<Rightarrow> Inr ()
      | Inl err \<Rightarrow> if err = EINPROGRESS \<or> err = EINTR then Inr ()
          else if err \<in> recoverable_connect then Inl (ThrownString ''::connect() recoverable error '')
          else Inl AssertFailed,
      s\<lparr>kern := k, errno := (case r of Inr _ \<Rightarrow> errno s | Inl err \<Rightarrow> err),
        sock := (sock s)\<lparr>sock_state := SOCK_CONNECTING\<rparr>\<rparr>)"
  using assms
  by (auto simp: onSock_def connect_eq syscall_def andThen_def assertS_def split: sum.split)

lemma sendConnectionReq_queues:
  "\<exists>k m r. sendConnectionReq os s = (Inr (), s\<lparr>kern := k, sock := sendMsg r (sock s)\<rparr>)
    \<and> l2_payload_length r = sizeof_ConnectionReq \<and> nb_payload_bytes_sent r = 0 \<and> kind r = MsgRequest CONNECTION_REQ m
    \<and> cstring m 8192 0 = Some (padded main_version (fst (os_new os (kern s)) (length main_version)))"
proof -
  obtain b k where b: "os_new os (kern s) = (b, k)" by fastforce
  from put_string_reads [of main_version "length main_version" 0 8192 b] obtain m
    where m: "put_string main_version 0 (length main_version) b = Inr m"
      "cstring m 8192 0 = Some (padded main_version (b (length main_version)))" by auto
  from b m show ?thesis
    by (intro exI [of _ k] exI [of _ m] exI [of _ "\<lparr>l2_payload_length = sizeof_ConnectionReq,
        nb_payload_bytes_sent = 0, kind = MsgRequest CONNECTION_REQ m\<rparr>"])
      (simp add: sendConnectionReq_def sendBodyToServer_def new_MsgRequest_def sendMsgToServer_def)
qed

lemma cnx_poll_ends:
  assumes "\<And>x. poll os x \<noteq> None" shows "\<exists>r t. cnx_poll os s = Some (r, t)"
proof -
  have "poll_body os s \<noteq> None"
  proof -
    obtain r1 s1 where e: "handleExtEvents os s = (r1, s1)" by fastforce
    obtain r2 s2 where p: "poll_socket os s1 = Some (r2, s2)"
      using assms [of "\<lparr>kern = kern s1, errno = errno s1, sock = sock s1\<rparr>"]
      by (cases "poll_socket os s1") (auto simp: poll_socket_def)
    show ?thesis
      using e p client_msgs.dispatch_ends [of "cnx_state (conn s2)" s2 os]
      by (cases r1; cases r2) (auto simp: poll_body_def)
  qed
  then obtain r1 t1 where p: "poll_body os s = Some (r1, t1)" by auto
  then show ?thesis
  proof (cases "\<exists>e. r1 = Inl (SocketDisconnection e)")
    case True
    obtain r2 t2 where "set_cnx_state NO_CONNECTION t1 = (r2, t2)" by fastforce
    with True p show ?thesis by (auto simp: cnx_poll_eq)
  next
    case False
    with p have "(case poll_body os s of
         Some (Inl (SocketDisconnection e), t) \<Rightarrow> Some (set_cnx_state NO_CONNECTION t)
       | r \<Rightarrow> r) = Some (r1, t1)" by (cases r1) (auto split: exn.split)
    then show ?thesis by (simp add: cnx_poll_eq)
  qed
qed

section \<open>Properties\<close>

text \<open>
  C9. Whatever messages the server has sent, handling them takes the client through the protocol \<open>obey\<close>: it
  aborts exactly where the protocol has no reaction, and otherwise ends with the protocol's state, pending
  event and credentials and with one disconnection confirmation queued per request, or with the socket closed.
\<close>

theorem client_session_refines_protocol:
  shows "case obey_all (map decode_server_msg (rx_fifo (sock s))) (abs_client_of (conn s)) of
      None \<Rightarrow> \<exists>t. dispatch nextFromServer (handle_server_message os) s = Some (Inl AssertFailed, t)
    | Some (a, n, closed) \<Rightarrow> \<exists>t. dispatch nextFromServer (handle_server_message os) s = Some (Inr (), t)
        \<and> abs_client_of (conn t) = a \<and> obeyed (sock s) n closed (sock t)"
  by (rule client_session_obeys) simp

text \<open>
  C13. A poll changes the state of the connection only along \<open>client_step\<close>, whatever arrives and whatever
  the outcome: a registered client was registering before, a rejected one too, a poll never enters
  \<open>CNX_REJECTED\<close>, and from \<open>REGISTERED\<close> it only goes to \<open>CLOSING\<close> or \<open>NO_CONNECTION\<close>.
\<close>

theorem poll_follows_state_machine:
  assumes "cnx_poll os s = Some (r, t)"
  shows "client_steps (cnx_state (conn s)) (cnx_state (conn t))
    \<and> (cnx_state (conn t) = CNX_REJECTED \<longrightarrow> cnx_state (conn s) = CNX_REJECTED)
    \<and> (cnx_state (conn s) = REGISTERED \<longrightarrow> cnx_state (conn t) \<in> {REGISTERED, CLOSING, NO_CONNECTION})"
proof -
  have st: "client_steps (cnx_state (conn s)) (cnx_state (conn t))" by (rule cnx_poll_steps [OF assms])
  have never: "b = CNX_REJECTED \<longrightarrow> a = CNX_REJECTED" if "client_steps a b" for a b
    using that by (induction rule: rtranclp_induct) (auto simp: client_step_never)
  have reg: "b \<in> {REGISTERED, CLOSING, NO_CONNECTION}" if "client_steps REGISTERED b" for b
    using that by (induction rule: rtranclp_induct) auto
  show ?thesis
  proof (intro conjI impI)
    show "cnx_state (conn s) = CNX_REJECTED" if "cnx_state (conn t) = CNX_REJECTED"
      using never [OF st] that by simp
    show "cnx_state (conn t) \<in> {REGISTERED, CLOSING, NO_CONNECTION}" if "cnx_state (conn s) = REGISTERED"
      using reg [OF st [unfolded that]] .
  qed (rule st)
qed

definition sample_client :: "'k \<Rightarrow> CnxState \<Rightarrow> CnxExtEvent set \<Rightarrow> 'k client" where
  "sample_client k st evs = \<lparr>kern = k, errno = 0,
     sock = new_MsgSocket ClientSocket_class \<lparr>s_addr = 0, sin_port = 0\<rparr> 5 FROM_CLIENT (\<lambda>_. 0),
     conn = \<lparr>cnx_state = st, server_ip_addr = \<lparr>s_addr = 0, sin_port = 0\<rparr>, ip_interface_name = [],
       ciphering = NO_CICPHERING, ciph_kea = (\<lambda>_. 0), ext_event = evs, user_name = [98, 111, 98],
       user_passwd = [112, 119], user_email = [98, 64, 99]\<rparr>\<rparr>"

lemma sample_client_sel [simp]:
  "kern (sample_client k st evs) = k" "cnx_state (conn (sample_client k st evs)) = st"
  "ext_event (conn (sample_client k st evs)) = evs" "from_dir (sock (sample_client k st evs)) = FROM_CLIENT"
  "socket_descr (sock (sample_client k st evs)) = 5" "creds_fit (conn (sample_client k st evs))"
  by (simp_all add: sample_client_def new_MsgSocket_def rxReset_def creds_fit_def)

definition quiet_os :: "unit os" where
  "quiet_os = failing_os\<lparr>os_poll := \<lambda>fd events. Pair (Inr None)\<rparr>"

lemma poll_quiet: "poll quiet_os s = Some (Inr False, s)"
  by (simp add: poll_def quiet_os_def syscall_def)

lemma poll_follows_state_machine_witness:
  "\<exists>r t. cnx_poll quiet_os (sample_client () CONNECTED_NO_CREDENTIALS {NEW_CREDENTIALS}) = Some (r, t)
     \<and> client_steps CONNECTED_NO_CREDENTIALS (cnx_state (conn t))"
proof -
  let ?s = "sample_client () CONNECTED_NO_CREDENTIALS {NEW_CREDENTIALS}"
  from cnx_poll_ends [of quiet_os ?s] obtain r t where "cnx_poll quiet_os ?s = Some (r, t)"
    by (auto simp: poll_quiet)
  with poll_follows_state_machine [OF this] show ?thesis by auto
qed

text \<open>
  Starting: only a connection that has not been started may be; the socket is set connecting and the second
  \<^verbatim>\<open>connect\<close> decides. On success the connection request is queued, with the version string in it, followed
  by a byte of the fresh memory.
\<close>

theorem start_outcomes:
  assumes "from_dir (sock s) = FROM_CLIENT"
    and "os_connect os (socket_descr (sock s)) (peer_ip_addr (sock s)) (kern s) = (r, k)"
  shows "case StartConnectionToServer os s of (res, t) \<Rightarrow>
    if cnx_state (conn s) \<noteq> NO_SOCKET then res = Inl AssertFailed \<and> t = s
    else cnx_state (conn t) = CONNECTING \<and> sock_state (sock t) = SOCK_CONNECTING \<and>
      (if r = Inr () \<or> r \<in> Inl ` {EINPROGRESS, EINTR}
       then res = Inr () \<and> (\<exists>q m. tx_fifo (sock t) = tx_fifo (sock s) @ [q]
          \<and> kind q = MsgRequest CONNECTION_REQ m \<and> l2_payload_length q = sizeof_ConnectionReq
          \<and> cstring m 8192 0 = Some (padded main_version (fst (os_new os k) (length main_version))))
       else tx_fifo (sock t) = tx_fifo (sock s)
          \<and> res = Inl (if r \<in> Inl ` recoverable_connect
              then ThrownString ''::connect() recoverable error '' else AssertFailed))"
proof (cases "cnx_state (conn s) = NO_SOCKET")
  case True
  define s1 where "s1 = s\<lparr>conn := (conn s)\<lparr>cnx_state := CONNECTING\<rparr>\<rparr>"
  define s2 where "s2 = s1\<lparr>kern := k, errno := (case r of Inr _ \<Rightarrow> errno s1 | Inl err \<Rightarrow> err),
        sock := (sock s1)\<lparr>sock_state := SOCK_CONNECTING\<rparr>\<rparr>"
  have c: "onSock (connect os) s1 = (case r of
        Inr _ \<Rightarrow> Inr ()
      | Inl err \<Rightarrow> if err = EINPROGRESS \<or> err = EINTR then Inr ()
          else if err \<in> recoverable_connect then Inl (ThrownString ''::connect() recoverable error '')
          else Inl AssertFailed, s2)"
    unfolding s2_def by (rule connect_cases) (use assms in \<open>simp_all add: s1_def\<close>)
  have st: "StartConnectionToServer os s = andThen (onSock (connect os)) (\<lambda>_. sendConnectionReq os) s1"
    using True by (simp add: StartConnectionToServer_def set_cnx_state_simp s1_def)
  show ?thesis
  proof (cases "r = Inr () \<or> r \<in> Inl ` {EINPROGRESS, EINTR}")
    case ok: True
    then have "onSock (connect os) s1 = (Inr (), s2)" using c by auto
    then have "StartConnectionToServer os s = sendConnectionReq os s2" using st by simp
    with sendConnectionReq_queues [of os s2] ok True show ?thesis
      by (auto simp: s2_def s1_def sendMsg_def)
  next
    case bad: False
    then obtain err where r: "r = Inl err" "err \<noteq> EINPROGRESS" "err \<noteq> EINTR" by (cases r) auto
    then have "onSock (connect os) s1 = (Inl (if r \<in> Inl ` recoverable_connect
        then ThrownString ''::connect() recoverable error '' else AssertFailed), s2)" using c by auto
    with st have "StartConnectionToServer os s = (Inl (if r \<in> Inl ` recoverable_connect
        then ThrownString ''::connect() recoverable error '' else AssertFailed), s2)" by simp
    with bad True show ?thesis by (simp add: s2_def s1_def)
  qed
next
  case False
  then show ?thesis by (simp add: StartConnectionToServer_def set_cnx_state_simp)
qed

lemma start_outcomes_witness:
  "\<exists>t q. StartConnectionToServer (failing_os\<lparr>os_connect := \<lambda>fd a. Pair (Inl EINPROGRESS)\<rparr>)
       (sample_client () NO_SOCKET {}) = (Inr (), t)
     \<and> tx_fifo (sock t) = [q] \<and> cnx_state (conn t) = CONNECTING"
proof -
  let ?s = "sample_client () NO_SOCKET {}" and ?os = "failing_os\<lparr>os_connect := \<lambda>fd a. Pair (Inl EINPROGRESS)\<rparr>"
  have f: "tx_fifo (sock ?s) = []" by (simp add: sample_client_def new_MsgSocket_def rxReset_def)
  have "os_connect ?os (socket_descr (sock ?s)) (peer_ip_addr (sock ?s)) (kern ?s) = (Inl EINPROGRESS, ())"
    by simp
  from start_outcomes [OF sample_client_sel(4) this] f show ?thesis
    by (cases "StartConnectionToServer ?os ?s") auto
qed

text \<open>
  The constructor has already called \<^verbatim>\<open>connect\<close>; while that attempt is still in progress the kernel answers
  \<^verbatim>\<open>EALREADY\<close> to the second call, and starting the connection aborts the client.
\<close>

theorem start_after_construction_aborts:
  assumes "new_ClientConnection os addr ip s = Inr c"
    and "os_connect os (socket_descr (sock c)) addr (kern c) = (Inl EALREADY, k)"
  shows "fst (StartConnectionToServer os c) = Inl AssertFailed \<and> sock_state (sock c) = SOCK_CONNECTING"
proof -
  from assms(1) obtain fd k1 t where c: "new_ClientSocket os addr fd (s\<lparr>kern := k1\<rparr>) = (Inr (), t)"
    "sock c = sock t" "cnx_state (conn c) = NO_SOCKET"
    by (auto simp: new_ClientConnection_eq split: prod.splits sum.splits)
  obtain m k2 where m: "os_new os k1 = (m, k2)" by fastforce
  define s2 where "s2 = \<lparr>kern = k2, errno = errno s, sock = new_MsgSocket ClientSocket_class addr fd FROM_CLIENT m\<rparr>"
  from c(1) m have "andThen (socketConfiguration os) (\<lambda>_. connect os) s2 = (Inr (), t)"
    by (simp add: new_ClientSocket_def s2_def)
  then obtain x s3 where s3: "socketConfiguration os s2 = (Inr x, s3)" "connect os s3 = (Inr (), t)"
    by (rule andThen_InrE)
  have "sock s3 = sock s2" using s3(1)
    by (auto simp: socketConfiguration_def andThen_def assertS_def syscall_def split: prod.splits sum.splits if_splits)
  then have f: "from_dir (sock s3) = FROM_CLIENT" "peer_ip_addr (sock s3) = addr"
    by (simp_all add: s2_def new_MsgSocket_def rxReset_def)
  from connect_state [OF f(1) s3(2)] f c(2) have
    t: "from_dir (sock c) = FROM_CLIENT" "peer_ip_addr (sock c) = addr" "sock_state (sock c) = SOCK_CONNECTING"
    by simp_all
  have "onSock (connect os) (c\<lparr>conn := (conn c)\<lparr>cnx_state := CONNECTING\<rparr>\<rparr>) = (Inl AssertFailed,
      (c\<lparr>conn := (conn c)\<lparr>cnx_state := CONNECTING\<rparr>\<rparr>)\<lparr>kern := k, errno := EALREADY,
        sock := (sock c)\<lparr>sock_state := SOCK_CONNECTING\<rparr>\<rparr>)"
    using connect_cases [of "c\<lparr>conn := (conn c)\<lparr>cnx_state := CONNECTING\<rparr>\<rparr>" os "Inl EALREADY" k] assms(2) t
    by (simp add: recoverable_connect_def)
  with t(3) c(3) show ?thesis by (simp add: StartConnectionToServer_def set_cnx_state_simp)
qed

definition slow_connect_os :: "nat os" where
  "slow_connect_os = failing_os\<lparr>os_socket := Pair (Inr 5), os_nonblock := \<lambda>fd. Pair (Inr ()),
     os_connect := \<lambda>fd a k. (Inl (if k = 0 then EINPROGRESS else EALREADY), Suc k)\<rparr>"

lemma start_after_construction_aborts_witness:
  "\<exists>c. new_ClientConnection slow_connect_os \<lparr>s_addr = 0, sin_port = 0\<rparr> [] \<lparr>kern = 0, errno = 0\<rparr> = Inr c
     \<and> fst (StartConnectionToServer slow_connect_os c) = Inl AssertFailed"
proof -
  let ?a = "\<lparr>s_addr = 0, sin_port = 0\<rparr>"
  obtain c where c: "new_ClientConnection slow_connect_os ?a [] \<lparr>kern = 0, errno = 0\<rparr> = Inr c" "kern c = 1"
    by (simp add: new_ClientConnection_eq new_ClientSocket_def slow_connect_os_def failing_os_def
        socketConfiguration_def connect_eq andThen_def assertS_def syscall_def new_MsgSocket_def rxReset_def)
  have "os_connect slow_connect_os (socket_descr (sock c)) ?a (kern c) = (Inl EALREADY, 2)"
    using c(2) by (simp add: slow_connect_os_def)
  from start_after_construction_aborts [OF c(1) this] c(1) show ?thesis by simp
qed

lemma sendRegistrationReq_queues:
  assumes "creds_fit (conn s)"
  shows "\<exists>b k m r. os_new os (kern s) = (b, k)
    \<and> sendRegistrationReq os s = (Inr (), s\<lparr>kern := k, sock := sendMsg r (sock s)\<rparr>)
    \<and> l2_payload_length r = sizeof_RegistrationReq \<and> nb_payload_bytes_sent r = 0
    \<and> kind r = MsgRequest REGISTRATION_REQ m
    \<and> cstring m 8192 0 = Some (padded (user_name (conn s)) (b (length (user_name (conn s)))))
    \<and> cstring m 8160 off_password
        = Some (padded (user_passwd (conn s)) (b (off_password + length (user_passwd (conn s)))))
    \<and> cstring m 8128 off_mail_address
        = Some (padded (user_email (conn s)) (b (off_mail_address + length (user_email (conn s)))))"
proof -
  obtain b k where b: "os_new os (kern s) = (b, k)" by fastforce
  from put_credentials_reads [OF assms, of b] obtain m where m: "put_credentials (conn s) b = Inr m"
    "cstring m 8192 0 = Some (padded (user_name (conn s)) (b (length (user_name (conn s)))))"
    "cstring m 8160 off_password
        = Some (padded (user_passwd (conn s)) (b (off_password + length (user_passwd (conn s)))))"
    "cstring m 8128 off_mail_address
        = Some (padded (user_email (conn s)) (b (off_mail_address + length (user_email (conn s)))))"
    by blast
  from b m show ?thesis
    by (intro exI [of _ b] exI [of _ k] exI [of _ m] exI [of _ "\<lparr>l2_payload_length = sizeof_RegistrationReq,
        nb_payload_bytes_sent = 0, kind = MsgRequest REGISTRATION_REQ m\<rparr>"])
      (simp add: sendRegistrationReq_def sendBodyToServer_def new_MsgRequest_def sendMsgToServer_def)
qed

text \<open>
  C20. Credentials entered by the user while the connection waits for them are sent: the client goes on to
  \<open>REGISTERING\<close> with no event left and queues one registration request of 192 bytes in which the server
  reads the three strings, each followed by a byte of the fresh memory unless it was 0. Credentials entered
  in any other live state abort the client at the next poll. It supposes \<open>creds_fit\<close>: a name and a password of at
  most 30 characters and a mail address of at most 126, without zero bytes. That is one character less than the
  fields hold and than the code lets through: the NUL of a longer string is stored behind its field, so that
  a name of 31 characters can run into the password and a password of 31 into the mail address.
\<close>

theorem pending_credentials_outcome:
  assumes "ext_event (conn s) = {NEW_CREDENTIALS}" and "creds_fit (conn s)"
  shows "if cnx_state (conn s) = CONNECTED_NO_CREDENTIALS
    then \<exists>t r m. handleExtEvents os s = (Inr (), t)
      \<and> conn t = (conn s)\<lparr>cnx_state := REGISTERING, ext_event := {}\<rparr> \<and> sock t = sendMsg r (sock s)
      \<and> l2_payload_length r = 192 \<and> kind r = MsgRequest REGISTRATION_REQ m
      \<and> (let b = fst (os_new os (kern s)); c = conn s in
           cstring m 8192 0 = Some (padded (user_name c) (b (length (user_name c))))
         \<and> cstring m 8160 off_password
             = Some (padded (user_passwd c) (b (off_password + length (user_passwd c))))
         \<and> cstring m 8128 off_mail_address
             = Some (padded (user_email c) (b (off_mail_address + length (user_email c)))))
    else cnx_state_val (cnx_state (conn s)) > cnx_state_val NO_CONNECTION \<longrightarrow>
      cnx_poll os s = Some (Inl AssertFailed, s)"
proof (cases "cnx_state (conn s) = CONNECTED_NO_CREDENTIALS")
  case True
  define s1 where "s1 = s\<lparr>conn := (conn s)\<lparr>cnx_state := CONNECTED\<rparr>\<rparr>"
  have f: "creds_fit (conn s1)" using assms(2) by (simp add: s1_def creds_fit_def)
  from sendRegistrationReq_queues [OF f, of os] obtain b k m r where
    r: "os_new os (kern s1) = (b, k)"
      "sendRegistrationReq os s1 = (Inr (), s1\<lparr>kern := k, sock := sendMsg r (sock s1)\<rparr>)"
      "l2_payload_length r = sizeof_RegistrationReq" "kind r = MsgRequest REGISTRATION_REQ m"
      "cstring m 8192 0 = Some (padded (user_name (conn s1)) (b (length (user_name (conn s1)))))"
      "cstring m 8160 off_password
        = Some (padded (user_passwd (conn s1)) (b (off_password + length (user_passwd (conn s1)))))"
      "cstring m 8128 off_mail_address
        = Some (padded (user_email (conn s1)) (b (off_mail_address + length (user_email (conn s1)))))"
    by blast
  have "handleExtEvents os s
      = (Inr (), s\<lparr>kern := k, sock := sendMsg r (sock s), conn := (conn s)\<lparr>cnx_state := REGISTERING, ext_event := {}\<rparr>\<rparr>)"
    using True assms(1) r(2)
    by (simp add: handleExtEvents_def handleOneExtEvent_def set_cnx_state_simp s1_def)
  with r True show ?thesis by (auto simp: s1_def Let_def)
next
  case False
  have "handleExtEvents os s = (Inl AssertFailed, s)"
    using False assms(1) by (simp add: handleExtEvents_def handleOneExtEvent_def set_cnx_state_simp)
  then show ?thesis using False by (simp add: cnx_poll_eq poll_body_def)
qed

lemma pending_credentials_outcome_witness:
  "cnx_poll quiet_os (sample_client () REGISTERED {NEW_CREDENTIALS})
     = Some (Inl AssertFailed, sample_client () REGISTERED {NEW_CREDENTIALS})
   \<and> (\<exists>t r m. handleExtEvents quiet_os (sample_client () CONNECTED_NO_CREDENTIALS {NEW_CREDENTIALS}) = (Inr (), t)
     \<and> cnx_state (conn t) = REGISTERING \<and> ext_event (conn t) = {}
     \<and> tx_fifo (sock t) = [r] \<and> kind r = MsgRequest REGISTRATION_REQ m
     \<and> cstring m 8192 0 = Some (user_name (conn t)) \<and> cstring m 8160 off_password = Some (user_passwd (conn t))
     \<and> cstring m 8128 off_mail_address = Some (user_email (conn t)))"
proof
  show "cnx_poll quiet_os (sample_client () REGISTERED {NEW_CREDENTIALS})
     = Some (Inl AssertFailed, sample_client () REGISTERED {NEW_CREDENTIALS})"
    using pending_credentials_outcome [where s = "sample_client () REGISTERED {NEW_CREDENTIALS}" and os = quiet_os] by simp
  let ?s = "sample_client () CONNECTED_NO_CREDENTIALS {NEW_CREDENTIALS}"
  have "tx_fifo (sock ?s) = []" by (simp add: sample_client_def new_MsgSocket_def rxReset_def)
  moreover have "fst (os_new quiet_os k) = (\<lambda>_. 0)" for k by (simp add: quiet_os_def failing_os_def)
  ultimately show "\<exists>t r m. handleExtEvents quiet_os ?s = (Inr (), t)
     \<and> cnx_state (conn t) = REGISTERING \<and> ext_event (conn t) = {}
     \<and> tx_fifo (sock t) = [r] \<and> kind r = MsgRequest REGISTRATION_REQ m
     \<and> cstring m 8192 0 = Some (user_name (conn t)) \<and> cstring m 8160 off_password = Some (user_passwd (conn t))
     \<and> cstring m 8128 off_mail_address = Some (user_email (conn t))"
    using pending_credentials_outcome [where s = ?s and os = quiet_os, OF sample_client_sel(3,6)]
    by (auto simp: sendMsg_def padded_def Let_def)
qed

text \<open>
  A hang-up loses the connection for good: the poll returns normally with the connection in
  \<open>NO_CONNECTION\<close>, and from then on a poll does nothing at all, whatever the kernel would answer.
\<close>

theorem lost_connection_is_final:
  assumes "cnx_state_val (cnx_state (conn s)) > cnx_state_val NO_CONNECTION" and "ext_event (conn s) = {}"
    and "os_poll os (socket_descr (sock s)) (poll_events (sock s)) (kern s) = (Inr (Some revents), k)"
    and "revents AND POLLHUP \<noteq> 0"
  shows "\<exists>t. cnx_poll os s = Some (Inr (), t) \<and> cnx_state (conn t) = NO_CONNECTION
    \<and> sock_state (sock t) = SOCK_DISCONNECTED \<and> (\<forall>os'. cnx_poll os' t = Some (Inr (), t))"
proof -
  let ?t = "s\<lparr>kern := k, sock := (sock s)\<lparr>sock_state := SOCK_DISCONNECTED\<rparr>\<rparr>"
  have "poll os \<lparr>kern = kern s, errno = errno s, sock = sock s\<rparr> = Some (Inl (SocketDisconnection 0),
      \<lparr>kern = k, errno = errno s, sock = (sock s)\<lparr>sock_state := SOCK_DISCONNECTED\<rparr>\<rparr>)"
    using poll_simps(1) [of os "\<lparr>kern = kern s, errno = errno s, sock = sock s\<rparr>" revents k] assms(3,4) by simp
  then have "poll_socket os s = Some (Inl (SocketDisconnection 0), ?t)" by (simp add: poll_socket_def)
  then have "poll_body os s = Some (Inl (SocketDisconnection 0), ?t)"
    using assms(2) by (simp add: poll_body_def handleExtEvents_def)
  with assms(1) have "cnx_poll os s = Some (Inr (), ?t\<lparr>conn := (conn s)\<lparr>cnx_state := NO_CONNECTION\<rparr>\<rparr>)"
    by (simp add: cnx_poll_eq set_cnx_state_simp)
  then show ?thesis by (simp add: cnx_poll_eq)
qed

definition hung_up_os :: "unit os" where
  "hung_up_os = failing_os\<lparr>os_poll := \<lambda>fd events. Pair (Inr (Some POLLHUP))\<rparr>"

lemma lost_connection_is_final_witness:
  "\<exists>t. cnx_poll hung_up_os (sample_client () REGISTERED {}) = Some (Inr (), t) \<and> cnx_state (conn t) = NO_CONNECTION"
proof -
  let ?s = "sample_client () REGISTERED {}"
  have p: "os_poll hung_up_os (socket_descr (sock ?s)) (poll_events (sock ?s)) (kern ?s) = (Inr (Some POLLHUP), ())"
    by (simp add: hung_up_os_def)
  from lost_connection_is_final [OF _ _ p] show ?thesis by auto
qed

end
