(* ===== verification/GameClient.thy ===== *)
theory GameClient
  imports GameServer ClientConnection
begin

text \<open>
  \<^verbatim>\<open>gameClient.cpp\<close> and \<^verbatim>\<open>main.cpp\<close>: the initialisation and the loop of the client, and what the command line
  starts. The thread of the user interface only counts and prints; what else goes to the console is not modelled.
\<close>

section \<open>The thread of the user interface\<close>

datatype ui_event = Ui_print string | Ui_sleep_ms int

function ui_loop :: "int \<Rightarrow> ui_event list" where
  "ui_loop ui_loop_cnt =
    (if ui_loop_cnt < 20 then Ui_sleep_ms 500 # Ui_print '':'' # ui_loop (ui_loop_cnt + 1) else [])"
  by auto
termination by (relation "measure (\<lambda>n. nat (20 - n))") auto

declare ui_loop.simps [simp del]

definition client_ui_thread_f :: "unit \<Rightarrow> ui_event list" where
  "client_ui_thread_f _ = Ui_print ''UI Thread executing'' # ui_loop 0 @ [Ui_print ''UI Thread ending'']"

section \<open>The client program\<close>

text \<open>
  What the host knows of its interfaces: two answers of \<^verbatim>\<open>getifaddrs\<close>, for the display and for the search, and the texts
  of addresses.
\<close>

record network =
  display_ifaddrs :: "ifaddrs list option"
  search_ifaddrs :: "ifaddrs list option"
  getnameinfo :: "nat \<times> sockaddr_in \<Rightarrow> int + byte list"

text \<open>
  \<open>buffer\<close> is what the memory of the address buffer held. The object is created only once in the program, so there
  is none before. When the constructor throws there is no client.
\<close>

definition client_cnx_init ::
    "'k os \<Rightarrow> network \<Rightarrow> sockaddr_in \<Rightarrow> byte list \<Rightarrow> 'k sys \<Rightarrow> unit result \<times> 'k client option" where
  "client_cnx_init os net buffer ifname s =
    (case fst (display_network_addresses (getnameinfo net) (display_ifaddrs net)) of
      Inl e \<Rightarrow> (Inl e, None)
    | Inr _ \<Rightarrow> (case get_ipv4_address (search_ifaddrs net) ifname buffer of
        Inl e \<Rightarrow> (Inl e, None)
      | Inr (addr, found) \<Rightarrow>
          if found < 0 then (Inl (ThrownString ''Network interface unavailable''), None)
          else case createObject os (addr\<lparr>sin_port := htons HEX1_IP_PORT\<rparr>) ifname None s of
              Inl e \<Rightarrow> (Inl e, None)
            | Inr c \<Rightarrow> (case StartConnectionToServer os c of (r, t) \<Rightarrow> (r, Some t))))"

text \<open>The flag is a reference to a variable that nothing sets.\<close>

partial_function (option) client_bg_loop ::
    "'k os \<Rightarrow> bool \<Rightarrow> 'k client \<Rightarrow> (unit result \<times> 'k client) option" where
  "client_bg_loop os application_end s =
    (if application_end then Some (Inr (), s)
     else case cnx_poll os s of
         None \<Rightarrow> None
       | Some (Inl e, t) \<Rightarrow> Some (Inl e, t)
       | Some (Inr _, t) \<Rightarrow> (case waitUsec os 500000 t of
             None \<Rightarrow> None
           | Some (Inl e, u) \<Rightarrow> Some (Inl e, u)
           | Some (Inr _, u) \<Rightarrow> client_bg_loop os application_end u))"

text \<open>Every exception is swallowed; \<open>None\<close> when the loop does not end.\<close>

definition swallow :: "unit result \<Rightarrow> unit result" where
  "swallow r = (case r of Inl e \<Rightarrow> if is_exception e then Inr () else Inl e | Inr _ \<Rightarrow> Inr ())"

definition client_background_main ::
    "'k os \<Rightarrow> network \<Rightarrow> sockaddr_in \<Rightarrow> byte list \<Rightarrow> bool \<Rightarrow> 'k sys \<Rightarrow> unit result option" where
  "client_background_main os net buffer ifname application_end s =
    (case client_cnx_init os net buffer ifname s of
       (Inr _, Some c) \<Rightarrow> map_option (\<lambda>(r, t). swallow r) (client_bg_loop os application_end c)
     | (r, _) \<Rightarrow> Some (swallow r))"

text \<open>A null name is dereferenced by the construction of the string.\<close>

definition client_main ::
    "'k os \<Rightarrow> network \<Rightarrow> sockaddr_in \<Rightarrow> byte list option \<Rightarrow> 'k sys \<Rightarrow> unit result option" where
  "client_main os net buffer ifname s = (case ifname of
      None \<Rightarrow> Some (Inl Undefined)
    | Some name \<Rightarrow> client_background_main os net buffer name False s)"

section \<open>The command line\<close>

datatype command = Client "byte list option" | Server "byte list" | Tests | Nothing | Usage

definition main_command :: "byte list list \<Rightarrow> command" where
  "main_command argv =
    (if length argv \<ge> 2 then
       (if argv ! 1 = bytes_of ''client'' then Client (if length argv > 2 then Some (argv ! 2) else None)
        else if argv ! 1 = bytes_of ''server'' then
          Server (if length argv = 3 then argv ! 2 else bytes_of ''lo'')
        else if argv ! 1 = bytes_of ''tests'' then Tests
        else Nothing)
     else Usage)"

section \<open>Properties\<close>

lemma dead_poll:
  "cnx_state_val (cnx_state (conn s)) \<le> cnx_state_val NO_CONNECTION \<Longrightarrow> cnx_poll os s = Some (Inr (), s)"
  by (simp add: cnx_poll_eq)

lemma client_bg_loop_fails:
  assumes "client_bg_loop os b s = Some y" shows "\<not> b \<longrightarrow> fst y \<noteq> Inr ()"
proof (rule client_bg_loop.raw_induct [where P = "\<lambda>os b s y. \<not> b \<longrightarrow> fst y \<noteq> Inr ()", OF _ assms])
  fix f :: "'a os \<Rightarrow> bool \<Rightarrow> 'a client \<Rightarrow> (unit result \<times> 'a client) option" and os b s y
  assume "\<And>os b s y. f os b s = Some y \<Longrightarrow> \<not> b \<longrightarrow> fst y \<noteq> Inr ()"
    and "(if b then Some (Inr (), s) else case cnx_poll os s of None \<Rightarrow> None | Some (Inl e, t) \<Rightarrow> Some (Inl e, t)
      | Some (Inr x, t) \<Rightarrow> (case waitUsec os 500000 t of None \<Rightarrow> None | Some (Inl e, u) \<Rightarrow> Some (Inl e, u)
        | Some (Inr x, u) \<Rightarrow> f os b u)) = Some y"
  then show "\<not> b \<longrightarrow> fst y \<noteq> Inr ()" by (auto split: if_splits option.splits sum.splits prod.splits)
qed

lemma dead_client_loops:
  assumes sleep: "\<And>req k. \<exists>k'. os_nanosleep os req k = (Inr (), k')"
    and "client_bg_loop os' b s = Some y"
  shows "os' = os \<longrightarrow> \<not> b \<longrightarrow> cnx_state_val (cnx_state (conn s)) \<le> cnx_state_val NO_CONNECTION \<longrightarrow> False"
proof (rule client_bg_loop.raw_induct [where P = "\<lambda>os' b s y. os' = os \<longrightarrow> \<not> b
    \<longrightarrow> cnx_state_val (cnx_state (conn s)) \<le> cnx_state_val NO_CONNECTION \<longrightarrow> False", OF _ assms(2)])
  fix f :: "'a os \<Rightarrow> bool \<Rightarrow> 'a client \<Rightarrow> (unit result \<times> 'a client) option" and os' b s y
  assume IH: "\<And>os' b s y. f os' b s = Some y \<Longrightarrow> os' = os \<longrightarrow> \<not> b
      \<longrightarrow> cnx_state_val (cnx_state (conn s)) \<le> cnx_state_val NO_CONNECTION \<longrightarrow> False"
    and r: "(if b then Some (Inr (), s) else case cnx_poll os' s of None \<Rightarrow> None | Some (Inl e, t) \<Rightarrow> Some (Inl e, t)
      | Some (Inr x, t) \<Rightarrow> (case waitUsec os' 500000 t of None \<Rightarrow> None | Some (Inl e, u) \<Rightarrow> Some (Inl e, u)
        | Some (Inr x, u) \<Rightarrow> f os' b u)) = Some y"
  show "os' = os \<longrightarrow> \<not> b \<longrightarrow> cnx_state_val (cnx_state (conn s)) \<le> cnx_state_val NO_CONNECTION \<longrightarrow> False"
  proof (intro impI)
    assume e: "os' = os" "\<not> b" and d: "cnx_state_val (cnx_state (conn s)) \<le> cnx_state_val NO_CONNECTION"
    from sleep obtain k where "os_nanosleep os (0, 500000000) (kern s) = (Inr (), k)" by blast
    then have "waitUsec os 500000 s = Some (Inr (), s\<lparr>kern := k\<rparr>)"
      by (simp add: waitUsec_def nanosleep_loop.simps signed_divide_int_def signed_modulo_int_def)
    with r e dead_poll [OF d] have "f os b (s\<lparr>kern := k\<rparr>) = Some y" by simp
    with IH [of os b "s\<lparr>kern := k\<rparr>" y] e d show False by simp
  qed
qed

text \<open>
  The loop of the client never returns: it ends by a failure only, and once the connection is lost it goes on
  polling for ever without a new attempt.
\<close>

theorem client_loop_never_returns:
  assumes "\<And>req k. \<exists>k'. os_nanosleep os req k = (Inr (), k')"
  shows "(\<forall>r t. client_bg_loop os False s = Some (r, t) \<longrightarrow> r \<noteq> Inr ())
    \<and> (cnx_state (conn s) \<in> {NO_SOCKET, CNX_ERROR, NO_CONNECTION} \<longrightarrow> client_bg_loop os False s = None)"
proof (intro conjI allI impI)
  show "r \<noteq> Inr ()" if "client_bg_loop os False s = Some (r, t)" for r t
    using client_bg_loop_fails [OF that] by simp
  assume "cnx_state (conn s) \<in> {NO_SOCKET, CNX_ERROR, NO_CONNECTION}"
  then have d: "cnx_state_val (cnx_state (conn s)) \<le> cnx_state_val NO_CONNECTION" by auto
  show "client_bg_loop os False s = None"
  proof (cases "client_bg_loop os False s")
    case (Some y)
    from dead_client_loops [OF assms Some] d show ?thesis by simp
  qed
qed

lemma client_loop_never_returns_witness:
  "client_bg_loop failing_os False (sample_client () NO_CONNECTION {}) = None"
  using client_loop_never_returns [of failing_os "sample_client () NO_CONNECTION {}"] by (simp add: failing_os_def)

text \<open>
  The program of the client, from the interface to the first failure: without an IPv4 address on the interface it
  ends quietly before any socket is made; with one, and while the first \<^verbatim>\<open>connect\<close> is in progress, it aborts; and
  when the display meets an address without a text it exits before all that.
\<close>

theorem client_program_starts:
  assumes "os_socket os (kern s) = (Inr fd, k1)" and "os_new os k1 = (m, k2)" and "os_nonblock os fd k2 = (Inr (), k3)"
    and "\<And>a. os_connect os fd a k3 = (Inl EINPROGRESS, k4)" and "\<And>a. os_connect os fd a k4 = (Inl EALREADY, k5)"
    and "display_ifaddrs net = Some l0" and "search_ifaddrs net = Some l"
  shows "client_main os net buffer (Some name) s
    = Some (if \<exists>ifa\<in>set l0. nameless (getnameinfo net) ifa then Inl Exited
        else if ipv4_of l name = [] then Inr () else Inl AssertFailed)"
proof (cases "ipv4_of l name = [] \<or> (\<exists>ifa\<in>set l0. nameless (getnameinfo net) ifa)")
  case True
  then show ?thesis
    using display_network_addresses_exits [of "getnameinfo net" l0]
    by (auto simp: client_main_def client_background_main_def client_cnx_init_def get_ipv4_address_def
        get_ipv4_loop_eq swallow_def assms(6,7) split: sum.splits)
next
  case False
  let ?a = "(last (ipv4_of l name))\<lparr>sin_port := htons HEX1_IP_PORT\<rparr>"
  obtain c where c: "new_ClientConnection os ?a name s = Inr c" "cnx_state (conn c) = NO_SOCKET"
      "from_dir (sock c) = FROM_CLIENT" "socket_descr (sock c) = fd" "kern c = k4"
    using assms(1-4)
    by (simp add: new_ClientConnection_eq new_ClientSocket_def socketConfiguration_def connect_eq andThen_def
        assertS_def syscall_def new_MsgSocket_def rxReset_def)
  have "onSock (connect os) (c\<lparr>conn := (conn c)\<lparr>cnx_state := CONNECTING\<rparr>\<rparr>) = (Inl AssertFailed,
      (c\<lparr>conn := (conn c)\<lparr>cnx_state := CONNECTING\<rparr>\<rparr>)\<lparr>kern := k5, errno := EALREADY,
        sock := (sock c)\<lparr>sock_state := SOCK_CONNECTING\<rparr>\<rparr>)"
    using connect_cases [of "c\<lparr>conn := (conn c)\<lparr>cnx_state := CONNECTING\<rparr>\<rparr>" os "Inl EALREADY" k5] assms(5) c
    by (simp add: recoverable_connect_def)
  then obtain t where "StartConnectionToServer os c = (Inl AssertFailed, t)"
    using c(2) by (simp add: StartConnectionToServer_def set_cnx_state_simp)
  with False c(1) show ?thesis
    using display_network_addresses_exits [of "getnameinfo net" l0]
    by (auto simp: client_main_def client_background_main_def client_cnx_init_def get_ipv4_address_def
        get_ipv4_loop_eq swallow_def createObject_def assms(6,7) split: sum.splits)
qed

lemma client_program_starts_witness:
  "client_main slow_connect_os
     \<lparr>display_ifaddrs = Some [], search_ifaddrs = Some
       [\<lparr>ifa_name = [108, 111], ifa_addr = Some (2, \<lparr>s_addr = 1, sin_port = 0\<rparr>), ifa_data = None\<rparr>], getnameinfo = \<lambda>_. Inl 1\<rparr>
     \<lparr>s_addr = 0, sin_port = 0\<rparr> (Some [108, 111]) \<lparr>kern = 0, errno = 0\<rparr> = Some (Inl AssertFailed)"
proof -
  let ?l = "[\<lparr>ifa_name = [108, 111], ifa_addr = Some (2, \<lparr>s_addr = 1, sin_port = 0\<rparr>), ifa_data = None\<rparr>]"
  let ?net = "\<lparr>display_ifaddrs = Some [], search_ifaddrs = Some ?l, getnameinfo = \<lambda>_. Inl 1\<rparr>"
  have "client_main slow_connect_os ?net \<lparr>s_addr = 0, sin_port = 0\<rparr> (Some [108, 111]) \<lparr>kern = 0, errno = 0\<rparr>
      = Some (if \<exists>ifa\<in>set []. nameless (getnameinfo ?net) ifa then Inl Exited
          else if ipv4_of ?l [108, 111] = [] then Inr () else Inl AssertFailed)"
    by (rule client_program_starts [where fd = 5 and m = "\<lambda>_. 0" and ?k1.0 = 0 and ?k2.0 = 0 and ?k3.0 = 0
        and ?k4.0 = 1 and ?k5.0 = 2]) (simp_all add: slow_connect_os_def failing_os_def)
  then show ?thesis by (simp add: ipv4_of_def)
qed

text \<open>
  The thread of the user interface ends: it pauses twenty times, ten seconds in all, so that \<^verbatim>\<open>client_main\<close> does not
  wait for ever when it joins it.
\<close>

theorem client_ui_thread_ends:
  "sum_list (map (\<lambda>e. case e of Ui_sleep_ms n \<Rightarrow> n | Ui_print _ \<Rightarrow> 0) (client_ui_thread_f ())) = 10000
    \<and> length (client_ui_thread_f ()) = 42"
proof -
  have "sum_list (map (\<lambda>e. case e of Ui_sleep_ms n \<Rightarrow> n | Ui_print _ \<Rightarrow> 0) (ui_loop (20 - int n))) = 500 * int n
    \<and> length (ui_loop (20 - int n)) = 2 * n" for n
    by (induction n) (simp_all add: ui_loop.simps)
  from this [of 20] show ?thesis by (simp add: client_ui_thread_f_def)
qed

end
