(* ===== verification/Hexmap.thy ===== *)
theory Hexmap
  imports Prelude
begin

text \<open>
  The hexagonal map of \<^verbatim>\<open>core/hexmap.h\<close> and \<^verbatim>\<open>core/hexmap.cpp\<close>: coordinates, the map object,
  its accessors and the distance computation. The distance is shown to be the length of a
  shortest walk over neighbouring hexagons inside the map.
\<close>

section \<open>Coordinates\<close>

text \<open>
  \<^verbatim>\<open>HexCoord\<close> is a union of two signed 16-bit indices and one unsigned 32-bit value. The record
  is its \<^verbatim>\<open>s\<close> view; \<open>HexCoord_l\<close> reads the \<^verbatim>\<open>l\<close> view of the same storage and
  \<open>HexCoord_of_l\<close> stores through it, for the little-endian layout of the target
  (\<^verbatim>\<open>line\<close> is the first, low half).
\<close>

type_synonym mIndex = "16 word"
type_synonym Coordl = "32 word"

record HexCoord =
  line :: mIndex
  column :: mIndex

definition HexCoord_l :: "HexCoord \<Rightarrow> Coordl" where
  "HexCoord_l c = ucast (line c) OR push_bit 16 (ucast (column c))"

definition HexCoord_of_l :: "Coordl \<Rightarrow> HexCoord" where
  "HexCoord_of_l l = \<lparr>line = ucast l, column = ucast (drop_bit 16 l)\<rparr>"

datatype Direction = NEast | SEast | East | NWest | West | SWest | NbDirections

text \<open>The table \<^verbatim>\<open>dirToVect[2][NbDirections]\<close>; \<open>None\<close> is an index outside the table.\<close>

fun dirToVect_even :: "Direction \<Rightarrow> HexCoord option" where
  "dirToVect_even NEast = Some \<lparr>line = -1, column = 0\<rparr>"
| "dirToVect_even SEast = Some \<lparr>line = 1, column = 0\<rparr>"
| "dirToVect_even East = Some \<lparr>line = 0, column = 1\<rparr>"
| "dirToVect_even NWest = Some \<lparr>line = -1, column = -1\<rparr>"
| "dirToVect_even West = Some \<lparr>line = 0, column = -1\<rparr>"
| "dirToVect_even SWest = Some \<lparr>line = 1, column = -1\<rparr>"
| "dirToVect_even NbDirections = None"

fun dirToVect_odd :: "Direction \<Rightarrow> HexCoord option" where
  "dirToVect_odd NEast = Some \<lparr>line = -1, column = 1\<rparr>"
| "dirToVect_odd SEast = Some \<lparr>line = 1, column = 1\<rparr>"
| "dirToVect_odd East = Some \<lparr>line = 0, column = 1\<rparr>"
| "dirToVect_odd NWest = Some \<lparr>line = -1, column = 0\<rparr>"
| "dirToVect_odd West = Some \<lparr>line = 0, column = -1\<rparr>"
| "dirToVect_odd SWest = Some \<lparr>line = 1, column = 0\<rparr>"
| "dirToVect_odd NbDirections = None"

definition dirToVect :: "int \<Rightarrow> Direction \<Rightarrow> HexCoord option" where
  "dirToVect parity dir = (if parity = 0 then dirToVect_even dir else dirToVect_odd dir)"

section \<open>Hexagons and the map\<close>

text \<open>\<^verbatim>\<open>terrain\<close> and \<^verbatim>\<open>units\<close> are opaque pointers, 0 being NULL.\<close>

record Hexagon =
  coord :: HexCoord
  terrain :: nat
  units :: nat
  wind :: HexCoord

record Hexmap =
  hex :: "Hexagon list list"
  nbLines :: mIndex
  nbColumns :: mIndex

definition getCoordl :: "Hexagon \<Rightarrow> Coordl" where
  "getCoordl h = HexCoord_l (coord h)"

text \<open>The constructor: one row per line, one hexagon per column, in this order.\<close>

definition new_Hexagon :: "nat \<Rightarrow> nat \<Rightarrow> Hexagon" where
  "new_Hexagon ln col =
     \<lparr>coord = \<lparr>line = of_nat ln, column = of_nat col\<rparr>, terrain = 0, units = 0,
      wind = HexCoord_of_l 0\<rparr>"

definition new_Hexmap :: "mIndex \<Rightarrow> mIndex \<Rightarrow> Hexmap result" where
  "new_Hexmap lines columns =
     check_assert (0 < sint lines \<and> 0 < sint columns)
       (Inr \<lparr>hex = map (\<lambda>ln. map (\<lambda>col. new_Hexagon ln col) [0..<nat (sint columns)])
                     [0..<nat (sint lines)],
             nbLines = lines, nbColumns = columns\<rparr>)"

text \<open>
  The destructor releases \<^verbatim>\<open>hex[col]\<close> for every \<open>col\<close> below the number of \<^emph>\<open>columns\<close>. The model
  returns the indices of the rows released; reading a row pointer past the array is undefined.
\<close>

definition delete_Hexmap :: "Hexmap \<Rightarrow> nat list result" where
  "delete_Hexmap m =
     (if nat (sint (nbColumns m)) \<le> length (hex m)
      then Inr [0..<nat (sint (nbColumns m))] else Inl Undefined)"

definition inRange :: "Hexmap \<Rightarrow> HexCoord \<Rightarrow> bool" where
  "inRange m c \<longleftrightarrow> sint (line c) \<ge> 0 \<and> sint (column c) \<ge> 0 \<and>
     sint (line c) < sint (nbLines m) \<and> sint (column c) < sint (nbColumns m)"

definition inRange_l :: "Hexmap \<Rightarrow> Coordl \<Rightarrow> bool" where
  "inRange_l m l = (let aux = HexCoord_of_l l in
     sint (line aux) \<ge> 0 \<and> sint (column aux) \<ge> 0 \<and>
     sint (line aux) < sint (nbLines m) \<and> sint (column aux) < sint (nbColumns m))"

text \<open>The array access \<^verbatim>\<open>hex[line][column]\<close>.\<close>

definition hex_at :: "Hexmap \<Rightarrow> HexCoord \<Rightarrow> Hexagon result" where
  "hex_at m c = (let i = sint (line c); j = sint (column c) in
     if 0 \<le> i \<and> nat i < length (hex m) \<and> 0 \<le> j \<and> nat j < length (hex m ! nat i)
     then Inr (hex m ! nat i ! nat j) else Inl Undefined)"

definition getHex :: "Hexmap \<Rightarrow> HexCoord \<Rightarrow> Hexagon result" where
  "getHex m c = check_assert (inRange m c) (hex_at m c)"

definition getHex_l :: "Hexmap \<Rightarrow> Coordl \<Rightarrow> Hexagon result" where
  "getHex_l m l = check_assert (inRange_l m l) (hex_at m (HexCoord_of_l l))"

definition getVect :: "Hexagon \<Rightarrow> Hexagon \<Rightarrow> Coordl" where
  "getVect h1 h2 = HexCoord_l
     \<lparr>line = word_of_int (sint (line (coord h2)) - sint (line (coord h1))),
      column = word_of_int (sint (column (coord h2)) - sint (column (coord h1)))\<rparr>"

definition getCoordL :: "Hexmap \<Rightarrow> Hexagon \<Rightarrow> HexCoord \<Rightarrow> Coordl" where
  "getCoordL m h vect =
     (let aux = \<lparr>line = word_of_int (sint (line (coord h)) + sint (line vect)),
                 column = word_of_int (sint (column (coord h)) + sint (column vect))\<rparr>
      in if sint (line aux) < 0 \<or> sint (line aux) \<ge> sint (nbLines m)
            \<or> sint (column aux) < 0 \<or> sint (column aux) \<ge> sint (nbColumns m)
         then HexCoord_l aux else 0)"

definition getHex_dir :: "Hexmap \<Rightarrow> Hexagon \<Rightarrow> Direction \<Rightarrow> Hexagon option result" where
  "getHex_dir m h dir =
     (case dirToVect (sint (line (coord h)) AND 1) dir of
        None \<Rightarrow> Inl Undefined
      | Some vect \<Rightarrow>
          (let l = getCoordL m h vect in
           if l = 0 then Inr None
           else (case hex_at m (HexCoord_of_l l) of Inl e \<Rightarrow> Inl e | Inr x \<Rightarrow> Inr (Some x))))"

text \<open>
  The distance. The operands are promoted to \<^verbatim>\<open>int\<close>, where differences of 16-bit values cannot
  overflow; the halved value is not negative, so C division is \<open>div\<close>.
\<close>

definition hexDist :: "Hexagon \<Rightarrow> Hexagon \<Rightarrow> int" where
  "hexDist h1 h2 =
     (let diff_lines = sint (line (coord h2)) - sint (line (coord h1));
          diff_cols = sint (column (coord h2)) - sint (column (coord h1));
          abs_diff_l = \<bar>diff_lines\<bar>
      in if diff_lines = 0 then \<bar>diff_cols\<bar>
         else
           let thres =
             (if sint (line (coord h1)) AND 1 = 0
              then (if diff_cols \<ge> 0 then abs_diff_l div 2 else (abs_diff_l + 1) div 2)
              else (if diff_cols \<ge> 0 then (abs_diff_l + 1) div 2 else abs_diff_l div 2))
           in if \<bar>diff_cols\<bar> \<le> thres then abs_diff_l
              else abs_diff_l + (\<bar>diff_cols\<bar> - thres))"

section \<open>The abstract grid\<close>

type_synonym cell = "int \<times> int"

definition in_grid :: "int \<Rightarrow> int \<Rightarrow> cell \<Rightarrow> bool" where
  "in_grid nl nc p \<longleftrightarrow> 0 \<le> fst p \<and> fst p < nl \<and> 0 \<le> snd p \<and> snd p < nc"

definition cell_of :: "HexCoord \<Rightarrow> cell" where
  "cell_of c = (sint (line c), sint (column c))"

definition neighbour :: "cell \<Rightarrow> Direction \<Rightarrow> cell option" where
  "neighbour p dir = (case dirToVect (fst p AND 1) dir of None \<Rightarrow> None
     | Some v \<Rightarrow> Some (fst p + sint (line v), snd p + sint (column v)))"

inductive walk :: "int \<Rightarrow> int \<Rightarrow> nat \<Rightarrow> cell \<Rightarrow> cell \<Rightarrow> bool" for nl nc where
  walk_here: "in_grid nl nc p \<Longrightarrow> walk nl nc 0 p p"
| walk_step: "in_grid nl nc p \<Longrightarrow> neighbour p dir = Some q \<Longrightarrow> walk nl nc n q r
    \<Longrightarrow> walk nl nc (Suc n) p r"

definition norm3 :: "int \<Rightarrow> int \<Rightarrow> int" where
  "norm3 dl dq = max (max \<bar>dl\<bar> \<bar>dq\<bar>) \<bar>dl + dq\<bar>"

definition slant :: "cell \<Rightarrow> int" where
  "slant p = snd p - fst p div 2"

definition axial :: "cell \<Rightarrow> cell \<Rightarrow> int" where
  "axial p q = norm3 (fst q - fst p) (slant q - slant p)"

definition offset_dist :: "cell \<Rightarrow> cell \<Rightarrow> int" where
  "offset_dist p q =
     (let dl = fst q - fst p; dc = snd q - snd p; al = \<bar>dl\<bar>;
          thres = (if fst p mod 2 = 0 then (if dc \<ge> 0 then al div 2 else (al + 1) div 2)
                   else (if dc \<ge> 0 then (al + 1) div 2 else al div 2))
      in if dl = 0 then \<bar>dc\<bar> else if \<bar>dc\<bar> \<le> thres then al else al + (\<bar>dc\<bar> - thres))"

lemma hexDist_offset: "hexDist h1 h2 = offset_dist (cell_of (coord h1)) (cell_of (coord h2))"
  by (simp add: hexDist_def offset_dist_def cell_of_def Let_def and_one_eq)

lemma norm3_signs:
  "0 \<le> a \<Longrightarrow> 0 \<le> b \<Longrightarrow> norm3 a b = a + b" "a \<le> 0 \<Longrightarrow> b \<le> 0 \<Longrightarrow> norm3 a b = - a - b"
  "0 \<le> a \<Longrightarrow> b \<le> 0 \<Longrightarrow> norm3 a b = max a (- b)" "a \<le> 0 \<Longrightarrow> 0 \<le> b \<Longrightarrow> norm3 a b = max (- a) b"
  by (simp_all add: norm3_def)

lemma axial_lin:
  fixes a c k j i i' al t u dc dl :: int
  assumes "a = 2 * k + i" "c = 2 * j + i'" "i = 0 \<or> i = 1" "i' = 0 \<or> i' = 1"
    and "dl = c - a" "al = \<bar>dl\<bar>" "2 * t \<le> al" "al \<le> 2 * t + 1" "2 * u \<le> al + 1" "al \<le> 2 * u"
  shows "(let thres = (if i = 0 then (if dc \<ge> 0 then t else u) else (if dc \<ge> 0 then u else t))
      in if dl = 0 then \<bar>dc\<bar> else if \<bar>dc\<bar> \<le> thres then al else al + (\<bar>dc\<bar> - thres))
    = norm3 dl (dc - j + k)"
proof -
  define m where "m = j - k"
  have dl: "dl = 2 * m + i' - i" and e: "dc - j + k = dc - m"
    using assms(1,2,5) by (simp_all add: m_def)
  have tu: "t = (if dl \<ge> 0 then (if i \<le> i' then m else m - 1) else (if i' \<le> i then - m else - m - 1))"
    "u = (if dl \<ge> 0 then (if i' \<le> i then m else m + 1) else (if i \<le> i' then - m else - m + 1))"
    using assms(3,4,6-10) dl by (auto split: if_splits)
  consider "dc - m \<ge> 0" "dl \<ge> 0" | "dc - m \<ge> 0" "dl < 0" | "dc - m < 0" "dl \<ge> 0" | "dc - m < 0" "dl < 0"
    by linarith
  then show ?thesis
    unfolding e using assms(3,4,6) dl tu
    by cases (auto simp: norm3_signs Let_def max_def abs_if, presburger+)
qed

lemma half_facts:
  fixes x :: int
  shows "2 * (x div 2) \<le> x" "x \<le> 2 * (x div 2) + 1"
    "2 * ((x + 1) div 2) \<le> x + 1" "x \<le> 2 * ((x + 1) div 2)"
    "x = 2 * (x div 2) + x mod 2" "x mod 2 = 0 \<or> x mod 2 = 1"
  by presburger+

lemma diff_diff_shuffle: "(a - x) - (b - y) = a - b - x + (y::int)"
  by simp

lemma offset_axial: "offset_dist p q = axial p q"
proof -
  have eq: "slant q - slant p = snd q - snd p - fst q div 2 + fst p div 2"
    unfolding slant_def by (rule diff_diff_shuffle)
  note lin = axial_lin [OF half_facts(5) [of "fst p"] half_facts(5) [of "fst q"]
      half_facts(6) [of "fst p"] half_facts(6) [of "fst q"] refl refl half_facts(1-4),
      of "snd q - snd p"]
  show ?thesis
    unfolding offset_dist_def axial_def eq lin [symmetric] Let_def ..
qed

lemma norm3_uminus: "norm3 (- a) (- b) = norm3 a b"
  by (simp add: norm3_def abs_if max_def)

lemma norm3_eq_0_iff: "norm3 a b = 0 \<longleftrightarrow> a = 0 \<and> b = 0"
  by (auto simp: norm3_def abs_if max_def split: if_splits)

lemma norm3_nonneg: "0 \<le> norm3 a b"
  by (simp add: norm3_def le_max_iff_disj)

lemma norm3_le_iff: "norm3 a b \<le> n \<longleftrightarrow> \<bar>a\<bar> \<le> n \<and> \<bar>b\<bar> \<le> n \<and> \<bar>a + b\<bar> \<le> n"
  by (simp add: norm3_def)

lemma norm3_triangle: "norm3 (a + c) (b + d) \<le> norm3 a b + norm3 c d"
proof -
  have "\<bar>a\<bar> \<le> norm3 a b" "\<bar>b\<bar> \<le> norm3 a b" "\<bar>a + b\<bar> \<le> norm3 a b"
    "\<bar>c\<bar> \<le> norm3 c d" "\<bar>d\<bar> \<le> norm3 c d" "\<bar>c + d\<bar> \<le> norm3 c d"
    using norm3_le_iff [of a b "norm3 a b"] norm3_le_iff [of c d "norm3 c d"] by simp_all
  then show ?thesis
    unfolding norm3_le_iff by linarith
qed

lemma axial_sym: "axial p q = axial q p"
  using norm3_uminus [of "fst q - fst p" "slant q - slant p"] by (simp add: axial_def)

lemma axial_eq_0_iff: "axial p q = 0 \<longleftrightarrow> p = q"
  by (auto simp: axial_def norm3_eq_0_iff slant_def prod_eq_iff)

lemma axial_nonneg: "0 \<le> axial p q"
  by (simp add: axial_def norm3_nonneg)

lemma axial_triangle: "axial p r \<le> axial p q + axial q r"
  using norm3_triangle [of "fst q - fst p" "fst r - fst q" "slant q - slant p" "slant r - slant q"]
  by (simp add: axial_def)

text \<open>In slanted coordinates every direction is the same vector on even and on odd lines.\<close>

fun slanted :: "Direction \<Rightarrow> int \<times> int" where
  "slanted NEast = (-1, 1)"
| "slanted SEast = (1, 0)"
| "slanted East = (0, 1)"
| "slanted NWest = (-1, 0)"
| "slanted West = (0, -1)"
| "slanted SWest = (1, -1)"
| "slanted NbDirections = (0, 0)"

lemma half_plus: 
  "(a::int) mod 2 = 0 \<Longrightarrow> (a + 1) div 2 = a div 2" "(a::int) mod 2 = 0 \<Longrightarrow> (a - 1) div 2 = a div 2 - 1"
  "(a::int) mod 2 \<noteq> 0 \<Longrightarrow> (a + 1) div 2 = a div 2 + 1" "(a::int) mod 2 \<noteq> 0 \<Longrightarrow> (a - 1) div 2 = a div 2"
  by presburger+

lemma neighbour_slanted:
  assumes "neighbour p dir = Some q"
  shows "(fst q - fst p, slant q - slant p) = slanted dir" "dir \<noteq> NbDirections"
proof -
  obtain a b where p: "p = (a, b)" by (cases p)
  show "dir \<noteq> NbDirections"
    using assms by (cases dir) (auto simp: neighbour_def dirToVect_def split: if_splits)
  show "(fst q - fst p, slant q - slant p) = slanted dir"
    using assms p half_plus [of a]
    by (cases "a mod 2 = 0"; cases dir)
      (auto simp: neighbour_def dirToVect_def slant_def and_one_eq)
qed

lemma neighbour_axial: "neighbour p dir = Some q \<Longrightarrow> axial p q = 1"
  using neighbour_slanted [of p dir q]
  by (cases dir) (auto simp: axial_def norm3_def)

lemma walk_lower: "walk nl nc n p q \<Longrightarrow> axial p q \<le> int n"
proof (induction rule: walk.induct)
  case (walk_here p)
  then show ?case using axial_eq_0_iff [of p p] by simp
next
  case (walk_step p dir q n r)
  then show ?case
    using axial_triangle [of p r q] neighbour_axial [of p dir q] by simp
qed

text \<open>From any cell of the grid but the target, some neighbour in the grid is nearer.\<close>

definition toward :: "cell \<Rightarrow> cell \<Rightarrow> Direction" where
  "toward p q =
     (let dl = fst q - fst p; dc = snd q - snd p; even_line = (fst p mod 2 = 0)
      in if dl = 0 then (if dc > 0 then East else West)
         else let east = (if dc > 0 then True else if dc < 0 then False else even_line)
              in if dl > 0 then (if east then SEast else SWest)
                 else (if east then NEast else NWest))"

lemma halves_diff: "a = 2 * x + i \<Longrightarrow> c = 2 * y + j \<Longrightarrow> c - a = 2 * (y - x) + j - (i::int)"
  by simp

lemma toward_lin:
  fixes dl dc m i i' :: int
  assumes "dl = 2 * m + i' - i" "i = 0 \<or> i = 1" "i' = 0 \<or> i' = 1" "dl \<noteq> 0 \<or> dc \<noteq> 0"
    and "dir = (if dl = 0 then (if dc > 0 then East else West)
         else let east = (if dc > 0 then True else if dc < 0 then False else i = 0)
              in if dl > 0 then (if east then SEast else SWest)
                 else (if east then NEast else NWest))"
    and "(x, y) = slanted dir"
  shows "norm3 (dl - x) (dc - m - y) = norm3 dl (dc - m) - 1"
proof -
  consider "dl = 0" "dc > 0" | "dl = 0" "dc < 0"
    | "dl > 0" "dc > 0" | "dl > 0" "dc = 0" | "dl > 0" "dc < 0"
    | "dl < 0" "dc > 0" | "dl < 0" "dc = 0" | "dl < 0" "dc < 0"
    using assms(4) by linarith
  then show ?thesis
    using assms(1-3,5,6) by cases (auto simp: norm3_def max_def abs_if split: if_splits)
qed

lemma toward_in_grid:
  assumes "in_grid nl nc p" "in_grid nl nc q" "p \<noteq> q"
  obtains r where "neighbour p (toward p q) = Some r" "in_grid nl nc r"
    "axial r q = axial p q - 1"
proof -
  obtain a b c d where pq: "p = (a, b)" "q = (c, d)" by (cases p; cases q)
  have par: "a mod 2 = 0 \<or> a mod 2 = 1" by (rule half_facts)
  have "\<exists>r. neighbour p (toward p q) = Some r \<and> in_grid nl nc r"
    using assms par pq
    by (auto simp: neighbour_def toward_def dirToVect_def and_one_eq in_grid_def Let_def)
  then obtain r where r: "neighbour p (toward p q) = Some r" "in_grid nl nc r" by blast
  have sl: "(fst r - fst p, slant r - slant p) = slanted (toward p q)"
    using r(1) by (rule neighbour_slanted)
  have "axial r q = axial p q - 1"
  proof -
    define x y where "x = fst r - fst p" and "y = slant r - slant p"
    have eq: "fst q - fst r = (c - a) - x" "slant q - slant r = d - b - (c div 2 - a div 2) - y"
      "slant q - slant p = d - b - (c div 2 - a div 2)" "fst q - fst p = c - a"
      by (simp_all add: x_def y_def slant_def pq)
    have dl: "c - a = 2 * (c div 2 - a div 2) + c mod 2 - a mod 2"
      by (rule halves_diff [OF half_facts(5) half_facts(5)])
    have ne: "c - a \<noteq> 0 \<or> d - b \<noteq> 0"
      using assms(3) pq by auto
    have sl': "(x, y) = slanted (toward p q)"
      using sl by (simp add: x_def y_def)
    show ?thesis
      unfolding axial_def eq
      by (rule toward_lin [OF dl half_facts(6) half_facts(6) ne _ sl'])
        (simp add: toward_def pq Let_def)
  qed
  with r show ?thesis using that by blast
qed

lemma walk_upper:
  assumes "in_grid nl nc p" "in_grid nl nc q"
  shows "walk nl nc (nat (axial p q)) p q"
  using assms
proof (induction "nat (axial p q)" arbitrary: p)
  case 0
  then show ?case
    using axial_nonneg [of p q] by (simp add: axial_eq_0_iff walk_here)
next
  case (Suc n)
  then have "p \<noteq> q" using axial_eq_0_iff [of p q] by auto
  with Suc.prems obtain r where r: "neighbour p (toward p q) = Some r" "in_grid nl nc r"
    "axial r q = axial p q - 1" by (rule toward_in_grid)
  from r(3) Suc.hyps(2) have "n = nat (axial r q)" by simp
  with Suc.hyps(1) r(2) Suc.prems(2) have "walk nl nc n r q" by blast
  with Suc.prems(1) r(1) Suc.hyps(2) show ?case
    using walk_step by fastforce
qed

section \<open>Storage and accessors\<close>

lemma HexCoord_l_of_l [simp]: "HexCoord_l (HexCoord_of_l l) = l"
  by (rule bit_word_eqI) (auto simp: HexCoord_l_def HexCoord_of_l_def bit_simps)

lemma HexCoord_of_l_l [simp]: "HexCoord_of_l (HexCoord_l c) = c"
proof -
  have "ucast (HexCoord_l c) = line c"
    by (rule bit_word_eqI) (auto simp: HexCoord_l_def bit_simps)
  moreover have "ucast (drop_bit 16 (HexCoord_l c)) = column c"
    by (rule bit_word_eqI) (auto simp: HexCoord_l_def bit_simps dest: bit_imp_le_length)
  ultimately show ?thesis by (simp add: HexCoord_of_l_def)
qed

lemma HexCoord_l_inject: "HexCoord_l a = HexCoord_l b \<longleftrightarrow> a = b"
  by (metis HexCoord_of_l_l)

lemma HexCoord_l_0: "HexCoord_l \<lparr>line = 0, column = 0\<rparr> = 0"
  by (simp add: HexCoord_l_def)

lemma inRange_l_eq: "inRange_l m l = inRange m (HexCoord_of_l l)"
  by (simp add: inRange_l_def inRange_def Let_def)

lemma inRange_in_grid:
  "inRange m c \<longleftrightarrow> in_grid (sint (nbLines m)) (sint (nbColumns m)) (cell_of c)"
  by (auto simp: inRange_def in_grid_def cell_of_def)

lemma sint16_bounds: "sint (w :: 16 word) \<ge> - 32768" "sint (w :: 16 word) \<le> 32767"
  using sint_ge [of w] sint_lt [of w] by simp_all

lemma sint16_add:
  fixes a b :: mIndex
  assumes "- 32768 \<le> sint a + sint b" "sint a + sint b < 32768"
  shows "sint (a + b) = sint a + sint b"
  using assms by (simp add: signed_take_bit_int_eq_self sint_word_ariths)

text \<open>What the constructor guarantees.\<close>

definition map_inv :: "Hexmap \<Rightarrow> bool" where
  "map_inv m \<longleftrightarrow> 0 < sint (nbLines m) \<and> 0 < sint (nbColumns m)
     \<and> length (hex m) = nat (sint (nbLines m))
     \<and> (\<forall>row \<in> set (hex m). length row = nat (sint (nbColumns m)))
     \<and> (\<forall>i < length (hex m). \<forall>j < length (hex m ! i).
          hex m ! i ! j = new_Hexagon i j)"

lemma new_Hexmap_inv: "new_Hexmap lines columns = Inr m \<Longrightarrow> map_inv m"
  by (auto simp: new_Hexmap_def check_assert_Inr_iff map_inv_def)

lemma hex_at_cases:
  assumes "map_inv m"
  shows "hex_at m c = (if inRange m c then Inr (new_Hexagon (nat (sint (line c))) (nat (sint (column c))))
    else Inl Undefined)"
proof -
  have row: "length (hex m ! i) = nat (sint (nbColumns m))" if "i < length (hex m)" for i
    using assms that by (auto simp: map_inv_def)
  show ?thesis
    using assms row [of "nat (sint (line c))"]
    by (auto simp: hex_at_def inRange_def map_inv_def Let_def)
qed

lemma coord_new_Hexagon:
  assumes "0 \<le> sint (line c)" "0 \<le> sint (column c)"
  shows "coord (new_Hexagon (nat (sint (line c))) (nat (sint (column c)))) = c"
  using assms by (simp add: new_Hexagon_def of_nat_nat)

lemma getHex_map_inv:
  assumes "map_inv m" "inRange m c"
  shows "\<exists>h. getHex m c = Inr h \<and> coord h = c \<and> getHex_l m (HexCoord_l c) = Inr h"
  using assms coord_new_Hexagon [of c]
  by (simp add: getHex_def getHex_l_def hex_at_cases inRange_l_eq inRange_def)

lemma getCoordL_eq_0_iff:
  assumes "map_inv m" "inRange m (coord h)" "neighbour (cell_of (coord h)) dir = Some q"
    "dirToVect (sint (line (coord h)) AND 1) dir = Some v"
  shows "getCoordL m h v = 0 \<longleftrightarrow> in_grid (sint (nbLines m)) (sint (nbColumns m)) q"
    and "\<not> in_grid (sint (nbLines m)) (sint (nbColumns m)) q \<Longrightarrow>
      \<not> inRange m (HexCoord_of_l (getCoordL m h v))"
proof -
  let ?l = "sint (line (coord h)) + sint (line v)" and ?c = "sint (column (coord h)) + sint (column v)"
  let ?aux = "\<lparr>line = line (coord h) + line v, column = column (coord h) + column v\<rparr>"
  let ?in = "in_grid (sint (nbLines m)) (sint (nbColumns m)) q"
  have q: "q = (?l, ?c)"
    using assms(3,4) by (simp add: neighbour_def cell_of_def)
  have v: "- 1 \<le> sint (line v)" "sint (line v) \<le> 1" "- 1 \<le> sint (column v)" "sint (column v) \<le> 1"
    using assms(4) by (cases dir; auto simp: dirToVect_def split: if_splits)+
  have "0 \<le> sint (line (coord h))" "sint (line (coord h)) < 32767"
    "0 \<le> sint (column (coord h))" "sint (column (coord h)) < 32767"
    using assms(2) sint16_bounds [of "nbLines m"] sint16_bounds [of "nbColumns m"]
    by (simp_all add: inRange_def)
  with v have s: "sint (line (coord h) + line v) = ?l" "sint (column (coord h) + column v) = ?c"
    by (intro sint16_add; linarith)+
  have g: "getCoordL m h v = (if ?in then 0 else HexCoord_l ?aux)"
    by (auto simp: getCoordL_def Let_def s in_grid_def q)
  have nz: "HexCoord_l ?aux \<noteq> 0" if "\<not> ?in"
  proof
    assume "HexCoord_l ?aux = 0"
    then have "?aux = \<lparr>line = 0, column = 0\<rparr>"
      using HexCoord_l_inject [of ?aux "\<lparr>line = 0, column = 0\<rparr>"] HexCoord_l_0 by metis
    then have "?l = 0" "?c = 0"
      using s by simp_all
    with that assms(1) show False by (simp add: in_grid_def q map_inv_def)
  qed
  show "getCoordL m h v = 0 \<longleftrightarrow> in_grid (sint (nbLines m)) (sint (nbColumns m)) q"
    using g nz by auto
  show "\<not> inRange m (HexCoord_of_l (getCoordL m h v))"
    if "\<not> in_grid (sint (nbLines m)) (sint (nbColumns m)) q"
    using that by (simp add: g inRange_in_grid cell_of_def s q)
qed

lemma getHex_dir_cases:
  assumes "map_inv m" "inRange m (coord h)" "neighbour (cell_of (coord h)) dir = Some q"
  shows "getHex_dir m h dir =
    (if in_grid (sint (nbLines m)) (sint (nbColumns m)) q then Inr None else Inl Undefined)"
proof -
  obtain v where v: "dirToVect (sint (line (coord h)) AND 1) dir = Some v"
    using assms(3) by (auto simp: neighbour_def cell_of_def split: option.splits)
  show ?thesis
    using getCoordL_eq_0_iff [OF assms v]
    by (auto simp: getHex_dir_def v Let_def hex_at_cases [OF assms(1)])
qed

lemma getVect_coords: "HexCoord_of_l (getVect h1 h2) =
  \<lparr>line = line (coord h2) - line (coord h1), column = column (coord h2) - column (coord h1)\<rparr>"
  by (simp add: getVect_def)

text \<open>The module test of \<^verbatim>\<open>hexmap_tests.cpp\<close>: an 8 by 8 map and twenty pairs.\<close>

definition test1_hexDist_pairs :: "((nat \<times> nat) \<times> (nat \<times> nat)) list" where
  "test1_hexDist_pairs =
     [((7,6),(1,3)), ((1,7),(2,4)), ((1,5),(2,3)), ((2,3),(3,6)), ((4,2),(4,0)),
      ((3,0),(7,5)), ((6,2),(6,3)), ((3,7),(1,2)), ((6,2),(5,7)), ((1,0),(3,2)),
      ((5,5),(5,7)), ((0,1),(6,4)), ((3,2),(5,6)), ((3,4),(4,1)), ((6,2),(4,1)),
      ((1,5),(4,7)), ((0,1),(6,1)), ((1,1),(4,7)), ((6,1),(6,7)), ((2,4),(3,6))]"

definition test1_Hexmap_hexDist_results :: "int list" where
  "test1_Hexmap_hexDist_results =
     [6, 4, 3, 4, 2, 7, 1, 6, 6, 3, 2, 6, 5, 4, 2, 3, 6, 7, 6, 3]"

definition test1_distance :: "(nat \<times> nat) \<Rightarrow> (nat \<times> nat) \<Rightarrow> int result" where
  "test1_distance p q =
     (case new_Hexmap (push_bit 3 1) (push_bit 3 1) of
        Inl e \<Rightarrow> Inl e
      | Inr m \<Rightarrow>
          (case getHex_l m (HexCoord_l \<lparr>line = of_nat (fst p), column = of_nat (snd p)\<rparr>) of
             Inl e \<Rightarrow> Inl e
           | Inr h1 \<Rightarrow>
               (case getHex_l m (HexCoord_l \<lparr>line = of_nat (fst q), column = of_nat (snd q)\<rparr>) of
                  Inl e \<Rightarrow> Inl e
                | Inr h2 \<Rightarrow> Inr (hexDist h1 h2))))"

section \<open>Properties\<close>

text \<open>
  C25. On any two hexagons of a map, \<^verbatim>\<open>hexDist\<close> is the number of steps of a shortest walk
  from one to the other through neighbouring hexagons of the map: a walk of that length exists
  inside the map, and no walk is shorter.
\<close>

theorem hexDist_shortest_walk:
  assumes "inRange m (coord h1)" and "inRange m (coord h2)"
  shows "0 \<le> hexDist h1 h2
    \<and> walk (sint (nbLines m)) (sint (nbColumns m)) (nat (hexDist h1 h2))
        (cell_of (coord h1)) (cell_of (coord h2))
    \<and> (\<nexists>n. walk (sint (nbLines m)) (sint (nbColumns m)) n
        (cell_of (coord h1)) (cell_of (coord h2)) \<and> int n < hexDist h1 h2)"
proof -
  let ?p = "cell_of (coord h1)" and ?q = "cell_of (coord h2)"
  have d: "hexDist h1 h2 = axial ?p ?q"
    by (simp only: hexDist_offset offset_axial)
  show ?thesis
    unfolding d using assms walk_upper walk_lower axial_nonneg [of ?p ?q]
    by (auto simp: inRange_in_grid not_less)
qed

lemma hexDist_shortest_walk_witness:
  "\<exists>m. new_Hexmap 8 8 = Inr m \<and>
     walk 8 8 6 (7, 6) (1, 3) \<and> \<not> walk 8 8 5 (7, 6) (1, 3)"
proof -
  obtain m where m: "new_Hexmap 8 8 = Inr m" by (simp add: new_Hexmap_def)
  then have n: "nbLines m = 8" "nbColumns m = 8" by (auto simp: new_Hexmap_def)
  have d: "hexDist (new_Hexagon 7 6) (new_Hexagon 1 3) = 6"
    by (simp add: hexDist_def new_Hexagon_def)
  show ?thesis
    using m hexDist_shortest_walk [of m "new_Hexagon 7 6" "new_Hexagon 1 3"]
    unfolding d by (auto simp: n inRange_def new_Hexagon_def cell_of_def)
qed

text \<open>
  C26. \<^verbatim>\<open>hexDist\<close> is a metric on coordinates: never negative, symmetric, zero exactly between equal
  coordinates, and it satisfies the triangle inequality, for all 16-bit coordinates. It does not look at any
  map, so that this holds for coordinates outside the limits too, for which the comment of the header (lines
  120-121) promises a negative value that is never returned.
\<close>

theorem hexDist_metric:
  "0 \<le> hexDist h1 h2
   \<and> hexDist h1 h2 = hexDist h2 h1
   \<and> (hexDist h1 h2 = 0 \<longleftrightarrow> coord h1 = coord h2)
   \<and> hexDist h1 h3 \<le> hexDist h1 h2 + hexDist h2 h3"
proof -
  have "cell_of a = cell_of b \<longleftrightarrow> a = b" for a b
    by (cases a; cases b) (auto simp: cell_of_def intro: signed_word_eqI)
  moreover have "0 \<le> hexDist h1 h2"
    unfolding hexDist_offset offset_axial by (simp add: axial_nonneg)
  ultimately show ?thesis
    unfolding hexDist_offset offset_axial axial_eq_0_iff
    using axial_sym axial_triangle by metis
qed

text \<open>
  A map built by the constructor holds, at every coordinate in range, the hexagon with
  exactly that coordinate, and both overloads of \<^verbatim>\<open>getHex\<close> (by coordinate, by packed
  \<^verbatim>\<open>Coordl\<close>) return it; out of range both fail their assertion; the constructor itself
  asserts on non-positive dimensions.
\<close>

theorem new_Hexmap_getHex:
  "case new_Hexmap lines columns of
     Inl e \<Rightarrow> e = AssertFailed \<and> (sint lines \<le> 0 \<or> sint columns \<le> 0)
   | Inr m \<Rightarrow> (if inRange m c
        then map_sum id coord (getHex m c) = Inr c
             \<and> getHex_l m (HexCoord_l c) = getHex m c
        else getHex m c = Inl AssertFailed \<and> getHex_l m (HexCoord_l c) = Inl AssertFailed)"
proof (cases "new_Hexmap lines columns")
  case (Inl e)
  then show ?thesis by (auto simp: new_Hexmap_def check_assert_def split: if_splits)
next
  case (Inr m)
  then show ?thesis
    using getHex_map_inv [of m c] new_Hexmap_inv [of lines columns m]
    by (auto simp: getHex_def getHex_l_def inRange_l_eq)
qed

text \<open>
  C40. The lookup of a neighbour by direction never returns a neighbour: from a hexagon of a
  constructed map, it yields the null pointer when the neighbour exists, and it computes an
  address outside the map (undefined behaviour) when there is none. The header documents the
  opposite (null when the neighbour is out of range).
\<close>

theorem getHex_dir_inverted:
  assumes "new_Hexmap lines columns = Inr m" and "inRange m (coord h)"
    and "neighbour (cell_of (coord h)) dir = Some q"
  shows "getHex_dir m h dir =
    (if in_grid (sint (nbLines m)) (sint (nbColumns m)) q then Inr None else Inl Undefined)"
  using getHex_dir_cases [OF new_Hexmap_inv [OF assms(1)] assms(2,3)] .

lemma getHex_dir_inverted_witness:
  "\<exists>m. new_Hexmap 3 3 = Inr m
    \<and> getHex_dir m (new_Hexagon 1 1) East = Inr None
    \<and> getHex_dir m (new_Hexagon 0 0) West = Inl Undefined"
proof -
  obtain m where m: "new_Hexmap 3 3 = Inr m" by (simp add: new_Hexmap_def)
  then have n: "nbLines m = 3" "nbColumns m = 3" by (auto simp: new_Hexmap_def)
  have r: "inRange m (coord (new_Hexagon 1 1))" "inRange m (coord (new_Hexagon 0 0))"
    by (simp_all add: inRange_def n new_Hexagon_def)
  have q: "neighbour (cell_of (coord (new_Hexagon 1 1))) East = Some (1, 2)"
    "neighbour (cell_of (coord (new_Hexagon 0 0))) West = Some (0, -1)"
    by (simp_all add: neighbour_def cell_of_def new_Hexagon_def dirToVect_def and_one_eq)
  show ?thesis
    using m getHex_dir_inverted [OF m r(1) q(1)] getHex_dir_inverted [OF m r(2) q(2)]
    by (simp add: n in_grid_def)
qed

text \<open>
  The destructor releases every row exactly once when the map is square. With fewer columns
  than lines it leaks the remaining rows, and with more columns than lines it reads row pointers
  past the end of the array.
\<close>

theorem delete_Hexmap_rows:
  assumes "new_Hexmap lines columns = Inr m"
  shows "delete_Hexmap m =
    (if sint lines < sint columns then Inl Undefined else Inr [0..<nat (sint columns)])
    \<and> (delete_Hexmap m = Inr [0..<length (hex m)] \<longleftrightarrow> lines = columns)"
proof -
  have "sint lines = sint columns \<longleftrightarrow> lines = columns"
    by (auto intro: signed_word_eqI)
  then show ?thesis
    using assms by (auto simp: new_Hexmap_def check_assert_Inr_iff delete_Hexmap_def
        eq_nat_nat_iff dest: arg_cong [where f = length])
qed

lemma delete_Hexmap_rows_witness:
  "\<exists>m. new_Hexmap 2 3 = Inr m \<and> delete_Hexmap m = Inl Undefined"
proof -
  obtain m where m: "new_Hexmap 2 3 = Inr m" by (simp add: new_Hexmap_def)
  then show ?thesis using delete_Hexmap_rows [OF m] by simp
qed

text \<open>
  \<^verbatim>\<open>getVect\<close> computes the translation between two hexagons: adding its components to the
  coordinates of the first one, with 16-bit wrap-around, gives those of the second one.
\<close>

theorem getVect_translation:
  "line (coord h1) + line (HexCoord_of_l (getVect h1 h2)) = line (coord h2)
   \<and> column (coord h1) + column (HexCoord_of_l (getVect h1 h2)) = column (coord h2)"
  by (simp add: getVect_coords)

text \<open>
  The distances the module test expects (\<^verbatim>\<open>test1_Hexmap_hexDist_results\<close>, with the
  coordinates its comments list) are the ones \<^verbatim>\<open>hexDist\<close> computes.
\<close>


theorem test1_distances:
  "map (\<lambda>(p, q). test1_distance p q) test1_hexDist_pairs = map Inr test1_Hexmap_hexDist_results"
  by code_simp

end
