(* ===== verification/Console.thy ===== *)
theory Console
  imports Prelude
begin

text \<open>
  What the program writes: numbers as \<^verbatim>\<open>operator<<\<close> of the standard streams shows them, and the exception class
  \<^verbatim>\<open>socket_disconnection\<close> of \<^verbatim>\<open>MsgSocket.h\<close>, whose only use is the text that is written when a connection is lost.
\<close>

section \<open>Numbers\<close>

fun decimal :: "nat \<Rightarrow> string" where
  "decimal n = (if n < 10 then [char_of (48 + n)] else decimal (n div 10) @ [char_of (48 + n mod 10)])"

declare decimal.simps [simp del]

definition show_int :: "int \<Rightarrow> string" where
  "show_int i = (if i < 0 then CHR ''-'' # decimal (nat (- i)) else decimal (nat i))"

text \<open>The number that a text of digits stands for.\<close>

definition undecimal :: "string \<Rightarrow> nat" where
  "undecimal = foldl (\<lambda>n c. 10 * n + (of_char c - 48)) 0"

lemma of_digit: "d < 10 \<Longrightarrow> of_char (char_of (48 + d) :: char) = (48 + d :: nat)"
  by simp

lemma undecimal_snoc: "undecimal (cs @ [c]) = 10 * undecimal cs + (of_char c - 48)"
  by (simp add: undecimal_def)

lemma undecimal_decimal [simp]: "undecimal (decimal n) = n"
proof (induction n rule: decimal.induct)
  case (1 n)
  show ?case
  proof (cases "n < 10")
    case True
    then show ?thesis by (simp add: decimal.simps [of n] undecimal_def)
  next
    case False
    then show ?thesis using 1 by (simp add: decimal.simps [of n] undecimal_snoc)
  qed
qed

lemma decimal_inj: "decimal m = decimal n \<longleftrightarrow> m = n"
  by (metis undecimal_decimal)

lemma decimal_digits: "c \<in> set (decimal n) \<Longrightarrow> 48 \<le> (of_char c :: nat) \<and> of_char c \<le> (57 :: nat)"
proof (induction n rule: decimal.induct)
  case (1 n)
  then show ?case by (cases "n < 10") (auto simp: decimal.simps [of n])
qed

lemma decimal_nonempty [simp]: "decimal n \<noteq> []"
  by (simp add: decimal.simps [of n])

lemma decimal_single: "length (decimal n) = 1 \<longleftrightarrow> n < 10"
  by (simp add: decimal.simps [of n])

lemma show_int_chars: "c \<in> set (show_int i) \<Longrightarrow> c = CHR ''-'' \<or> 48 \<le> (of_char c :: nat) \<and> of_char c \<le> (57 :: nat)"
  using decimal_digits by (auto simp: show_int_def split: if_splits)

lemma show_int_inj: "show_int i = show_int j \<longleftrightarrow> i = j"
proof
  have m: "CHR ''-'' \<notin> set (decimal n)" for n using decimal_digits [of "CHR ''-''" n] by auto
  have n: "decimal a \<noteq> CHR ''-'' # cs" for a cs using m [of a] by auto
  show "i = j" if "show_int i = show_int j"
    using that n n [symmetric] by (auto simp: show_int_def decimal_inj split: if_splits)
qed simp

section \<open>The exception of a lost connection\<close>

record socket_disconnection =
  err_msg :: string
  sys_errno :: int

text \<open>
  \<^verbatim>\<open>err_msg += err\<close> appends one character, to which the number is converted.
\<close>

definition new_socket_disconnection :: "string \<Rightarrow> int \<Rightarrow> socket_disconnection" where
  "new_socket_disconnection msg err =
    \<lparr>err_msg = (msg @ '', errno:'') @ [char_of (nat (err mod 256))], sys_errno = err\<rparr>"

text \<open>\<^verbatim>\<open>what\<close> returns a C string, which ends at the first NUL.\<close>

definition what :: "socket_disconnection \<Rightarrow> string" where
  "what obj = takeWhile (\<lambda>c. c \<noteq> CHR 0x00) (err_msg obj)"

definition show_disconnection :: "socket_disconnection \<Rightarrow> string" where
  "show_disconnection obj = CHR 0x0A # err_msg obj @ '' errno: '' @ show_int (sys_errno obj)"

text \<open>
  The text of the exception never has its error number: one character stands in its place, the same one for
  numbers that differ by 256, and none for 0, the default. The stream operator writes it.
\<close>

theorem what_never_shows_errno:
  "what (new_socket_disconnection msg err) \<noteq> msg @ '', errno:'' @ show_int err
    \<and> (\<exists>cs. show_disconnection (new_socket_disconnection msg err) = cs @ '' errno: '' @ show_int err)"
proof
  show "what (new_socket_disconnection msg err) \<noteq> msg @ '', errno:'' @ show_int err"
  proof
    let ?c = "char_of (nat (err mod 256)) :: char"
    assume a: "what (new_socket_disconnection msg err) = msg @ '', errno:'' @ show_int err"
    then have "takeWhile (\<lambda>c. c \<noteq> CHR 0x00) ((msg @ '', errno:'') @ [?c]) = (msg @ '', errno:'') @ show_int err"
      by (simp add: what_def new_socket_disconnection_def)
    moreover have "\<exists>n. takeWhile (\<lambda>c. c \<noteq> CHR 0x00) cs = take n cs" for cs :: string
      by (metis takeWhile_eq_take)
    ultimately obtain n where t: "take n ((msg @ '', errno:'') @ [?c]) = (msg @ '', errno:'') @ show_int err" by metis
    then have "length ((msg @ '', errno:'') @ show_int err) \<le> length ((msg @ '', errno:'') @ [?c])"
      by (metis length_take min.cobounded1)
    moreover have "show_int err \<noteq> []" by (simp add: show_int_def)
    ultimately have l: "length (show_int err) = 1" by (cases "show_int err") auto
    with arg_cong [OF t, of length] have "length ((msg @ '', errno:'') @ [?c]) \<le> n" by simp
    with t have s: "show_int err = [?c]" by simp
    from l have e: "0 \<le> err" "decimal (nat err) = [?c]" using s by (auto simp: show_int_def split: if_splits)
    then have n: "nat err < 10" using decimal_single [of "nat err"] by simp
    then have "decimal (nat err) = [char_of (48 + nat err)]" by (simp add: decimal.simps [of "nat err"])
    with e(2) have "(of_char (char_of (48 + nat err) :: char) :: nat) = of_char ?c" by simp
    with n e(1) show False by simp
  qed
  show "\<exists>cs. show_disconnection (new_socket_disconnection msg err) = cs @ '' errno: '' @ show_int err"
    by (rule exI [of _ "CHR 0x0A # err_msg (new_socket_disconnection msg err)"])
      (simp add: show_disconnection_def new_socket_disconnection_def)
qed

end
