(* ===== verification/HexTests.thy ===== *)
theory HexTests
  imports Hexmap Console
begin

text \<open>
  The module test of the map, \<^verbatim>\<open>core/hexmap_tests.cpp\<close>, as a program, and what it writes. The random generator of the C
  library is a parameter: a state of any type with \<^verbatim>\<open>srand\<close> and \<^verbatim>\<open>rand\<close>.
\<close>

section \<open>Writing a hexagon\<close>

definition show_Hexagon :: "Hexagon \<Rightarrow> string" where
  "show_Hexagon h = (let c = HexCoord_of_l (getCoordl h) in
     '' hex['' @ show_int (sint (line c)) @ ''][''  @ show_int (sint (column c)) @ '']'')"

text \<open>What is written tells the coordinates.\<close>

lemma show_Hexagon_inj: "show_Hexagon h = show_Hexagon h' \<longleftrightarrow> coord h = coord h'"
proof
  assume a: "show_Hexagon h = show_Hexagon h'"
  have cut: "takeWhile (\<lambda>c. c \<noteq> CHR '']'') (show_int i @ CHR '']'' # cs) = show_int i" for i cs
    using show_int_chars [of _ i] by (subst takeWhile_append2) force+
  have "show_int (sint (line (coord h))) = show_int (sint (line (coord h')))
      \<and> show_int (sint (column (coord h))) = show_int (sint (column (coord h')))"
  proof -
    from a have e: "show_int (sint (line (coord h))) @ ''][''  @ show_int (sint (column (coord h))) @ '']''
        = show_int (sint (line (coord h'))) @ ''][''  @ show_int (sint (column (coord h'))) @ '']''"
      by (simp add: show_Hexagon_def getCoordl_def Let_def)
    from arg_cong [OF e, of "takeWhile (\<lambda>c. c \<noteq> CHR '']'')"]
    have l: "show_int (sint (line (coord h))) = show_int (sint (line (coord h')))" by (simp add: cut)
    with e show ?thesis by simp
  qed
  then have "sint (line (coord h)) = sint (line (coord h'))" "sint (column (coord h)) = sint (column (coord h'))"
    by (simp_all only: show_int_inj)
  then have "line (coord h) = line (coord h')" "column (coord h) = column (coord h')"
    by (simp_all only: signed_word_eqI)
  then show "coord h = coord h'" by simp
qed (simp add: show_Hexagon_def getCoordl_def)

section \<open>The test\<close>

text \<open>
  A random number is cut to the size of the map with a mask; the first two are converted to \<^verbatim>\<open>mIndex\<close> before, the
  others after.
\<close>

definition masked :: "int \<Rightarrow> mIndex \<Rightarrow> mIndex" where
  "masked r n = word_of_int (r AND (sint n - 1))"

definition test1_step :: "('g \<Rightarrow> int \<times> 'g) \<Rightarrow> Hexmap \<Rightarrow> 'g \<Rightarrow> (Hexagon \<times> Hexagon \<times> int) result \<times> 'g" where
  "test1_step rand m g0 =
    (let (r1, g1) = rand g0; (r2, g2) = rand g1;
         l1 = masked (sint (word_of_int r1 :: mIndex)) (nbLines m);
         c1 = masked (sint (word_of_int r2 :: mIndex)) (nbColumns m)
     in case getHex_l m (HexCoord_l \<lparr>line = l1, column = c1\<rparr>) of
          Inl e \<Rightarrow> (Inl e, g2)
        | Inr h1 \<Rightarrow>
           (let (r3, g3) = rand g2; (r4, g4) = rand g3;
                l2 = masked r3 (nbLines m); c2 = masked r4 (nbColumns m)
            in case getHex_l m (HexCoord_l \<lparr>line = l2, column = c2\<rparr>) of
                 Inl e \<Rightarrow> (Inl e, g4)
               | Inr h2 \<Rightarrow> (Inr (h1, h2, hexDist h1 h2), g4)))"

fun test1_loop :: "('g \<Rightarrow> int \<times> 'g) \<Rightarrow> Hexmap \<Rightarrow> int list \<Rightarrow> 'g \<Rightarrow> unit result \<times> string list" where
  "test1_loop rand m [] g = (Inr (), [])"
| "test1_loop rand m (r # rs) g = (case test1_step rand m g of
      (Inl e, _) \<Rightarrow> (Inl e, [])
    | (Inr (h1, h2, dist), g') \<Rightarrow>
        (let line = CHR 0x0A # '' '' @ show_Hexagon h1 @ '' to '' @ show_Hexagon h2 @ '' : '' @ show_int dist
         in if dist = r then (case test1_loop rand m rs g' of (x, out) \<Rightarrow> (x, line # out))
            else (Inl AssertFailed, [line])))"

text \<open>
  The function is declared to return an \<^verbatim>\<open>int\<close> and has no \<^verbatim>\<open>return\<close>: reaching its end is undefined.
\<close>

definition test1_Hexmap_hexDist :: "(nat \<Rightarrow> 'g) \<Rightarrow> ('g \<Rightarrow> int \<times> 'g) \<Rightarrow> int result \<times> string list" where
  "test1_Hexmap_hexDist srand rand =
    (case new_Hexmap (push_bit 3 1) (push_bit 3 1) of
       Inl e \<Rightarrow> (Inl e, [])
     | Inr m \<Rightarrow> (case test1_loop rand m test1_Hexmap_hexDist_results (srand 1) of
           (Inl e, out) \<Rightarrow> (Inl e, out)
         | (Inr _, out) \<Rightarrow> (Inl Undefined, out)))"

section \<open>What it does\<close>

text \<open>The cells that the generator makes the test compare.\<close>

fun draws :: "('g \<Rightarrow> int \<times> 'g) \<Rightarrow> nat \<Rightarrow> 'g \<Rightarrow> (cell \<times> cell) list" where
  "draws rand 0 g = []"
| "draws rand (Suc n) g =
    (let (r1, g1) = rand g; (r2, g2) = rand g1; (r3, g3) = rand g2; (r4, g4) = rand g3
     in ((r1 mod 8, r2 mod 8), (r3 mod 8, r4 mod 8)) # draws rand n g4)"

definition show_draw :: "cell \<times> cell \<Rightarrow> string" where
  "show_draw d = (case d of ((l1, c1), (l2, c2)) \<Rightarrow>
     CHR 0x0A # ''  hex['' @ show_int l1 @ ''][''  @ show_int c1 @ ''] to  hex['' @ show_int l2 @ ''][''
       @ show_int c2 @ ''] : '' @ show_int (offset_dist (l1, c1) (l2, c2)))"

definition map8 :: Hexmap where
  "map8 = \<lparr>hex = map (\<lambda>ln. map (new_Hexagon ln) [0..<8]) [0..<8], nbLines = 8, nbColumns = 8\<rparr>"

lemma new_map8: "new_Hexmap (push_bit 3 1) (push_bit 3 1) = Inr map8"
  by (simp add: new_Hexmap_def map8_def push_bit_eq_mult)

lemma short_mod8: "sint (word_of_int r :: mIndex) mod 8 = r mod 8"
proof -
  have "sint (word_of_int r :: mIndex) = signed_take_bit 15 r" by (simp add: sint_sbintrunc')
  moreover have "take_bit 3 (signed_take_bit 15 r) = take_bit 3 r" by (simp add: take_bit_signed_take_bit)
  ultimately show ?thesis by (simp add: take_bit_eq_mod)
qed

lemma masked8: "masked r 8 = word_of_int (r mod 8)"
proof -
  have "x AND mask 3 = x mod 2 ^ 3" for x :: int by (simp only: take_bit_eq_mask [symmetric] take_bit_eq_mod)
  then have "x AND 7 = x mod 8" for x :: int by (simp add: mask_eq_exp_minus_1)
  then show ?thesis by (simp add: masked_def)
qed

lemma getHex_map8:
  assumes "0 \<le> l" "l < 8" "0 \<le> k" "k < 8"
  shows "getHex_l map8 (HexCoord_l \<lparr>line = word_of_int l, column = word_of_int k\<rparr>)
    = Inr (new_Hexagon (nat l) (nat k))"
proof -
  have "sint (word_of_int l :: mIndex) = l" "sint (word_of_int k :: mIndex) = k"
    using assms by (auto simp: sint_sbintrunc' signed_take_bit_int_eq_self)
  with assms show ?thesis
    by (simp add: getHex_l_def inRange_l_def hex_at_def Let_def map8_def nat_less_iff)
qed

lemma hexDist_new:
  assumes "0 \<le> l" "l < 8" "0 \<le> k" "k < 8" "0 \<le> l'" "l' < 8" "0 \<le> k'" "k' < 8"
  shows "hexDist (new_Hexagon (nat l) (nat k)) (new_Hexagon (nat l') (nat k')) = offset_dist (l, k) (l', k')"
proof -
  have "sint (word_of_int i :: mIndex) = i" if "0 \<le> i" "i < 8" for i
    using that by (auto simp: sint_sbintrunc' signed_take_bit_int_eq_self)
  with assms show ?thesis by (simp add: hexDist_offset cell_of_def new_Hexagon_def)
qed

lemma show_new:
  assumes "0 \<le> l" "l < 8" "0 \<le> k" "k < 8"
  shows "show_Hexagon (new_Hexagon (nat l) (nat k)) = '' hex['' @ show_int l @ ''][''  @ show_int k @ '']''"
proof -
  have "sint (word_of_int i :: mIndex) = i" if "0 \<le> i" "i < 8" for i
    using that by (auto simp: sint_sbintrunc' signed_take_bit_int_eq_self)
  with assms show ?thesis by (simp add: show_Hexagon_def getCoordl_def new_Hexagon_def)
qed

lemma test1_step_draws:
  assumes "draws rand (Suc n) g = ((p, q)) # ds"
  obtains h1 h2 g' where "test1_step rand map8 g = (Inr (h1, h2, offset_dist p q), g')" "draws rand n g' = ds"
    "CHR 0x0A # '' '' @ show_Hexagon h1 @ '' to '' @ show_Hexagon h2 @ '' : '' @ show_int (offset_dist p q) = show_draw (p, q)"
proof -
  obtain r1 g1 r2 g2 r3 g3 r4 g4 where
    r: "rand g = (r1, g1)" "rand g1 = (r2, g2)" "rand g2 = (r3, g3)" "rand g3 = (r4, g4)" by fastforce
  have s: "nbLines map8 = 8" "nbColumns map8 = 8" by (simp_all add: map8_def)
  have b: "0 \<le> r mod 8" "r mod 8 < 8" for r :: int by simp_all
  note h = getHex_map8 [OF b b] show_new [OF b b] hexDist_new [OF b b b b]
  from assms r have d: "p = (r1 mod 8, r2 mod 8)" "q = (r3 mod 8, r4 mod 8)" "draws rand n g4 = ds" by simp_all
  show thesis
    by (rule that [of "new_Hexagon (nat (r1 mod 8)) (nat (r2 mod 8))" "new_Hexagon (nat (r3 mod 8)) (nat (r4 mod 8))" g4])
      (simp_all add: test1_step_def r s masked8 short_mod8 h d show_draw_def)
qed

lemma test1_loop_outcome:
  "test1_loop rand map8 rs g = (let ds = draws rand (length rs) g; k = length (takeWhile (\<lambda>(d, r). (case d of (p, q) \<Rightarrow> offset_dist p q) = r) (zip ds rs))
     in if k = length rs then (Inr (), map show_draw ds) else (Inl AssertFailed, map show_draw (take (Suc k) ds)))"
proof (induction rs arbitrary: g)
  case (Cons r rs)
  obtain r1 g1 r2 g2 r3 g3 r4 g4 where
    "rand g = (r1, g1)" "rand g1 = (r2, g2)" "rand g2 = (r3, g3)" "rand g3 = (r4, g4)" by fastforce
  then obtain p q ds where d: "draws rand (Suc (length rs)) g = (p, q) # ds" by simp
  from test1_step_draws [OF d] obtain h1 h2 g' where
    s: "test1_step rand map8 g = (Inr (h1, h2, offset_dist p q), g')" "draws rand (length rs) g' = ds"
      "CHR 0x0A # '' '' @ show_Hexagon h1 @ '' to '' @ show_Hexagon h2 @ '' : '' @ show_int (offset_dist p q) = show_draw (p, q)"
    by blast
  show ?case unfolding list.size(4) add_Suc_right add_0_right d
    using s(1,3) Cons.IH [of g'] s(2) by (auto simp: Let_def)
qed simp

text \<open>
  The module test, for any random generator: it compares the distances of the twenty pairs of cells that the
  generator gives with its table, writes each one, and aborts at the first that differs; when all agree it runs
  off its end.
\<close>

theorem test1_Hexmap_outcome:
  "test1_Hexmap_hexDist srand rand =
    (let ds = draws rand 20 (srand 1);
         k = length (takeWhile (\<lambda>((p, q), r). offset_dist p q = r) (zip ds test1_Hexmap_hexDist_results))
     in if k = 20 then (Inl Undefined, map show_draw ds) else (Inl AssertFailed, map show_draw (take (Suc k) ds)))"
proof -
  have "length test1_Hexmap_hexDist_results = 20" by (simp add: test1_Hexmap_hexDist_results_def)
  then show ?thesis
    unfolding test1_Hexmap_hexDist_def new_map8 sum.case test1_loop_outcome Let_def
    by (simp add: case_prod_unfold)
qed

text \<open>A generator that plays the numbers of a list.\<close>

fun playing :: "int list \<Rightarrow> int \<times> int list" where
  "playing [] = (0, [])"
| "playing (n # ns) = (n, ns)"

text \<open>With the pairs that the comments of the table name, all twenty distances agree.\<close>

definition commented :: "unit \<Rightarrow> int list" where
  "commented _ = concat (map (\<lambda>((a, b), (c, d)). map int [a, b, c, d]) test1_hexDist_pairs)"

lemma test1_commented_draws:
  "test1_Hexmap_hexDist (\<lambda>_. commented ()) playing
    = (Inl Undefined, map show_draw (draws playing 20 (commented ())))
   \<and> map show_draw (take 2 (draws playing 20 (commented ())))
     = [CHR 0x0A # ''  hex[7][6] to  hex[1][3] : 6'', CHR 0x0A # ''  hex[1][7] to  hex[2][4] : 4'']"
proof -
  have ds: "draws playing 20 (commented ()) = map (\<lambda>((a, b), (c, d)). ((int a, int b), (int c, int d))) test1_hexDist_pairs"
    by code_simp
  have "list_all2 (\<lambda>(p, q) r. offset_dist p q = r) (draws playing 20 (commented ())) test1_Hexmap_hexDist_results"
    unfolding ds by code_simp
  moreover have l: "length (draws playing 20 (commented ())) = 20" "length test1_Hexmap_hexDist_results = 20"
    by (simp_all add: ds test1_hexDist_pairs_def test1_Hexmap_hexDist_results_def)
  ultimately have "takeWhile (\<lambda>((p, q), r). offset_dist p q = r) (zip (draws playing 20 (commented ())) test1_Hexmap_hexDist_results)
      = zip (draws playing 20 (commented ())) test1_Hexmap_hexDist_results"
    by (subst takeWhile_eq_all_conv) (auto simp: list_all2_iff)
  with l have k: "length (takeWhile (\<lambda>((p, q), r). offset_dist p q = r)
      (zip (draws playing 20 (commented ())) test1_Hexmap_hexDist_results)) = 20" by (simp only: length_zip)
  have "test1_Hexmap_hexDist (\<lambda>_. commented ()) playing
      = (Inl Undefined, map show_draw (draws playing 20 (commented ())))"
    unfolding test1_Hexmap_outcome Let_def k by simp
  moreover have "map show_draw (take 2 (draws playing 20 (commented ())))
     = [CHR 0x0A # ''  hex[7][6] to  hex[1][3] : 6'', CHR 0x0A # ''  hex[1][7] to  hex[2][4] : 4'']"
    unfolding ds by code_simp
  ultimately show ?thesis by blast
qed

end
