(* ===== verification/CircList.thy ===== *)
theory CircList
  imports Prelude
begin

text \<open>
  The intrusive circular doubly linked list of \<^verbatim>\<open>util/circList.h\<close>: list elements and heads are
  objects at addresses whose \<^verbatim>\<open>next\<close>, \<^verbatim>\<open>prev\<close> and \<^verbatim>\<open>payload\<close> fields live in one store.
  Every operation is the sequence of pointer assignments of the source. The abstraction relation
  \<open>store_ok\<close> ties a store to the contents of all lists (a map from heads to the sequence of their
  elements) and to the set of detached elements; each operation is shown to refine the
  corresponding list operation and to leave every other list alone.
\<close>

section \<open>The store\<close>

type_synonym addr = nat

record 'o heap =
  nxt :: "addr \<Rightarrow> addr"
  prv :: "addr \<Rightarrow> addr"
  pay :: "addr \<Rightarrow> 'o option"

definition set_next :: "addr \<Rightarrow> addr \<Rightarrow> 'o heap \<Rightarrow> 'o heap" where
  "set_next a b h = h\<lparr>nxt := (nxt h)(a := b)\<rparr>"

definition set_prev :: "addr \<Rightarrow> addr \<Rightarrow> 'o heap \<Rightarrow> 'o heap" where
  "set_prev a b h = h\<lparr>prv := (prv h)(a := b)\<rparr>"

section \<open>Elements: \<^verbatim>\<open>circular_list_elt\<close>\<close>

text \<open>The constructor: \<^verbatim>\<open>circular_list_elt(T_ *listEltOf)\<close>; a head passes a null payload.\<close>

definition new_elt :: "addr \<Rightarrow> 'o option \<Rightarrow> 'o heap \<Rightarrow> 'o heap" where
  "new_elt this listEltOf h =
     set_prev this this (set_next this this (h\<lparr>pay := (pay h)(this := listEltOf)\<rparr>))"

definition elt_init :: "addr \<Rightarrow> 'o heap \<Rightarrow> 'o heap" where
  "elt_init this h = set_prev this this (set_next this this h)"

definition elt_insert :: "addr \<Rightarrow> addr \<Rightarrow> addr \<Rightarrow> 'o heap \<Rightarrow> 'o heap" where
  "elt_insert this prev next h =
     (let h1 = set_prev next this h;
          h2 = set_next this next h1;
          h3 = set_prev this prev h2
      in set_next prev this h3)"

definition elt_link :: "addr \<Rightarrow> addr \<Rightarrow> 'o heap \<Rightarrow> 'o heap" where
  "elt_link prev next h = set_next prev next (set_prev next prev h)"

definition elt_concat :: "addr \<Rightarrow> addr \<Rightarrow> addr \<Rightarrow> 'o heap \<Rightarrow> 'o heap" where
  "elt_concat list prev next h =
     (let first = nxt h list; last = prv h list;
          h1 = set_prev first prev h;
          h2 = set_next prev first h1;
          h3 = set_next last next h2
      in set_prev next last h3)"

definition is_head :: "addr \<Rightarrow> 'o heap \<Rightarrow> bool" where
  "is_head this h \<longleftrightarrow> pay h this = None"

definition is_empty :: "addr \<Rightarrow> 'o heap \<Rightarrow> bool" where
  "is_empty this h \<longleftrightarrow> nxt h this = this"

text \<open>Null for a head.\<close>

definition get_payload :: "addr \<Rightarrow> 'o heap \<Rightarrow> 'o option" where
  "get_payload this h = pay h this"

text \<open>The payload of an end of the list, or null.\<close>

definition list_first :: "addr \<Rightarrow> 'o heap \<Rightarrow> 'o option result" where
  "list_first this h = check_assert (pay h this = None)
     (Inr (if \<not> is_empty this h then pay h (nxt h this) else None))"

definition list_last :: "addr \<Rightarrow> 'o heap \<Rightarrow> 'o option result" where
  "list_last this h = check_assert (pay h this = None)
     (Inr (if \<not> is_empty this h then pay h (prv h this) else None))"

definition insert_after :: "addr \<Rightarrow> addr \<Rightarrow> 'o heap \<Rightarrow> 'o heap result" where
  "insert_after this elt h = check_assert (pay h this \<noteq> None)
     (Inr (elt_insert this elt (nxt h elt) h))"

definition insert_before :: "addr \<Rightarrow> addr \<Rightarrow> 'o heap \<Rightarrow> 'o heap result" where
  "insert_before this elt h = check_assert (pay h this \<noteq> None)
     (Inr (elt_insert this (prv h elt) elt h))"

definition elt_extract :: "addr \<Rightarrow> 'o heap \<Rightarrow> ('o option \<times> 'o heap) result" where
  "elt_extract this h = check_assert (pay h this \<noteq> None)
     (let h' = (if \<not> is_empty this h
                then elt_init this (elt_link (prv h this) (nxt h this) h) else h)
      in Inr (pay h' this, h'))"

definition replace :: "addr \<Rightarrow> addr \<Rightarrow> 'o heap \<Rightarrow> 'o heap result" where
  "replace this elt h = check_assert (pay h this \<noteq> None) (check_assert (pay h elt \<noteq> None)
     (let h1 = set_next this (nxt h elt) h;
          h2 = set_prev (nxt h1 this) this h1;
          h3 = set_prev this (prv h2 elt) h2;
          h4 = set_next (prv h3 this) this h3
      in Inr (elt_init elt h4)))"

definition replace_by :: "addr \<Rightarrow> addr \<Rightarrow> 'o heap \<Rightarrow> 'o heap result" where
  "replace_by this newElt h = check_assert (pay h this = pay h newElt)
     (if is_empty this h then Inr h
      else
        (let h1 = set_next newElt (nxt h this) h;
             h2 = set_prev (nxt h1 newElt) newElt h1;
             h3 = set_prev newElt (prv h2 this) h2;
             h4 = set_next (prv h3 newElt) newElt h3
         in Inr (elt_init this h4)))"

definition move_elt :: "addr \<Rightarrow> addr \<Rightarrow> 'o heap \<Rightarrow> 'o heap result" where
  "move_elt this target h = check_assert (pay h this \<noteq> None)
     (let h1 = (if \<not> is_empty this h then elt_link (prv h this) (nxt h this) h else h)
      in Inr (elt_insert this target (nxt h1 target) h1))"

definition move_elt_tail :: "addr \<Rightarrow> addr \<Rightarrow> 'o heap \<Rightarrow> 'o heap result" where
  "move_elt_tail this target h = check_assert (pay h this \<noteq> None)
     (let h1 = (if \<not> is_empty this h then elt_link (prv h this) (nxt h this) h else h)
      in Inr (elt_insert this (prv h1 target) target h1))"

definition is_last :: "addr \<Rightarrow> addr \<Rightarrow> 'o heap \<Rightarrow> bool result" where
  "is_last this head h = check_assert (pay h head = None) (check_assert (pay h this \<noteq> None)
     (Inr (nxt h this = head)))"

definition rotate_left :: "addr \<Rightarrow> 'o heap \<Rightarrow> 'o heap result" where
  "rotate_left this h = check_assert (pay h this = None)
     (if \<not> is_empty this h then move_elt_tail (nxt h this) this h else Inr h)"

section \<open>Heads: \<^verbatim>\<open>circular_list_head\<close>\<close>

text \<open>\<^verbatim>\<open>front\<close> and \<^verbatim>\<open>back\<close>, which the class writes again and gives the names \<^verbatim>\<open>first\<close> and \<^verbatim>\<open>last\<close>.\<close>

definition new_head :: "addr \<Rightarrow> 'o heap \<Rightarrow> 'o heap" where
  "new_head this = new_elt this None"

definition list_front :: "addr \<Rightarrow> 'o heap \<Rightarrow> 'o option result" where
  "list_front this h = check_assert (get_payload this h = None)
     (Inr (if \<not> is_empty this h then get_payload (nxt h this) h else None))"

definition list_back :: "addr \<Rightarrow> 'o heap \<Rightarrow> 'o option result" where
  "list_back this h = check_assert (get_payload this h = None)
     (Inr (if \<not> is_empty this h then get_payload (prv h this) h else None))"

lemma front_back_eq [simp]: "list_front = list_first" "list_back = list_last"
  by (simp_all add: fun_eq_iff list_front_def list_first_def list_back_def list_last_def get_payload_def)

definition is_singular :: "addr \<Rightarrow> 'o heap \<Rightarrow> bool result" where
  "is_singular this h = check_assert (pay h this = None)
     (Inr (\<not> is_empty this h \<and> nxt h this = prv h this))"

definition push :: "addr \<Rightarrow> addr \<Rightarrow> 'o heap \<Rightarrow> 'o heap result" where
  "push this newElt h = check_assert (pay h this = None) (check_assert (pay h newElt \<noteq> None)
     (Inr (elt_insert newElt this (nxt h this) h)))"

definition push_back :: "addr \<Rightarrow> addr \<Rightarrow> 'o heap \<Rightarrow> 'o heap result" where
  "push_back this newElt h = check_assert (pay h this = None) (check_assert (pay h newElt \<noteq> None)
     (Inr (elt_insert newElt (prv h this) this h)))"

definition pop :: "addr \<Rightarrow> 'o heap \<Rightarrow> (addr option \<times> 'o heap) result" where
  "pop this h = check_assert (pay h this = None)
     (if \<not> is_empty this h
      then (let first = nxt h this in
            Inr (Some first, elt_init first (elt_link this (nxt h first) h)))
      else Inr (None, h))"

definition pop_back :: "addr \<Rightarrow> 'o heap \<Rightarrow> (addr option \<times> 'o heap) result" where
  "pop_back this h = check_assert (pay h this = None)
     (if \<not> is_empty this h
      then (let last = prv h this in
            Inr (Some last, elt_init last (elt_link (prv h last) this h)))
      else Inr (None, h))"

definition list_truncate :: "addr \<Rightarrow> addr \<Rightarrow> addr \<Rightarrow> 'o heap \<Rightarrow> 'o heap result" where
  "list_truncate this entry list h =
     check_assert (pay h this = None) (check_assert (pay h list = None)
       (check_assert (pay h entry \<noteq> None)
     (if is_empty this h then Inr h
      else if (\<not> is_empty this h \<and> nxt h this = prv h this) \<and> (nxt h this \<noteq> entry \<and> this \<noteq> entry)
           then Inr h
      else if entry = this then Inr (elt_init list h)
      else
        (let new_first = nxt h entry;
             h1 = set_next list (nxt h this) h;
             h2 = set_prev (nxt h1 list) list h1;
             h3 = set_prev list entry h2;
             h4 = set_next entry list h3;
             h5 = set_next this new_first h4
         in Inr (set_prev new_first this h5)))))"

definition list_append :: "addr \<Rightarrow> addr \<Rightarrow> 'o heap \<Rightarrow> 'o heap result" where
  "list_append this list h =
     check_assert (pay h list = None) (check_assert (pay h this = None)
       (if \<not> is_empty list h then Inr (elt_concat list this (nxt h this) h) else Inr h))"

definition list_append_back :: "addr \<Rightarrow> addr \<Rightarrow> 'o heap \<Rightarrow> 'o heap result" where
  "list_append_back this list h =
     check_assert (pay h list = None) (check_assert (pay h this = None)
       (if \<not> is_empty list h then Inr (elt_concat list (prv h this) this h) else Inr h))"

text \<open>The destructor of a head only checks that the list is empty.\<close>

definition delete_head :: "addr \<Rightarrow> 'o heap \<Rightarrow> unit result" where
  "delete_head this h = check_assert (is_empty this h) (Inr ())"

section \<open>Iterators: \<^verbatim>\<open>CircListIterator\<close>\<close>

record iterator =
  p_elt :: addr
  p_prev :: addr
  p_next :: addr

definition new_iterator :: "addr \<Rightarrow> 'o heap \<Rightarrow> iterator" where
  "new_iterator x h = \<lparr>p_elt = x, p_prev = prv h x, p_next = nxt h x\<rparr>"

definition iter_get :: "iterator \<Rightarrow> addr" where
  "iter_get it = p_elt it"

definition list_begin :: "addr \<Rightarrow> 'o heap \<Rightarrow> iterator result" where
  "list_begin this h = check_assert (pay h this = None) (Inr (new_iterator (nxt h this) h))"

definition list_rbegin :: "addr \<Rightarrow> 'o heap \<Rightarrow> iterator result" where
  "list_rbegin this h = check_assert (pay h this = None) (Inr (new_iterator (prv h this) h))"

definition list_end :: "addr \<Rightarrow> 'o heap \<Rightarrow> iterator result" where
  "list_end this h = check_assert (pay h this = None) (Inr (new_iterator this h))"

definition iter_relink :: "addr \<Rightarrow> 'o heap \<Rightarrow> iterator \<Rightarrow> iterator" where
  "iter_relink x h it = it\<lparr>p_elt := x, p_prev := prv h x, p_next := nxt h x\<rparr>"

definition iter_safe :: "'o heap \<Rightarrow> iterator \<Rightarrow> iterator" where
  "iter_safe h it = it\<lparr>p_prev := prv h (p_elt it), p_next := nxt h (p_elt it)\<rparr>"

definition iter_inc :: "'o heap \<Rightarrow> iterator \<Rightarrow> iterator" where
  "iter_inc h it = it\<lparr>p_prev := p_elt it, p_elt := p_next it, p_next := nxt h (p_next it)\<rparr>"

definition iter_dec :: "'o heap \<Rightarrow> iterator \<Rightarrow> iterator" where
  "iter_dec h it = it\<lparr>p_next := p_elt it, p_elt := p_prev it, p_prev := prv h (p_prev it)\<rparr>"

definition iter_eq :: "iterator \<Rightarrow> iterator \<Rightarrow> bool" where
  "iter_eq a b \<longleftrightarrow> p_elt a = p_elt b"

definition iter_deref :: "'o heap \<Rightarrow> iterator \<Rightarrow> 'o result" where
  "iter_deref h it = (case pay h (p_elt it) of None \<Rightarrow> Inl AssertFailed | Some x \<Rightarrow> Inr x)"

text \<open>\<^verbatim>\<open>swap\<close> of two iterators exchanges the positions of the elements they point to.\<close>

definition iter_swap ::
  "iterator \<Rightarrow> iterator \<Rightarrow> 'o heap \<Rightarrow> (iterator \<times> iterator \<times> 'o heap) result" where
  "iter_swap a0 b0 h =
     (let elt_a = p_elt a0; elt_b = p_elt b0;
          a = iter_safe h a0; b = iter_safe h b0
      in case elt_extract elt_a h of Inl e \<Rightarrow> Inl e | Inr (_, h1) \<Rightarrow>
         (case (if p_next a = elt_b
                then check_assert (p_prev b = elt_a) (insert_after elt_a elt_b h1)
                else if p_prev a = elt_b
                then check_assert (p_next b = elt_a) (insert_before elt_a elt_b h1)
                else (case elt_extract elt_b h1 of Inl e \<Rightarrow> Inl e | Inr (_, h2) \<Rightarrow>
                       (case insert_after elt_a (p_prev b) h2 of Inl e \<Rightarrow> Inl e | Inr h3 \<Rightarrow>
                          insert_after elt_b (p_prev a) h3)))
          of Inl e \<Rightarrow> Inl e
           | Inr h' \<Rightarrow> Inr (iter_relink elt_b h' a, iter_relink elt_a h' b, h')))"

text \<open>
  Loops over a list. \<open>None\<close> is a loop that does not end. \<open>for_each\<close> is the range-based loop
  (begin, end, increment) that collects what it visits; \<open>for_each_rev\<close> goes backwards from
  \<^verbatim>\<open>rbegin\<close>; \<open>for_each_extract\<close> is the loop of the tests whose body extracts the current element.
\<close>

partial_function (option) for_each :: "addr \<Rightarrow> 'o heap \<Rightarrow> iterator \<Rightarrow> addr list option" where
  "for_each head h it =
     (if p_elt it = head then Some []
      else Option.bind (for_each head h (iter_inc h it)) (\<lambda>rest. Some (p_elt it # rest)))"

partial_function (option) for_each_rev :: "addr \<Rightarrow> 'o heap \<Rightarrow> iterator \<Rightarrow> addr list option" where
  "for_each_rev head h it =
     (if p_elt it = head then Some []
      else Option.bind (for_each_rev head h (iter_dec h it)) (\<lambda>rest. Some (p_elt it # rest)))"

partial_function (option) for_each_extract ::
  "addr \<Rightarrow> iterator \<Rightarrow> addr list \<Rightarrow> 'o heap \<Rightarrow> (addr list \<times> 'o heap) result option" where
  "for_each_extract head it seen h =
     (if p_elt it = head then Some (Inr (seen, h))
      else (case elt_extract (p_elt it) h of
              Inl e \<Rightarrow> Some (Inl e)
            | Inr (_, h') \<Rightarrow>
                for_each_extract head (iter_inc h' it) (seen @ [p_elt it]) h'))"

section \<open>Chains of links\<close>

fun chain :: "'o heap \<Rightarrow> addr list \<Rightarrow> bool" where
  "chain h (x # y # zs) \<longleftrightarrow> nxt h x = y \<and> prv h y = x \<and> chain h (y # zs)"
| "chain h _ \<longleftrightarrow> True"

definition ring :: "'o heap \<Rightarrow> addr \<Rightarrow> addr list \<Rightarrow> bool" where
  "ring h p xs \<longleftrightarrow> chain h (p # xs @ [p]) \<and> distinct (p # xs)
     \<and> pay h p = None \<and> (\<forall>x \<in> set xs. pay h x \<noteq> None)"

definition detached :: "'o heap \<Rightarrow> addr \<Rightarrow> bool" where
  "detached h e \<longleftrightarrow> nxt h e = e \<and> prv h e = e \<and> pay h e \<noteq> None"

lemma store_sel [simp]:
  "nxt (set_next a b h) = (nxt h)(a := b)" "prv (set_next a b h) = prv h"
  "nxt (set_prev a b h) = nxt h" "prv (set_prev a b h) = (prv h)(a := b)"
  "pay (set_next a b h) = pay h" "pay (set_prev a b h) = pay h"
  by (simp_all add: set_next_def set_prev_def)

lemma elt_init_sel [simp]:
  "nxt (elt_init a h) = (nxt h)(a := a)" "prv (elt_init a h) = (prv h)(a := a)"
  "pay (elt_init a h) = pay h"
  by (simp_all add: elt_init_def)

lemma elt_link_sel [simp]:
  "nxt (elt_link u v h) = (nxt h)(u := v)" "prv (elt_link u v h) = (prv h)(v := u)"
  "pay (elt_link u v h) = pay h"
  by (simp_all add: elt_link_def)

lemma elt_insert_sel [simp]:
  "nxt (elt_insert e u v h) = (nxt h)(e := v, u := e)"
  "prv (elt_insert e u v h) = (prv h)(v := e, e := u)"
  "pay (elt_insert e u v h) = pay h"
  by (simp_all add: elt_insert_def Let_def)

lemma elt_concat_sel [simp]:
  "nxt (elt_concat l u v h) = (nxt h)(u := nxt h l, prv h l := v)"
  "prv (elt_concat l u v h) = (prv h)(nxt h l := u, v := prv h l)"
  "pay (elt_concat l u v h) = pay h"
  by (simp_all add: elt_concat_def Let_def)

lemma chain_append:
  "chain h (as @ x # bs) \<longleftrightarrow> chain h (as @ [x]) \<and> chain h (x # bs)"
proof (induction as)
  case (Cons a as)
  then show ?case by (cases as) auto
qed simp

lemma chain_split: "chain h (as @ u # v # bs) \<longleftrightarrow>
    chain h (as @ [u]) \<and> nxt h u = v \<and> prv h v = u \<and> chain h (v # bs)"
  by (subst chain_append) simp

lemma chain_cong:
  assumes "\<forall>x \<in> set (butlast zs). nxt h' x = nxt h x" "\<forall>x \<in> set (tl zs). prv h' x = prv h x"
  shows "chain h' zs = chain h zs"
  using assms by (induction h zs rule: chain.induct) auto

text \<open>The two ends of a gap: every cut of a ring is a link \<open>u \<rightarrow> v\<close>.\<close>

definition before :: "addr \<Rightarrow> addr list \<Rightarrow> addr" where
  "before p as = (if as = [] then p else last as)"

definition behind :: "addr list \<Rightarrow> addr \<Rightarrow> addr" where
  "behind bs p = (if bs = [] then p else hd bs)"

lemma before_simps [simp]: "before p [] = p" "before p (as @ [a]) = a"
  "before p (a # as) = before a as"
  by (simp_all add: before_def)

lemma behind_simps [simp]: "behind [] p = p" "behind (b # bs) p = b"
  by (simp_all add: behind_def)

lemma behind_append: "behind (bs @ cs) p = behind bs (behind cs p)"
  by (simp add: behind_def)

lemma before_append: "before p (as @ bs) = before (before p as) bs"
  by (simp add: before_def)

lemma before_in: "before p as \<in> set (p # as)"
  by (simp add: before_def)

lemma behind_in: "behind bs p \<in> set (bs @ [p])"
  by (simp add: behind_def)

text \<open>A chain through a gap, with both sides written so that updates near the gap are visible.\<close>

lemma chain_gap:
  "chain h (p # as @ bs @ [q]) \<longleftrightarrow> chain h (p # as)
     \<and> nxt h (before p as) = behind bs q \<and> prv h (behind bs q) = before p as \<and> chain h (bs @ [q])"
proof -
  obtain us u where us: "p # as = us @ [u]" "u = before p as"
    by (cases as rule: rev_cases) auto
  obtain v vs where vs: "bs @ [q] = v # vs" "v = behind bs q"
    by (cases bs) auto
  have "chain h (p # as @ bs @ [q]) = chain h ((p # as) @ (bs @ [q]))" by simp
  also have "\<dots> = chain h (us @ u # v # vs)" by (simp only: us vs) simp
  also have "\<dots> \<longleftrightarrow> chain h (us @ [u]) \<and> nxt h u = v \<and> prv h v = u \<and> chain h (v # vs)"
    by (rule chain_split)
  finally show ?thesis by (simp only: us vs)
qed

lemma ring_gap: "ring h p (as @ bs) \<Longrightarrow> nxt h (before p as) = behind bs p
    \<and> prv h (behind bs p) = before p as"
  by (simp add: ring_def chain_gap)

lemma ring_at: "ring h p (as @ e # bs) \<Longrightarrow> prv h e = before p as \<and> nxt h e = behind bs p"
  using ring_gap [of h p as "e # bs"] ring_gap [of h p "as @ [e]" bs] by simp

lemma ring_ends: "ring h p xs \<Longrightarrow> nxt h p = behind xs p \<and> prv h p = before p xs"
  using ring_gap [of h p "[]" xs] ring_gap [of h p xs "[]"] by simp

lemma before_notin_butlast: "distinct (p # as) \<Longrightarrow> before p as \<notin> set (butlast (p # as))"
  by (cases as rule: rev_cases) (auto simp: butlast_append)

lemma behind_notin_tl: "distinct (p # bs) \<Longrightarrow> behind bs p \<notin> set (tl (bs @ [p]))"
  by (cases bs) auto

lemma behind_notin: "distinct (p # as @ bs) \<Longrightarrow> behind bs p \<notin> set as"
  using behind_in [of bs p] by auto

lemma before_notin: "distinct (p # as @ bs) \<Longrightarrow> before p as \<notin> set bs"
  using before_in [of p as] by auto

lemma behind_eq_self: "distinct (p # xs) \<Longrightarrow> behind xs p = p \<longleftrightarrow> xs = []"
  by (cases xs) auto

lemma ring_is_empty:
  assumes "ring h p xs" shows "is_empty p h \<longleftrightarrow> xs = []"
proof -
  have "distinct (p # xs)" using assms by (simp add: ring_def)
  then show ?thesis
    using ring_ends [OF assms] behind_eq_self [of p xs] by (simp add: is_empty_def)
qed

lemma ring_elt_not_empty:
  assumes "ring h p (as @ e # bs)" shows "\<not> is_empty e h"
proof -
  have "behind bs p \<noteq> e"
    using behind_notin [of p "as @ [e]" bs] assms by (auto simp: ring_def)
  then show ?thesis using ring_at [OF assms] by (simp add: is_empty_def)
qed

section \<open>Insertion and removal at a gap\<close>

text \<open>
  Chains left and right of a gap survive any update of the two link fields that face the gap and
  of an element outside the ring.
\<close>

lemma gap_frame:
  assumes d: "distinct (p # as @ bs)" and E: "E \<inter> set (p # as @ bs) = {}"
    and n: "\<And>x. x \<notin> E \<Longrightarrow> x \<noteq> before p as \<Longrightarrow> nxt h' x = nxt h x"
    and v: "\<And>x. x \<notin> E \<Longrightarrow> x \<noteq> behind bs p \<Longrightarrow> prv h' x = prv h x"
  shows "chain h' (p # as) = chain h (p # as)" "chain h' (bs @ [p]) = chain h (bs @ [p])"
proof -
  have d1: "distinct (p # as)" and d2: "distinct (p # bs)" using d by auto
  show "chain h' (p # as) = chain h (p # as)"
  proof (rule chain_cong)
    show "\<forall>x \<in> set (butlast (p # as)). nxt h' x = nxt h x"
      using before_notin_butlast [OF d1] E in_set_butlastD [of _ "p # as"] by (intro ballI n) auto
    show "\<forall>x \<in> set (tl (p # as)). prv h' x = prv h x"
      using behind_notin [OF d] E by (intro ballI v) auto
  qed
  show "chain h' (bs @ [p]) = chain h (bs @ [p])"
  proof (rule chain_cong)
    show "\<forall>x \<in> set (butlast (bs @ [p])). nxt h' x = nxt h x"
      using before_notin [OF d] E by (intro ballI n) auto
    have "set (tl (bs @ [p])) \<subseteq> set (p # bs)" by (cases bs) auto
    then show "\<forall>x \<in> set (tl (bs @ [p])). prv h' x = prv h x"
      using behind_notin_tl [OF d2] E by (intro ballI v) auto
  qed
qed

lemma ring_insert:
  assumes r: "ring h p (as @ bs)" and e: "e \<notin> set (p # as @ bs)"
    and pe: "pay h' = pay h" "pay h e \<noteq> None"
    and n: "nxt h' = (nxt h)(e := behind bs p, before p as := e)"
    and v: "prv h' = (prv h)(behind bs p := e, e := before p as)"
  shows "ring h' p (as @ e # bs)"
proof -
  from r have d: "distinct (p # as @ bs)" by (simp add: ring_def)
  have c: "chain h (p # as)" "chain h (bs @ [p])"
    using r by (simp_all add: ring_def chain_gap)
  have f: "chain h' (p # as)" "chain h' (bs @ [p])"
    using gap_frame [where E = "{e}" and h = h and h' = h', OF d] c e by (simp_all add: n v)
  have ne: "before p as \<noteq> e" "behind bs p \<noteq> e"
    using before_in [of p as] behind_in [of bs p] e by auto
  have "chain h' (p # as @ (e # bs) @ [p])"
  proof (subst chain_gap, intro conjI)
    show "chain h' ((e # bs) @ [p])"
      using chain_gap [of h' e "[]" bs p] f(2) ne by (simp add: n v)
  qed (use f ne in \<open>simp_all add: n v\<close>)
  then show ?thesis
    using r d e pe by (auto simp: ring_def)
qed

lemma ring_remove:
  assumes r: "ring h p (as @ e # bs)"
    and pe: "pay h' = pay h"
    and n: "\<And>x. x \<noteq> e \<Longrightarrow> nxt h' x = ((nxt h)(before p as := behind bs p)) x"
    and v: "\<And>x. x \<noteq> e \<Longrightarrow> prv h' x = ((prv h)(behind bs p := before p as)) x"
  shows "ring h' p (as @ bs)"
proof -
  from r have d: "distinct (p # as @ bs)" and e: "e \<notin> set (p # as @ bs)" by (auto simp: ring_def)
  have c: "chain h (p # as)" "chain h (e # bs @ [p])"
    using r chain_gap [of h p as "e # bs" p] by (simp_all add: ring_def)
  then have c2: "chain h (bs @ [p])" by (cases bs) simp_all
  have f: "chain h' (p # as)" "chain h' (bs @ [p])"
    using gap_frame [where E = "{e}" and h = h and h' = h', OF d] c(1) c2 e by (simp_all add: n v)
  have ne: "before p as \<noteq> e" "behind bs p \<noteq> e"
    using before_in [of p as] behind_in [of bs p] e by auto
  have "chain h' (p # as @ bs @ [p])"
    by (subst chain_gap) (use f ne in \<open>simp add: n v\<close>)
  then show ?thesis
    using r pe by (auto simp: ring_def)
qed

section \<open>The abstraction: all lists of a store\<close>

type_synonym contents = "addr \<Rightarrow> addr list option"

definition agree :: "addr set \<Rightarrow> 'o heap \<Rightarrow> 'o heap \<Rightarrow> bool" where
  "agree A h h' \<longleftrightarrow> pay h' = pay h \<and> (\<forall>x. x \<notin> A \<longrightarrow> nxt h' x = nxt h x \<and> prv h' x = prv h x)"

definition store_ok :: "'o heap \<Rightarrow> contents \<Rightarrow> addr set \<Rightarrow> bool" where
  "store_ok h L D \<longleftrightarrow>
     (\<forall>p xs. L p = Some xs \<longrightarrow> ring h p xs \<and> set (p # xs) \<inter> D = {})
   \<and> (\<forall>e \<in> D. detached h e)
   \<and> (\<forall>p q xs ys. L p = Some xs \<longrightarrow> L q = Some ys \<longrightarrow> p \<noteq> q \<longrightarrow> set (p # xs) \<inter> set (q # ys) = {})"

lemma store_okD:
  assumes "store_ok h L D"
  shows "L p = Some xs \<Longrightarrow> ring h p xs" "L p = Some xs \<Longrightarrow> set (p # xs) \<inter> D = {}"
    "e \<in> D \<Longrightarrow> detached h e"
    "L p = Some xs \<Longrightarrow> L q = Some ys \<Longrightarrow> p \<noteq> q \<Longrightarrow> set (p # xs) \<inter> set (q # ys) = {}"
  using assms unfolding store_ok_def by blast+

lemma ring_frame:
  assumes "ring h p xs" "agree A h h'" "set (p # xs) \<inter> A = {}"
  shows "ring h' p xs"
proof -
  have "chain h' (p # xs @ [p]) = chain h (p # xs @ [p])"
    using assms(2,3) in_set_butlastD [of _ "p # xs @ [p]"]
    by (intro chain_cong ballI) (fastforce simp: agree_def)+
  then show ?thesis using assms(1,2) by (simp add: ring_def agree_def)
qed

lemma detached_frame: "detached h e \<Longrightarrow> agree A h h' \<Longrightarrow> e \<notin> A \<Longrightarrow> detached h' e"
  by (simp add: detached_def agree_def)

text \<open>
  An operation that touches the lists of the heads in \<open>P\<close> and detached elements only. \<open>T\<close> is the
  footprint: the detached elements and everything in these lists.
\<close>

definition footprint :: "contents \<Rightarrow> addr set \<Rightarrow> addr set \<Rightarrow> addr set" where
  "footprint L D P = D \<union> (\<Union>p \<in> P. case L p of None \<Rightarrow> {} | Some xs \<Rightarrow> set (p # xs))"

lemma footprint_Some [simp]:
  "L p = Some xs \<Longrightarrow> footprint L D {p} = D \<union> set (p # xs)"
  "L p = Some xs \<Longrightarrow> L q = Some ys \<Longrightarrow> footprint L D {p, q} = D \<union> set (p # xs) \<union> set (q # ys)"
  by (auto simp: footprint_def)

lemma store_update_gen:
  assumes ok: "store_ok h L D"
    and A: "agree A h h'" "A \<subseteq> footprint L D P"
    and new: "\<And>p xs. p \<in> P \<Longrightarrow> L' p = Some xs \<Longrightarrow>
      ring h' p xs \<and> set (p # xs) \<subseteq> footprint L D P - D'"
    and new2: "\<And>p q xs ys. p \<in> P \<Longrightarrow> q \<in> P \<Longrightarrow> p \<noteq> q \<Longrightarrow> L' p = Some xs \<Longrightarrow> L' q = Some ys \<Longrightarrow>
      set (p # xs) \<inter> set (q # ys) = {}"
    and old: "\<And>p. p \<notin> P \<Longrightarrow> L' p = L p"
    and det: "\<And>e. e \<in> D' \<Longrightarrow> e \<in> A \<or> e \<notin> D \<Longrightarrow> detached h' e" and D': "D' \<subseteq> footprint L D P"
  shows "store_ok h' L' D'"
proof -
  have fp: "set (q # ys) \<inter> footprint L D P = {}" if "q \<notin> P" "L q = Some ys" for q ys
  proof -
    have "set (q # ys) \<inter> set (p # xs) = {}" if "p \<in> P" "L p = Some xs" for p xs
      using store_okD(4) [OF ok \<open>L q = Some ys\<close> that(2)] \<open>q \<notin> P\<close> that(1) by blast
    then have "set (q # ys) \<inter> (case L p of None \<Rightarrow> {} | Some xs \<Rightarrow> set (p # xs)) = {}"
      if "p \<in> P" for p
      using that by (cases "L p") auto
    then show ?thesis
      using store_okD(2) [OF ok that(2)] unfolding footprint_def by blast
  qed
  have other: "ring h' q ys" if "q \<notin> P" "L q = Some ys" for q ys
    using ring_frame [OF store_okD(1) [OF ok that(2)] A(1)] fp [OF that] A(2) by blast
  have detach: "detached h' e" if "e \<in> D'" for e
    using det [OF that] detached_frame [OF store_okD(3) [OF ok] A(1), of e] by blast
  have 1: "ring h' q ys \<and> set (q # ys) \<inter> D' = {}" if "L' q = Some ys" for q ys
    using that new [of q ys] old [of q] other [of q ys] fp [of q ys] D' by (cases "q \<in> P") auto
  have 2: "set (q # ys) \<inter> set (r # zs) = {}"
    if "L' q = Some ys" "L' r = Some zs" "q \<noteq> r" for q r ys zs
  proof (cases "q \<in> P"; cases "r \<in> P")
    assume "q \<in> P" "r \<in> P" then show ?thesis using that new2 by blast
  next
    assume "q \<in> P" "r \<notin> P"
    then show ?thesis using new [of q ys] fp [of r zs] old [of r] that by auto
  next
    assume "q \<notin> P" "r \<in> P"
    then show ?thesis using new [of r zs] fp [of q ys] old [of q] that by auto
  next
    assume "q \<notin> P" "r \<notin> P"
    then show ?thesis using store_okD(4) [OF ok] old that by metis
  qed
  show ?thesis
    unfolding store_ok_def using 1 2 detach by blast
qed

lemma store_update:
  assumes "store_ok h L D" and L: "L p = Some xs"
    and "agree A h h'" "A \<subseteq> set (p # xs) \<union> D"
    and ring: "ring h' p xs'"
    and "\<And>e. e \<in> D' \<Longrightarrow> e \<in> A \<or> e \<notin> D \<Longrightarrow> detached h' e"
    and sub: "set xs' \<union> D' \<subseteq> set xs \<union> D" "set (p # xs') \<inter> D' = {}"
  shows "store_ok h' (L(p \<mapsto> xs')) D'"
proof (rule store_update_gen [where P = "{p}" and A = A, OF assms(1,3)])
  show "ring h' q ys \<and> set (q # ys) \<subseteq> footprint L D {p} - D'"
    if "q \<in> {p}" "(L(p \<mapsto> xs')) q = Some ys" for q ys
    using that ring sub L by auto
qed (use assms in auto)

lemma ring_pay: "ring h p xs \<Longrightarrow> pay h p = None" "ring h p xs \<Longrightarrow> x \<in> set xs \<Longrightarrow> pay h x \<noteq> None"
  by (auto simp: ring_def)

lemma detached_is_empty: "detached h e \<Longrightarrow> is_empty e h"
  by (simp add: detached_def is_empty_def)

text \<open>Insertion of a detached element at any gap of a list.\<close>

lemma store_insert:
  assumes ok: "store_ok h L D" and L: "L p = Some (as @ bs)" and e: "e \<in> D"
  shows "store_ok (elt_insert e (before p as) (behind bs p) h) (L(p \<mapsto> as @ e # bs)) (D - {e})"
proof (rule store_update [OF ok L, where A = "{e, before p as, behind bs p}"])
  have ne: "e \<notin> set (p # as @ bs)" using store_okD(2) [OF ok L] e by blast
  show "agree {e, before p as, behind bs p} h (elt_insert e (before p as) (behind bs p) h)"
    by (simp add: agree_def)
  show "{e, before p as, behind bs p} \<subseteq> set (p # as @ bs) \<union> D"
    using before_in [of p as] behind_in [of bs p] e by auto
  show "ring (elt_insert e (before p as) (behind bs p) h) p (as @ e # bs)"
    using store_okD(3) [OF ok e]
    by (intro ring_insert [OF store_okD(1) [OF ok L] ne]) (simp_all add: detached_def)
  show "detached (elt_insert e (before p as) (behind bs p) h) x"
    if "x \<in> D - {e}" "x \<in> {e, before p as, behind bs p} \<or> x \<notin> D" for x
    using that before_in [of p as] behind_in [of bs p] store_okD(2) [OF ok L] by auto
  show "set (as @ e # bs) \<union> (D - {e}) \<subseteq> set (as @ bs) \<union> D" using e by auto
  show "set (p # as @ e # bs) \<inter> (D - {e}) = {}" using store_okD(2) [OF ok L] by auto
qed

text \<open>Removal of an element from its list, leaving it linked to itself.\<close>

lemma store_remove:
  assumes ok: "store_ok h L D" and L: "L p = Some (as @ e # bs)"
  shows "store_ok (elt_init e (elt_link (before p as) (behind bs p) h)) (L(p \<mapsto> as @ bs)) (insert e D)"
    (is "store_ok ?h' _ _")
proof (rule store_update [OF ok L, where A = "{e, before p as, behind bs p}"])
  have r: "ring h p (as @ e # bs)" by (rule store_okD(1) [OF ok L])
  then have d: "distinct (p # as @ e # bs)" by (simp add: ring_def)
  show "agree {e, before p as, behind bs p} h ?h'"
    by (simp add: agree_def)
  show "{e, before p as, behind bs p} \<subseteq> set (p # as @ e # bs) \<union> D"
    using before_in [of p as] behind_in [of bs p] by auto
  show "ring ?h' p (as @ bs)"
    by (rule ring_remove [OF r]) simp_all
  show "detached ?h' x" if "x \<in> insert e D" "x \<in> {e, before p as, behind bs p} \<or> x \<notin> D" for x
  proof -
    have "x = e"
      using that before_in [of p as] behind_in [of bs p] store_okD(2) [OF ok L] by auto
    then show ?thesis using r by (simp add: detached_def ring_def)
  qed
  show "set (as @ bs) \<union> insert e D \<subseteq> set (as @ e # bs) \<union> D" by auto
  show "set (p # as @ bs) \<inter> insert e D = {}" using d store_okD(2) [OF ok L] by auto
qed

section \<open>Every operation refines its list operation\<close>

lemma push_back_refines:
  assumes ok: "store_ok h L D" and L: "L p = Some xs" and e: "e \<in> D"
  shows "\<exists>h'. push_back p e h = Inr h' \<and> store_ok h' (L(p \<mapsto> xs @ [e])) (D - {e})"
  using store_insert [OF ok, of p xs "[]" e] L e ring_ends [OF store_okD(1) [OF ok L]]
    ring_pay(1) [OF store_okD(1) [OF ok L]] store_okD(3) [OF ok e]
  by (auto simp: push_back_def detached_def)

lemma push_refines:
  assumes ok: "store_ok h L D" and L: "L p = Some xs" and e: "e \<in> D"
  shows "\<exists>h'. push p e h = Inr h' \<and> store_ok h' (L(p \<mapsto> e # xs)) (D - {e})"
  using store_insert [OF ok, of p "[]" xs e] L e ring_ends [OF store_okD(1) [OF ok L]]
    ring_pay(1) [OF store_okD(1) [OF ok L]] store_okD(3) [OF ok e]
  by (auto simp: push_def detached_def)

lemma pop_refines:
  assumes ok: "store_ok h L D" and L: "L p = Some (e # xs)"
  shows "\<exists>h'. pop p h = Inr (Some e, h') \<and> store_ok h' (L(p \<mapsto> xs)) (insert e D)"
proof -
  have r: "ring h p ([] @ e # xs)" using store_okD(1) [OF ok L] by simp
  then show ?thesis
    using store_remove [OF ok, of p "[]" e xs] L ring_at [OF r] ring_ends [OF r]
      ring_pay(1) [OF r] ring_is_empty [OF r]
    by (auto simp: pop_def Let_def)
qed

lemma pop_back_refines:
  assumes ok: "store_ok h L D" and L: "L p = Some (xs @ [e])"
  shows "\<exists>h'. pop_back p h = Inr (Some e, h') \<and> store_ok h' (L(p \<mapsto> xs)) (insert e D)"
proof -
  have r: "ring h p (xs @ e # [])" using store_okD(1) [OF ok L] by simp
  then show ?thesis
    using store_remove [OF ok, of p xs e "[]"] L ring_at [OF r] ring_ends [OF r]
      ring_pay(1) [OF r] ring_is_empty [OF r]
    by (auto simp: pop_back_def Let_def)
qed

lemma pop_empty:
  assumes ok: "store_ok h L D" and L: "L p = Some []"
  shows "pop p h = Inr (None, h)" "pop_back p h = Inr (None, h)"
  using store_okD(1) [OF ok L] ring_is_empty [of h p "[]"] ring_pay(1) [of h p "[]"]
  by (simp_all add: pop_def pop_back_def)

lemma extract_refines:
  assumes ok: "store_ok h L D" and L: "L p = Some (as @ e # bs)"
  shows "\<exists>h'. elt_extract e h = Inr (pay h e, h')
    \<and> store_ok h' (L(p \<mapsto> as @ bs)) (insert e D)"
proof -
  have r: "ring h p (as @ e # bs)" by (rule store_okD(1) [OF ok L])
  then show ?thesis
    using store_remove [OF ok L] ring_at [OF r] ring_pay(2) [OF r] ring_elt_not_empty [OF r]
    by (auto simp: elt_extract_def Let_def)
qed

lemma extract_detached:
  assumes ok: "store_ok h L D" and e: "e \<in> D"
  shows "elt_extract e h = Inr (pay h e, h)"
  using store_okD(3) [OF ok e] detached_is_empty [of h e]
  by (simp add: elt_extract_def detached_def)

lemma insert_after_refines:
  assumes ok: "store_ok h L D" and L: "L p = Some (as @ bs)" and e: "e \<in> D"
  shows "\<exists>h'. insert_after e (before p as) h = Inr h'
    \<and> store_ok h' (L(p \<mapsto> as @ e # bs)) (D - {e})"
  using store_insert [OF ok L e] ring_gap [OF store_okD(1) [OF ok L]] store_okD(3) [OF ok e]
  by (auto simp: insert_after_def detached_def)

lemma insert_before_refines:
  assumes ok: "store_ok h L D" and L: "L p = Some (as @ bs)" and e: "e \<in> D"
  shows "\<exists>h'. insert_before e (behind bs p) h = Inr h'
    \<and> store_ok h' (L(p \<mapsto> as @ e # bs)) (D - {e})"
  using store_insert [OF ok L e] ring_gap [OF store_okD(1) [OF ok L]] store_okD(3) [OF ok e]
  by (auto simp: insert_before_def detached_def)

lemma list_first_refines:
  assumes "store_ok h L D" "L p = Some xs"
  shows "list_first p h = Inr (if xs = [] then None else pay h (hd xs))"
    "list_last p h = Inr (if xs = [] then None else pay h (last xs))"
    "is_empty p h \<longleftrightarrow> xs = []"
  using store_okD(1) [OF assms] ring_is_empty [of h p xs] ring_pay(1) [of h p xs]
    ring_ends [of h p xs]
  by (auto simp: list_first_def list_last_def before_def behind_def)

lemma heap_eqI: "nxt h = nxt h' \<Longrightarrow> prv h = prv h' \<Longrightarrow> pay h = pay h' \<Longrightarrow> h = (h' :: 'o heap)"
  by simp

lemma replace_refines:
  assumes ok: "store_ok h L D" and L: "L p = Some (as @ e # bs)" and x: "x \<in> D"
  shows "\<exists>h'. replace x e h = Inr h'
    \<and> store_ok h' (L(p \<mapsto> as @ x # bs)) (insert e D - {x})"
proof -
  let ?u = "before p as" and ?v = "behind bs p"
  let ?r = "elt_init e (elt_link ?u ?v h)"
  have r: "ring h p (as @ e # bs)" by (rule store_okD(1) [OF ok L])
  have ok1: "store_ok ?r (L(p \<mapsto> as @ bs)) (insert e D)"
    by (rule store_remove [OF ok L])
  have ok2: "store_ok (elt_insert x ?u ?v ?r) (L(p \<mapsto> as @ x # bs)) (insert e D - {x})"
    using store_insert [OF ok1, of p as bs x] x by simp
  have out: "set (p # as @ e # bs) \<inter> D = {}" by (rule store_okD(2) [OF ok L])
  have ne: "e \<noteq> x" "?v \<noteq> e" "?v \<noteq> x" "?u \<noteq> x" "?u \<noteq> e"
    using out x behind_in [of bs p] before_in [of p as] r by (auto simp: ring_def)
  have "replace x e h = Inr (elt_insert x ?u ?v ?r)"
    using ring_at [OF r] ring_pay(2) [OF r] store_okD(3) [OF ok x] ne
    by (auto simp: replace_def Let_def detached_def fun_upd_twist intro!: heap_eqI)
  then show ?thesis using ok2 by blast
qed

lemma elt_insert_init: "e \<noteq> t \<Longrightarrow> elt_insert e t w (elt_init e h) = elt_insert e t w h"
  by (rule heap_eqI) (auto simp: fun_eq_iff)

lemma move_elt_refines:
  assumes ok: "store_ok h L D" and L: "L p = Some (as @ e # bs)"
    and L1: "(L(p \<mapsto> as @ bs)) q = Some (cs @ ds)"
  shows "\<exists>h'. move_elt e (before q cs) h = Inr h'
      \<and> store_ok h' (L(p \<mapsto> as @ bs, q \<mapsto> cs @ e # ds)) D"
    and "\<exists>h'. move_elt_tail e (behind ds q) h = Inr h'
      \<and> store_ok h' (L(p \<mapsto> as @ bs, q \<mapsto> cs @ e # ds)) D"
proof -
  let ?l = "elt_link (before p as) (behind bs p) h"
  have r: "ring h p (as @ e # bs)" by (rule store_okD(1) [OF ok L])
  have ok1: "store_ok (elt_init e ?l) (L(p \<mapsto> as @ bs)) (insert e D)"
    by (rule store_remove [OF ok L])
  have D: "insert e D - {e} = D"
    using store_okD(2) [OF ok L] by auto
  have ok2: "store_ok (elt_insert e (before q cs) (behind ds q) (elt_init e ?l))
      (L(p \<mapsto> as @ bs, q \<mapsto> cs @ e # ds)) D"
    using store_insert [OF ok1 L1 insertI1] unfolding D .
  have out: "e \<notin> set (q # cs @ ds)"
    using store_okD(2) [OF ok1 L1] by auto
  have ne: "before q cs \<noteq> e" "behind ds q \<noteq> e"
    using out behind_in [of ds q] before_in [of q cs] by auto
  have g: "nxt ?l (before q cs) = behind ds q" "prv ?l (behind ds q) = before q cs"
    using ring_gap [OF store_okD(1) [OF ok1 L1]] ne by simp_all
  have h: "elt_insert e (before q cs) (behind ds q) ?l =
    elt_insert e (before q cs) (behind ds q) (elt_init e ?l)"
    using ne by (simp add: elt_insert_init)
  note facts = ring_at [OF r] ring_pay(2) [OF r] ring_elt_not_empty [OF r]
  show "\<exists>h'. move_elt e (before q cs) h = Inr h'
      \<and> store_ok h' (L(p \<mapsto> as @ bs, q \<mapsto> cs @ e # ds)) D"
    using facts g ok2 by (simp add: move_elt_def Let_def h)
  show "\<exists>h'. move_elt_tail e (behind ds q) h = Inr h'
      \<and> store_ok h' (L(p \<mapsto> as @ bs, q \<mapsto> cs @ e # ds)) D"
    using facts g ok2 by (simp add: move_elt_tail_def Let_def h)
qed

lemma move_detached_refines:
  assumes ok: "store_ok h L D" and L: "L q = Some (cs @ ds)" and e: "e \<in> D"
  shows "\<exists>h'. move_elt e (before q cs) h = Inr h' \<and> store_ok h' (L(q \<mapsto> cs @ e # ds)) (D - {e})"
    and "\<exists>h'. move_elt_tail e (behind ds q) h = Inr h' \<and> store_ok h' (L(q \<mapsto> cs @ e # ds)) (D - {e})"
  using store_insert [OF ok L e] store_okD(3) [OF ok e] detached_is_empty [of h e]
    ring_gap [OF store_okD(1) [OF ok L]]
  by (auto simp: move_elt_def move_elt_tail_def Let_def detached_def)

lemma rotate_left_refines:
  assumes ok: "store_ok h L D" and L: "L p = Some xs"
  shows "\<exists>h'. rotate_left p h = Inr h' \<and> store_ok h' (L(p \<mapsto> rotate1 xs)) D"
proof (cases xs)
  case Nil
  then show ?thesis
    using assms list_first_refines(3) [OF ok L] ring_pay(1) [OF store_okD(1) [OF ok L]]
    by (auto simp: rotate_left_def fun_upd_idem)
next
  case (Cons a ys)
  have r: "ring h p ([] @ a # ys)" using store_okD(1) [OF ok L] Cons by simp
  have "\<exists>h'. move_elt_tail a (behind [] p) h = Inr h'
      \<and> store_ok h' (L(p \<mapsto> [] @ ys, p \<mapsto> ys @ a # [])) D"
    using L Cons by (intro move_elt_refines(2) [OF ok]) auto
  then show ?thesis
    using Cons ring_ends [OF r] ring_pay(1) [OF r] ring_is_empty [OF r]
    by (simp add: rotate_left_def)
qed

section \<open>Splicing and cutting whole chains\<close>

lemma chain_butlast: "chain h (zs @ [x]) \<Longrightarrow> chain h zs"
  by (cases zs rule: rev_cases) (simp_all add: chain_split)

lemma chain_Cons: "ys \<noteq> [] \<Longrightarrow>
    chain h (p # ys) \<longleftrightarrow> nxt h p = hd ys \<and> prv h (hd ys) = p \<and> chain h ys"
  by (cases ys) auto

lemma before_last: "ys \<noteq> [] \<Longrightarrow> before p ys = last ys"
  by (simp add: before_def)

lemma behind_hd: "ys \<noteq> [] \<Longrightarrow> behind ys p = hd ys"
  by (simp add: behind_def)

text \<open>The elements \<open>ys\<close> of another ring, linked in between the two sides of a gap.\<close>

lemma ring_splice:
  assumes r: "ring h p (as @ bs)" and q: "ring h q ys" "ys \<noteq> []"
    and dis: "set (p # as @ bs) \<inter> set (q # ys) = {}"
    and pe: "pay h' = pay h"
    and n: "nxt h' = (nxt h)(before p as := hd ys, last ys := behind bs p)"
    and v: "prv h' = (prv h)(hd ys := before p as, behind bs p := last ys)"
  shows "ring h' p (as @ ys @ bs)"
proof -
  from r have d: "distinct (p # as @ bs)" by (simp add: ring_def)
  from q have dy: "distinct ys" by (simp add: ring_def)
  have c: "chain h (p # as)" "chain h (bs @ [p])"
    using r by (simp_all add: ring_def chain_gap)
  have cy: "chain h ys"
    using q by (simp add: ring_def chain_Cons) (metis chain_butlast)
  have y: "hd ys \<in> set ys" "last ys \<in> set ys" using q(2) by simp_all
  have E: "set ys \<inter> set (p # as @ bs) = {}" using dis by auto
  have nv: "x \<notin> set ys \<Longrightarrow> x \<noteq> before p as \<Longrightarrow> nxt h' x = nxt h x"
    "x \<notin> set ys \<Longrightarrow> x \<noteq> behind bs p \<Longrightarrow> prv h' x = prv h x" for x
    using y by (auto simp: n v)
  have f: "chain h' (p # as)" "chain h' (bs @ [p])"
    using gap_frame [where h = h and h' = h', OF d E nv] c by simp_all
  have ne: "before p as \<notin> set ys" "behind bs p \<notin> set ys"
    using before_in [of p as] behind_in [of bs p] dis by auto
  have ne2: "before p as \<noteq> last ys" "behind bs p \<noteq> hd ys"
    using ne y by metis+
  have "chain h' ys = chain h ys"
  proof (rule chain_cong)
    have "last ys \<notin> set (butlast ys)"
      using dy q(2) by (metis append_butlast_last_id distinct_append not_distinct_conv_prefix)
    then show "\<forall>x \<in> set (butlast ys). nxt h' x = nxt h x"
      using ne in_set_butlastD [of _ ys] by (auto simp: n)
    have "hd ys \<notin> set (tl ys)" using dy q(2) by (cases ys) auto
    then show "\<forall>x \<in> set (tl ys). prv h' x = prv h x"
      using ne list.set_sel(2) [OF q(2)] by (auto simp: v)
  qed
  with cy have cy': "chain h' ys" by simp
  have "chain h' (ys @ bs @ [p])"
  proof (cases ys)
    case (Cons z zs)
    then show ?thesis
      using chain_gap [of h' z zs bs p] f(2) cy' ne y
      by (simp add: n v before_def split: if_splits)
  qed (use q(2) in simp)
  then have "chain h' (p # as @ (ys @ bs) @ [p])"
    unfolding chain_gap using f(1) ne2 q(2) by (simp add: n v behind_append behind_hd)
  then show ?thesis
    using r q pe dis by (auto simp: ring_def)
qed

text \<open>
  \<^verbatim>\<open>append\<close> and \<^verbatim>\<open>append_back\<close> leave the head of the list they took the elements from
  unchanged: it still points to them and is no longer a list of its own (\<open>None\<close> below).
\<close>

lemma append_gap:
  assumes ok: "store_ok h L D" and L: "L p = Some (as @ bs)" "L q = Some ys" "p \<noteq> q" "ys \<noteq> []"
  shows "store_ok (elt_concat q (before p as) (behind bs p) h) (L(p \<mapsto> as @ ys @ bs, q := None)) D"
    (is "store_ok ?h' _ _")
proof (rule store_update_gen [where P = "{p, q}" and A = "set (p # as @ bs) \<union> set ys", OF ok])
  have rp: "ring h p (as @ bs)" and rq: "ring h q ys"
    using store_okD(1) [OF ok] L by blast+
  have dis: "set (p # as @ bs) \<inter> set (q # ys) = {}" using store_okD(4) [OF ok] L by blast
  have y: "nxt h q = hd ys" "prv h q = last ys" "hd ys \<in> set ys" "last ys \<in> set ys"
    using ring_ends [OF rq] L(4) by (simp_all add: behind_hd before_last)
  show "agree (set (p # as @ bs) \<union> set ys) h ?h'"
    using y before_in [of p as] behind_in [of bs p] by (auto simp: agree_def)
  show "set (p # as @ bs) \<union> set ys \<subseteq> footprint L D {p, q}"
    using L by auto
  have "ring ?h' p (as @ ys @ bs)"
    by (rule ring_splice [OF rp rq L(4) dis]) (simp_all add: y)
  then show "ring ?h' r zs \<and> set (r # zs) \<subseteq> footprint L D {p, q} - D"
    if "r \<in> {p, q}" "(L(p \<mapsto> as @ ys @ bs, q := None)) r = Some zs" for r zs
    using that L store_okD(2) [OF ok L(1)] store_okD(2) [OF ok L(2)] by (auto split: if_splits)
  show "detached ?h' e" if "e \<in> D" "e \<in> set (p # as @ bs) \<union> set ys \<or> e \<notin> D" for e
    using that store_okD(2) [OF ok L(1)] store_okD(2) [OF ok L(2)] by auto
  show "D \<subseteq> footprint L D {p, q}" by (simp add: footprint_def)
qed (use L(3) in \<open>auto split: if_splits\<close>)

lemma list_append_refines:
  assumes ok: "store_ok h L D" and L: "L p = Some xs" "L q = Some ys" "p \<noteq> q"
  shows "\<exists>h'. list_append p q h = Inr h'
      \<and> store_ok h' (if ys = [] then L else L(p \<mapsto> ys @ xs, q := None)) D"
    and "\<exists>h'. list_append_back p q h = Inr h'
      \<and> store_ok h' (if ys = [] then L else L(p \<mapsto> xs @ ys, q := None)) D"
  using append_gap [OF ok, of p "[]" xs q ys] append_gap [OF ok, of p xs "[]" q ys] L ok
    ring_ends [OF store_okD(1) [OF ok L(1)]] list_first_refines(3) [OF ok L(2)]
    ring_pay(1) [OF store_okD(1) [OF ok L(1)]] ring_pay(1) [OF store_okD(1) [OF ok L(2)]]
  by (auto simp: list_append_def list_append_back_def)

lemma list_append_source:
  assumes ok: "store_ok h L D" and L: "L p = Some xs" "L q = Some ys" "p \<noteq> q" "ys \<noteq> []"
    and "list_append p q h = Inr h' \<or> list_append_back p q h = Inr h'"
  shows "nxt h' q = hd ys \<and> prv h' q = last ys \<and> \<not> is_empty q h'"
proof -
  have rq: "ring h q ys" and rp: "ring h p xs" using store_okD(1) [OF ok] L by blast+
  have dis: "set (p # xs) \<inter> set (q # ys) = {}" using store_okD(4) [OF ok] L by blast
  have y: "nxt h q = hd ys" "prv h q = last ys" "hd ys \<in> set ys" "last ys \<in> set ys"
    using ring_ends [OF rq] L(4) by (simp_all add: behind_hd before_last)
  have "q \<notin> set ys" using rq by (simp add: ring_def)
  moreover have "q \<noteq> before p xs" "q \<noteq> behind xs p"
    using dis before_in [of p xs] behind_in [of xs p] by auto
  moreover have "q \<noteq> hd ys" "q \<noteq> last ys"
    using calculation(1) y(3,4) by auto
  ultimately show ?thesis
    using assms(6) y(1,2) dis ring_ends [OF rp] list_first_refines(3) [OF ok L(2)] L(4)
    by (auto simp: list_append_def list_append_back_def check_assert_Inr_iff is_empty_def)
qed

lemma snoc_not_Nil: "as @ [e] \<noteq> []"
  by simp

lemma truncate_refines:
  assumes ok: "store_ok h L D" and L: "L p = Some (as @ e # bs)" "L q = Some []" "p \<noteq> q"
  shows "\<exists>h'. list_truncate p e q h = Inr h' \<and> store_ok h' (L(p \<mapsto> bs, q \<mapsto> as @ [e])) D"
proof -
  let ?ys = "as @ [e]"
  have rp: "ring h p (as @ e # bs)" and rq: "ring h q []"
    using store_okD(1) [OF ok] L by blast+
  have d: "distinct (p # as @ e # bs)" using rp by (simp add: ring_def)
  have dis: "q \<notin> set (p # as @ e # bs)" using store_okD(4) [OF ok L(1,2,3)] by simp
  define y where "y = hd ?ys"
  have y: "y \<in> set ?ys" "behind (as @ e # bs) p = y"
    using y_def by (auto simp: behind_def hd_append)
  let ?v = "behind bs p"
  have v: "?v \<notin> set ?ys" "?v \<noteq> q"
    using d dis behind_in [of bs p] by auto
  define h' where "h' = h\<lparr>nxt := (nxt h)(q := y, e := q, p := ?v),
    prv := (prv h)(y := q, q := e, ?v := p)\<rparr>"
  have sing: "nxt h p = e" if "nxt h p = prv h p"
  proof -
    have "y = before p (as @ e # bs)" using that ring_ends [OF rp] y by simp
    then show ?thesis
      using d y_def ring_ends [OF rp] y
      by (cases bs rule: rev_cases; cases as) (auto simp: before_append hd_append split: if_splits)
  qed
  have S: "\<not> (nxt h p = prv h p \<and> nxt h p \<noteq> e \<and> p \<noteq> e)"
    using sing by blast
  have ne: "p \<noteq> e" "e \<noteq> p" using d by auto
  have pe: "pay h p = None" "pay h q = None" "pay h e \<noteq> None" "\<not> is_empty p h"
    using ring_pay(1) [OF rp] ring_pay(1) [OF rq] ring_pay(2) [OF rp, of e] ring_is_empty [OF rp]
    by simp_all
  have np: "nxt h p = y" "nxt h e = ?v"
    using ring_at [OF rp] ring_ends [OF rp] y(2) by simp_all
  have t: "list_truncate p e q h = Inr h'"
    using S pe ne np
    by (cases "nxt h p = prv h p") (simp_all add: list_truncate_def Let_def h'_def set_next_def set_prev_def)
  have c: "chain h (p # as @ [e])" "chain h (bs @ [p])"
    using rp chain_gap [of h p "as @ [e]" bs p] by (simp_all add: ring_def)
  have cys: "chain h ?ys"
    using c(1) by (cases as) auto
  have "chain h' ?ys = chain h ?ys"
  proof (rule chain_cong)
    show "\<forall>x \<in> set (butlast ?ys). nxt h' x = nxt h x"
      using d dis by (auto simp: h'_def)
    have "y \<notin> set (tl ?ys)" using d y_def by (cases as) auto
    moreover have "set (tl ?ys) \<subseteq> set ?ys" by (cases as) auto
    ultimately show "\<forall>x \<in> set (tl ?ys). prv h' x = prv h x"
      using v(1) dis by (auto simp: h'_def)
  qed
  then have cys': "chain h' ?ys" using cys by simp
  have q: "chain h' (q # ?ys @ [q])"
  proof -
    have "chain h' (q # ?ys)"
      unfolding chain_Cons [OF snoc_not_Nil] using cys' v d dis y_def [symmetric] y(1)
      by (auto simp: h'_def)
    then have "chain h' (q # ?ys @ [] @ [q])"
      unfolding chain_gap using d dis v y(1) by (auto simp: h'_def)
    then show ?thesis by simp
  qed
  have p: "chain h' (p # [] @ bs @ [p])"
  proof -
    have d': "distinct (p # [] @ bs)" using d by simp
    have E: "(set ?ys \<union> {q}) \<inter> set (p # [] @ bs) = {}" using d dis by auto
    have "chain h' (bs @ [p]) = chain h (bs @ [p])"
      by (rule gap_frame(2) [OF d' E]) (use y(1) in \<open>auto simp: h'_def\<close>)
    then show ?thesis
      unfolding chain_gap using c(2) by (simp add: h'_def)
  qed
  have "store_ok h' (L(p \<mapsto> bs, q \<mapsto> ?ys)) D"
  proof (rule store_update_gen [where P = "{p, q}" and A = "set (p # ?ys @ bs) \<union> {q}", OF ok])
    have fp: "footprint L D {p, q} = D \<union> set (p # as @ e # bs) \<union> set [q]"
      using L by simp
    show "agree (set (p # ?ys @ bs) \<union> {q}) h h'"
      using y(1) behind_in [of bs p] by (auto simp: agree_def h'_def)
    show "set (p # ?ys @ bs) \<union> {q} \<subseteq> footprint L D {p, q}" "D \<subseteq> footprint L D {p, q}"
      using fp by auto
    have D: "set (p # as @ e # bs) \<inter> D = {}" "q \<notin> D"
      using store_okD(2) [OF ok L(1)] store_okD(2) [OF ok L(2)] by auto
    have "ring h' p bs" "ring h' q ?ys"
      using p q rp rq d dis by (auto simp: ring_def h'_def)
    then show "ring h' r zs \<and> set (r # zs) \<subseteq> footprint L D {p, q} - D"
      if "r \<in> {p, q}" "(L(p \<mapsto> bs, q \<mapsto> ?ys)) r = Some zs" for r zs
      using that D fp by (auto split: if_splits)
    show "detached h' x" if "x \<in> D" "x \<in> set (p # ?ys @ bs) \<union> {q} \<or> x \<notin> D" for x
      using that D by auto
  qed (use d dis in \<open>auto split: if_splits\<close>)
  with t show ?thesis by blast
qed

section \<open>Traversals\<close>

lemma for_each_from:
  assumes "ring h p (as @ bs)" "p_elt it = behind bs p" "p_next it = nxt h (behind bs p)"
  shows "for_each p h it = Some bs"
  using assms
proof (induction bs arbitrary: as it)
  case Nil
  then show ?case by (simp add: for_each.simps)
next
  case (Cons b bs)
  have "for_each p h (iter_inc h it) = Some bs"
    using Cons.prems ring_at [OF Cons.prems(1)]
    by (intro Cons.IH [of "as @ [b]"]) (simp_all add: iter_inc_def)
  moreover have "b \<noteq> p" using Cons.prems(1) by (auto simp: ring_def)
  ultimately show ?case
    using Cons.prems(2) by (simp add: for_each.simps [of p h it])
qed

lemma for_each_rev_from:
  assumes "ring h p (as @ bs)" "p_elt it = before p as" "p_prev it = prv h (before p as)"
  shows "for_each_rev p h it = Some (rev as)"
  using assms
proof (induction as arbitrary: bs it rule: rev_induct)
  case Nil
  then show ?case by (simp add: for_each_rev.simps)
next
  case (snoc a as)
  have r: "ring h p (as @ a # bs)" using snoc.prems(1) by simp
  have "for_each_rev p h (iter_dec h it) = Some (rev as)"
    using snoc.prems ring_at [OF r] r
    by (intro snoc.IH [of "a # bs"]) (simp_all add: iter_dec_def)
  moreover have "a \<noteq> p" using r by (auto simp: ring_def)
  ultimately show ?case
    using snoc.prems(2) by (simp add: for_each_rev.simps [of p h it])
qed

lemma for_each_list:
  assumes "store_ok h L D" "L p = Some xs"
  shows "\<exists>it. list_begin p h = Inr it \<and> for_each p h it = Some xs"
    and "\<exists>it. list_rbegin p h = Inr it \<and> for_each_rev p h it = Some (rev xs)"
proof -
  have r: "ring h p xs" by (rule store_okD(1) [OF assms])
  show "\<exists>it. list_begin p h = Inr it \<and> for_each p h it = Some xs"
    using ring_pay(1) [OF r] ring_ends [OF r] r
      for_each_from [of h p "[]" xs "new_iterator (behind xs p) h"]
    by (simp add: list_begin_def new_iterator_def)
  show "\<exists>it. list_rbegin p h = Inr it \<and> for_each_rev p h it = Some (rev xs)"
    using ring_pay(1) [OF r] ring_ends [OF r] r
      for_each_rev_from [of h p xs "[]" "new_iterator (before p xs) h"]
    by (simp add: list_rbegin_def new_iterator_def)
qed

lemma for_each_extract_from:
  assumes "store_ok h L D" "L p = Some bs" "p_elt it = behind bs p" "p_next it = nxt h (behind bs p)"
  shows "\<exists>h'. for_each_extract p it seen h = Some (Inr (seen @ bs, h'))
    \<and> store_ok h' (L(p \<mapsto> [])) (D \<union> set bs)"
  using assms
proof (induction bs arbitrary: h L D it seen)
  case Nil
  then show ?case by (simp add: for_each_extract.simps fun_upd_idem)
next
  case (Cons b bs)
  have r: "ring h p ([] @ b # bs)" using store_okD(1) [OF Cons.prems(1,2)] by simp
  have "b \<noteq> p" using r by (auto simp: ring_def)
  obtain h1 where h1: "elt_extract b h = Inr (pay h b, h1)"
    "store_ok h1 (L(p \<mapsto> bs)) (insert b D)"
    using extract_refines [OF Cons.prems(1), of p "[]" b bs] Cons.prems(2) by auto
  let ?it = "iter_inc h1 it"
  have it: "p_elt ?it = behind bs p" "p_next ?it = nxt h1 (behind bs p)"
    using Cons.prems(3,4) ring_at [OF r] by (simp_all add: iter_inc_def)
  obtain h2 where h2: "for_each_extract p ?it (seen @ [b]) h1 = Some (Inr ((seen @ [b]) @ bs, h2))"
    "store_ok h2 (L(p \<mapsto> bs, p \<mapsto> [])) (insert b D \<union> set bs)"
    using Cons.IH [OF h1(2) fun_upd_same it] by blast
  have "for_each_extract p it seen h = Some (Inr (seen @ b # bs, h2))"
    using \<open>b \<noteq> p\<close> h1(1) h2(1) Cons.prems(3)
    by (simp add: for_each_extract.simps [of p it seen h])
  moreover have "store_ok h2 (L(p \<mapsto> [])) (D \<union> set (b # bs))"
    using h2(2) by (simp only: fun_upd_upd list.set Un_insert_left Un_insert_right)
  ultimately show ?case by blast
qed

section \<open>Swapping two elements\<close>

text \<open>The refinements on an updated map of contents, to chain several operations on one list.\<close>

lemma insert_after_upd:
  assumes "store_ok h (L(p \<mapsto> as @ bs)) D" "e \<in> D"
  shows "\<exists>h'. insert_after e (before p as) h = Inr h' \<and> store_ok h' (L(p \<mapsto> as @ e # bs)) (D - {e})"
  using insert_after_refines [OF assms(1) fun_upd_same assms(2)] unfolding fun_upd_upd .

lemma insert_before_upd:
  assumes "store_ok h (L(p \<mapsto> as @ bs)) D" "e \<in> D"
  shows "\<exists>h'. insert_before e (behind bs p) h = Inr h' \<and> store_ok h' (L(p \<mapsto> as @ e # bs)) (D - {e})"
  using insert_before_refines [OF assms(1) fun_upd_same assms(2)] unfolding fun_upd_upd .

lemma extract_upd:
  assumes "store_ok h (L(p \<mapsto> as @ e # bs)) D"
  shows "\<exists>h'. elt_extract e h = Inr (pay h e, h') \<and> store_ok h' (L(p \<mapsto> as @ bs)) (insert e D)"
  using extract_refines [OF assms fun_upd_same] unfolding fun_upd_upd .

lemma swap_adjacent:
  assumes ok: "store_ok h (L(p \<mapsto> as @ x # y # ds)) D"
  shows "\<exists>h1 h2. elt_extract x h = Inr (pay h x, h1) \<and> insert_after x y h1 = Inr h2
      \<and> store_ok h2 (L(p \<mapsto> as @ y # x # ds)) D"
    and "\<exists>h1 h2. elt_extract y h = Inr (pay h y, h1) \<and> insert_before y x h1 = Inr h2
      \<and> store_ok h2 (L(p \<mapsto> as @ y # x # ds)) D"
proof -
  have out: "set (p # as @ x # y # ds) \<inter> D = {}" by (rule store_okD(2) [OF ok fun_upd_same])
  then have D: "insert x D - {x} = D" "insert y D - {y} = D" by auto
  obtain h1 where h1: "elt_extract x h = Inr (pay h x, h1)"
    "store_ok h1 (L(p \<mapsto> as @ y # ds)) (insert x D)"
    using extract_upd [OF ok] by blast
  then have "store_ok h1 (L(p \<mapsto> (as @ [y]) @ ds)) (insert x D)" by simp
  from insert_after_upd [OF this insertI1] h1(1) D
  show "\<exists>h1 h2. elt_extract x h = Inr (pay h x, h1) \<and> insert_after x y h1 = Inr h2
      \<and> store_ok h2 (L(p \<mapsto> as @ y # x # ds)) D"
    by auto
  have "store_ok h (L(p \<mapsto> (as @ [x]) @ y # ds)) D" using ok by simp
  then obtain h2 where h2: "elt_extract y h = Inr (pay h y, h2)"
    "store_ok h2 (L(p \<mapsto> (as @ [x]) @ ds)) (insert y D)"
    using extract_upd by blast
  then have "store_ok h2 (L(p \<mapsto> as @ (x # ds))) (insert y D)" by simp
  from insert_before_upd [OF this insertI1] h2(1) D
  show "\<exists>h1 h2. elt_extract y h = Inr (pay h y, h1) \<and> insert_before y x h1 = Inr h2
      \<and> store_ok h2 (L(p \<mapsto> as @ y # x # ds)) D"
    by auto
qed

lemma swap_apart:
  assumes ok: "store_ok h (L(p \<mapsto> as @ x # cs @ y # ds)) D" and ne: "cs \<noteq> []"
  shows "\<exists>h1 h2 h3 h4. elt_extract x h = Inr (pay h x, h1) \<and> elt_extract y h1 = Inr (pay h1 y, h2)
      \<and> insert_after x (last cs) h2 = Inr h3 \<and> insert_after y (before p as) h3 = Inr h4
      \<and> store_ok h4 (L(p \<mapsto> as @ y # cs @ x # ds)) D"
    and "\<exists>h1 h2 h3 h4. elt_extract y h = Inr (pay h y, h1) \<and> elt_extract x h1 = Inr (pay h1 x, h2)
      \<and> insert_after y (before p as) h2 = Inr h3 \<and> insert_after x (last cs) h3 = Inr h4
      \<and> store_ok h4 (L(p \<mapsto> as @ y # cs @ x # ds)) D"
proof -
  have out: "set (p # as @ x # cs @ y # ds) \<inter> D = {}" by (rule store_okD(2) [OF ok fun_upd_same])
  have "x \<noteq> y" using store_okD(1) [OF ok fun_upd_same] by (auto simp: ring_def)
  with out have D: "insert y (insert x D) - {x} - {y} = D" "insert x (insert y D) - {y} - {x} = D"
    and E: "y \<in> insert y (insert x D) - {x}" "x \<in> insert x (insert y D) - {y}"
    by auto
  have l: "before p (as @ cs) = last cs" "before p (as @ y # cs) = last cs"
    using ne by (simp_all add: before_def)
  obtain h1 where h1: "elt_extract x h = Inr (pay h x, h1)"
    "store_ok h1 (L(p \<mapsto> as @ cs @ y # ds)) (insert x D)"
    using extract_upd [OF ok] by blast
  then have "store_ok h1 (L(p \<mapsto> (as @ cs) @ y # ds)) (insert x D)" by simp
  then obtain h2 where h2: "elt_extract y h1 = Inr (pay h1 y, h2)"
    "store_ok h2 (L(p \<mapsto> (as @ cs) @ ds)) (insert y (insert x D))"
    using extract_upd by blast
  then obtain h3 where h3: "insert_after x (last cs) h2 = Inr h3"
    "store_ok h3 (L(p \<mapsto> (as @ cs) @ x # ds)) (insert y (insert x D) - {x})"
    using insert_after_upd [OF h2(2), of x] l by auto
  then have "store_ok h3 (L(p \<mapsto> as @ (cs @ x # ds))) (insert y (insert x D) - {x})" by simp
  from insert_after_upd [OF this E(1)] h1(1) h2(1) h3(1)
  show "\<exists>h1 h2 h3 h4. elt_extract x h = Inr (pay h x, h1) \<and> elt_extract y h1 = Inr (pay h1 y, h2)
      \<and> insert_after x (last cs) h2 = Inr h3 \<and> insert_after y (before p as) h3 = Inr h4
      \<and> store_ok h4 (L(p \<mapsto> as @ y # cs @ x # ds)) D"
    unfolding D by blast
  have "store_ok h (L(p \<mapsto> (as @ x # cs) @ y # ds)) D" using ok by simp
  then obtain k1 where k1: "elt_extract y h = Inr (pay h y, k1)"
    "store_ok k1 (L(p \<mapsto> (as @ x # cs) @ ds)) (insert y D)"
    using extract_upd by blast
  then have "store_ok k1 (L(p \<mapsto> as @ x # (cs @ ds))) (insert y D)" by simp
  then obtain k2 where k2: "elt_extract x k1 = Inr (pay k1 x, k2)"
    "store_ok k2 (L(p \<mapsto> as @ (cs @ ds))) (insert x (insert y D))"
    using extract_upd by blast
  then obtain k3 where k3: "insert_after y (before p as) k2 = Inr k3"
    "store_ok k3 (L(p \<mapsto> as @ y # (cs @ ds))) (insert x (insert y D) - {y})"
    using insert_after_upd [OF k2(2), of y] by auto
  then have "store_ok k3 (L(p \<mapsto> (as @ y # cs) @ ds)) (insert x (insert y D) - {y})" by simp
  from insert_after_upd [OF this E(2)] k1(1) k2(1) k3(1)
  show "\<exists>h1 h2 h3 h4. elt_extract y h = Inr (pay h y, h1) \<and> elt_extract x h1 = Inr (pay h1 x, h2)
      \<and> insert_after y (before p as) h2 = Inr h3 \<and> insert_after x (last cs) h3 = Inr h4
      \<and> store_ok h4 (L(p \<mapsto> as @ y # cs @ x # ds)) D"
    unfolding D l by auto
qed

lemma iter_swap_refines:
  assumes ok: "store_ok h L D" and L: "L p = Some (as @ x # cs @ y # ds)"
    and ab: "p_elt a = x \<and> p_elt b = y \<or> p_elt a = y \<and> p_elt b = x"
  shows "\<exists>a' b' h'. iter_swap a b h = Inr (a', b', h')
    \<and> p_elt a' = p_elt b \<and> p_elt b' = p_elt a
    \<and> store_ok h' (L(p \<mapsto> as @ y # cs @ x # ds)) D"
proof -
  have r: "ring h p (as @ x # cs @ y # ds)" by (rule store_okD(1) [OF ok L])
  have r2: "ring h p ((as @ x # cs) @ y # ds)" using r by simp
  have d: "distinct (p # as @ x # cs @ y # ds)" using r by (simp add: ring_def)
  have n: "prv h x = before p as" "nxt h x = behind (cs @ y # ds) p"
    "prv h y = before x cs" "nxt h y = behind ds p"
    using ring_at [OF r] ring_at [OF r2] by (simp_all add: before_append)
  have nin: "before p as \<noteq> y" "before p as \<noteq> x" "behind ds p \<noteq> x" "behind ds p \<noteq> y"
    using before_in [of p as] behind_in [of ds p] d by auto
  have ok': "store_ok h (L(p \<mapsto> as @ x # cs @ y # ds)) D"
    using ok L by (simp add: fun_upd_idem)
  show ?thesis
  proof (cases "cs = []")
    case True
    then have "store_ok h (L(p \<mapsto> as @ x # y # ds)) D" using ok' by simp
    from swap_adjacent [OF this] ab show ?thesis
      using n nin True
      by (elim disjE exE conjE) (simp_all add: iter_swap_def Let_def iter_safe_def iter_relink_def)
  next
    case False
    have far: "behind (cs @ y # ds) p \<noteq> y" "last cs \<noteq> x" "before x cs = last cs"
      using False d hd_in_set [OF False] last_in_set [OF False]
      by (auto simp: behind_def before_def hd_append)
    from swap_apart [OF ok' False] ab show ?thesis
      using n nin far
      by (elim disjE exE conjE) (simp_all add: iter_swap_def Let_def iter_safe_def iter_relink_def)
  qed
qed

text \<open>Swapping an iterator with itself inserts the element twice.\<close>

lemma iter_swap_self:
  assumes ok: "store_ok h L D" and L: "L p = Some (as @ x # bs)" and ab: "p_elt a = x" "p_elt b = x"
  shows "\<exists>a' b' h'. iter_swap a b h = Inr (a', b', h') \<and> nxt h' x = x \<and> nxt h' (before p as) = x"
proof -
  have r: "ring h p (as @ x # bs)" by (rule store_okD(1) [OF ok L])
  have d: "distinct (p # as @ x # bs)" using r by (simp add: ring_def)
  have nin: "before p as \<noteq> x" "behind bs p \<noteq> x"
    using before_in [of p as] behind_in [of bs p] d by auto
  have pay: "pay h x \<noteq> None" "\<not> is_empty x h"
    using ring_pay(2) [OF r] ring_elt_not_empty [OF r] by simp_all
  show ?thesis
    using ring_at [OF r] nin pay ab
    by (simp add: iter_swap_def Let_def iter_safe_def iter_relink_def elt_extract_def is_empty_def
        insert_after_def)
qed

section \<open>Interfaces: stacks, queues and double-ended queues over a shared store\<close>

text \<open>
  The header file recommends \<^verbatim>\<open>push\<close>/\<^verbatim>\<open>pop\<close> for stacks and \<^verbatim>\<open>push_back\<close>/\<^verbatim>\<open>pop\<close> for
  queues. A client sees a store through its contents and its detached elements; the laws below
  are what it relies on. The client loops are parameterised by the operations they call.
\<close>

fun fill :: "(addr \<Rightarrow> addr \<Rightarrow> 'h \<Rightarrow> 'h result) \<Rightarrow> addr \<Rightarrow> addr list \<Rightarrow> 'h \<Rightarrow> 'h result" where
  "fill put p [] h = Inr h"
| "fill put p (e # es) h = (case put p e h of Inl err \<Rightarrow> Inl err | Inr h' \<Rightarrow> fill put p es h')"

fun take_out :: "(addr \<Rightarrow> 'h \<Rightarrow> (addr option \<times> 'h) result) \<Rightarrow> addr \<Rightarrow> nat \<Rightarrow> 'h
    \<Rightarrow> (addr option list \<times> 'h) result" where
  "take_out get p 0 h = Inr ([], h)"
| "take_out get p (Suc n) h =
     (case get p h of Inl err \<Rightarrow> Inl err
      | Inr (x, h') \<Rightarrow> (case take_out get p n h' of Inl err \<Rightarrow> Inl err
                        | Inr (xs, h'') \<Rightarrow> Inr (x # xs, h'')))"

partial_function (option) drain ::
  "(addr \<Rightarrow> 'h \<Rightarrow> bool) \<Rightarrow> (addr \<Rightarrow> 'h \<Rightarrow> (addr option \<times> 'h) result)
   \<Rightarrow> (addr \<Rightarrow> addr \<Rightarrow> 'h \<Rightarrow> 'h result) \<Rightarrow> addr \<Rightarrow> addr \<Rightarrow> 'h \<Rightarrow> 'h result option" where
  "drain emp get put a b h =
     (if emp a h then Some (Inr h)
      else (case get a h of
              Inl err \<Rightarrow> Some (Inl err)
            | Inr (x, h1) \<Rightarrow>
                (case x of None \<Rightarrow> Some (Inl Undefined)
                 | Some e \<Rightarrow> (case put b e h1 of
                                Inl err \<Rightarrow> Some (Inl err)
                              | Inr h2 \<Rightarrow> drain emp get put a b h2))))"

locale taking_store =
  fixes ok :: "'h \<Rightarrow> contents \<Rightarrow> addr set \<Rightarrow> bool"
    and get :: "addr \<Rightarrow> 'h \<Rightarrow> (addr option \<times> 'h) result"
  assumes apart: "ok h L D \<Longrightarrow> L p = Some xs \<Longrightarrow> set xs \<inter> D = {}"
    and get: "ok h L D \<Longrightarrow> L p = Some (e # xs) \<Longrightarrow>
      \<exists>h'. get p h = Inr (Some e, h') \<and> ok h' (L(p \<mapsto> xs)) (insert e D)"
begin

lemma take_out_front:
  assumes "ok h L D" "L p = Some (xs @ ys)"
  shows "\<exists>h'. take_out get p (length xs) h = Inr (map Some xs, h')
    \<and> ok h' (L(p \<mapsto> ys)) (D \<union> set xs)"
  using assms
proof (induction xs arbitrary: h L D)
  case Nil
  then show ?case by (simp add: fun_upd_idem)
next
  case (Cons x xs)
  obtain h1 where h1: "get p h = Inr (Some x, h1)" "ok h1 (L(p \<mapsto> xs @ ys)) (insert x D)"
    using get [OF Cons.prems(1), of p x "xs @ ys"] Cons.prems(2) by auto
  have D: "insert x D \<union> set xs = D \<union> set (x # xs)" by auto
  obtain h2 where h2: "take_out get p (length xs) h1 = Inr (map Some xs, h2)"
    "ok h2 (L(p \<mapsto> xs @ ys, p \<mapsto> ys)) (insert x D \<union> set xs)"
    using Cons.IH [OF h1(2) fun_upd_same] by blast
  have "take_out get p (length (x # xs)) h = Inr (map Some (x # xs), h2)"
    using h1(1) h2(1) by simp
  then show ?case using h2(2) unfolding fun_upd_upd D by blast
qed

end

locale stack_store = taking_store +
  fixes put :: "addr \<Rightarrow> addr \<Rightarrow> 'h \<Rightarrow> 'h result"
  assumes put: "ok h L D \<Longrightarrow> L p = Some xs \<Longrightarrow> e \<in> D \<Longrightarrow>
      \<exists>h'. put p e h = Inr h' \<and> ok h' (L(p \<mapsto> e # xs)) (D - {e})"
begin

lemma fill_rev:
  assumes "ok h L D" "L p = Some xs" "set es \<subseteq> D" "distinct es"
  shows "\<exists>h'. fill put p es h = Inr h' \<and> ok h' (L(p \<mapsto> rev es @ xs)) (D - set es)"
  using assms
proof (induction es arbitrary: h L D xs)
  case Nil
  then show ?case by (simp add: fun_upd_idem)
next
  case (Cons e es)
  obtain h1 where h1: "put p e h = Inr h1" "ok h1 (L(p \<mapsto> e # xs)) (D - {e})"
    using put [OF Cons.prems(1,2), of e] Cons.prems(3) by auto
  have es: "set es \<subseteq> D - {e}" "distinct es" using Cons.prems by auto
  have D: "D - {e} - set es = D - set (e # es)" "rev es @ e # xs = rev (e # es) @ xs" by auto
  obtain h2 where h2: "fill put p es h1 = Inr h2"
    "ok h2 (L(p \<mapsto> e # xs, p \<mapsto> rev es @ e # xs)) (D - {e} - set es)"
    using Cons.IH [OF h1(2) fun_upd_same es] by blast
  have "fill put p (e # es) h = Inr h2" using h1(1) h2(1) by simp
  then show ?case using h2(2) unfolding fun_upd_upd D by blast
qed

text \<open>Last in, first out.\<close>

lemma lifo:
  assumes "ok h L D" "L p = Some xs" "set es \<subseteq> D" "distinct es"
  shows "\<exists>h1 h2. fill put p es h = Inr h1 \<and> take_out get p (length es) h1 = Inr (map Some (rev es), h2)
    \<and> ok h2 L D"
proof -
  obtain h1 where h1: "fill put p es h = Inr h1" "ok h1 (L(p \<mapsto> rev es @ xs)) (D - set es)"
    using fill_rev [OF assms] by blast
  obtain h2 where "take_out get p (length (rev es)) h1 = Inr (map Some (rev es), h2)"
    "ok h2 (L(p \<mapsto> rev es @ xs, p \<mapsto> xs)) (D - set es \<union> set (rev es))"
    using take_out_front [OF h1(2) fun_upd_same] by blast
  moreover have "D - set es \<union> set (rev es) = D" using assms(3) by auto
  moreover have "L(p \<mapsto> xs) = L" using assms(2) by (rule fun_upd_idem)
  ultimately show ?thesis using h1(1) unfolding fun_upd_upd by auto
qed

end

locale queue_store = taking_store +
  fixes put :: "addr \<Rightarrow> addr \<Rightarrow> 'h \<Rightarrow> 'h result"
  assumes put: "ok h L D \<Longrightarrow> L p = Some xs \<Longrightarrow> e \<in> D \<Longrightarrow>
      \<exists>h'. put p e h = Inr h' \<and> ok h' (L(p \<mapsto> xs @ [e])) (D - {e})"
begin

lemma fill_append:
  assumes "ok h L D" "L p = Some xs" "set es \<subseteq> D" "distinct es"
  shows "\<exists>h'. fill put p es h = Inr h' \<and> ok h' (L(p \<mapsto> xs @ es)) (D - set es)"
  using assms
proof (induction es arbitrary: h L D xs)
  case Nil
  then show ?case by (simp add: fun_upd_idem)
next
  case (Cons e es)
  obtain h1 where h1: "put p e h = Inr h1" "ok h1 (L(p \<mapsto> xs @ [e])) (D - {e})"
    using put [OF Cons.prems(1,2), of e] Cons.prems(3) by auto
  have es: "set es \<subseteq> D - {e}" "distinct es" using Cons.prems by auto
  have D: "D - {e} - set es = D - set (e # es)" "(xs @ [e]) @ es = xs @ e # es" by auto
  obtain h2 where h2: "fill put p es h1 = Inr h2"
    "ok h2 (L(p \<mapsto> xs @ [e], p \<mapsto> (xs @ [e]) @ es)) (D - {e} - set es)"
    using Cons.IH [OF h1(2) fun_upd_same es] by blast
  have "fill put p (e # es) h = Inr h2" using h1(1) h2(1) by simp
  then show ?case using h2(2) unfolding fun_upd_upd D by blast
qed

text \<open>First in, first out.\<close>

lemma fifo:
  assumes "ok h L D" "L p = Some []" "set es \<subseteq> D" "distinct es"
  shows "\<exists>h1 h2. fill put p es h = Inr h1 \<and> take_out get p (length es) h1 = Inr (map Some es, h2)
    \<and> ok h2 L D"
proof -
  obtain h1 where h1: "fill put p es h = Inr h1" "ok h1 (L(p \<mapsto> es @ [])) (D - set es)"
    using fill_append [OF assms] by auto
  obtain h2 where "take_out get p (length es) h1 = Inr (map Some es, h2)"
    "ok h2 (L(p \<mapsto> es @ [], p \<mapsto> [])) (D - set es \<union> set es)"
    using take_out_front [OF h1(2) fun_upd_same] by blast
  moreover have "D - set es \<union> set es = D" using assms(3) by auto
  moreover have "L(p \<mapsto> []) = L" using assms(2) by (rule fun_upd_idem)
  ultimately show ?thesis using h1(1) unfolding fun_upd_upd by auto
qed

end

text \<open>A double-ended queue is a stack at its front whose tail can be used as well.\<close>

locale deque_store = stack_store +
  fixes put_back :: "addr \<Rightarrow> addr \<Rightarrow> 'h \<Rightarrow> 'h result"
    and get_back :: "addr \<Rightarrow> 'h \<Rightarrow> (addr option \<times> 'h) result"
    and emp :: "addr \<Rightarrow> 'h \<Rightarrow> bool"
  assumes put_back: "ok h L D \<Longrightarrow> L p = Some xs \<Longrightarrow> e \<in> D \<Longrightarrow>
      \<exists>h'. put_back p e h = Inr h' \<and> ok h' (L(p \<mapsto> xs @ [e])) (D - {e})"
    and get_back: "ok h L D \<Longrightarrow> L p = Some (xs @ [e]) \<Longrightarrow>
      \<exists>h'. get_back p h = Inr (Some e, h') \<and> ok h' (L(p \<mapsto> xs)) (insert e D)"
    and emp: "ok h L D \<Longrightarrow> L p = Some xs \<Longrightarrow> emp p h \<longleftrightarrow> xs = []"

sublocale deque_store \<subseteq> fifo: queue_store ok get put_back
  by unfold_locales (rule put_back)

text \<open>Seen from its tail, with every sequence reversed, it is a stack and a queue again.\<close>

definition mirrored :: "('h \<Rightarrow> contents \<Rightarrow> addr set \<Rightarrow> bool) \<Rightarrow> 'h \<Rightarrow> contents \<Rightarrow> addr set \<Rightarrow> bool" where
  "mirrored ok h L D \<longleftrightarrow> ok h (map_option rev \<circ> L) D"

lemma rev_upd: "map_option rev \<circ> (L(p \<mapsto> xs)) = (map_option rev \<circ> L)(p \<mapsto> rev xs)"
  by (simp add: fun_eq_iff)

sublocale deque_store \<subseteq> tail: stack_store "mirrored ok" get_back put_back
proof
  fix h L D p xs e
  assume m: "mirrored ok h L D"
  show "set xs \<inter> D = {}" if "L p = Some xs"
    using apart [of h "map_option rev \<circ> L" D p "rev xs"] m that by (simp add: mirrored_def)
  show "\<exists>h'. get_back p h = Inr (Some e, h') \<and> mirrored ok h' (L(p \<mapsto> xs)) (insert e D)" if "L p = Some (e # xs)"
    using get_back [of h "map_option rev \<circ> L" D p "rev xs" e] m that by (simp add: mirrored_def rev_upd)
  show "\<exists>h'. put_back p e h = Inr h' \<and> mirrored ok h' (L(p \<mapsto> e # xs)) (D - {e})" if "L p = Some xs" "e \<in> D"
    using put_back [of h "map_option rev \<circ> L" D p "rev xs" e] m that by (simp add: mirrored_def rev_upd)
qed

sublocale deque_store \<subseteq> back_fifo: queue_store "mirrored ok" get_back put
proof
  fix h L D p xs e
  assume "mirrored ok h L D" "L p = Some xs" "e \<in> D"
  then show "\<exists>h'. put p e h = Inr h' \<and> mirrored ok h' (L(p \<mapsto> xs @ [e])) (D - {e})"
    using put [of h "map_option rev \<circ> L" D p "rev xs" e] by (simp add: mirrored_def rev_upd)
qed

context deque_store
begin

lemma mirror_twice: "mirrored ok h (map_option rev \<circ> L) D = ok h L D"
  by (simp add: mirrored_def comp_assoc [symmetric] option.map_comp comp_def option.map_ident)

lemma fifo_from_back:
  assumes "ok h L D" "L p = Some []" "set es \<subseteq> D" "distinct es"
  shows "\<exists>h1 h2. fill put p es h = Inr h1 \<and> take_out get_back p (length es) h1 = Inr (map Some es, h2)
    \<and> ok h2 L D"
  using back_fifo.fifo [of h "map_option rev \<circ> L" D p es] assms unfolding mirror_twice by simp

lemma lifo_from_back:
  assumes "ok h L D" "L p = Some []" "set es \<subseteq> D" "distinct es"
  shows "\<exists>h1 h2. fill put_back p es h = Inr h1 \<and> take_out get_back p (length es) h1 = Inr (map Some (rev es), h2)
    \<and> ok h2 L D"
  using tail.lifo [of h "map_option rev \<circ> L" D p "[]" es] assms unfolding mirror_twice by simp

text \<open>The loop that empties one list from its tail into the tail of another one reverses it.\<close>

lemma drain_back:
  assumes "ok h L D" "L a = Some xs" "L b = Some ys" "a \<noteq> b"
  shows "\<exists>h'. drain emp get_back put_back a b h = Some (Inr h')
    \<and> ok h' (L(a \<mapsto> [], b \<mapsto> ys @ rev xs)) D"
  using assms
proof (induction xs arbitrary: h L D ys rule: rev_induct)
  case Nil
  then show ?case using emp [OF Nil(1,2)] by (simp add: drain.simps fun_upd_idem)
next
  case (snoc x xs)
  note pre = snoc.prems
  obtain h1 where h1: "get_back a h = Inr (Some x, h1)" "ok h1 (L(a \<mapsto> xs)) (insert x D)"
    using get_back [OF pre(1,2)] by blast
  have "(L(a \<mapsto> xs)) b = Some ys" using pre(3,4) by simp
  from put_back [OF h1(2) this insertI1]
  obtain h2 where h2: "put_back b x h1 = Inr h2"
    "ok h2 (L(a \<mapsto> xs, b \<mapsto> ys @ [x])) (insert x D - {x})" by blast
  have D: "insert x D - {x} = D" using apart [OF pre(1,2)] by auto
  have La: "(L(a \<mapsto> xs, b \<mapsto> ys @ [x])) a = Some xs" using pre(4) by simp
  have Lb: "(L(a \<mapsto> xs, b \<mapsto> ys @ [x])) b = Some (ys @ [x])" by simp
  obtain h3 where h3: "drain emp get_back put_back a b h2 = Some (Inr h3)"
    "ok h3 (L(a \<mapsto> xs, b \<mapsto> ys @ [x], a \<mapsto> [], b \<mapsto> (ys @ [x]) @ rev xs)) D"
    using snoc.IH [OF h2(2) [unfolded D] La Lb pre(4)] by blast
  have "drain emp get_back put_back a b h = Some (Inr h3)"
    using emp [OF pre(1,2)] h1(1) h2(1) h3(1) by (simp add: drain.simps [of emp get_back put_back a b h])
  moreover have "L(a \<mapsto> xs, b \<mapsto> ys @ [x], a \<mapsto> [], b \<mapsto> (ys @ [x]) @ rev xs)
      = L(a \<mapsto> [], b \<mapsto> ys @ rev (xs @ [x]))"
    using pre(4) by (auto simp: fun_eq_iff)
  ultimately show ?case using h3(2) by metis
qed

end

interpretation clist: deque_store store_ok pop push push_back pop_back is_empty
proof unfold_locales
  show "set xs \<inter> D = {}" if "store_ok h L D" "L p = Some xs" for h :: "'a heap" and L D p xs
    using store_okD(2) [OF that] by auto
qed (fact pop_refines push_refines push_back_refines pop_back_refines list_first_refines(3))+

section \<open>Construction and destruction\<close>

definition fresh :: "contents \<Rightarrow> addr set \<Rightarrow> addr \<Rightarrow> bool" where
  "fresh L D a \<longleftrightarrow> a \<notin> D \<and> (\<forall>p xs. L p = Some xs \<longrightarrow> a \<notin> set (p # xs))"

lemma new_elt_sel [simp]:
  "nxt (new_elt a x h) = (nxt h)(a := a)" "prv (new_elt a x h) = (prv h)(a := a)"
  "pay (new_elt a x h) = (pay h)(a := x)"
  by (simp_all add: new_elt_def)

lemma ring_new_elt:
  assumes "ring h p xs" "a \<notin> set (p # xs)" shows "ring (new_elt a x h) p xs"
proof -
  have "chain (new_elt a x h) (p # xs @ [p]) = chain h (p # xs @ [p])"
    using assms(2) in_set_butlastD [of _ "p # xs @ [p]"] by (intro chain_cong) fastforce+
  then show ?thesis using assms by (auto simp: ring_def)
qed

lemma new_elt_refines:
  assumes "store_ok h L D" "fresh L D a"
  shows "store_ok (new_elt a (Some x) h) L (insert a D)"
  using assms unfolding store_ok_def fresh_def
  by (auto simp: ring_new_elt detached_def)

lemma new_head_refines:
  assumes "store_ok h L D" "fresh L D a"
  shows "store_ok (new_elt a None h) (L(a \<mapsto> [])) D"
proof -
  have "ring (new_elt a None h) a []" by (simp add: ring_def)
  then show ?thesis
    using assms unfolding store_ok_def fresh_def
    by (auto simp: ring_new_elt detached_def split: if_splits)
qed

lemma delete_head_refines:
  assumes "store_ok h L D" "L p = Some xs"
  shows "delete_head p h = (if xs = [] then Inr () else Inl AssertFailed)"
  using list_first_refines(3) [OF assms] by (simp add: delete_head_def)

lemma replace_detached:
  assumes "detached h x" "detached h e" "x \<noteq> e"
  shows "\<exists>h'. replace x e h = Inr h' \<and> detached h' x \<and> detached h' e"
  using assms by (simp add: replace_def Let_def detached_def)

text \<open>
  The second module test: the elements are pushed on the first list, drained from its tail into
  the tail of the second one, and the second list is then cut after the element \<open>p3\<close>, its
  first part going back to the first list.
\<close>

definition test2_circList ::
  "addr \<Rightarrow> addr \<Rightarrow> addr list \<Rightarrow> addr \<Rightarrow> 'o heap \<Rightarrow> 'o heap result option" where
  "test2_circList master master2 objs p3 h =
     (case fill push master objs h of
        Inl e \<Rightarrow> Some (Inl e)
      | Inr h1 \<Rightarrow>
          (case drain is_empty pop_back push_back master master2 h1 of
             None \<Rightarrow> None
           | Some (Inl e) \<Rightarrow> Some (Inl e)
           | Some (Inr h2) \<Rightarrow> Some (list_truncate master2 p3 master h2)))"

lemma test2_refines:
  assumes ok: "store_ok h L D" and L: "L m = Some []" "L m2 = Some []" "m \<noteq> m2"
    and es: "set (as @ e # bs) \<subseteq> D" "distinct (as @ e # bs)"
  shows "\<exists>h'. test2_circList m m2 (as @ e # bs) e h = Some (Inr h')
    \<and> store_ok h' (L(m \<mapsto> as @ [e], m2 \<mapsto> bs)) (D - set (as @ e # bs))"
proof -
  let ?es = "as @ e # bs"
  obtain h1 where h1: "fill push m ?es h = Inr h1" "store_ok h1 (L(m \<mapsto> rev ?es @ [])) (D - set ?es)"
    using clist.fill_rev [OF ok L(1) es] by blast
  have "(L(m \<mapsto> rev ?es @ [])) m2 = Some []" using L by simp
  from clist.drain_back [OF h1(2) fun_upd_same this L(3)]
  obtain h2 where h2: "drain is_empty pop_back push_back m m2 h1 = Some (Inr h2)"
    "store_ok h2 (L(m \<mapsto> rev ?es @ [], m \<mapsto> [], m2 \<mapsto> [] @ rev (rev ?es @ []))) (D - set ?es)"
    by blast
  let ?L2 = "L(m \<mapsto> rev ?es @ [], m \<mapsto> [], m2 \<mapsto> [] @ rev (rev ?es @ []))"
  have "?L2 m2 = Some (as @ e # bs)" "?L2 m = Some []" "m2 \<noteq> m" using L(3) by simp_all
  from truncate_refines [OF h2(2) this]
  obtain h3 where h3: "list_truncate m2 e m h2 = Inr h3"
    "store_ok h3 (?L2(m2 \<mapsto> bs, m \<mapsto> as @ [e])) (D - set ?es)" by blast
  have "?L2(m2 \<mapsto> bs, m \<mapsto> as @ [e]) = L(m \<mapsto> as @ [e], m2 \<mapsto> bs)"
    using L(3) by (auto simp: fun_eq_iff)
  then show ?thesis
    using h1(1) h2(1) h3 by (simp add: test2_circList_def)
qed

text \<open>
  A store for the examples: two heads, 10 and 11, and elements from 2 to 6, of which the first
  list holds four.
\<close>

definition sample_heap :: "nat heap" where
  "sample_heap = \<lparr>nxt = (\<lambda>a. a), prv = (\<lambda>a. a),
     pay = (\<lambda>a. if a = 10 \<or> a = 11 then None else Some a)\<rparr>"

definition sample_lists :: "addr list \<Rightarrow> addr list \<Rightarrow> contents" where
  "sample_lists xs ys = [10 \<mapsto> xs, 11 \<mapsto> ys]"

lemma sample_lists_simps [simp]:
  "sample_lists xs ys 10 = Some xs" "sample_lists xs ys 11 = Some ys"
  "(sample_lists xs ys)(10 \<mapsto> zs) = sample_lists zs ys"
  "(sample_lists xs ys)(11 \<mapsto> zs) = sample_lists xs zs"
  by (auto simp: sample_lists_def)

lemma sample_store: "store_ok sample_heap (sample_lists [] []) {2, 3, 4, 5, 6}"
  by (auto simp: store_ok_def sample_heap_def sample_lists_def ring_def detached_def split: if_splits)

lemma sample_store_filled:
  obtains h where "store_ok (h :: nat heap) (sample_lists [2, 3, 4, 5] []) {6}"
proof -
  have "set [2, 3, 4, 5] \<subseteq> ({2, 3, 4, 5, 6} :: nat set)" "distinct [2, 3, 4, 5 :: nat]" by auto
  from clist.fifo.fill_append [OF sample_store sample_lists_simps(1) this]
  obtain h :: "nat heap" where h: "store_ok h (sample_lists [2, 3, 4, 5] []) ({2, 3, 4, 5, 6} - set [2, 3, 4, 5])"
    unfolding sample_lists_simps append_Nil by blast
  have "{2, 3, 4, 5, 6} - set [2, 3, 4, 5] = {6 :: nat}" by auto
  with h that show ?thesis by simp
qed

section \<open>Properties\<close>

text \<open>
  C27. The list serves as a queue and as a stack at both ends: elements put with \<^verbatim>\<open>push_back\<close> come out of \<^verbatim>\<open>pop\<close> in
  the same order and out of \<^verbatim>\<open>pop_back\<close> in reverse order, those put with \<^verbatim>\<open>push\<close> come out of \<^verbatim>\<open>pop\<close> in reverse
  order and out of \<^verbatim>\<open>pop_back\<close> in the same order; then the list is empty again and both return null. No
  assertion fires, and all other lists of the store and the set of detached elements are as before at the end.
\<close>

theorem circList_queue_and_stack:
  assumes "store_ok h L D" and "L p = Some []" and "set es \<subseteq> D" and "distinct es"
    and "(put, get, out) \<in> {(push_back, pop, es), (push, pop, rev es), (push, pop_back, es), (push_back, pop_back, rev es)}"
  shows "\<exists>h1 h2. fill put p es h = Inr h1 \<and> take_out get p (length es) h1 = Inr (map Some out, h2)
      \<and> store_ok h2 L D \<and> get p h2 = Inr (None, h2)"
proof -
  have "get p h2 = Inr (None, h2)" if "store_ok h2 L D" for h2
    using pop_empty [OF that assms(2)] assms(5) by auto
  then show ?thesis
    using clist.fifo.fifo [OF assms(1-4)] clist.lifo [OF assms(1-4)] clist.fifo_from_back [OF assms(1-4)]
      clist.lifo_from_back [OF assms(1-4)] assms(5) by fastforce
qed

lemma circList_queue_and_stack_witness:
  "(\<exists>h1 h2. fill push_back 10 [2, 3, 4] sample_heap = Inr h1
      \<and> take_out pop 10 (length [2, 3, 4 :: addr]) h1 = Inr (map Some [2, 3, 4], h2) \<and> pop 10 h2 = Inr (None, h2))
   \<and> (\<exists>h1 h2. fill push_back 10 [2, 3, 4] sample_heap = Inr h1
      \<and> take_out pop_back 10 (length [2, 3, 4 :: addr]) h1 = Inr (map Some [4, 3, 2], h2))"
proof -
  have "set [2, 3, 4] \<subseteq> ({2, 3, 4, 5, 6} :: nat set)" "distinct [2, 3, 4 :: nat]" by auto
  note t = circList_queue_and_stack [OF sample_store sample_lists_simps(1) this]
  show ?thesis using t [of push_back pop "[2, 3, 4]"] t [of push_back pop_back "[4, 3, 2]"] by auto
qed

text \<open>
  Each of the end operations is its sequence operation: \<^verbatim>\<open>push\<close> and \<^verbatim>\<open>push_back\<close> of
  a detached element, \<^verbatim>\<open>pop\<close> and \<^verbatim>\<open>pop_back\<close>, which return null exactly on the empty
  list, and \<^verbatim>\<open>rotate_left\<close>; no other list of the store changes.
\<close>

theorem circList_end_operations:
  assumes "store_ok h L D" and "L p = Some xs" and "e \<in> D"
  shows "(\<exists>h'. push p e h = Inr h' \<and> store_ok h' (L(p \<mapsto> e # xs)) (D - {e}))
    \<and> (\<exists>h'. push_back p e h = Inr h' \<and> store_ok h' (L(p \<mapsto> xs @ [e])) (D - {e}))
    \<and> (case xs of
         [] \<Rightarrow> pop p h = Inr (None, h) \<and> pop_back p h = Inr (None, h)
       | _ \<Rightarrow> (\<exists>h'. pop p h = Inr (Some (hd xs), h')
                  \<and> store_ok h' (L(p \<mapsto> tl xs)) (insert (hd xs) D))
            \<and> (\<exists>h'. pop_back p h = Inr (Some (last xs), h')
                  \<and> store_ok h' (L(p \<mapsto> butlast xs)) (insert (last xs) D)))
    \<and> (\<exists>h'. rotate_left p h = Inr h' \<and> store_ok h' (L(p \<mapsto> rotate1 xs)) D)"
proof (cases xs)
  case Nil
  then show ?thesis
    using push_refines [OF assms] push_back_refines [OF assms] pop_empty [OF assms(1)]
      rotate_left_refines [OF assms(1,2)] assms(2)
    by auto
next
  case (Cons y ys)
  have "L p = Some (butlast xs @ [last xs])" using assms(2) Cons by simp
  from pop_back_refines [OF assms(1) this] Cons show ?thesis
    using push_refines [OF assms] push_back_refines [OF assms]
      pop_refines [OF assms(1), of p y ys] rotate_left_refines [OF assms(1,2)] assms(2)
    by simp
qed

lemma circList_end_operations_witness:
  "\<exists>h h' :: nat heap. store_ok h (sample_lists [2, 3, 4, 5] []) {6}
     \<and> pop_back 10 h = Inr (Some 5, h')"
proof -
  obtain h :: "nat heap" where h: "store_ok h (sample_lists [2, 3, 4, 5] []) {6}"
    by (rule sample_store_filled)
  then show ?thesis
    using circList_end_operations [OF h sample_lists_simps(1) insertI1] by auto
qed

text \<open>
  C28. Operations inside a list: extraction of an element anywhere, insertion of a detached element
  after or before a given position (the head included), replacement of an element by a detached
  one, and moving an element from one place to a position of the same or of another list.
\<close>

theorem circList_inner_operations:
  assumes ok: "store_ok h L D" and L: "L p = Some (as @ e # bs)" and x: "x \<in> D"
    and q: "(L(p \<mapsto> as @ bs)) q = Some (cs @ ds)"
  shows "(\<exists>h'. elt_extract e h = Inr (pay h e, h') \<and> store_ok h' (L(p \<mapsto> as @ bs)) (insert e D))
    \<and> (\<exists>h'. insert_after x e h = Inr h' \<and> store_ok h' (L(p \<mapsto> as @ e # x # bs)) (D - {x}))
    \<and> (\<exists>h'. insert_before x e h = Inr h' \<and> store_ok h' (L(p \<mapsto> as @ x # e # bs)) (D - {x}))
    \<and> (\<exists>h'. replace x e h = Inr h' \<and> store_ok h' (L(p \<mapsto> as @ x # bs)) (insert e D - {x}))
    \<and> (\<exists>h'. move_elt e (before q cs) h = Inr h'
          \<and> store_ok h' (L(p \<mapsto> as @ bs, q \<mapsto> cs @ e # ds)) D)
    \<and> (\<exists>h'. move_elt_tail e (behind ds q) h = Inr h'
          \<and> store_ok h' (L(p \<mapsto> as @ bs, q \<mapsto> cs @ e # ds)) D)"
proof -
  have "L p = Some ((as @ [e]) @ bs)" using L by simp
  from insert_after_refines [OF ok this x] insert_before_refines [OF ok L x]
    extract_refines [OF ok L] replace_refines [OF ok L x] move_elt_refines [OF ok L q]
  show ?thesis by simp
qed

lemma circList_inner_operations_witness:
  "\<exists>h h' :: nat heap. store_ok h (sample_lists [2, 3, 4, 5] []) {6}
     \<and> move_elt 4 11 h = Inr h' \<and> store_ok h' (sample_lists [2, 3, 5] [4]) {6}"
proof -
  obtain h :: "nat heap" where h: "store_ok h (sample_lists [2, 3, 4, 5] []) {6}"
    by (rule sample_store_filled)
  then show ?thesis
    using circList_inner_operations [OF h, of 10 "[2, 3]" 4 "[5]" 6 11 "[]" "[]"] by auto
qed

text \<open>
  \<^verbatim>\<open>truncate\<close> cuts a list after a given element: the part up to and including it moves
  to the (empty) list given, in order, and the rest stays.
\<close>

theorem circList_truncate:
  assumes "store_ok h L D" and "L p = Some (as @ e # bs)" and "L q = Some []" and "p \<noteq> q"
  shows "\<exists>h'. list_truncate p e q h = Inr h' \<and> store_ok h' (L(p \<mapsto> bs, q \<mapsto> as @ [e])) D"
  by (rule truncate_refines [OF assms])

lemma circList_truncate_witness:
  "\<exists>h h' :: nat heap. store_ok h (sample_lists [2, 3, 4, 5] []) {6}
     \<and> list_truncate 10 3 11 h = Inr h' \<and> store_ok h' (sample_lists [4, 5] [2, 3]) {6}"
proof -
  obtain h :: "nat heap" where h: "store_ok h (sample_lists [2, 3, 4, 5] []) {6}"
    by (rule sample_store_filled)
  then show ?thesis
    using circList_truncate [OF h, of 10 "[2]" 3 "[4, 5]" 11] by auto
qed

text \<open>
  \<^verbatim>\<open>append\<close> and \<^verbatim>\<open>append_back\<close> put the elements of a non-empty list before, or after,
  those of the receiving list. The head they were taken from is not reinitialised: it still points
  to the first and the last of them, so it reports a non-empty list and its destructor asserts.
\<close>

theorem circList_append:
  assumes ok: "store_ok h L D" and L: "L p = Some xs" "L q = Some ys" "p \<noteq> q" "ys \<noteq> []"
  shows "(\<exists>h'. list_append p q h = Inr h' \<and> store_ok h' (L(p \<mapsto> ys @ xs, q := None)) D
      \<and> nxt h' q = hd ys \<and> prv h' q = last ys \<and> delete_head q h' = Inl AssertFailed)
    \<and> (\<exists>h'. list_append_back p q h = Inr h' \<and> store_ok h' (L(p \<mapsto> xs @ ys, q := None)) D
      \<and> nxt h' q = hd ys \<and> prv h' q = last ys \<and> delete_head q h' = Inl AssertFailed)"
  using list_append_refines [OF ok L(1-3)] list_append_source [OF ok L] L(4)
  by (fastforce simp: delete_head_def)

lemma circList_append_witness:
  "\<exists>h h' :: nat heap. store_ok h (sample_lists [2, 3, 4, 5] []) {6}
     \<and> list_append 11 10 h = Inr h' \<and> nxt h' 10 = 2"
proof -
  obtain h :: "nat heap" where h: "store_ok h (sample_lists [2, 3, 4, 5] []) {6}"
    by (rule sample_store_filled)
  then show ?thesis
    using circList_append [OF h, of 11 "[]" 10 "[2, 3, 4, 5]"] by auto
qed

text \<open>
  C29. Traversals end and visit every element once: the range-based loop in list order, the loop
  from \<^verbatim>\<open>rbegin\<close> in reverse order, and the loop whose body extracts the element it is at, which
  visits them all and leaves the list empty (the iterator keeps its successor before the body
  runs).
\<close>

theorem circList_traversal:
  assumes "store_ok h L D" and "L p = Some xs"
  shows "(\<exists>it. list_begin p h = Inr it \<and> for_each p h it = Some xs
        \<and> (\<exists>h'. for_each_extract p it [] h = Some (Inr (xs, h'))
              \<and> store_ok h' (L(p \<mapsto> [])) (D \<union> set xs)))
    \<and> (\<exists>it. list_rbegin p h = Inr it \<and> for_each_rev p h it = Some (rev xs))"
proof -
  let ?it = "new_iterator (nxt h p) h"
  have r: "ring h p xs" by (rule store_okD(1) [OF assms])
  have b: "list_begin p h = Inr ?it"
    using ring_pay(1) [OF r] by (simp add: list_begin_def)
  have it: "p_elt ?it = behind xs p" "p_next ?it = nxt h (behind xs p)"
    using ring_ends [OF r] by (simp_all add: new_iterator_def)
  show ?thesis
    using for_each_list [OF assms] b for_each_extract_from [OF assms it, of "[]"] by auto
qed

lemma circList_traversal_witness:
  "\<exists>(h :: nat heap) it. store_ok h (sample_lists [2, 3, 4, 5] []) {6}
     \<and> list_begin 10 h = Inr it \<and> for_each 10 h it = Some [2, 3, 4, 5]"
proof -
  obtain h :: "nat heap" where h: "store_ok h (sample_lists [2, 3, 4, 5] []) {6}"
    by (rule sample_store_filled)
  then show ?thesis
    using circList_traversal [OF h sample_lists_simps(1)] by blast
qed

text \<open>
  C30. \<^verbatim>\<open>swap\<close> of two iterators exchanges the positions of the two elements, adjacent or not and
  in either argument order, and each iterator ends at the other element.
\<close>

theorem circList_swap:
  assumes "store_ok h L D" and "L p = Some (as @ x # cs @ y # ds)"
    and "p_elt a = x \<and> p_elt b = y \<or> p_elt a = y \<and> p_elt b = x"
  shows "\<exists>a' b' h'. iter_swap a b h = Inr (a', b', h')
    \<and> p_elt a' = p_elt b \<and> p_elt b' = p_elt a
    \<and> store_ok h' (L(p \<mapsto> as @ y # cs @ x # ds)) D"
  by (rule iter_swap_refines [OF assms])

lemma circList_swap_witness:
  "\<exists>(h :: nat heap) a b a' b' h'. store_ok h (sample_lists [2, 3, 4, 5] []) {6}
     \<and> iter_swap a b h = Inr (a', b', h') \<and> store_ok h' (sample_lists [2, 5, 4, 3] []) {6}"
proof -
  obtain h :: "nat heap" where h: "store_ok h (sample_lists [2, 3, 4, 5] []) {6}"
    by (rule sample_store_filled)
  have L: "sample_lists [2, 3, 4, 5] [] 10 = Some ([2] @ 3 # [4] @ 5 # [])"
    by (simp add: sample_lists_simps)
  have it: "p_elt (new_iterator 3 h) = 3 \<and> p_elt (new_iterator 5 h) = 5"
    by (simp add: new_iterator_def)
  have upd: "(sample_lists [2, 3, 4, 5] [])(10 \<mapsto> [2] @ 5 # [4] @ 3 # []) = sample_lists [2, 5, 4, 3] []"
    by (simp add: sample_lists_def fun_eq_iff)
  from circList_swap [OF h L disjI1 [OF it], unfolded upd] h show ?thesis
    by blast
qed

text \<open>
  Swapping an iterator with itself corrupts the list: the element stays reachable from its
  predecessor but ends up linked to itself, so that a traversal reaching it never advances.
\<close>

theorem circList_swap_self:
  assumes "store_ok h L D" and "L p = Some (as @ x # bs)" and "p_elt it = x"
  shows "\<exists>a' b' h'. iter_swap it it h = Inr (a', b', h')
    \<and> nxt h' (before p as) = x \<and> nxt h' x = x"
  using iter_swap_self [OF assms(1,2,3,3)] by blast

lemma circList_swap_self_witness:
  "\<exists>(h :: nat heap) a' b' h'. store_ok h (sample_lists [2, 3, 4, 5] []) {6}
     \<and> iter_swap (new_iterator 3 h) (new_iterator 3 h) h = Inr (a', b', h') \<and> nxt h' 3 = 3"
proof -
  obtain h :: "nat heap" where h: "store_ok h (sample_lists [2, 3, 4, 5] []) {6}"
    by (rule sample_store_filled)
  have L: "sample_lists [2, 3, 4, 5] [] 10 = Some ([2] @ 3 # [4, 5])"
    by (simp add: sample_lists_simps)
  have it: "p_elt (new_iterator 3 h) = 3"
    by (simp add: new_iterator_def)
  from circList_swap_self [OF h L it] h show ?thesis
    by blast
qed

text \<open>
  The scenario of the second module test, for any elements: pushing them on the first list,
  draining it from its tail into the second and truncating there at an element ends with the
  first part of the elements, up to that one, in the first list and the rest in the second, each
  in the original order; no assertion fires and the loop ends.
\<close>

theorem circList_test2:
  assumes "store_ok h L D" and "L m = Some []" and "L m2 = Some []" and "m \<noteq> m2"
    and "set (as @ e # bs) \<subseteq> D" and "distinct (as @ e # bs)"
  shows "\<exists>h'. test2_circList m m2 (as @ e # bs) e h = Some (Inr h')
    \<and> store_ok h' (L(m \<mapsto> as @ [e], m2 \<mapsto> bs)) (D - set (as @ e # bs))"
  by (rule test2_refines [OF assms])

lemma circList_test2_witness:
  "\<exists>h'. test2_circList 10 11 [2, 3, 4, 5] 3 sample_heap = Some (Inr h')
    \<and> store_ok h' (sample_lists [2, 3] [4, 5]) ({2, 3, 4, 5, 6} - {2, 3, 4, 5})"
  using circList_test2 [OF sample_store, of 10 11 "[2]" 3 "[4, 5]"] by auto

end
