(* ===== verification/ListTests.thy ===== *)
theory ListTests
  imports CircList
begin

text \<open>
  The loops that \<^verbatim>\<open>util/circList.h\<close> defines as macros, and the two module tests of
  \<^verbatim>\<open>util/test_circList.cpp\<close> as programs over the operations of \<open>CircList\<close>: they allocate objects, put
  them in lists, swap, truncate, show and delete them. A deleted object holds arbitrary bytes afterwards, so that
  a result that does not depend on these bytes uses no deleted object. Texts that a test prints
  between its lists are left out.
\<close>

section \<open>The loops of the macros\<close>

text \<open>
  The body works on a local state and the store; it can assert. The four macros differ in the link they
  follow and in the moment they read it: the safe ones read it before the body runs.
\<close>

type_synonym ('a, 'o) loop_body = "addr \<Rightarrow> 'a \<times> 'o heap \<Rightarrow> ('a \<times> 'o heap) result"

partial_function (option) macro_loop ::
  "('o heap \<Rightarrow> addr \<Rightarrow> addr) \<Rightarrow> ('a, 'o) loop_body \<Rightarrow> addr \<Rightarrow> addr \<Rightarrow> 'a \<times> 'o heap \<Rightarrow> ('a \<times> 'o heap) result option"
where
  "macro_loop link body head pos s =
     (if pos = head then Some (Inr s)
      else (case body pos s of
              Inl e \<Rightarrow> Some (Inl e)
            | Inr t \<Rightarrow> macro_loop link body head (link (snd t) pos) t))"

partial_function (option) macro_loop_safe ::
  "('o heap \<Rightarrow> addr \<Rightarrow> addr) \<Rightarrow> ('a, 'o) loop_body \<Rightarrow> addr \<Rightarrow> addr \<Rightarrow> addr \<Rightarrow> 'a \<times> 'o heap
   \<Rightarrow> ('a \<times> 'o heap) result option" where
  "macro_loop_safe link body head pos n s =
     (if pos = head then Some (Inr s)
      else (case body pos s of
              Inl e \<Rightarrow> Some (Inl e)
            | Inr t \<Rightarrow> macro_loop_safe link body head n (link (snd t) n) t))"

definition list_for_each :: "('a, 'o) loop_body \<Rightarrow> addr \<Rightarrow> 'a \<times> 'o heap \<Rightarrow> ('a \<times> 'o heap) result option" where
  "list_for_each body head s = macro_loop nxt body head (nxt (snd s) head) s"

definition list_for_each_prev :: "('a, 'o) loop_body \<Rightarrow> addr \<Rightarrow> 'a \<times> 'o heap \<Rightarrow> ('a \<times> 'o heap) result option" where
  "list_for_each_prev body head s = macro_loop prv body head (prv (snd s) head) s"

definition list_for_each_safe :: "('a, 'o) loop_body \<Rightarrow> addr \<Rightarrow> 'a \<times> 'o heap \<Rightarrow> ('a \<times> 'o heap) result option" where
  "list_for_each_safe body head s =
     (let pos = nxt (snd s) head in macro_loop_safe nxt body head pos (nxt (snd s) pos) s)"

definition list_for_each_prev_safe ::
  "('a, 'o) loop_body \<Rightarrow> addr \<Rightarrow> 'a \<times> 'o heap \<Rightarrow> ('a \<times> 'o heap) result option" where
  "list_for_each_prev_safe body head s =
     (let pos = prv (snd s) head in macro_loop_safe prv body head pos (prv (snd s) pos) s)"

text \<open>Two bodies: one that keeps the elements it sees, and one that extracts them as well.\<close>

definition visit :: "(addr list, 'o) loop_body" where
  "visit e s = Inr (fst s @ [e], snd s)"

definition remove :: "(addr list, 'o) loop_body" where
  "remove e s = (case elt_extract e (snd s) of Inl err \<Rightarrow> Inl err | Inr (_, h) \<Rightarrow> Inr (fst s @ [e], h))"

lemma visit_pair [simp]: "visit e (a, h) = Inr (a @ [e], h)"
  by (simp add: visit_def)

lemma remove_pair: "elt_extract e h = Inr (x, h') \<Longrightarrow> remove e (a, h) = Inr (a @ [e], h')"
  by (simp add: remove_def)

lemma remove_detached: "detached (snd s) e \<Longrightarrow> remove e s = Inr (fst s @ [e], snd s)"
  by (simp add: remove_def elt_extract_def detached_def is_empty_def Let_def)

lemma detached_nxt: "detached h e \<Longrightarrow> nxt h e = e"
  by (simp add: detached_def)

lemma visit_loop:
  assumes "ring h p (as @ bs)"
  shows "macro_loop nxt visit p (behind bs p) (seen, h) = Some (Inr (seen @ bs, h))"
    and "macro_loop prv visit p (before p as) (seen, h) = Some (Inr (seen @ rev as, h))"
proof -
  show "macro_loop nxt visit p (behind bs p) (seen, h) = Some (Inr (seen @ bs, h))"
    using assms
  proof (induction bs arbitrary: as seen)
    case Nil
    then show ?case by (simp add: macro_loop.simps)
  next
    case (Cons b bs)
    have "b \<noteq> p" "nxt h b = behind bs p" using ring_at [OF Cons.prems] Cons.prems by (auto simp: ring_def)
    with Cons.IH [of "as @ [b]" "seen @ [b]"] Cons.prems show ?case
      by (simp add: macro_loop.simps [of nxt visit p b])
  qed
  show "macro_loop prv visit p (before p as) (seen, h) = Some (Inr (seen @ rev as, h))"
    using assms
  proof (induction as arbitrary: bs seen rule: rev_induct)
    case Nil
    then show ?case by (simp add: macro_loop.simps)
  next
    case (snoc a as)
    have r: "ring h p (as @ a # bs)" using snoc.prems by simp
    have "a \<noteq> p" "prv h a = before p as" using ring_at [OF r] r by (auto simp: ring_def)
    with snoc.IH [OF r, of "seen @ [a]"] show ?case
      by (simp add: macro_loop.simps [of prv visit p a])
  qed
qed

lemma remove_loop_safe:
  assumes "store_ok h L D" "L p = Some xs"
  shows "pos = behind xs p \<Longrightarrow> n = nxt h pos \<Longrightarrow> \<exists>h'. macro_loop_safe nxt remove p pos n (seen, h)
      = Some (Inr (seen @ xs, h')) \<and> store_ok h' (L(p \<mapsto> [])) (D \<union> set xs)"
    and "pos = before p xs \<Longrightarrow> n = prv h pos \<Longrightarrow> \<exists>h'. macro_loop_safe prv remove p pos n (seen, h)
      = Some (Inr (seen @ rev xs, h')) \<and> store_ok h' (L(p \<mapsto> [])) (D \<union> set xs)"
proof -
  show "\<exists>h'. macro_loop_safe nxt remove p pos n (seen, h)
      = Some (Inr (seen @ xs, h')) \<and> store_ok h' (L(p \<mapsto> [])) (D \<union> set xs)" if "pos = behind xs p" "n = nxt h pos"
    using assms that
  proof (induction xs arbitrary: h L D pos n seen)
    case Nil
    then show ?case by (simp add: macro_loop_safe.simps fun_upd_idem)
  next
    case (Cons x xs)
    have r: "ring h p ([] @ x # xs)" using store_okD(1) [OF Cons.prems(1,2)] by simp
    obtain h1 where h1: "elt_extract x h = Inr (pay h x, h1)" "store_ok h1 (L(p \<mapsto> xs)) (insert x D)"
      using extract_refines [OF Cons.prems(1), of p "[]" x xs] Cons.prems(2) by auto
    have n: "x \<noteq> p" "n = behind xs p" using ring_at [OF r] r Cons.prems(3,4) by (auto simp: ring_def)
    have "(L(p \<mapsto> xs)) p = Some xs" by simp
    from Cons.IH [OF h1(2) this n(2) refl, of "seen @ [x]"] obtain h2 where
      h2: "macro_loop_safe nxt remove p n (nxt h1 n) (seen @ [x], h1) = Some (Inr ((seen @ [x]) @ xs, h2))"
      "store_ok h2 (L(p \<mapsto> [])) (insert x D \<union> set xs)"
      unfolding fun_upd_upd by blast
    have "insert x D \<union> set xs = D \<union> set (x # xs)" by simp
    with h2(2) have "store_ok h2 (L(p \<mapsto> [])) (D \<union> set (x # xs))" by metis
    moreover have "macro_loop_safe nxt remove p pos n (seen, h) = Some (Inr (seen @ (x # xs), h2))"
      using n(1) h2(1) Cons.prems(3) by (simp add: macro_loop_safe.simps [of nxt remove p x] remove_pair [OF h1(1)])
    ultimately show ?case by blast
  qed
  show "\<exists>h'. macro_loop_safe prv remove p pos n (seen, h)
      = Some (Inr (seen @ rev xs, h')) \<and> store_ok h' (L(p \<mapsto> [])) (D \<union> set xs)" if "pos = before p xs" "n = prv h pos"
    using assms that
  proof (induction xs arbitrary: h L D pos n seen rule: rev_induct)
    case Nil
    then show ?case by (simp add: macro_loop_safe.simps fun_upd_idem)
  next
    case (snoc x xs)
    have r: "ring h p (xs @ x # [])" using store_okD(1) [OF snoc.prems(1,2)] by simp
    obtain h1 where h1: "elt_extract x h = Inr (pay h x, h1)" "store_ok h1 (L(p \<mapsto> xs)) (insert x D)"
      using extract_refines [OF snoc.prems(1), of p xs x "[]"] snoc.prems(2) by auto
    have n: "x \<noteq> p" "n = before p xs" using ring_at [OF r] r snoc.prems(3,4) by (auto simp: ring_def)
    have "(L(p \<mapsto> xs)) p = Some xs" by simp
    from snoc.IH [OF h1(2) this n(2) refl, of "seen @ [x]"] obtain h2 where
      h2: "macro_loop_safe prv remove p n (prv h1 n) (seen @ [x], h1) = Some (Inr ((seen @ [x]) @ rev xs, h2))"
      "store_ok h2 (L(p \<mapsto> [])) (insert x D \<union> set xs)"
      unfolding fun_upd_upd by blast
    have "insert x D \<union> set xs = D \<union> set (xs @ [x])" by simp
    with h2(2) have "store_ok h2 (L(p \<mapsto> [])) (D \<union> set (xs @ [x]))" by metis
    moreover have "macro_loop_safe prv remove p pos n (seen, h) = Some (Inr (seen @ rev (xs @ [x]), h2))"
      using n(1) h2(1) snoc.prems(3) by (simp add: macro_loop_safe.simps [of prv remove p x] remove_pair [OF h1(1)])
    ultimately show ?case by blast
  qed
qed

text \<open>An extracted element is linked to itself: a loop that follows its link stays there.\<close>

lemma remove_loop_stuck:
  assumes "detached h e" "e \<noteq> p"
  shows "macro_loop nxt remove p e (seen, h) = None"
proof (rule ccontr)
  assume "macro_loop nxt remove p e (seen, h) \<noteq> None"
  then obtain r where "macro_loop nxt remove p e (seen, h) = Some r" by blast
  moreover have "link = nxt \<longrightarrow> body = remove \<longrightarrow> detached (snd s) pos \<longrightarrow> pos \<noteq> p' \<longrightarrow> False"
    if "macro_loop link body p' pos s = Some r" for link and body :: "(addr list, 'a) loop_body" and p' pos s r
    by (rule macro_loop.raw_induct [where P = "\<lambda>link body p' pos s r. link = nxt \<longrightarrow> body = remove
        \<longrightarrow> detached (snd s) pos \<longrightarrow> pos \<noteq> p' \<longrightarrow> False", OF _ that])
      (auto simp: remove_detached detached_nxt split: if_splits)
  ultimately show False using assms by auto
qed

text \<open>
  The macros that traverse a list: without changes they visit all elements, forwards or backwards; the safe ones
  do so as well while the body extracts every element, and leave the list empty; the plain one never ends
  when its body extracts the first element.
\<close>

theorem list_for_each_loops:
  assumes "store_ok h L D" and "L p = Some xs"
  shows "list_for_each visit p ([], h) = Some (Inr (xs, h)) \<and> list_for_each_prev visit p ([], h) = Some (Inr (rev xs, h))
    \<and> (\<exists>h'. list_for_each_safe remove p ([], h) = Some (Inr (xs, h')) \<and> store_ok h' (L(p \<mapsto> [])) (D \<union> set xs))
    \<and> (\<exists>h'. list_for_each_prev_safe remove p ([], h) = Some (Inr (rev xs, h')) \<and> store_ok h' (L(p \<mapsto> [])) (D \<union> set xs))
    \<and> (xs \<noteq> [] \<longrightarrow> list_for_each remove p ([], h) = None)"
proof -
  have r: "ring h p xs" by (rule store_okD(1) [OF assms])
  note ends = ring_ends [OF r]
  have "list_for_each remove p ([], h) = None" if "xs \<noteq> []"
  proof -
    obtain x ys where xs: "xs = x # ys" using \<open>xs \<noteq> []\<close> by (cases xs) auto
    obtain h' where h': "elt_extract x h = Inr (pay h x, h')" "store_ok h' (L(p \<mapsto> ys)) (insert x D)"
      using extract_refines [OF assms(1), of p "[]" x ys] assms(2) xs by auto
    have x: "detached h' x" "x \<noteq> p" using store_okD(3) [OF h'(2)] r xs by (auto simp: ring_def)
    then have "nxt h' x = x" by (simp add: detached_def)
    then show ?thesis
      using ends x remove_loop_stuck [OF x]
      by (simp add: list_for_each_def macro_loop.simps [of nxt remove p x "([], h)"] remove_pair [OF h'(1)] xs)
  qed
  then show ?thesis
    using visit_loop(1) [of h p "[]" xs "[]"] visit_loop(2) [of h p xs "[]" "[]"] r ends
      remove_loop_safe(1) [OF assms refl refl, of "[]"] remove_loop_safe(2) [OF assms refl refl, of "[]"]
    by (simp add: list_for_each_def list_for_each_prev_def list_for_each_safe_def list_for_each_prev_safe_def Let_def)
qed

lemma list_for_each_loops_witness:
  "\<exists>(h :: nat heap) h'. store_ok h (sample_lists [2, 3, 4, 5] []) {6} \<and> list_for_each remove 10 ([], h) = None
    \<and> list_for_each_prev_safe remove 10 ([], h) = Some (Inr ([5, 4, 3, 2], h'))"
proof -
  obtain h :: "nat heap" where h: "store_ok h (sample_lists [2, 3, 4, 5] []) {6}"
    by (rule sample_store_filled)
  then show ?thesis
    using list_for_each_loops [OF h sample_lists_simps(1)] by fastforce
qed

section \<open>The objects of the tests\<close>

text \<open>
  A \<^verbatim>\<open>FooLinkableObject\<close> has an identity, the payload of its element; an object and its element have one
  address, \<open>at i\<close> for the object of identity \<open>i\<close>. What the tests print is kept in order.
\<close>

datatype printed =
    Display
  | Shown int
  | Deleting int

record tests =
  store :: "int heap"
  out :: "printed list"

definition print :: "printed \<Rightarrow> tests \<Rightarrow> tests" where
  "print x s = s\<lparr>out := out s @ [x]\<rparr>"

definition onStore :: "(int heap \<Rightarrow> ('a \<times> int heap) result) \<Rightarrow> (tests, 'a) stm" where
  "onStore f s = (case f (store s) of
      Inl e \<Rightarrow> (Inl e, s)
    | Inr (x, h) \<Rightarrow> (Inr x, s\<lparr>store := h\<rparr>))"

definition onStoreU :: "(int heap \<Rightarrow> int heap result) \<Rightarrow> (tests, unit) stm" where
  "onStoreU f = onStore (\<lambda>h. case f h of Inl e \<Rightarrow> Inl e | Inr h' \<Rightarrow> Inr ((), h'))"

definition readStore :: "(int heap \<Rightarrow> 'a result) \<Rightarrow> (tests, 'a) stm" where
  "readStore f s = (f (store s), s)"

definition new_object :: "addr \<Rightarrow> int \<Rightarrow> (tests, unit) stm" where
  "new_object a i = modS (\<lambda>s. s\<lparr>store := new_elt a (Some i) (store s)\<rparr>)"

definition new_master :: "addr \<Rightarrow> (tests, unit) stm" where
  "new_master a = modS (\<lambda>s. s\<lparr>store := new_elt a None (store s)\<rparr>)"

text \<open>The memory of a deleted object belongs to the allocator, which leaves anything there.\<close>

type_synonym junk = "addr \<Rightarrow> addr \<times> addr \<times> int option"

definition delete_object :: "junk \<Rightarrow> addr \<Rightarrow> (tests, unit) stm" where
  "delete_object junk a = modS (\<lambda>s. s\<lparr>store := (case junk a of (n, p, x) \<Rightarrow>
     (store s)\<lparr>nxt := (nxt (store s))(a := n), prv := (prv (store s))(a := p), pay := (pay (store s))(a := x)\<rparr>)\<rparr>)"

fun build :: "(addr \<Rightarrow> addr \<Rightarrow> int heap \<Rightarrow> int heap result) \<Rightarrow> addr \<Rightarrow> (int \<Rightarrow> addr) \<Rightarrow> int list \<Rightarrow> (tests, unit) stm" where
  "build put m at [] = retS ()"
| "build put m at (i # is) = andThen (new_object (at i) i) (\<lambda>_.
     andThen (onStoreU (put m (at i))) (\<lambda>_. build put m at is))"

partial_function (option) show_loop :: "addr \<Rightarrow> iterator \<Rightarrow> tests \<Rightarrow> (unit result \<times> tests) option" where
  "show_loop head it s =
     (if p_elt it = head then Some (Inr (), s)
      else (case iter_deref (store s) it of
              Inl e \<Rightarrow> Some (Inl e, s)
            | Inr i \<Rightarrow> show_loop head (iter_inc (store s) it) (print (Shown i) s)))"

definition show_all :: "addr \<Rightarrow> tests \<Rightarrow> (unit result \<times> tests) option" where
  "show_all m s = (case list_begin m (store s) of
      Inl e \<Rightarrow> Some (Inl e, s)
    | Inr it \<Rightarrow> show_loop m it s)"

definition disp_list :: "addr \<Rightarrow> tests \<Rightarrow> (unit result \<times> tests) option" where
  "disp_list m s = show_all m (print Display s)"

text \<open>The loop that deletes every object of a list while it traverses it.\<close>

partial_function (option) delete_loop :: "junk \<Rightarrow> addr \<Rightarrow> iterator \<Rightarrow> tests \<Rightarrow> (unit result \<times> tests) option" where
  "delete_loop junk head it s =
     (if p_elt it = head then Some (Inr (), s)
      else (case iter_deref (store s) it of
              Inl e \<Rightarrow> Some (Inl e, s)
            | Inr i \<Rightarrow> (case onStore (elt_extract (p_elt it)) (print (Deleting i) s) of
                  (Inl e, t) \<Rightarrow> Some (Inl e, t)
                | (Inr _, t) \<Rightarrow> let u = snd (delete_object junk (p_elt it) t) in
                    delete_loop junk head (iter_inc (store u) it) u)))"

definition delete_all :: "junk \<Rightarrow> addr \<Rightarrow> tests \<Rightarrow> (unit result \<times> tests) option" where
  "delete_all junk m s = (case list_begin m (store s) of
      Inl e \<Rightarrow> Some (Inl e, s)
    | Inr it \<Rightarrow> delete_loop junk m it s)"

section \<open>The first test: iterators and \<^verbatim>\<open>swap\<close>\<close>

text \<open>The three iterators of the test; each swap of two of them is followed by a display of the list.\<close>

datatype cursor = It_beg | It_middle | It_end

fun swaps :: "addr \<Rightarrow> (cursor \<times> cursor) list \<Rightarrow> (cursor \<Rightarrow> iterator) \<Rightarrow> tests
    \<Rightarrow> ((cursor \<Rightarrow> iterator) result \<times> tests) option" where
  "swaps m [] its s = Some (Inr its, s)"
| "swaps m ((x, y) # ops) its s = (case iter_swap (its x) (its y) (store s) of
      Inl e \<Rightarrow> Some (Inl e, s)
    | Inr (a, b, h) \<Rightarrow> thenO (disp_list m (s\<lparr>store := h\<rparr>)) (\<lambda>_. swaps m ops (its(x := a, y := b))))"

definition test1_iterators :: "addr \<Rightarrow> (tests, cursor \<Rightarrow> iterator) stm" where
  "test1_iterators m = readStore (\<lambda>h. case list_begin m h of Inl e \<Rightarrow> Inl e | Inr it_beg \<Rightarrow>
     (case list_end m h of Inl e \<Rightarrow> Inl e | Inr it_end \<Rightarrow>
        Inr (\<lambda>c. case c of
             It_beg \<Rightarrow> it_beg
           | It_end \<Rightarrow> iter_dec h it_end
           | It_middle \<Rightarrow> iter_inc h it_beg)))"

definition first_swaps :: "(cursor \<times> cursor) list" where
  "first_swaps = [(It_beg, It_end), (It_beg, It_middle), (It_beg, It_middle), (It_middle, It_end),
     (It_middle, It_end), (It_end, It_middle), (It_end, It_middle)]"

definition last_swaps :: "(cursor \<times> cursor) list" where
  "last_swaps = [(It_beg, It_end), (It_beg, It_end)]"

definition test1_circList :: "junk \<Rightarrow> addr \<Rightarrow> (int \<Rightarrow> addr) \<Rightarrow> tests \<Rightarrow> (int result \<times> tests) option" where
  "test1_circList junk master at s =
     thenO (Some (new_master master s)) (\<lambda>_ s.
     thenO (Some (build push_back master at [0..2] s)) (\<lambda>_ s.
     thenO (disp_list master s) (\<lambda>_ s.
     thenO (Some (test1_iterators master s)) (\<lambda>its s.
     thenO (swaps master first_swaps its s) (\<lambda>its s.
     thenO (Some (onStore (elt_extract (p_elt (its It_middle))) s)) (\<lambda>_ s.
     thenO (Some (delete_object junk (p_elt (its It_middle)) s)) (\<lambda>_ s.
     thenO (swaps master last_swaps its s) (\<lambda>its s.
     thenO (delete_all junk master s) (\<lambda>_ s.
     thenO (Some (readStore (delete_head master) s)) (\<lambda>_ s. Some (Inr 0, s)))))))))))"

section \<open>The second test: stacks, queues, truncation\<close>

definition assert_ends :: "addr \<Rightarrow> int \<Rightarrow> int \<Rightarrow> (tests, unit) stm" where
  "assert_ends m i j = readStore (\<lambda>h. case (list_first m h, list_last m h) of
      (Inl e, _) \<Rightarrow> Inl e
    | (Inr None, _) \<Rightarrow> Inl Undefined
    | (Inr (Some x), r) \<Rightarrow> check_assert (x = i) (case r of
          Inl e \<Rightarrow> Inl e
        | Inr None \<Rightarrow> Inl Undefined
        | Inr (Some y) \<Rightarrow> check_assert (y = j) (Inr ())))"

definition drain_into :: "addr \<Rightarrow> addr \<Rightarrow> tests \<Rightarrow> (unit result \<times> tests) option" where
  "drain_into a b s = (case drain is_empty pop_back push_back a b (store s) of
      None \<Rightarrow> None
    | Some (Inl e) \<Rightarrow> Some (Inl e, s)
    | Some (Inr h) \<Rightarrow> Some (Inr (), s\<lparr>store := h\<rparr>))"

text \<open>The search leaves the pointer unset when no object has the identity.\<close>

partial_function (option) find_loop :: "addr \<Rightarrow> int \<Rightarrow> iterator \<Rightarrow> tests \<Rightarrow> (addr option result \<times> tests) option" where
  "find_loop head i it s =
     (if p_elt it = head then Some (Inr None, s)
      else (case iter_deref (store s) it of
              Inl e \<Rightarrow> Some (Inl e, s)
            | Inr j \<Rightarrow> if j = i then Some (Inr (Some (p_elt it)), s)
                else find_loop head i (iter_inc (store s) it) s))"

definition find_object :: "addr \<Rightarrow> int \<Rightarrow> tests \<Rightarrow> (addr result \<times> tests) option" where
  "find_object m i s = (case list_begin m (store s) of
      Inl e \<Rightarrow> Some (Inl e, s)
    | Inr it \<Rightarrow> thenO (find_loop m i it s) (\<lambda>r t.
        case r of None \<Rightarrow> Some (Inl Undefined, t) | Some p \<Rightarrow> Some (Inr p, t)))"

partial_function (option) show_rev_loop :: "addr \<Rightarrow> iterator \<Rightarrow> tests \<Rightarrow> (unit result \<times> tests) option" where
  "show_rev_loop head it s =
     (if p_elt it = head then Some (Inr (), s)
      else (case iter_deref (store s) it of
              Inl e \<Rightarrow> Some (Inl e, s)
            | Inr i \<Rightarrow> show_rev_loop head (iter_dec (store s) it) (print (Shown i) s)))"

definition show_reverse :: "addr \<Rightarrow> tests \<Rightarrow> (unit result \<times> tests) option" where
  "show_reverse m s = (case list_rbegin m (store s) of
      Inl e \<Rightarrow> Some (Inl e, s)
    | Inr it \<Rightarrow> show_rev_loop m it s)"

partial_function (option) release_loop :: "junk \<Rightarrow> addr \<Rightarrow> tests \<Rightarrow> (unit result \<times> tests) option" where
  "release_loop junk m s =
     (if is_empty m (store s) then Some (Inr (), s)
      else (case onStore (pop_back m) s of
              (Inl e, t) \<Rightarrow> Some (Inl e, t)
            | (Inr None, t) \<Rightarrow> Some (Inl Undefined, t)
            | (Inr (Some p), t) \<Rightarrow> (case pay (store t) p of
                  None \<Rightarrow> Some (Inl Undefined, t)
                | Some i \<Rightarrow> release_loop junk m (snd (delete_object junk p (print (Deleting i) t))))))"

text \<open>The three parts of the test: queues, truncation, release.\<close>

definition test2_queues :: "addr \<Rightarrow> addr \<Rightarrow> tests \<Rightarrow> (unit result \<times> tests) option" where
  "test2_queues master master2 s =
     thenO (disp_list master s) (\<lambda>_ s.
     thenO (Some (assert_ends master 9 0 s)) (\<lambda>_ s.
     thenO (drain_into master master2 s) (\<lambda>_ s.
     thenO (disp_list master s) (\<lambda>_ s.
     thenO (Some (assertS (\<lambda>s. is_empty master (store s)) s)) (\<lambda>_ s.
     thenO (disp_list master2 s) (\<lambda>_ s.
     thenO (Some (assert_ends master2 0 9 s)) (\<lambda>_ s.
     thenO (show_all master2 s) (\<lambda>_ s. show_all master2 s))))))))"

definition test2_truncation :: "addr \<Rightarrow> addr \<Rightarrow> tests \<Rightarrow> (unit result \<times> tests) option" where
  "test2_truncation master master2 s =
     thenO (find_object master2 3 s) (\<lambda>p3 s.
     thenO (Some (onStoreU (list_truncate master2 p3 master) s)) (\<lambda>_ s.
     thenO (disp_list master2 s) (\<lambda>_ s.
     thenO (disp_list master s) (\<lambda>_ s.
     thenO (Some (assert_ends master 0 3 s)) (\<lambda>_ s.
     thenO (Some (assert_ends master2 4 9 s)) (\<lambda>_ s. show_reverse master s))))))"

definition test2_release :: "junk \<Rightarrow> addr \<Rightarrow> addr \<Rightarrow> tests \<Rightarrow> (unit result \<times> tests) option" where
  "test2_release junk master master2 s =
     thenO (release_loop junk master s) (\<lambda>_ s.
     thenO (disp_list master s) (\<lambda>_ s.
     thenO (delete_all junk master2 s) (\<lambda>_ s. disp_list master2 s)))"

text \<open>At the end the destructors of the two heads run, the last one first.\<close>

definition test2_program :: "junk \<Rightarrow> addr \<Rightarrow> addr \<Rightarrow> (int \<Rightarrow> addr) \<Rightarrow> tests \<Rightarrow> (int result \<times> tests) option" where
  "test2_program junk master master2 at s =
     thenO (Some (new_master master s)) (\<lambda>_ s.
     thenO (Some (new_master master2 s)) (\<lambda>_ s.
     thenO (Some (build push master at [0..9] s)) (\<lambda>_ s.
     thenO (test2_queues master master2 s) (\<lambda>_ s.
     thenO (test2_truncation master master2 s) (\<lambda>_ s.
     thenO (test2_release junk master master2 s) (\<lambda>_ s.
     thenO (Some (readStore (delete_head master2) s)) (\<lambda>_ s.
     thenO (Some (readStore (delete_head master) s)) (\<lambda>_ s. Some (Inr 0, s)))))))))"

section \<open>What the loops do\<close>

definition named :: "(int \<Rightarrow> addr) \<Rightarrow> int heap \<Rightarrow> int list \<Rightarrow> bool" where
  "named at h is \<longleftrightarrow> (\<forall>i\<in>set is. pay h (at i) = Some i)"

lemma namedI: "pay h = pay h' \<Longrightarrow> named at h' is \<Longrightarrow> set js \<subseteq> set is \<Longrightarrow> named at h js"
  by (auto simp: named_def)

lemma named_Cons: "named at h (i # is) \<longleftrightarrow> pay h (at i) = Some i \<and> named at h is"
  by (simp add: named_def)

abbreviation shows_ids :: "tests \<Rightarrow> printed list \<Rightarrow> tests" where
  "shows_ids s xs \<equiv> s\<lparr>out := out s @ xs\<rparr>"

lemma show_loop_from:
  assumes "ring (store s) p (as @ map at bs)" "named at (store s) bs"
    and "p_elt it = behind (map at bs) p" "p_next it = nxt (store s) (behind (map at bs) p)"
  shows "show_loop p it s = Some (Inr (), shows_ids s (map Shown bs))"
  using assms
proof (induction bs arbitrary: as it s)
  case Nil
  then show ?case by (simp add: show_loop.simps)
next
  case (Cons b bs)
  let ?s = "print (Shown b) s"
  have r: "ring (store s) p (as @ at b # map at bs)" using Cons.prems(1) by simp
  have "show_loop p (iter_inc (store s) it) ?s = Some (Inr (), shows_ids ?s (map Shown bs))"
    using Cons.prems ring_at [OF r]
    by (intro Cons.IH [of _ "as @ [at b]"]) (simp_all add: iter_inc_def print_def named_def)
  moreover have "at b \<noteq> p" using r by (auto simp: ring_def)
  ultimately show ?case
    using Cons.prems(2,3) by (simp add: show_loop.simps [of p it s] iter_deref_def named_Cons print_def)
qed

lemma show_rev_loop_from:
  assumes "ring (store s) p (map at as @ bs)" "named at (store s) as"
    and "p_elt it = before p (map at as)" "p_prev it = prv (store s) (before p (map at as))"
  shows "show_rev_loop p it s = Some (Inr (), shows_ids s (map Shown (rev as)))"
  using assms
proof (induction as arbitrary: bs it s rule: rev_induct)
  case Nil
  then show ?case by (simp add: show_rev_loop.simps)
next
  case (snoc a as)
  let ?s = "print (Shown a) s"
  have r: "ring (store s) p (map at as @ at a # bs)" using snoc.prems(1) by simp
  have "show_rev_loop p (iter_dec (store s) it) ?s = Some (Inr (), shows_ids ?s (map Shown (rev as)))"
    using snoc.prems ring_at [OF r] r
    by (intro snoc.IH [of _ "at a # bs"]) (simp_all add: iter_dec_def print_def named_def)
  moreover have "at a \<noteq> p" using r by (auto simp: ring_def)
  ultimately show ?case
    using snoc.prems(2,3) by (simp add: show_rev_loop.simps [of p it s] iter_deref_def named_def print_def)
qed

lemma find_loop_from:
  assumes "ring (store s) p (cs @ map at (as @ i # bs))" "named at (store s) (as @ [i])" "i \<notin> set as"
    and "p_elt it = behind (map at (as @ i # bs)) p" "p_next it = nxt (store s) (p_elt it)"
  shows "find_loop p i it s = Some (Inr (Some (at i)), s)"
  using assms
proof (induction as arbitrary: cs it)
  case Nil
  then have "at i \<noteq> p" by (auto simp: ring_def)
  with Nil show ?case by (simp add: find_loop.simps iter_deref_def named_def)
next
  case (Cons a as)
  have r: "ring (store s) p (cs @ at a # map at (as @ i # bs))" using Cons.prems(1) by simp
  have "find_loop p i (iter_inc (store s) it) s = Some (Inr (Some (at i)), s)"
    using Cons.prems ring_at [OF r]
    by (intro Cons.IH [of "cs @ [at a]"]) (simp_all add: iter_inc_def named_def)
  moreover have "at a \<noteq> p" using r by (auto simp: ring_def)
  ultimately show ?case
    using Cons.prems by (simp add: find_loop.simps [of p i it s] iter_deref_def named_Cons)
qed

lemma loops_show:
  assumes ok: "store_ok (store s) L D" and L: "L p = Some (map at is)" and n: "named at (store s) is"
  shows "show_all p s = Some (Inr (), shows_ids s (map Shown is))"
    and "disp_list p s = Some (Inr (), shows_ids s (Display # map Shown is))"
    and "show_reverse p s = Some (Inr (), shows_ids s (map Shown (rev is)))"
    and "is = as @ i # bs \<Longrightarrow> i \<notin> set as \<Longrightarrow> find_object p i s = Some (Inr (at i), s)"
proof -
  have r: "ring (store s) p (map at is)" by (rule store_okD(1) [OF ok L])
  have all: "show_all p t = Some (Inr (), shows_ids t (map Shown is))" if "store t = store s" for t
    using ring_pay(1) [OF r] ring_ends [OF r] r n that
      show_loop_from [of t p "[]" at "is" "new_iterator (behind (map at is) p) (store s)"]
    by (simp add: show_all_def list_begin_def new_iterator_def)
  from all [of s] show "show_all p s = Some (Inr (), shows_ids s (map Shown is))" by simp
  from all [of "print Display s"] show "disp_list p s = Some (Inr (), shows_ids s (Display # map Shown is))"
    by (simp add: disp_list_def print_def)
  show "show_reverse p s = Some (Inr (), shows_ids s (map Shown (rev is)))"
    using ring_pay(1) [OF r] ring_ends [OF r] r n
      show_rev_loop_from [of s p at "is" "[]" "new_iterator (before p (map at is)) (store s)"]
    by (simp add: show_reverse_def list_rbegin_def new_iterator_def)
  show "find_object p i s = Some (Inr (at i), s)" if "is = as @ i # bs" "i \<notin> set as"
    using ring_pay(1) [OF r] ring_ends [OF r] r n that
      find_loop_from [of s p "[]" at as i bs "new_iterator (behind (map at is) p) (store s)"]
    by (simp add: find_object_def list_begin_def new_iterator_def named_def)
qed

section \<open>Deleted objects\<close>

lemma ring_elsewhere:
  assumes "ring h p xs" "a \<notin> set (p # xs)"
    and "\<And>x. x \<noteq> a \<Longrightarrow> nxt h' x = nxt h x \<and> prv h' x = prv h x \<and> pay h' x = pay h x"
  shows "ring h' p xs"
proof -
  have "chain h' (p # xs @ [p]) = chain h (p # xs @ [p])"
    using assms(2,3) in_set_butlastD [of _ "p # xs @ [p]"] by (intro chain_cong) fastforce+
  moreover have "pay h' x = pay h x" if "x \<in> set (p # xs)" for x
    using assms(2) assms(3) [of x] that by (cases "x = a") auto
  ultimately show ?thesis using assms(1) by (simp add: ring_def)
qed

lemma delete_object_sel [simp]:
  "fst (delete_object junk a s) = Inr ()" "out (snd (delete_object junk a s)) = out s"
  "x \<noteq> a \<Longrightarrow> nxt (store (snd (delete_object junk a s))) x = nxt (store s) x"
  "x \<noteq> a \<Longrightarrow> prv (store (snd (delete_object junk a s))) x = prv (store s) x"
  "x \<noteq> a \<Longrightarrow> pay (store (snd (delete_object junk a s))) x = pay (store s) x"
  by (simp_all add: delete_object_def split: prod.split)

lemma delete_object_frees:
  assumes "store_ok (store s) L D" "a \<in> D"
  shows "store_ok (store (snd (delete_object junk a s))) L (D - {a})"
proof -
  let ?h = "store (snd (delete_object junk a s))"
  have "ring ?h p xs" if "L p = Some xs" for p xs
  proof -
    have "a \<notin> set (p # xs)" using store_okD(2) [OF assms(1) that] assms(2) by blast
    with store_okD(1) [OF assms(1) that] show ?thesis by (rule ring_elsewhere) simp_all
  qed
  moreover have "detached ?h e" if "e \<in> D - {a}" for e
    using store_okD(3) [OF assms(1), of e] that by (simp add: detached_def)
  ultimately show ?thesis using assms(1) unfolding store_ok_def by blast
qed

lemma extract_pay: "elt_extract e h = Inr (x, h') \<Longrightarrow> pay h' = pay h"
  by (auto simp: elt_extract_def check_assert_def split: if_splits)

lemma pop_back_pay: "pop_back p h = Inr (x, h') \<Longrightarrow> pay h' = pay h"
  by (auto simp: pop_back_def check_assert_def Let_def split: if_splits)

lemma delete_loop_from:
  assumes "store_ok (store s) L D" "L p = Some (map at bs)" "named at (store s) bs"
    and "p_elt it = behind (map at bs) p" "p_next it = nxt (store s) (behind (map at bs) p)"
  shows "\<exists>t. delete_loop junk p it s = Some (Inr (), t) \<and> store_ok (store t) (L(p \<mapsto> [])) D
    \<and> out t = out s @ map Deleting bs \<and> (\<forall>x. x \<notin> set (map at bs) \<longrightarrow> pay (store t) x = pay (store s) x)"
  using assms
proof (induction bs arbitrary: L it s)
  case Nil
  then show ?case by (simp add: delete_loop.simps fun_upd_idem)
next
  case (Cons b bs)
  have r: "ring (store s) p ([] @ at b # map at bs)" using store_okD(1) [OF Cons.prems(1,2)] by simp
  have d: "at b \<noteq> p" "at b \<notin> set (map at bs)" "at b \<notin> D"
    using r store_okD(2) [OF Cons.prems(1,2)] by (auto simp: ring_def)
  obtain h where h: "elt_extract (at b) (store s) = Inr (pay (store s) (at b), h)"
      "store_ok h (L(p \<mapsto> map at bs)) (insert (at b) D)"
    using extract_refines [OF Cons.prems(1), of p "[]" "at b" "map at bs"] Cons.prems(2) by auto
  have h_pay: "pay h = pay (store s)" by (rule extract_pay [OF h(1)])
  let ?t = "(print (Deleting b) s)\<lparr>store := h\<rparr>"
  let ?u = "snd (delete_object junk (at b) ?t)"
  have u: "store_ok (store ?u) (L(p \<mapsto> map at bs)) D"
    using delete_object_frees [of ?t "L(p \<mapsto> map at bs)" "insert (at b) D" "at b" junk] h(2) d(3) by simp
  have "at i \<noteq> at b" if "i \<in> set bs" for i using d(2) imageI [OF that, of at] by auto
  then have n: "named at (store ?u) bs" using Cons.prems(3) h_pay by (simp add: named_def)
  have "p_elt (iter_inc (store ?u) it) = behind (map at bs) p"
      "p_next (iter_inc (store ?u) it) = nxt (store ?u) (behind (map at bs) p)"
    using Cons.prems(4,5) ring_at [OF r] by (simp_all add: iter_inc_def)
  from Cons.IH [OF u fun_upd_same n this] obtain t where
    t: "delete_loop junk p (iter_inc (store ?u) it) ?u = Some (Inr (), t)"
      "store_ok (store t) (L(p \<mapsto> [])) D" "out t = out ?u @ map Deleting bs"
      "\<forall>x. x \<notin> set (map at bs) \<longrightarrow> pay (store t) x = pay (store ?u) x"
    unfolding fun_upd_upd by blast
  have "delete_loop junk p it s = Some (Inr (), t)"
    using d(1) Cons.prems(3,4) h(1) t(1)
    by (simp add: delete_loop.simps [of junk p it s] iter_deref_def named_Cons onStore_def print_def)
  moreover have "out t = out s @ map Deleting ((b # bs))" using t(3) by (simp add: print_def)
  moreover have "\<forall>x. x \<notin> set (map at (b # bs)) \<longrightarrow> pay (store t) x = pay (store s) x"
    using t(4) h_pay by (simp add: print_def)
  ultimately show ?case using t(2) by blast
qed

lemma delete_all_deletes:
  assumes "store_ok (store s) L D" "L p = Some (map at is)" "named at (store s) is"
  shows "\<exists>t. delete_all junk p s = Some (Inr (), t) \<and> store_ok (store t) (L(p \<mapsto> [])) D
    \<and> out t = out s @ map Deleting is \<and> (\<forall>x. x \<notin> set (map at is) \<longrightarrow> pay (store t) x = pay (store s) x)"
proof -
  have r: "ring (store s) p (map at is)" by (rule store_okD(1) [OF assms(1,2)])
  from delete_loop_from [OF assms, of "new_iterator (behind (map at is) p) (store s)" junk]
  show ?thesis
    using ring_pay(1) [OF r] ring_ends [OF r] by (simp add: delete_all_def list_begin_def new_iterator_def)
qed

lemma release_loop_releases:
  assumes "store_ok (store s) L D" "L p = Some (map at is)" "named at (store s) is"
  shows "\<exists>t. release_loop junk p s = Some (Inr (), t) \<and> store_ok (store t) (L(p \<mapsto> [])) D
    \<and> out t = out s @ map Deleting (rev is) \<and> (\<forall>x. x \<notin> set (map at is) \<longrightarrow> pay (store t) x = pay (store s) x)"
  using assms
proof (induction "is" arbitrary: L s rule: rev_induct)
  case Nil
  then show ?case
    using list_first_refines(3) [OF Nil(1,2)] by (simp add: release_loop.simps fun_upd_idem)
next
  case (snoc b bs)
  have L: "L p = Some (map at bs @ [at b])" using snoc.prems(2) by simp
  have d: "at b \<notin> set (map at bs)" "at b \<notin> D"
    using store_okD(1,2) [OF snoc.prems(1) L] by (auto simp: ring_def)
  obtain h where h: "pop_back p (store s) = Inr (Some (at b), h)"
      "store_ok h (L(p \<mapsto> map at bs)) (insert (at b) D)"
    using pop_back_refines [OF snoc.prems(1) L] by blast
  have h_pay: "pay h = pay (store s)" by (rule pop_back_pay [OF h(1)])
  let ?t = "print (Deleting b) (s\<lparr>store := h\<rparr>)"
  let ?u = "snd (delete_object junk (at b) ?t)"
  have u: "store_ok (store ?u) (L(p \<mapsto> map at bs)) D"
    using delete_object_frees [of ?t "L(p \<mapsto> map at bs)" "insert (at b) D" "at b" junk] h(2) d(2)
    by (simp add: print_def)
  have "at i \<noteq> at b" if "i \<in> set bs" for i using d(1) imageI [OF that, of at] by auto
  then have n: "named at (store ?u) bs" using snoc.prems(3) h_pay by (simp add: named_def print_def)
  from snoc.IH [OF u fun_upd_same n] obtain t where
    t: "release_loop junk p ?u = Some (Inr (), t)"
      "store_ok (store t) (L(p \<mapsto> [])) D" "out t = out ?u @ map Deleting (rev bs)"
      "\<forall>x. x \<notin> set (map at bs) \<longrightarrow> pay (store t) x = pay (store ?u) x"
    unfolding fun_upd_upd by blast
  have "release_loop junk p s = Some (Inr (), t)"
    using list_first_refines(3) [OF snoc.prems(1) L] snoc.prems(3) h(1) h_pay t(1)
    by (simp add: release_loop.simps [of junk p s] onStore_def named_def)
  moreover have "out t = out s @ map Deleting (rev (bs @ [b]))" using t(3) by (simp add: print_def)
  moreover have "\<forall>x. x \<notin> set (map at (bs @ [b])) \<longrightarrow> pay (store t) x = pay (store s) x"
    using t(4) h_pay by (simp add: print_def)
  ultimately show ?case using t(2) by blast
qed

section \<open>Building a list\<close>

definition puts :: "(addr \<Rightarrow> addr list \<Rightarrow> addr list) \<Rightarrow> (addr \<Rightarrow> addr \<Rightarrow> int heap \<Rightarrow> int heap result) \<Rightarrow> bool" where
  "puts f put \<longleftrightarrow> (\<forall>e xs. set (f e xs) = insert e (set xs)) \<and> (\<forall>h L D p xs e. store_ok h L D \<longrightarrow> L p = Some xs \<longrightarrow> e \<in> D \<longrightarrow>
     (\<exists>h'. put p e h = Inr h' \<and> store_ok h' (L(p \<mapsto> f e xs)) (D - {e}) \<and> pay h' = pay h))"

lemma push_puts: "puts Cons push"
proof -
  have "\<exists>h'. push p e h = Inr h' \<and> store_ok h' (L(p \<mapsto> e # xs)) (D - {e}) \<and> pay h' = pay h"
    if "store_ok h L D" "L p = Some xs" "e \<in> D" for h :: "int heap" and L D p xs e
    using push_refines [OF that] by (auto simp: push_def check_assert_def split: if_splits)
  then show ?thesis unfolding puts_def by simp
qed

lemma push_back_puts: "puts (\<lambda>e xs. xs @ [e]) push_back"
proof -
  have "\<exists>h'. push_back p e h = Inr h' \<and> store_ok h' (L(p \<mapsto> xs @ [e])) (D - {e}) \<and> pay h' = pay h"
    if "store_ok h L D" "L p = Some xs" "e \<in> D" for h :: "int heap" and L D p xs e
    using push_back_refines [OF that] by (auto simp: push_back_def check_assert_def split: if_splits)
  then show ?thesis unfolding puts_def by simp
qed

lemma build_builds:
  assumes "puts f put" and "store_ok (store s) L D" "L m = Some xs"
    and "\<forall>i\<in>set is. fresh L D (at i)" "distinct (map at is)"
  shows "\<exists>t. build put m at is s = (Inr (), t) \<and> store_ok (store t) (L(m \<mapsto> fold (f \<circ> at) is xs)) D
    \<and> out t = out s \<and> named at (store t) is \<and> (\<forall>x. x \<notin> set (map at is) \<longrightarrow> pay (store t) x = pay (store s) x)"
  using assms(2-)
proof (induction "is" arbitrary: s L xs)
  case Nil
  then show ?case by (simp add: fun_upd_idem named_def)
next
  case (Cons i js)
  let ?h = "new_elt (at i) (Some i) (store s)"
  have "store_ok ?h L (insert (at i) D)" using Cons.prems by (intro new_elt_refines) auto
  with assms(1) Cons.prems(2) obtain h where h: "put m (at i) ?h = Inr h"
      "store_ok h (L(m \<mapsto> f (at i) xs)) (insert (at i) D - {at i})" "pay h = pay ?h"
    unfolding puts_def by blast
  have i: "at i \<notin> D" using Cons.prems(3) by (simp add: fresh_def)
  let ?s = "s\<lparr>store := h\<rparr>"
  have s: "store_ok (store ?s) (L(m \<mapsto> f (at i) xs)) D" using h(2) i by simp
  have "set (f (at i) xs) = insert (at i) (set xs)" using assms(1) by (simp add: puts_def)
  moreover have "at j \<noteq> at i" if "j \<in> set js" for j
    using Cons.prems(4) imageI [OF that, of at] by auto
  ultimately have "fresh (L(m \<mapsto> f (at i) xs)) D (at j)" if "j \<in> set js" for j
    using Cons.prems that unfolding fresh_def by (auto split: if_splits)
  then have fr: "\<forall>j\<in>set js. fresh (L(m \<mapsto> f (at i) xs)) D (at j)" by blast
  have "distinct (map at js)" using Cons.prems(4) by simp
  from Cons.IH [OF s fun_upd_same fr this] obtain t where
    t: "build put m at js ?s = (Inr (), t)" "store_ok (store t) (L(m \<mapsto> fold (f \<circ> at) js (f (at i) xs))) D"
      "out t = out ?s" "named at (store t) js" "\<forall>x. x \<notin> set (map at js) \<longrightarrow> pay (store t) x = pay (store ?s) x"
    unfolding fun_upd_upd by blast
  have "build put m at (i # js) s = (Inr (), t)"
    using h(1) t(1) by (simp add: new_object_def onStoreU_def onStore_def andThen_def)
  moreover have "named at (store t) (i # js)" using t(4,5) Cons.prems(4) h(3) by (simp add: named_Cons)
  moreover have "\<forall>x. x \<notin> set (map at (i # js)) \<longrightarrow> pay (store t) x = pay (store s) x" using t(5) h(3) by simp
  moreover have "store_ok (store t) (L(m \<mapsto> fold (f \<circ> at) (i # js) xs)) D"
    using t(2) unfolding fold_Cons o_apply .
  moreover have "out t = out s" using t(3) by simp
  ultimately show ?case by blast
qed

section \<open>Swapping under iterators\<close>

definition exchange :: "nat \<Rightarrow> nat \<Rightarrow> 'a list \<Rightarrow> 'a list" where
  "exchange i j xs = xs[i := xs ! j, j := xs ! i]"

text \<open>The orders of a list whose positions are exchanged one pair after the other.\<close>

fun orders :: "(nat \<times> nat) list \<Rightarrow> 'a list \<Rightarrow> 'a list list" where
  "orders [] xs = []"
| "orders ((i, j) # ops) xs = exchange i j xs # orders ops (exchange i j xs)"

definition last_order :: "(nat \<times> nat) list \<Rightarrow> 'a list \<Rightarrow> 'a list" where
  "last_order ops xs = last (xs # orders ops xs)"

definition displays :: "int list list \<Rightarrow> printed list" where
  "displays kss = concat (map (\<lambda>ks. Display # map Shown ks) kss)"

lemma displays_simps [simp]: "displays [] = []" "displays (ks # kss) = Display # map Shown ks @ displays kss"
  by (simp_all add: displays_def)

lemma length_exchange [simp]: "length (exchange i j xs) = length xs"
  by (simp add: exchange_def)

lemma exchange_split:
  "exchange (length as) (Suc (length as + length cs)) (as @ x # cs @ y # ds) = as @ y # cs @ x # ds"
  "exchange (Suc (length as + length cs)) (length as) (as @ x # cs @ y # ds) = as @ y # cs @ x # ds"
  by (simp_all add: exchange_def nth_append list_update_append)

lemma two_positions:
  assumes "m < n" "n < length xs"
  obtains as x cs y ds where "xs = as @ x # cs @ y # ds" "m = length as" "n = Suc (length as + length cs)"
proof -
  let ?cs = "take (n - Suc m) (drop (Suc m) xs)"
  have "xs = take m xs @ xs ! m # drop (Suc m) xs" using assms by (simp add: id_take_nth_drop)
  moreover have "drop (Suc m) xs = ?cs @ xs ! n # drop (Suc n) xs"
    using assms id_take_nth_drop [of "n - Suc m" "drop (Suc m) xs"] by simp
  ultimately have "xs = take m xs @ xs ! m # ?cs @ xs ! n # drop (Suc n) xs" by simp
  then show thesis by (rule that) (use assms in simp_all)
qed

lemma insert_pay:
  "insert_after e x h = Inr h' \<Longrightarrow> pay h' = pay h" "insert_before e x h = Inr h' \<Longrightarrow> pay h' = pay h"
  by (auto simp: insert_after_def insert_before_def check_assert_Inr_iff)

lemma iter_swap_pay: "iter_swap a b h = Inr (a', b', h') \<Longrightarrow> pay h' = pay h"
  by (auto simp: iter_swap_def Let_def check_assert_Inr_iff split: sum.splits prod.splits if_splits
      dest!: extract_pay insert_pay)

lemma iter_swap_positions:
  assumes ok: "store_ok h L D" and L: "L p = Some xs" and ij: "i < length xs" "j < length xs" "i \<noteq> j"
    and ab: "p_elt a = xs ! i" "p_elt b = xs ! j"
  shows "\<exists>a' b' h'. iter_swap a b h = Inr (a', b', h') \<and> p_elt a' = p_elt b \<and> p_elt b' = p_elt a
    \<and> store_ok h' (L(p \<mapsto> exchange i j xs)) D"
proof (cases "i < j")
  case True
  then obtain as x cs y ds where xs: "xs = as @ x # cs @ y # ds" "i = length as" "j = Suc (length as + length cs)"
    using two_positions [OF True ij(2)] by blast
  with ab have "p_elt a = x \<and> p_elt b = y" by (simp add: nth_append)
  with iter_swap_refines [OF ok L [unfolded xs(1)], of a b] show ?thesis
    unfolding xs exchange_split by blast
next
  case False
  with ij(3) have "j < i" by simp
  then obtain as x cs y ds where xs: "xs = as @ x # cs @ y # ds" "j = length as" "i = Suc (length as + length cs)"
    using two_positions [OF _ ij(1)] by blast
  with ab have "p_elt a = y \<and> p_elt b = x" by (simp add: nth_append)
  with iter_swap_refines [OF ok L [unfolded xs(1)], of a b] show ?thesis
    unfolding xs exchange_split by blast
qed

lemma swaps_show:
  assumes "store_ok (store s) L D" "L m = Some (map at is)" "named at (store s) is"
    and "inj_on pos C" "\<forall>x\<in>C. pos x < length is \<and> p_elt (its x) = at (is ! pos x)"
    and "\<forall>(x, y)\<in>set ops. x \<in> C \<and> y \<in> C \<and> x \<noteq> y"
  shows "\<exists>its' t. swaps m ops its s = Some (Inr its', t)
    \<and> store_ok (store t) (L(m \<mapsto> map at (last_order (map (map_prod pos pos) ops) is))) D
    \<and> (\<forall>x\<in>C. p_elt (its' x) = at (last_order (map (map_prod pos pos) ops) is ! pos x))
    \<and> out t = out s @ displays (orders (map (map_prod pos pos) ops) is) \<and> pay (store t) = pay (store s)"
  using assms
proof (induction ops arbitrary: s L "is" its)
  case Nil
  then have "store_ok (store s) (L(m \<mapsto> map at is)) D" by (simp only: fun_upd_idem)
  moreover have "last_order (map (map_prod pos pos) []) is = is" by (simp add: last_order_def)
  moreover have "\<forall>x\<in>C. p_elt (its x) = at (is ! pos x)" using Nil(5) by blast
  ultimately show ?case
    by (intro exI [of _ its] exI [of _ s])
      (simp only: swaps.simps list.map orders.simps displays_simps append_Nil2 simp_thms)
next
  case (Cons op ops)
  obtain x y where op: "op = (x, y)" by fastforce
  let ?i = "pos x" and ?j = "pos y"
  have xy: "x \<in> C" "y \<in> C" "x \<noteq> y" using Cons.prems(6) op by auto
  have ij: "?i < length is" "?j < length is" "?i \<noteq> ?j"
    using xy Cons.prems(4,5) by (auto simp: inj_on_eq_iff)
  have "p_elt (its x) = map at is ! ?i" "p_elt (its y) = map at is ! ?j" using Cons.prems(5) xy ij by auto
  then obtain a b h where h: "iter_swap (its x) (its y) (store s) = Inr (a, b, h)"
      "p_elt a = p_elt (its y)" "p_elt b = p_elt (its x)"
      "store_ok h (L(m \<mapsto> exchange ?i ?j (map at is))) D"
    using iter_swap_positions [OF Cons.prems(1,2)] ij by (metis length_map)
  let ?is = "exchange ?i ?j is"
  have map: "exchange ?i ?j (map at is) = map at ?is" using ij by (simp add: exchange_def map_update)
  have h_pay: "pay h = pay (store s)" by (rule iter_swap_pay [OF h(1)])
  have "set ?is = set is" using ij by (simp add: exchange_def)
  then have n: "named at h ?is" using Cons.prems(3) h_pay by (simp add: named_def)
  let ?s = "s\<lparr>store := h, out := out s @ Display # map Shown ?is\<rparr>" and ?its = "its(x := a, y := b)"
  have disp: "disp_list m (s\<lparr>store := h\<rparr>) = Some (Inr (), ?s)"
    using loops_show(2) [of "s\<lparr>store := h\<rparr>" "L(m \<mapsto> map at ?is)" D m at ?is] h(4) n map by simp
  have "pos z < length ?is \<and> p_elt (?its z) = at (?is ! pos z)" if "z \<in> C" for z
  proof -
    have "pos z = ?i \<longleftrightarrow> z = x" "pos z = ?j \<longleftrightarrow> z = y" using Cons.prems(4) that xy by (simp_all add: inj_on_eq_iff)
    then show ?thesis
      using Cons.prems(5) that xy h(2,3) ij by (auto simp: exchange_def nth_list_update)
  qed
  then have c: "\<forall>z\<in>C. pos z < length ?is \<and> p_elt (?its z) = at (?is ! pos z)" by blast
  have ops: "\<forall>(x, y)\<in>set ops. x \<in> C \<and> y \<in> C \<and> x \<noteq> y" using Cons.prems(6) by simp
  have ok: "store_ok (store ?s) (L(m \<mapsto> map at ?is)) D" using h(4) map by simp
  have "named at (store ?s) ?is" using n by simp
  from Cons.IH [OF ok fun_upd_same this Cons.prems(4) c ops] obtain its' t where
    t: "swaps m ops ?its ?s = Some (Inr its', t)"
      "store_ok (store t) (L(m \<mapsto> map at (last_order (map (map_prod pos pos) ops) ?is))) D"
      "\<forall>x\<in>C. p_elt (its' x) = at (last_order (map (map_prod pos pos) ops) ?is ! pos x)"
      "out t = out ?s @ displays (orders (map (map_prod pos pos) ops) ?is)" "pay (store t) = pay (store ?s)"
    unfolding fun_upd_upd by blast
  have "swaps m (op # ops) its s = Some (Inr its', t)" using h(1) disp t(1) by (simp add: op)
  moreover have "out t = out s @ displays (orders (map (map_prod pos pos) (op # ops)) is)"
    using t(4) by (simp add: op)
  moreover have "pay (store t) = pay (store s)" using t(5) h_pay by simp
  moreover have "last_order (map (map_prod pos pos) (op # ops)) is = last_order (map (map_prod pos pos) ops) ?is"
    by (simp add: op last_order_def)
  ultimately show ?case using t(2,3) by (intro exI [of _ its'] exI [of _ t]) (simp only: simp_thms)
qed

section \<open>Properties\<close>

text \<open>A state of a test program before it runs: the given addresses are free and different.\<close>

definition free_addresses :: "tests \<Rightarrow> contents \<Rightarrow> addr set \<Rightarrow> addr list \<Rightarrow> bool" where
  "free_addresses s L D as \<longleftrightarrow> store_ok (store s) L D \<and> distinct as \<and> (\<forall>a\<in>set as. fresh L D a)"

lemma new_master_refines:
  assumes "store_ok (store s) L D" "fresh L D a"
  shows "\<exists>t. new_master a s = (Inr (), t) \<and> store_ok (store t) (L(a \<mapsto> [])) D \<and> out t = out s"
  using new_head_refines [OF assms] by (simp add: new_master_def)

lemma fresh_upd: "fresh L D a \<Longrightarrow> a \<notin> set (m # xs) \<Longrightarrow> fresh (L(m \<mapsto> xs)) D a"
  by (auto simp: fresh_def split: if_splits)

lemma store_ok_drop:
  assumes "store_ok h (L(m \<mapsto> xs)) D" "L m = None" shows "store_ok h L D"
proof -
  have "(L(m \<mapsto> xs)) p = L p" if "L p \<noteq> None" for p using assms(2) that by auto
  with assms(1) show ?thesis unfolding store_ok_def by (metis option.distinct(1))
qed

lemma test1_iterators_positions:
  assumes "store_ok (store s) L D" "L m = Some [x, y, z]"
  shows "\<exists>its. test1_iterators m s = (Inr its, s) \<and> p_elt (its It_beg) = x \<and> p_elt (its It_middle) = y
    \<and> p_elt (its It_end) = z"
proof -
  have r: "ring (store s) m [x, y, z]" by (rule store_okD(1) [OF assms])
  then show ?thesis
    by (simp add: test1_iterators_def readStore_def list_begin_def list_end_def new_iterator_def iter_inc_def
        iter_dec_def ring_def)
qed

lemma test1_first_swaps:
  assumes ok: "store_ok (store s) (L(m \<mapsto> map at [0, 1, 2])) D" and n: "named at (store s) [0, 1, 2]"
  shows "\<exists>its its' t u. disp_list m s = Some (Inr (), t) \<and> test1_iterators m t = (Inr its, t)
    \<and> swaps m first_swaps its t = Some (Inr its', u) \<and> store_ok (store u) (L(m \<mapsto> map at [2, 1, 0])) D
    \<and> p_elt (its' It_beg) = at 2 \<and> p_elt (its' It_middle) = at 1 \<and> p_elt (its' It_end) = at 0
    \<and> out u = out s @ displays [[0, 1, 2], [2, 1, 0], [1, 2, 0], [2, 1, 0], [2, 0, 1], [2, 1, 0], [2, 0, 1], [2, 1, 0]]
    \<and> pay (store u) = pay (store s)"
proof -
  let ?ids = "[0, 1, 2 :: int]" and ?t = "shows_ids s (Display # map Shown [0, 1, 2])"
  let ?pos = "\<lambda>c. case c of It_beg \<Rightarrow> 0 | It_middle \<Rightarrow> 1 | It_end \<Rightarrow> (2 :: nat)"
  have t: "disp_list m s = Some (Inr (), ?t)" by (rule loops_show(2) [OF ok fun_upd_same n])
  obtain its where its: "test1_iterators m ?t = (Inr its, ?t)"
      "p_elt (its It_beg) = at 0" "p_elt (its It_middle) = at 1" "p_elt (its It_end) = at 2"
    using test1_iterators_positions [of ?t "L(m \<mapsto> map at ?ids)" D m "at 0" "at 1" "at 2"] ok by auto
  have os: "orders (map (map_prod ?pos ?pos) first_swaps) ?ids
      = [[2, 1, 0], [1, 2, 0], [2, 1, 0], [2, 0, 1], [2, 1, 0], [2, 0, 1], [2, 1, 0]]"
    by (simp add: exchange_def first_swaps_def)
  have "inj_on ?pos UNIV" by (auto simp: inj_on_def split: cursor.splits)
  moreover have "\<forall>x\<in>UNIV. ?pos x < length ?ids \<and> p_elt (its x) = at (?ids ! ?pos x)"
    using its by (auto split: cursor.splits)
  moreover have "\<forall>(x, y)\<in>set first_swaps. x \<in> UNIV \<and> y \<in> UNIV \<and> x \<noteq> y" by (simp add: first_swaps_def)
  ultimately obtain its' u where u: "swaps m first_swaps its ?t = Some (Inr its', u)"
      "store_ok (store u) (L(m \<mapsto> map at [2, 1, 0])) D" "\<forall>x\<in>UNIV. p_elt (its' x) = at ([2, 1, 0] ! ?pos x)"
      "out u = out ?t @ displays [[2, 1, 0], [1, 2, 0], [2, 1, 0], [2, 0, 1], [2, 1, 0], [2, 0, 1], [2, 1, 0]]"
      "pay (store u) = pay (store s)"
    using swaps_show [of ?t "L(m \<mapsto> map at ?ids)" D m at ?ids ?pos UNIV its first_swaps] ok n
    unfolding last_order_def os fun_upd_upd by auto
  have "p_elt (its' It_beg) = at 2" "p_elt (its' It_middle) = at 1" "p_elt (its' It_end) = at 0"
    using u(3) by simp_all
  then show ?thesis using t its(1) u(1,2,4,5) by (intro exI [of _ its] exI [of _ its'] exI [of _ ?t] exI [of _ u]) simp
qed

lemma test1_last_swaps:
  assumes ok: "store_ok (store s) (L(m \<mapsto> map at [2, 1, 0])) D" and n: "named at (store s) [0, 1, 2]"
    and d: "at 1 \<notin> D" "at 1 \<noteq> at 2" "at 1 \<noteq> at 0"
    and its: "p_elt (its It_beg) = at 2" "p_elt (its It_end) = at 0"
  shows "\<exists>x its' t u. onStore (elt_extract (at 1)) s = (Inr x, t)
    \<and> swaps m last_swaps its (snd (delete_object junk (at 1) t)) = Some (Inr its', u)
    \<and> store_ok (store u) (L(m \<mapsto> map at [2, 0])) D \<and> named at (store u) [2, 0]
    \<and> out u = out s @ displays [[0, 2], [2, 0]]"
proof -
  let ?pos = "\<lambda>c. case c of It_beg \<Rightarrow> 0 | _ \<Rightarrow> (1 :: nat)" and ?C = "{It_beg, It_end}"
  obtain h where h: "elt_extract (at 1) (store s) = Inr (pay (store s) (at 1), h)"
      "store_ok h (L(m \<mapsto> map at [2, 0])) (insert (at 1) D)"
    using extract_refines [OF ok, of m "[at 2]" "at 1" "[at 0]"] by auto
  let ?t = "s\<lparr>store := h\<rparr>"
  let ?v = "snd (delete_object junk (at 1) ?t)"
  have v: "store_ok (store ?v) (L(m \<mapsto> map at [2, 0])) D"
    using delete_object_frees [of ?t "L(m \<mapsto> map at [2, 0])" "insert (at 1) D" "at 1" junk] h(2) d(1) by simp
  have nv: "named at (store ?v) [2, 0]"
    using n d(2,3) extract_pay [OF h(1)] by (simp add: named_def)
  have os: "orders (map (map_prod ?pos ?pos) last_swaps) [2, 0 :: int] = [[0, 2], [2, 0]]"
    by (simp add: exchange_def last_swaps_def)
  have "inj_on ?pos ?C" by (simp add: inj_on_def)
  moreover have "\<forall>x\<in>?C. ?pos x < length [2, 0 :: int] \<and> p_elt (its x) = at ([2, 0] ! ?pos x)"
    using its by (auto split: cursor.splits)
  moreover have "\<forall>(x, y)\<in>set last_swaps. x \<in> ?C \<and> y \<in> ?C \<and> x \<noteq> y" by (simp add: last_swaps_def)
  ultimately obtain its' u where "swaps m last_swaps its ?v = Some (Inr its', u)"
      "store_ok (store u) (L(m \<mapsto> map at [2, 0])) D" "out u = out ?v @ displays [[0, 2], [2, 0]]"
      "pay (store u) = pay (store ?v)"
    using swaps_show [of ?v "L(m \<mapsto> map at [2, 0])" D m at "[2, 0]" ?pos ?C its last_swaps] v nv
    unfolding last_order_def os fun_upd_upd by auto
  then show ?thesis using h(1) namedI [OF _ nv] by (simp add: onStore_def)
qed

text \<open>
  The first module test of the list passes, whatever addresses the objects get and whatever the allocator does
  with deleted ones: its nine lists are displayed in the orders that the swaps should give, the objects left
  are deleted in list order, the destructor of the head finds the list empty, and every other list of the store is
  as before.
\<close>

theorem test1_passes:
  assumes "free_addresses s L D (m # map at [0..2])"
  shows "\<exists>t. test1_circList junk m at s = Some (Inr 0, t) \<and> store_ok (store t) L D
    \<and> out t = out s @ displays [[0, 1, 2], [2, 1, 0], [1, 2, 0], [2, 1, 0], [2, 0, 1], [2, 1, 0], [2, 0, 1],
        [2, 1, 0], [0, 2], [2, 0]] @ [Deleting 2, Deleting 0]"
proof -
  note pre = assms [unfolded free_addresses_def]
  have ids: "[0..2] = [0, 1, 2 :: int]" by (simp add: upto.simps)
  have m: "L m = None" using pre by (cases "L m") (auto simp: fresh_def)
  have d: "at 1 \<notin> D" "at 1 \<noteq> at 2" "at 1 \<noteq> at 0" using pre by (auto simp: fresh_def ids)
  obtain s1 where s1: "new_master m s = (Inr (), s1)" "store_ok (store s1) (L(m \<mapsto> [])) D" "out s1 = out s"
    using new_master_refines [of s L D m] pre by auto
  have "\<forall>i\<in>set [0..2]. fresh (L(m \<mapsto> [])) D (at i)" using pre by (auto intro!: fresh_upd)
  from build_builds [OF push_back_puts s1(2) fun_upd_same this] pre obtain s2 where
    s2: "build push_back m at [0..2] s1 = (Inr (), s2)" "store_ok (store s2) (L(m \<mapsto> map at [0, 1, 2])) D"
      "out s2 = out s" "named at (store s2) [0, 1, 2]"
    unfolding fun_upd_upd s1(3) by (auto simp: ids)
  from test1_first_swaps [OF s2(2,4)] obtain its its' s3 s4 where
    s4: "disp_list m s2 = Some (Inr (), s3)" "test1_iterators m s3 = (Inr its, s3)"
      "swaps m first_swaps its s3 = Some (Inr its', s4)" "store_ok (store s4) (L(m \<mapsto> map at [2, 1, 0])) D"
      "p_elt (its' It_beg) = at 2" "p_elt (its' It_middle) = at 1" "p_elt (its' It_end) = at 0"
      "out s4 = out s @ displays [[0, 1, 2], [2, 1, 0], [1, 2, 0], [2, 1, 0], [2, 0, 1], [2, 1, 0], [2, 0, 1], [2, 1, 0]]"
      "pay (store s4) = pay (store s2)"
    unfolding s2(3) by blast
  from test1_last_swaps [OF s4(4) namedI [OF s4(9) s2(4) order.refl] d s4(5,7), of junk] obtain x its'' s5 s6 where
    s6: "onStore (elt_extract (at 1)) s4 = (Inr x, s5)"
      "swaps m last_swaps its' (snd (delete_object junk (at 1) s5)) = Some (Inr its'', s6)"
      "store_ok (store s6) (L(m \<mapsto> map at [2, 0])) D" "named at (store s6) [2, 0]"
      "out s6 = out s4 @ displays [[0, 2], [2, 0]]"
    by blast
  from delete_all_deletes [OF s6(3) fun_upd_same s6(4), of junk] obtain s7 where
    s7: "delete_all junk m s6 = Some (Inr (), s7)" "store_ok (store s7) (L(m \<mapsto> [])) D"
      "out s7 = out s6 @ map Deleting [2, 0]"
    unfolding fun_upd_upd by auto
  have "delete_head m (store s7) = Inr ()" using delete_head_refines [OF s7(2) fun_upd_same] by simp
  moreover obtain v where "delete_object junk (at 1) s5 = (Inr (), v)" by (simp add: delete_object_def)
  ultimately have "test1_circList junk m at s = Some (Inr 0, s7)"
    unfolding test1_circList_def using s1(1) s2(1) s4(1,2,3,6) s6(1,2) s7(1) by (simp add: readStore_def)
  then show ?thesis using store_ok_drop [OF s7(2) m] s4(8) s6(5) s7(3) by simp
qed

definition sample_tests :: "unit \<Rightarrow> tests" where
  "sample_tests _ = \<lparr>store = \<lparr>nxt = \<lambda>a. a, prv = \<lambda>a. a, pay = \<lambda>_. None\<rparr>, out = []\<rparr>"

lemma sample_tests_ok: "free_addresses (sample_tests ()) Map.empty {} as \<longleftrightarrow> distinct as"
  by (simp add: free_addresses_def sample_tests_def store_ok_def fresh_def)

lemma test1_passes_witness:
  "\<exists>t. test1_circList (\<lambda>a. (7, a, Some 5)) 100 nat (sample_tests ()) = Some (Inr 0, t)
    \<and> out t = displays [[0, 1, 2], [2, 1, 0], [1, 2, 0], [2, 1, 0], [2, 0, 1], [2, 1, 0], [2, 0, 1],
        [2, 1, 0], [0, 2], [2, 0]] @ [Deleting 2, Deleting 0]"
proof -
  have "free_addresses (sample_tests ()) Map.empty {} (100 # map nat [0..2])"
    unfolding sample_tests_ok by (simp add: upto.simps)
  from test1_passes [OF this, of "\<lambda>a. (7, a, Some 5)"] show ?thesis
    by (auto simp: sample_tests_def)
qed

text \<open>The two lists of the second test and the names of their objects.\<close>

definition holds :: "contents \<Rightarrow> addr set \<Rightarrow> addr \<Rightarrow> addr \<Rightarrow> (int \<Rightarrow> addr) \<Rightarrow> tests \<Rightarrow> int list \<Rightarrow> int list \<Rightarrow> bool" where
  "holds L D m m2 at s is js \<longleftrightarrow> m \<noteq> m2 \<and> named at (store s) (is @ js)
     \<and> store_ok (store s) (L(m \<mapsto> map at is, m2 \<mapsto> map at js)) D"

lemma holds_out [simp]: "holds L D m m2 at (s\<lparr>out := xs\<rparr>) is js = holds L D m m2 at s is js"
  by (simp add: holds_def)

lemma holdsD:
  assumes "holds L D m m2 at s is js"
  shows "store_ok (store s) (L(m \<mapsto> map at is, m2 \<mapsto> map at js)) D" "(L(m \<mapsto> map at is, m2 \<mapsto> map at js)) m = Some (map at is)"
    "(L(m \<mapsto> map at is, m2 \<mapsto> map at js)) m2 = Some (map at js)" "named at (store s) is" "named at (store s) js"
  using assms by (simp_all add: holds_def named_def)

lemma ends_of_list:
  assumes "store_ok (store s) L D" "L p = Some (map at is)" "named at (store s) is" "is \<noteq> []"
  shows "assert_ends p (hd is) (last is) s = (Inr (), s)"
  using list_first_refines(1,2) [OF assms(1,2)] assms(3,4)
  by (simp add: assert_ends_def readStore_def named_def hd_map last_map)

lemma holds_shows:
  assumes "holds L D m m2 at s is js"
  shows "disp_list m s = Some (Inr (), shows_ids s (displays [is]))" "disp_list m2 s = Some (Inr (), shows_ids s (displays [js]))"
    "show_all m2 s = Some (Inr (), shows_ids s (map Shown js))"
    "show_reverse m s = Some (Inr (), shows_ids s (map Shown (rev is)))"
    "is_empty m (store s) \<longleftrightarrow> is = []"
    "is \<noteq> [] \<Longrightarrow> hd is = i \<Longrightarrow> last is = j \<Longrightarrow> assert_ends m i j s = (Inr (), s)"
    "js \<noteq> [] \<Longrightarrow> hd js = i \<Longrightarrow> last js = j \<Longrightarrow> assert_ends m2 i j s = (Inr (), s)"
  using loops_show(1-3) [OF holdsD(1,2,4) [OF assms]] loops_show(1-3) [OF holdsD(1,3,5) [OF assms]]
    ends_of_list [OF holdsD(1,2,4) [OF assms]] ends_of_list [OF holdsD(1,3,5) [OF assms]]
    list_first_refines(3) [OF holdsD(1,2) [OF assms]]
  by simp_all

lemma push_back_pay: "push_back p e h = Inr h' \<Longrightarrow> pay h' = pay h"
  by (auto simp: push_back_def check_assert_Inr_iff)

lemma drain_pay:
  assumes "drain is_empty pop_back push_back a b h = Some (Inr h')"
  shows "pay h' = pay h"
proof -
  have "\<forall>h'. r = Inr h' \<longrightarrow> pay h' = pay h" if "drain is_empty pop_back push_back a b h = Some r" for r
  proof (rule drain.raw_induct [where P = "\<lambda>emp get put a b h r. emp = is_empty \<longrightarrow> get = pop_back
      \<longrightarrow> put = push_back \<longrightarrow> (\<forall>h'. r = Inr h' \<longrightarrow> pay h' = pay h)", OF _ that, THEN mp, THEN mp, THEN mp], goal_cases)
    case (1 d emp get put a b h r)
    show ?case
    proof (intro impI allI)
      fix h' assume eq: "emp = is_empty" "get = pop_back" "put = push_back" and r: "r = Inr h'"
      consider (stop) "r = Inr h"
        | (turn) x h1 h2 where "pop_back a h = Inr (Some x, h1)" "push_back b x h1 = Inr h2" "d emp get put a b h2 = Some r"
        using 1(2) r unfolding eq by (auto split: if_splits sum.splits option.splits)
      then show "pay h' = pay h"
      proof cases
        case stop
        then show ?thesis using r by simp
      next
        case turn
        have "pay h' = pay h2" using 1(1) [OF turn(3)] eq r by blast
        then show ?thesis using pop_back_pay [OF turn(1)] push_back_pay [OF turn(2)] by simp
      qed
    qed
  qed simp_all
  with assms show ?thesis by blast
qed

lemma holds_drains:
  assumes "holds L D m m2 at s is []"
  shows "\<exists>t. drain_into m m2 s = Some (Inr (), t) \<and> out t = out s \<and> holds L D m m2 at t [] (rev is)"
proof -
  have ne: "m \<noteq> m2" using assms by (simp add: holds_def)
  from clist.drain_back [OF holdsD(1-3) [OF assms] this] obtain h where
    h: "drain is_empty pop_back push_back m m2 (store s) = Some (Inr h)"
      "store_ok h (L(m \<mapsto> map at is, m2 \<mapsto> map at [], m \<mapsto> [], m2 \<mapsto> map at [] @ rev (map at is))) D" by blast
  have "L(m \<mapsto> map at is, m2 \<mapsto> map at [], m \<mapsto> [], m2 \<mapsto> map at [] @ rev (map at is)) = L(m \<mapsto> [], m2 \<mapsto> rev (map at is))"
    using ne by (auto simp: fun_eq_iff)
  with h(2) have "store_ok h (L(m \<mapsto> [], m2 \<mapsto> rev (map at is))) D" by metis
  with h(1) holdsD(4) [OF assms] drain_pay [OF h(1)] ne show ?thesis
    by (auto simp: drain_into_def holds_def named_def rev_map)
qed

lemma truncate_pay: "list_truncate p e q h = Inr h' \<Longrightarrow> pay h' = pay h"
  by (auto simp: list_truncate_def check_assert_Inr_iff Let_def split: if_splits)

lemma holds_truncates:
  assumes "holds L D m m2 at s [] (as @ i # bs)"
  shows "\<exists>t. onStoreU (list_truncate m2 (at i) m) s = (Inr (), t) \<and> out t = out s
    \<and> holds L D m m2 at t (as @ [i]) bs"
proof -
  have ne: "m2 \<noteq> m" using assms by (auto simp: holds_def)
  let ?L = "L(m \<mapsto> map at [], m2 \<mapsto> map at (as @ i # bs))"
  have "?L m2 = Some (map at as @ at i # map at bs)" "?L m = Some []" using ne by simp_all
  from truncate_refines [OF holdsD(1) [OF assms] this ne] obtain h where
    h: "list_truncate m2 (at i) m (store s) = Inr h"
      "store_ok h (?L(m2 \<mapsto> map at bs, m \<mapsto> map at as @ [at i])) D" by blast
  have "?L(m2 \<mapsto> map at bs, m \<mapsto> map at as @ [at i]) = L(m \<mapsto> map at (as @ [i]), m2 \<mapsto> map at bs)"
    using ne by (auto simp: fun_eq_iff)
  with h(2) have "store_ok h (L(m \<mapsto> map at (as @ [i]), m2 \<mapsto> map at bs)) D" by metis
  with h(1) holdsD(5) [OF assms] truncate_pay [OF h(1)] ne show ?thesis
    by (auto simp: onStoreU_def onStore_def holds_def named_def)
qed

lemma test2_queues_passes:
  assumes "holds L D m m2 at s (rev [0..9]) []"
  shows "\<exists>t. test2_queues m m2 s = Some (Inr (), t) \<and> holds L D m m2 at t [] [0..9]
    \<and> out t = out s @ displays [rev [0..9], [], [0..9]] @ map Shown [0..9] @ map Shown [0..9]"
proof -
  have ids: "[0..9] = [0, 1, 2, 3, 4, 5, 6, 7, 8, 9 :: int]" by (simp add: upto.simps)
  let ?s = "shows_ids s (displays [rev [0..9]])"
  have "holds L D m m2 at ?s (rev [0..9]) []" using assms by simp
  from holds_drains [OF this] obtain t where
    t: "drain_into m m2 ?s = Some (Inr (), t)" "out t = out ?s" "holds L D m m2 at t [] [0..9]" by auto
  have first: "disp_list m s = Some (Inr (), ?s)" "assert_ends m 9 0 ?s = (Inr (), ?s)"
    using holds_shows(1) [OF assms] holds_shows(6) [of L D m m2 at ?s "rev [0..9]" "[]" 9 0] assms
    by (simp_all add: ids)
  have out: "disp_list m (shows_ids t xs) = Some (Inr (), shows_ids t (xs @ displays [[]]))"
    "disp_list m2 (shows_ids t xs) = Some (Inr (), shows_ids t (xs @ displays [[0..9]]))"
    "assert_ends m2 0 9 (shows_ids t xs) = (Inr (), shows_ids t xs)"
    "show_all m2 (shows_ids t xs) = Some (Inr (), shows_ids t (xs @ map Shown [0..9]))" for xs
    using holds_shows [of L D m m2 at "shows_ids t xs" "[]" "[0..9]"] t(3) by (simp_all add: ids)
  have empty: "is_empty m (store t)" using holds_shows(5) [OF t(3)] by simp
  have "disp_list m t = Some (Inr (), shows_ids t (displays [[]]))" using out(1) [of "[]"] by simp
  then have "test2_queues m m2 s
      = Some (Inr (), shows_ids t (displays [[], [0..9]] @ map Shown [0..9] @ map Shown [0..9]))"
    by (simp add: test2_queues_def first [simplified] t(1) [simplified] out empty del: upto_rec_numeral)
  then show ?thesis using t(2,3) by (intro exI conjI) (assumption, simp_all)
qed

lemma test2_truncation_passes:
  assumes "holds L D m m2 at s [] [0..9]"
  shows "\<exists>t. test2_truncation m m2 s = Some (Inr (), t) \<and> holds L D m m2 at t [0..3] [4..9]
    \<and> out t = out s @ displays [[4..9], [0..3]] @ map Shown (rev [0..3])"
proof -
  have ids: "[0..9] = [0, 1, 2] @ 3 # [4..9 :: int]" "[0..3] = [0, 1, 2] @ [3 :: int]" 
      "[4..9] = [4, 5, 6, 7, 8, 9 :: int]" by (simp_all add: upto.simps)
  have find: "find_object m2 3 s = Some (Inr (at 3), s)"
    using loops_show(4) [OF holdsD(1,3,5) [OF assms] ids(1)] by simp
  from holds_truncates [OF assms [unfolded ids(1)]] obtain t where
    t: "onStoreU (list_truncate m2 (at 3) m) s = (Inr (), t)" "out t = out s" "holds L D m m2 at t [0..3] [4..9]"
    unfolding ids(2) by blast
  have out: "disp_list m (shows_ids t xs) = Some (Inr (), shows_ids t (xs @ displays [[0..3]]))"
    "disp_list m2 (shows_ids t xs) = Some (Inr (), shows_ids t (xs @ displays [[4..9]]))"
    "assert_ends m 0 3 (shows_ids t xs) = (Inr (), shows_ids t xs)"
    "assert_ends m2 4 9 (shows_ids t xs) = (Inr (), shows_ids t xs)"
    "show_reverse m (shows_ids t xs) = Some (Inr (), shows_ids t (xs @ map Shown (rev [0..3])))" for xs
    using holds_shows [of L D m m2 at "shows_ids t xs" "[0..3]" "[4..9]"] t(3) by (simp_all add: ids)
  have "disp_list m2 t = Some (Inr (), shows_ids t (displays [[4..9]]))" using out(2) [of "[]"] by simp
  then have "test2_truncation m m2 s = Some (Inr (), shows_ids t (displays [[4..9], [0..3]] @ map Shown (rev [0..3])))"
    by (simp add: test2_truncation_def find t(1) out del: upto_rec_numeral)
  then show ?thesis using t(2,3) by (intro exI conjI) (assumption, simp_all)
qed

lemma test2_release_passes:
  assumes "holds L D m m2 at s is js" "distinct (map at (is @ js))"
  shows "\<exists>t. test2_release junk m m2 s = Some (Inr (), t) \<and> holds L D m m2 at t [] []
    \<and> out t = out s @ map Deleting (rev is) @ displays [[]] @ map Deleting js @ displays [[]]"
proof -
  have ne: "m \<noteq> m2" using assms(1) by (simp add: holds_def)
  let ?L = "L(m \<mapsto> map at is, m2 \<mapsto> map at js)"
  from release_loop_releases [OF holdsD(1,2,4) [OF assms(1)], of junk] obtain t where
    t: "release_loop junk m s = Some (Inr (), t)" "store_ok (store t) (?L(m \<mapsto> [])) D"
      "out t = out s @ map Deleting (rev is)" "\<forall>x. x \<notin> set (map at is) \<longrightarrow> pay (store t) x = pay (store s) x" by blast
  have "?L(m \<mapsto> []) = L(m \<mapsto> [], m2 \<mapsto> map at js)" using ne by (auto simp: fun_eq_iff)
  moreover have "at j \<notin> set (map at is)" if "j \<in> set js" for j using assms(2) imageI [OF that, of at] by auto
  ultimately have ht: "holds L D m m2 at t [] js"
    using t(2,4) holdsD(5) [OF assms(1)] ne unfolding holds_def named_def by simp
  let ?t = "shows_ids t (displays [[]])"
  have d: "disp_list m t = Some (Inr (), ?t)" by (rule holds_shows(1) [OF ht])
  have "holds L D m m2 at ?t [] js" using ht by simp
  from delete_all_deletes [OF holdsD(1,3,5) [OF this], of junk] obtain u where
    u: "delete_all junk m2 ?t = Some (Inr (), u)" "store_ok (store u) (L(m \<mapsto> [], m2 \<mapsto> [])) D"
      "out u = out ?t @ map Deleting js" unfolding fun_upd_upd list.map by blast
  have hu: "holds L D m m2 at u [] []" using u(2) ne by (simp add: holds_def named_def)
  have "test2_release junk m m2 s = Some (Inr (), shows_ids u (displays [[]]))"
    using d u(1) by (simp add: test2_release_def t(1) holds_shows(2) [OF hu])
  then show ?thesis using t(3) u(3) hu by (intro exI conjI) (assumption, simp_all)
qed

lemma fold_Cons_map: "fold ((#) \<circ> f) xs ys = rev (map f xs) @ ys"
  by (induction xs arbitrary: ys) simp_all

text \<open>
  The second module test passes as well: all its assertions hold, every loop ends, both lists are displayed as the
  comments of the test say, and every object is deleted exactly once.
\<close>

theorem test2_passes:
  assumes "free_addresses s L D (m # m2 # map at [0..9])"
  shows "\<exists>t. test2_program junk m m2 at s = Some (Inr 0, t) \<and> store_ok (store t) L D
    \<and> out t = out s @ displays [rev [0..9], [], [0..9]] @ map Shown [0..9] @ map Shown [0..9]
        @ displays [[4..9], [0..3]] @ map Shown (rev [0..3]) @ map Deleting (rev [0..3])
        @ displays [[]] @ map Deleting [4..9] @ displays [[]]"
proof -
  note pre = assms [unfolded free_addresses_def]
  have m: "m2 \<noteq> m" "L m = None" "L m2 = None" using pre by (cases "L m"; cases "L m2"; auto simp: fresh_def)+
  have new: "fresh L D m" "fresh (L(m \<mapsto> [])) D m2" "\<forall>i\<in>set [0..9]. fresh (L(m \<mapsto> [], m2 \<mapsto> [])) D (at i)"
    using pre by (auto intro!: fresh_upd)
  obtain s1 where s1: "new_master m s = (Inr (), s1)" "store_ok (store s1) (L(m \<mapsto> [])) D" "out s1 = out s"
    using new_master_refines [of s L D m] pre by auto
  obtain s2 where s2: "new_master m2 s1 = (Inr (), s2)" "store_ok (store s2) (L(m \<mapsto> [], m2 \<mapsto> [])) D" "out s2 = out s1"
    using new_master_refines [OF s1(2) new(2)] by blast
  have "(L(m \<mapsto> [], m2 \<mapsto> [])) m = Some []" using m(1) by simp
  from build_builds [OF push_puts s2(2) this new(3)] pre obtain s3 where
    b: "store_ok (store s3) (L(m \<mapsto> [], m2 \<mapsto> [], m \<mapsto> fold ((#) \<circ> at) [0..9] [])) D" and
    s3: "build push m at [0..9] s2 = (Inr (), s3)" "out s3 = out s2" "named at (store s3) [0..9]"
    by auto
  have "L(m \<mapsto> [], m2 \<mapsto> [], m \<mapsto> fold ((#) \<circ> at) [0..9] []) = L(m \<mapsto> map at (rev [0..9]), m2 \<mapsto> [])"
    using m(1) by (auto simp: fun_eq_iff fold_Cons_map rev_map)
  with b have "store_ok (store s3) (L(m \<mapsto> map at (rev [0..9]), m2 \<mapsto> [])) D" by metis
  then have "holds L D m m2 at s3 (rev [0..9]) []" using s3(3) m(1) by (simp add: holds_def named_def)
  from test2_queues_passes [OF this] obtain s4 where
    s4: "test2_queues m m2 s3 = Some (Inr (), s4)" "holds L D m m2 at s4 [] [0..9]"
      "out s4 = out s3 @ displays [rev [0..9], [], [0..9]] @ map Shown [0..9] @ map Shown [0..9]" by blast
  from test2_truncation_passes [OF s4(2)] obtain s5 where
    s5: "test2_truncation m m2 s4 = Some (Inr (), s5)" "holds L D m m2 at s5 [0..3] [4..9]"
      "out s5 = out s4 @ displays [[4..9], [0..3]] @ map Shown (rev [0..3])" by blast
  have "[0..9] = [0..3] @ [4..9 :: int]" using upto_split2 [of 0 3 9] by simp
  then have "distinct (map at ([0..3] @ [4..9]))" using pre by simp
  from test2_release_passes [OF s5(2) this, of junk] obtain s6 where
    s6: "test2_release junk m m2 s5 = Some (Inr (), s6)" "holds L D m m2 at s6 [] []"
      "out s6 = out s5 @ map Deleting (rev [0..3]) @ displays [[]] @ map Deleting [4..9] @ displays [[]]" by blast
  have "delete_head m (store s6) = Inr ()" "delete_head m2 (store s6) = Inr ()"
    using delete_head_refines [OF holdsD(1,2) [OF s6(2)]] delete_head_refines [OF holdsD(1,3) [OF s6(2)]] by simp_all
  then have "test2_program junk m m2 at s = Some (Inr 0, s6)"
    unfolding test2_program_def using s1(1) s2(1) s3(1) s4(1) s5(1) s6(1) by (simp add: readStore_def)
  moreover have "store_ok (store s6) L D"
    using holdsD(1) [OF s6(2)] m store_ok_drop [of "store s6" "L(m \<mapsto> [])" m2 "[]" D]
      store_ok_drop [of "store s6" L m "[]" D] by simp
  ultimately show ?thesis using s1(3) s2(3) s3(2) s4(3) s5(3) s6(3)
    by (intro exI conjI) (assumption, simp_all del: upto_rec_numeral)
qed

lemma test2_passes_witness:
  "\<exists>t. test2_program (\<lambda>a. (7, a, Some 5)) 100 200 nat (sample_tests ()) = Some (Inr 0, t)
    \<and> length (out t) = 71"
proof -
  have "free_addresses (sample_tests ()) Map.empty {} (100 # 200 # map nat [0..9])"
    unfolding sample_tests_ok by (simp add: upto.simps)
  from test2_passes [OF this, of "\<lambda>a. (7, a, Some 5)"] show ?thesis
    by (auto simp: sample_tests_def)
qed

end
