(* ===== verification/Program.thy ===== *)
theory Program
  imports GameServer GameClient HexTests ListTests
begin

text \<open>
  \<^verbatim>\<open>main\<close> as a whole: the command line chooses between the client, the server and the module tests. \<open>None\<close> is a
  program that does not end, \<open>Inl\<close> one that is ended by an abort, an exception without handler or undefined
  behaviour.
\<close>

text \<open>
  What the tests depend on: the random generator, the addresses of their objects and what the allocator does with
  deleted ones.
\<close>

record 'g test_env =
  srand :: "nat \<Rightarrow> 'g"
  rand :: "'g \<Rightarrow> int \<times> 'g"
  junk1 :: junk
  master1 :: addr
  object1 :: "int \<Rightarrow> addr"
  junk2 :: junk
  masters2 :: "addr \<times> addr"
  object2 :: "int \<Rightarrow> addr"
  start :: tests

definition run_tests :: "'g test_env \<Rightarrow> int result option" where
  "run_tests te = (case test1_Hexmap_hexDist (srand te) (rand te) of
      (Inl e, _) \<Rightarrow> Some (Inl e)
    | (Inr _, _) \<Rightarrow> map_option fst
        (thenO (test1_circList (junk1 te) (master1 te) (object1 te) (start te)) (\<lambda>_ s.
         thenO (test2_program (junk2 te) (fst (masters2 te)) (snd (masters2 te)) (object2 te) s) (\<lambda>_ s.
         Some (Inr 0, s)))))"

definition exit_code :: "'a result \<Rightarrow> int result" where
  "exit_code r = (case r of Inl e \<Rightarrow> Inl e | Inr _ \<Rightarrow> Inr 0)"

definition hex1_main :: "'k os \<Rightarrow> network \<Rightarrow> sockaddr_in \<Rightarrow> fd_set \<times> fd_set \<times> fd_set \<Rightarrow> 'g test_env
    \<Rightarrow> byte list list \<Rightarrow> 'k sys \<Rightarrow> int result option" where
  "hex1_main os net buffer held te argv s = (case main_command argv of
      Client name \<Rightarrow> map_option exit_code (client_main os net buffer name s)
    | Server name \<Rightarrow> map_option (\<lambda>(r, t). exit_code r) (server_main os held s)
    | Tests \<Rightarrow> run_tests te
    | Nothing \<Rightarrow> Some (Inr 0)
    | Usage \<Rightarrow> Some (Inr 0))"

section \<open>How the program ends\<close>

lemma exit_code_Inr [simp]: "exit_code r = Inr c \<longleftrightarrow> c = 0 \<and> (\<exists>x. r = Inr x)"
  by (auto simp: exit_code_def split: sum.splits)

lemma tests_never_pass: "\<exists>e\<in>{Undefined, AssertFailed}. run_tests te = Some (Inl e)"
  by (simp add: run_tests_def test1_Hexmap_outcome Let_def)

lemma server_start_never_returns: "server_start os gs s \<noteq> Some (Inr (), t)"
  using server_loop_only_aborts [of os gs s]
  by (auto simp: server_start_def split: option.splits prod.splits sum.splits)

lemma server_main_never_returns: "server_main os held s \<noteq> Some (Inr (), t)"
  using server_start_never_returns by (auto simp: server_main_def thenO_def split: option.splits prod.splits sum.splits)

text \<open>A client that returns was ended by an exception, of its initialisation or of its loop.\<close>

definition client_thrown :: "'k os \<Rightarrow> network \<Rightarrow> sockaddr_in \<Rightarrow> byte list \<Rightarrow> 'k sys \<Rightarrow> exn \<Rightarrow> bool" where
  "client_thrown os net buffer name s e \<longleftrightarrow>
    (case client_cnx_init os net buffer name s of
       (Inr _, Some c) \<Rightarrow> \<exists>t. client_bg_loop os False c = Some (Inl e, t)
     | (r, _) \<Rightarrow> r = Inl e)"

lemma client_init_object: "client_cnx_init os net buffer name s \<noteq> (Inr (), None)"
  by (auto simp: client_cnx_init_def split: sum.splits prod.splits if_splits)

lemma client_main_returns:
  assumes "client_main os net buffer (Some name) s = Some (Inr ())"
  shows "\<exists>e. is_exception e \<and> client_thrown os net buffer name s e"
proof -
  obtain r c where i: "client_cnx_init os net buffer name s = (r, c)" by fastforce
  consider (fails) e where "r = Inl e" | (runs) x where "r = Inr ()" "c = Some x"
    using client_init_object [of os net buffer name s] i by (cases r; cases c) auto
  then show ?thesis
  proof cases
    case fails
    with assms i show ?thesis
      by (auto simp: client_main_def client_background_main_def swallow_def client_thrown_def split: if_splits option.splits)
  next
    case runs
    with assms i obtain q t where l: "client_bg_loop os False x = Some (q, t)" "swallow q = Inr ()"
      by (auto simp: client_main_def client_background_main_def)
    with client_bg_loop_fails [OF l(1)] runs i show ?thesis
      by (cases q) (auto simp: swallow_def client_thrown_def split: if_splits)
  qed
qed

text \<open>
  C24. How the program ends. Without a command that it knows it returns 0. Called as a server it never returns. Called for
  its tests it always ends in undefined behaviour or at an assertion, so that the tests of the list are never
  reached. Called as a client without the name of an interface it dereferences a null pointer; with one it returns
  only when an exception has ended its initialisation or its loop, and then it returns 0.
\<close>

theorem main_returns:
  "let run = hex1_main os net buffer held te argv s; word = (if length argv < 2 then None else Some (argv ! 1))
   in (word \<notin> (Some \<circ> bytes_of) ` {''client'', ''server'', ''tests''} \<longrightarrow> run = Some (Inr 0))
    \<and> (word = Some (bytes_of ''server'') \<longrightarrow> (\<forall>code. run \<noteq> Some (Inr code)))
    \<and> (word = Some (bytes_of ''tests'') \<longrightarrow> (\<exists>e\<in>{Undefined, AssertFailed}. run = Some (Inl e)))
    \<and> (word = Some (bytes_of ''client'') \<longrightarrow>
        (if length argv = 2 then run = Some (Inl Undefined)
         else \<forall>code. run = Some (Inr code) \<longrightarrow>
           code = 0 \<and> (\<exists>e. is_exception e \<and> client_thrown os net buffer (argv ! 2) s e)))"
proof -
  define run where "run = hex1_main os net buffer held te argv s"
  define word where "word = (if length argv < 2 then None else Some (argv ! 1))"
  have names: "bytes_of ''client'' \<noteq> bytes_of ''server''" "bytes_of ''client'' \<noteq> bytes_of ''tests''"
    "bytes_of ''server'' \<noteq> bytes_of ''tests''" by (simp_all add: bytes_of_def)
  have "run = Some (Inr 0)" if "word \<notin> (Some \<circ> bytes_of) ` {''client'', ''server'', ''tests''}"
    using that by (auto simp: run_def word_def hex1_main_def main_command_def split: if_splits)
  moreover have "\<forall>code. run \<noteq> Some (Inr code)" if "word = Some (bytes_of ''server'')"
  proof (intro allI notI)
    fix code assume "run = Some (Inr code)"
    with that names obtain t where "server_main os held s = Some (Inr (), t)"
      by (auto simp: run_def word_def hex1_main_def main_command_def split: if_splits)
    with server_main_never_returns show False by blast
  qed
  moreover have "\<exists>e\<in>{Undefined, AssertFailed}. run = Some (Inl e)" if "word = Some (bytes_of ''tests'')"
    using that names tests_never_pass [of te]
    by (auto simp: run_def word_def hex1_main_def main_command_def split: if_splits)
  moreover have "if length argv = 2 then run = Some (Inl Undefined)
      else \<forall>code. run = Some (Inr code) \<longrightarrow>
        code = 0 \<and> (\<exists>e. is_exception e \<and> client_thrown os net buffer (argv ! 2) s e)"
    if "word = Some (bytes_of ''client'')"
  proof (cases "length argv = 2")
    case True
    with that show ?thesis
      by (simp add: run_def word_def hex1_main_def main_command_def client_main_def exit_code_def)
  next
    case False
    with that have r: "run = map_option exit_code (client_main os net buffer (Some (argv ! 2)) s)"
      by (auto simp: run_def word_def hex1_main_def main_command_def split: if_splits)
    show ?thesis using False client_main_returns [of os net buffer "argv ! 2" s] by (auto simp: r)
  qed
  ultimately show ?thesis unfolding Let_def run_def word_def by blast
qed

definition zero_env :: "unit test_env" where
  "zero_env = \<lparr>srand = \<lambda>_. (), rand = Pair 0, junk1 = \<lambda>a. (a, a, None), master1 = 100, object1 = nat,
     junk2 = \<lambda>a. (a, a, None), masters2 = (200, 300), object2 = nat, start = sample_tests ()\<rparr>"

text \<open>A client on a host without interfaces: its exception is swallowed and the program reports success.\<close>

lemma main_returns_witness:
  "let net = \<lparr>display_ifaddrs = Some [], search_ifaddrs = Some [], getnameinfo = \<lambda>_. Inl 1\<rparr>;
       run = (\<lambda>argv. hex1_main failing_os net \<lparr>s_addr = 0, sin_port = 0\<rparr> (FD_ZERO, FD_ZERO, FD_ZERO) zero_env argv
         \<lparr>kern = (), errno = 0\<rparr>)
   in run [[104], bytes_of ''client'', [108, 111]] = Some (Inr 0)
    \<and> (\<exists>e. is_exception e \<and> client_thrown failing_os net \<lparr>s_addr = 0, sin_port = 0\<rparr> [108, 111] \<lparr>kern = (), errno = 0\<rparr> e)
    \<and> (\<exists>e\<in>{Undefined, AssertFailed}. run [[104], bytes_of ''tests''] = Some (Inl e))
    \<and> (\<forall>code. run [[104], bytes_of ''server''] \<noteq> Some (Inr code)) \<and> run [[104]] = Some (Inr 0)"
proof -
  define net where "net = \<lparr>display_ifaddrs = Some [], search_ifaddrs = Some [], getnameinfo = \<lambda>_. Inl 1\<rparr>"
  let ?run = "\<lambda>argv. hex1_main failing_os net \<lparr>s_addr = 0, sin_port = 0\<rparr> (FD_ZERO, FD_ZERO, FD_ZERO) zero_env argv
    \<lparr>kern = (), errno = 0\<rparr>"
  note t = main_returns [of failing_os net "\<lparr>s_addr = 0, sin_port = 0\<rparr>" "(FD_ZERO, FD_ZERO, FD_ZERO)" zero_env _
      "\<lparr>kern = (), errno = 0\<rparr>"]
  have "fst (display_network_addresses (getnameinfo net) (Some [])) = Inr ()"
    using display_network_addresses_exits [of "getnameinfo net" "[]"] by (auto split: sum.splits)
  then have "client_main failing_os net \<lparr>s_addr = 0, sin_port = 0\<rparr> (Some [108, 111]) \<lparr>kern = (), errno = 0\<rparr> = Some (Inr ())"
    by (simp add: client_main_def client_background_main_def client_cnx_init_def get_ipv4_address_def
        get_ipv4_loop_eq ipv4_of_def swallow_def net_def)
  then have c: "?run [[104], bytes_of ''client'', [108, 111]] = Some (Inr 0)"
    by (simp add: hex1_main_def main_command_def exit_code_def)
  with t [of "[[104], bytes_of ''client'', [108, 111]]"]
  have "\<exists>e. is_exception e \<and> client_thrown failing_os net \<lparr>s_addr = 0, sin_port = 0\<rparr> [108, 111] \<lparr>kern = (), errno = 0\<rparr> e"
    by (simp add: Let_def)
  moreover have "\<exists>e\<in>{Undefined, AssertFailed}. ?run [[104], bytes_of ''tests''] = Some (Inl e)"
    using t [of "[[104], bytes_of ''tests'']"] by (simp add: Let_def)
  moreover have "\<forall>code. ?run [[104], bytes_of ''server''] \<noteq> Some (Inr code)"
    using t [of "[[104], bytes_of ''server'']"] by (simp add: Let_def)
  moreover have "?run [[104]] = Some (Inr 0)" using t [of "[[104]]"] by (simp add: image_iff Let_def)
  ultimately show ?thesis using c unfolding Let_def net_def by blast
qed

end
