(* ===== verification/ForkTrial.thy ===== *)
theory ForkTrial
  imports Console
begin

text \<open>
  \<^verbatim>\<open>ww2navalwg/mp.cc\<close>, a small program of its own that starts a second process: what one process writes and how it
  ends. The calls that concern processes are parameters, over a kernel state of any type; each of the two processes
  goes on with the answer that it got from \<^verbatim>\<open>fork\<close>.
\<close>

record 'k proc_os =
  os_getpid :: "'k \<Rightarrow> int \<times> 'k"
  os_fork :: "'k \<Rightarrow> int \<times> 'k"
  os_wait :: "'k \<Rightarrow> int \<times> 'k"

datatype proc_end = Returned int | Exited_at_once int

abbreviation (input) "endl \<equiv> CHR 0x0A"

text \<open>The loop over the arguments from \<open>i\<close> on.\<close>

fun show_args :: "nat \<Rightarrow> string list \<Rightarrow> string" where
  "show_args i [] = []"
| "show_args i (arg # args) = show_int (int i) @ '': '' @ arg @ [endl] @ show_args (Suc i) args"

definition fork_main :: "'k proc_os \<Rightarrow> string list \<Rightarrow> 'k \<Rightarrow> string \<times> proc_end \<times> 'k" where
  "fork_main os argv k0 =
    (let welcome = ''Welcome ...'' @ [endl];
         (pid, k1) = os_getpid os k0
     in if length argv > 1 then
          (let (f_res, k2) = os_fork os k1
           in if f_res = 0 then
                (let (pid', k3) = os_getpid os k2
                 in (welcome @ endl # ''PID child = '' @ show_int pid' @ [endl], Exited_at_once 0, k3))
              else
                (let out = welcome @ ''PID parent = '' @ show_int pid @ ''  PID child = '' @ show_int f_res @ [endl]
                             @ endl # ''Arguments:'' @ [endl] @ show_args 1 (tl argv);
                     (status, k3) = os_wait os k2
                 in (out, Returned 0, k3)))
        else
          (let (status, k3) = os_wait os k1 in (welcome, Returned 0, k3)))"

lemma show_minus_one: "show_int (-1) = ''-1''"
  by code_simp

text \<open>
  The two processes after a \<^verbatim>\<open>fork\<close> that succeeds: the child ends at once and only the parent writes the arguments and
  waits. Neither end depends on an answer of the kernel: the program returns 0 also when the \<^verbatim>\<open>fork\<close> fails, and
  then it writes the error as the number of the child.
\<close>

lemma fork_main_ends:
  assumes "os_getpid os k0 = (pid, k1)" "os_fork os k1 = (f_res, k2)" "length argv > 1"
  shows "fst (snd (fork_main os argv k0)) = (if f_res = 0 then Exited_at_once 0 else Returned 0)"
    and "f_res \<noteq> 0 \<Longrightarrow> snd (snd (fork_main os argv k0)) = snd (os_wait os k2)"
    and "f_res = -1 \<Longrightarrow> \<exists>cs. fst (fork_main os argv k0) = ''Welcome ...'' @ endl # ''PID parent = '' @ show_int pid
      @ ''  PID child = -1'' @ endl # endl # ''Arguments:'' @ endl # cs"
  using assms by (simp_all add: fork_main_def Let_def show_minus_one case_prod_unfold)

end
