(* ===== verification/Session.thy ===== *)
theory Session
  imports ServerConnection ClientConnection
begin

text \<open>
  The client and the server together. The first part says that what one end queues is what the other end
  decodes, although a received message shares with the sent one only the bytes that were sent. The second
  joins the two protocols, \<open>react\<close> of the server and \<open>obey\<close> of the client, by two queues and follows the
  handshake from the first request to the registration. The third carries messages from program to
  program: what a client queues with the definitions of its code is sent, received and handled by those of
  the server, and conversely.
\<close>

section \<open>What arrives is what was meant\<close>

text \<open>
  A received message carries only the bytes that were sent; the rest of its memory is arbitrary. The fields
  the handlers read lie within those bytes.
\<close>

lemma carriesD:
  assumes "carries dir m (i, b, n)"
  shows "id_of (l1_id m) = Some i" "j < n \<Longrightarrow> l1_body m j = b j"
proof -
  have c: "l1_id m = id_val i" "read_bytes (l1_body m) 0 n = read_bytes b 0 n"
    using assms by (simp_all add: carries_def)
  show "id_of (l1_id m) = Some i" using c(1) by (simp only: id_of_id_val)
  show "l1_body m j = b j" if "j < n"
    using arg_cong [OF c(2), of "\<lambda>xs. xs ! j"] that by simp
qed

lemma carried_string:
  assumes "carries dir m (i, b, n)" "cstring b (8192 - p) p = Some v" "p + length v < n"
  shows "body_string m p = Inr v"
proof -
  have "cstring (l1_body m) (8192 - p) p = Some v"
    by (rule cstring_cong [OF assms(2)]) (use carriesD(2) [OF assms(1)] assms(3) in simp)
  then show ?thesis by (simp add: body_string_def)
qed

lemma carried_enum:
  assumes "carries dir m (i, b, n)" "4 \<le> n" shows "get_enum (l1_body m) = get_enum b"
  unfolding get_enum_def by (rule load32_cong) (use carriesD(2) [OF assms(1)] assms(2) in simp)

lemma decode_connection_req:
  assumes "carries FROM_CLIENT m (CONNECTION_REQ, b, 32)" "cstring b 8192 0 = Some v" "length v < 32"
  shows "decode_client_msg m = Some (ConnectionReqMsg v)"
  using carriesD(1) [OF assms(1)] carried_string [OF assms(1), of 0 v] assms(2,3)
  by (simp add: decode_client_msg_def)

lemma decode_registration_req:
  assumes "carries FROM_CLIENT m (REGISTRATION_REQ, b, 192)" "cstring b 8192 0 = Some name"
    "cstring b 8160 off_password = Some pwd" "cstring b 8128 off_mail_address = Some email"
    "length name < 192" "length pwd < 160" "length email < 128"
  shows "decode_client_msg m = Some (RegistrationReqMsg name email pwd)"
  using carriesD(1) [OF assms(1)] carried_string [OF assms(1), of 0 name]
    carried_string [OF assms(1), of 32 pwd] carried_string [OF assms(1), of 64 email] assms(2-)
  by (simp add: decode_client_msg_def off_password_def off_mail_address_def)

fun server_msg_of :: "reply \<Rightarrow> server_msg" where
  "server_msg_of ConnectionCnfRep = ConnectionCnfMsg"
| "server_msg_of (ConnectionRejRep cause) = ConnectionRejMsg (Some cause)"
| "server_msg_of RegistrationCnfRep = RegistrationCnfMsg"
| "server_msg_of (RegistrationRejRep rcause) = RegistrationRejMsg"
| "server_msg_of (UserLoginRejRep ucause) = UserLoginRejMsg"
| "server_msg_of DisconnectionCnfRep = ServerDisconnectionCnfMsg"

lemma msg_of_request: "msg_of (msg_request (i, b, n)) j k P \<longleftrightarrow> j = i \<and> k = int n \<and> P b"
  by (auto simp: msg_of_def msg_request_def)

lemma is_reply_request:
  assumes "is_reply rep r" obtains i b n where "r = msg_request (i, b, n)" "msg_ok (i, b, n)"
proof -
  obtain i k P where m: "msg_of r i k P" "0 < k" "k < 8192" using assms by (cases rep) auto
  then obtain b where "r = msg_request (i, b, nat k)"
    by (cases r) (auto simp: msg_of_def msg_request_def split: request_kind.splits)
  with m(2,3) that show thesis by (simp add: msg_ok_def)
qed

lemma decode_reply:
  assumes "is_reply rep (msg_request p)" "carries FROM_SERVER m p"
  shows "decode_server_msg m = server_msg_of rep"
proof -
  obtain i b n where p: "p = (i, b, n)" by (cases p)
  note c = assms(2) [unfolded p]
  note id = carriesD(1) [OF c]
  show ?thesis
    using assms(1) p id carried_enum [OF c]
    by (cases rep) (auto simp: msg_of_request decode_server_msg_def)
qed

section \<open>The two ends together\<close>

text \<open>
  The two protocols joined by two queues, in the order of a stream socket: what the server does on a message of
  the client and what the client does on a message of the server, and the sending of the credentials. The
  bytes that follow the strings are whatever the fresh memory held.
\<close>

record session =
  cl :: abs_client
  sv :: abs_cnx
  up :: "client_msg list"
  down :: "server_msg list"

inductive session_step :: "session \<Rightarrow> session \<Rightarrow> bool" where
  Server: "session_step x (x\<lparr>sv := a, up := es, down := down x @ map server_msg_of reps\<rparr>)"
    if "up x = e # es" and "react e (sv x) = Some (a, reps)"
| Client: "session_step x (x\<lparr>cl := c, down := (if ef = Close_socket then [] else es),
      up := up x @ (if ef = Confirm_disconnection then [DisconnectionCnfMsg] else [])\<rparr>)"
    if "down x = e # es" and "obey e (cl x) = Some (c, ef)"
| Credentials: "session_step x (x\<lparr>cl := (cl x)\<lparr>s_state := CnxState.REGISTERING, s_pending := False\<rparr>,
      up := up x @ [RegistrationReqMsg (padded (s_name (cl x)) b1) (padded (s_email (cl x)) b3)
        (padded (s_passwd (cl x)) b2)]\<rparr>)"
    if "s_pending (cl x)" and "s_state (cl x) = CONNECTED_NO_CREDENTIALS"

text \<open>One of the two programs would abort on its next message or at its next poll.\<close>

definition aborts :: "session \<Rightarrow> bool" where
  "aborts x \<longleftrightarrow> (\<exists>e es. up x = e # es \<and> react e (sv x) = None)
     \<or> (\<exists>e es. down x = e # es \<and> obey e (cl x) = None)
     \<or> s_pending (cl x) \<and> s_state (cl x) \<noteq> CONNECTED_NO_CREDENTIALS"

text \<open>
  A client that has just been started and the server's fresh connection for it; \<open>b\<close> is the byte after the
  version in the request.
\<close>

definition fresh_client :: abs_client where
  "fresh_client = \<lparr>s_state = CONNECTING, s_pending = False, s_name = [], s_passwd = [], s_email = []\<rparr>"

definition fresh_server :: abs_cnx where
  "fresh_server = \<lparr>a_state = State.EMPTY, a_cause = CR_NO_CAUSE, a_name = [], a_email = [], a_pwd = []\<rparr>"

definition session_start :: "byte \<Rightarrow> session" where
  "session_start b = \<lparr>cl = fresh_client, sv = fresh_server,
     up = [ConnectionReqMsg (padded main_version b)], down = []\<rparr>"

abbreviation (input) "name0 \<equiv> bytes_of ''Alberto''"
abbreviation (input) "passwd0 \<equiv> bytes_of ''toto66''"
abbreviation (input) "email0 \<equiv> bytes_of ''alberto.alberto@zazou.com''"

definition client_with :: "CnxState \<Rightarrow> bool \<Rightarrow> abs_client" where
  "client_with st pending = \<lparr>s_state = st, s_pending = pending, s_name = name0, s_passwd = passwd0, s_email = email0\<rparr>"

definition server_with :: "byte \<Rightarrow> byte \<Rightarrow> byte \<Rightarrow> abs_cnx" where
  "server_with b1 b2 b3 = \<lparr>a_state = State.REGISTERED, a_cause = CR_NO_CAUSE, a_name = padded name0 b1,
     a_email = padded email0 b3, a_pwd = padded passwd0 b2\<rparr>"

text \<open>The states after each number of steps.\<close>

fun stage :: "byte \<Rightarrow> nat \<Rightarrow> session set" where
  "stage b 0 = {session_start b}"
| "stage b (Suc 0) = {if b = 0
     then \<lparr>cl = fresh_client, sv = fresh_server\<lparr>a_state := State.REGISTERING\<rparr>, up = [], down = [ConnectionCnfMsg]\<rparr>
     else \<lparr>cl = fresh_client, sv = fresh_server\<lparr>a_state := State.CONN_REJECTED, a_cause := BAD_CLIENT_VERSION\<rparr>, up = [],
       down = [ConnectionRejMsg (Some BAD_CLIENT_VERSION)]\<rparr>}"
| "stage b (Suc (Suc 0)) = {if b = 0
     then \<lparr>cl = client_with CONNECTED_NO_CREDENTIALS True, sv = fresh_server\<lparr>a_state := State.REGISTERING\<rparr>,
       up = [], down = []\<rparr>
     else \<lparr>cl = fresh_client, sv = fresh_server\<lparr>a_state := State.CONN_REJECTED, a_cause := BAD_CLIENT_VERSION\<rparr>, up = [],
       down = []\<rparr>}"
| "stage b (Suc (Suc (Suc 0))) = (if b = 0 then
     {\<lparr>cl = client_with CnxState.REGISTERING False, sv = fresh_server\<lparr>a_state := State.REGISTERING\<rparr>,
       up = [RegistrationReqMsg (padded name0 b1) (padded email0 b3) (padded passwd0 b2)], down = []\<rparr> | b1 b2 b3. True}
     else {})"
| "stage b (Suc (Suc (Suc (Suc 0)))) = (if b = 0 then
     {\<lparr>cl = client_with CnxState.REGISTERING False, sv = server_with b1 b2 b3, up = [], down = [RegistrationCnfMsg]\<rparr>
       | b1 b2 b3. True} else {})"
| "stage b (Suc (Suc (Suc (Suc (Suc 0))))) = (if b = 0 then
     {\<lparr>cl = client_with CnxState.REGISTERED False, sv = server_with b1 b2 b3, up = [], down = []\<rparr> | b1 b2 b3. True}
     else {})"
| "stage b (Suc (Suc (Suc (Suc (Suc (Suc n)))))) = {}"

lemma padded_eq [simp]: "padded v b = v \<longleftrightarrow> b = 0"
  by (simp add: padded_def)

lemma stage_step: "x \<in> stage b n \<Longrightarrow> session_step x y \<Longrightarrow> y \<in> stage b (Suc n)"
proof (induction b n rule: stage.induct)
  case (1 b)
  then show ?case
    by (auto simp: session_step.simps session_start_def fresh_client_def fresh_server_def split: if_splits)
next
  case (2 b)
  then show ?case
    by (auto simp: session_step.simps fresh_client_def fresh_server_def client_with_def split: if_splits)
next
  case (3 b)
  then show ?case
    by (auto simp: session_step.simps fresh_client_def fresh_server_def client_with_def split: if_splits)
next
  case (4 b)
  then show ?case
    by (auto simp: session_step.simps fresh_server_def client_with_def server_with_def split: if_splits)
      (rule exI, rule refl)+
next
  case (5 b)
  then show ?case
    by (auto simp: session_step.simps client_with_def server_with_def split: if_splits)
next
  case (6 b)
  then show ?case
    by (auto simp: session_step.simps client_with_def server_with_def split: if_splits)
qed simp

lemma stage_reached: "(session_step ^^ n) (session_start b) x \<Longrightarrow> x \<in> stage b n"
proof (induction n arbitrary: x)
  case (Suc n)
  then show ?case by (auto intro: stage_step)
qed simp


section \<open>Properties\<close>

text \<open>
  The handshake as a whole. Whatever bytes the memory held after the strings, no run makes a program abort
  or lasts more than five steps. A run that can go no further ends with client and server registered, the
  server keeping the credentials of the client, exactly when the byte after the version is 0; otherwise
  the server has refused the client and the client waits for ever.
\<close>

theorem handshake:
  assumes "(session_step ^^ n) (session_start b) x"
  shows "\<not> aborts x \<and> n \<le> 5
    \<and> (s_state (cl x) = CnxState.REGISTERED \<longrightarrow> a_state (sv x) = State.REGISTERED)
    \<and> ((\<nexists>y. session_step x y) \<longrightarrow>
        (if b = 0 then s_state (cl x) = CnxState.REGISTERED
            \<and> (\<exists>b1 b2 b3. credentials (sv x) = (padded (s_name (cl x)) b1, padded (s_email (cl x)) b3,
                padded (s_passwd (cl x)) b2))
         else s_state (cl x) = CONNECTING \<and> a_state (sv x) = State.CONN_REJECTED))"
proof -
  have "x \<in> stage b n" by (rule stage_reached [OF assms])
  then show ?thesis
  proof (induction b n rule: stage.induct)
    case (1 b)
    then show ?case
      by (auto simp: session_step.simps aborts_def session_start_def fresh_client_def fresh_server_def Let_def)
  next
    case (2 b)
    then show ?case
      by (auto simp: session_step.simps aborts_def fresh_client_def fresh_server_def split: if_splits)
  next
    case (3 b)
    then show ?case
      by (auto simp: session_step.simps aborts_def fresh_client_def fresh_server_def client_with_def split: if_splits)
  next
    case (4 b)
    then show ?case
      by (auto simp: session_step.simps aborts_def fresh_server_def client_with_def split: if_splits)
  next
    case (5 b)
    then show ?case
      by (auto simp: session_step.simps aborts_def client_with_def server_with_def split: if_splits)
  next
    case (6 b)
    then show ?case
      by (auto simp: aborts_def client_with_def server_with_def credentials_def split: if_splits)
  qed simp
qed

lemma handshake_witness:
  "\<exists>x. (session_step ^^ 1) (session_start 65) x \<and> \<not> aborts x
     \<and> down x = [ConnectionRejMsg (Some BAD_CLIENT_VERSION)]"
proof -
  let ?x = "(session_start 65)\<lparr>sv := fresh_server\<lparr>a_state := State.CONN_REJECTED, a_cause := BAD_CLIENT_VERSION\<rparr>,
    up := [], down := down (session_start 65) @ map server_msg_of [ConnectionRejRep BAD_CLIENT_VERSION]\<rparr>"
  have "session_step (session_start 65) ?x"
    by (rule session_step.Server [where e = "ConnectionReqMsg (padded main_version 65)" and es = "[]"])
      (simp_all add: session_start_def fresh_server_def)
  then have s: "(session_step ^^ 1) (session_start 65) ?x" by (simp only: relpowp_1)
  from handshake [OF this] have "\<not> aborts ?x" by (rule conjunct1)
  moreover have "down ?x = [ConnectionRejMsg (Some BAD_CLIENT_VERSION)]" by (simp add: session_start_def)
  ultimately show ?thesis using s by blast
qed

section \<open>From one program to the other\<close>

lemma msg_chunks_wire: "concat (map (\<lambda>p. concat (msg_chunks dir pad p)) ps) = concat (map (msg_wire dir pad) ps)"
  by (rule arg_cong [where f = concat], rule map_cong) (simp_all add: msg_wire_def)

text \<open>A stream depends on reception and on the fresh memory only.\<close>

lemma stream_at_cong:
  assumes "stream_at os fd arr fut k" "os_recv os' = os_recv os" "os_new os' = os_new os"
  shows "stream_at os' fd arr fut k"
proof (rule stream_at.coinduct [where X = "stream_at os fd", OF assms(1)], goal_cases)
  case (1 arr fut k)
  from 1 have step: "\<exists>j k'. os_recv os fd n peek k
        = (if arr @ take j fut = [] then Inl EWOULDBLOCK else Inr (take n (arr @ take j fut)), k')
      \<and> stream_at os fd (if peek then arr @ take j fut else drop n (arr @ take j fut)) (drop j fut) k'"
    if "0 < n" for n peek by (rule stream_at.cases) (use that in blast)
  from 1 have new: "stream_at os fd arr fut (snd (os_new os k))" by (rule stream_at.cases) blast
  have all: "\<forall>n peek. 0 < n \<longrightarrow> (\<exists>j k'. os_recv os fd n peek k
        = (if arr @ take j fut = [] then Inl EWOULDBLOCK else Inr (take n (arr @ take j fut)), k')
      \<and> (stream_at os fd (if peek then arr @ take j fut else drop n (arr @ take j fut)) (drop j fut) k'
        \<or> stream_at os' fd (if peek then arr @ take j fut else drop n (arr @ take j fut)) (drop j fut) k'))"
    using step by metis
  show ?case
    unfolding assms(2,3) by (intro exI conjI) (rule refl all disjI1 [OF new])+
qed

text \<open>A socket on which no message is under reception and none waits.\<close>

definition rx_fresh :: "MsgSocket \<Rightarrow> bool" where
  "rx_fresh x \<longleftrightarrow> rx_fifo x = [] \<and> rx_msg x = None \<and> rx_lenght x = 0"

lemma delivered:
  assumes "\<forall>p\<in>set ps. msg_ok p" "rx_at os s (concat (map (\<lambda>p. concat (msg_chunks dir pad p)) ps)) []"
    and "rx_fresh (sock s)" and "ps \<noteq> []"
  obtains s' new where "recvNextData os s = Some (Inr True, s')" "rx_fifo (sock s') = new"
    "list_all2 (carries dir) new ps"
proof -
  note f = assms(3) [unfolded rx_fresh_def]
  from recv_msgs [OF assms(1,2), of dir pad] f obtain s' new qs rs
    where r: "recvNextData os s = Some (Inr (new \<noteq> []), s')" "rx_fifo (sock s') = new" "ps = qs @ rs" "rs = []"
      "list_all2 (carries dir) new qs"
    by (auto simp: msg_chunks_wire)
  with assms(4) have "new \<noteq> []" by auto
  with r that show thesis by simp
qed

text \<open>
  Messages of a client that arrive on a connection of the server, whatever the rest of their memory holds:
  \<open>ev\<close> says what they mean.
\<close>

lemma client_messages_arrive:
  assumes own: "own_descr s" and k: "cnx s fd = Some c" "socket_descr (servSock c) = fd" "fd_valid fd"
    and st: "state c \<noteq> State.DISCONNECTING" and rx: "rx_fresh (servSock c)"
    and ps: "ps \<noteq> []" "\<forall>p\<in>set ps. msg_ok p"
    and at: "stream_at os fd (concat (map (\<lambda>p. concat (msg_chunks FROM_CLIENT pad p)) ps)) [] (kern s)"
    and ev: "\<And>p m. p \<in> set ps \<Longrightarrow> carries FROM_CLIENT m p \<Longrightarrow> decode_client_msg m = Some (ev p)"
    and re: "react_all (map ev ps) (abs_of c) = Some (a, reps)"
  shows "\<exists>t c' pre rs. socketDataRead os fd s = Some (Inr (), t) \<and> frame fd s t \<and> cnx t fd = Some c'
    \<and> abs_of c' = a \<and> tx_fifo (servSock c') = pre @ rs \<and> list_all2 is_reply reps rs"
proof -
  have "rx_at os (enter_sock s c) (concat (map (\<lambda>p. concat (msg_chunks FROM_CLIENT pad p)) ps)) []"
    using at k(2) by (simp add: rx_at_def enter_sock_def)
  moreover have "rx_fresh (sock (enter_sock s c))" using rx by (simp add: enter_sock_def)
  ultimately obtain x new where x: "recvNextData os (enter_sock s c) = Some (Inr True, x)"
      "rx_fifo (sock x) = new" "list_all2 (carries FROM_CLIENT) new ps"
    using delivered [OF ps(2) _ _ ps(1)] by blast
  define s1 where "s1 = leave_sock s fd c x"
  define c1 where "c1 = c\<lparr>servSock := sock x\<rparr>"
  have o: "sockO fd (recvNextData os) s = Some (Inr True, s1)" using k(1) x(1) by (simp add: sockO_def s1_def)
  have f1: "frame fd s s1" by (rule sockO_frame [OF own o]) (rule recvNextData_descr)
  have c1: "cnx s1 fd = Some c1" by (simp add: s1_def c1_def leave_sock_def cnx_def)
  have "map decode_client_msg new = map Some (map ev ps)"
    using x(3) ev by (induction rule: list_all2_induct) auto
  with x(2) have dec: "map decode_client_msg (rx_fifo (servSock c1)) = map Some (map ev ps)" by (simp add: c1_def)
  have d: "socket_descr (servSock c1) = fd"
    using recvNextData_descr [OF x(1)] k(2) by (simp add: c1_def enter_sock_def)
  have "state c1 \<noteq> State.DISCONNECTING" "abs_of c1 = abs_of c" using st by (simp_all add: c1_def abs_of_def)
  with session_reacts [OF frame_own [OF f1] c1 d k(3) _ dec, of os] re obtain t
    where t: "dispatch (nextReceived fd) (handle_client_message os fd) s1 = Some (Inr (), t)"
      "answered fd (drained [] c1) a reps t" "frame fd s1 t"
    by auto
  have "socketDataRead os fd s = Some (Inr (), t)" using o t(1) by (simp add: socketDataRead_def)
  moreover have "frame fd s t" by (rule frame_trans [OF f1 t(3)])
  ultimately show ?thesis using t(2) unfolding answered_def by fastforce
qed

lemma decode_replies:
  "list_all2 (carries FROM_SERVER) new ps \<Longrightarrow> list_all2 (\<lambda>rep p. is_reply rep (msg_request p)) reps ps
    \<Longrightarrow> map decode_server_msg new = map server_msg_of reps"
  by (induction new ps arbitrary: reps rule: list_all2_induct) (auto simp: list_all2_Cons2 decode_reply)

lemma StartConnection_queues:
  assumes "from_dir (sock c) = FROM_CLIENT" and "StartConnectionToServer os c = (Inr (), c1)"
  shows "\<exists>m b. tx_fifo (sock c1) = tx_fifo (sock c) @ [msg_request (CONNECTION_REQ, m, 32)]
    \<and> cstring m 8192 0 = Some (padded main_version b)"
proof -
  from assms(2) obtain x s1 where s1: "set_cnx_state CONNECTING c = (Inr x, s1)"
    "andThen (onSock (connect os)) (\<lambda>_. sendConnectionReq os) s1 = (Inr (), c1)"
    unfolding StartConnectionToServer_def by (rule andThen_InrE)
  from s1(2) obtain y s2 where s2: "onSock (connect os) s1 = (Inr y, s2)" "sendConnectionReq os s2 = (Inr (), c1)"
    by (rule andThen_InrE)
  have sk: "sock s1 = sock c" using s1(1) by (auto simp: set_cnx_state_simp split: if_splits)
  obtain r k where "os_connect os (socket_descr (sock s1)) (peer_ip_addr (sock s1)) (kern s1) = (r, k)" by fastforce
  from connect_cases [OF _ this] assms(1) s2(1) sk have "tx_fifo (sock s2) = tx_fifo (sock c)" by auto
  moreover from sendConnectionReq_queues [of os s2] s2(2) obtain k m q where
    q: "c1 = s2\<lparr>kern := k, sock := sendMsg q (sock s2)\<rparr>" "l2_payload_length q = 32" "nb_payload_bytes_sent q = 0"
      "kind q = MsgRequest CONNECTION_REQ m"
      "cstring m 8192 0 = Some (padded main_version (fst (os_new os (kern s2)) (length main_version)))"
    by auto
  moreover from q(2-4) have "q = msg_request (CONNECTION_REQ, m, 32)" by (cases q) (simp add: msg_request_def)
  ultimately show ?thesis
    by (intro exI [of _ m] exI [of _ "fst (os_new os (kern s2)) (length main_version)"]) (simp add: sendMsg_def)
qed

lemma msg_request_inj: "msg_request p = msg_request q \<longleftrightarrow> p = q"
  by (cases p; cases q) (auto simp: msg_request_def)

text \<open>The byte after the version in a request decides whether the version is read back.\<close>

lemma version_byte:
  assumes "cstring m 8192 0 = Some (padded main_version b)" shows "b = 0 \<longleftrightarrow> m (length main_version) = 0"
proof -
  note d = cstring_SomeD [OF assms]
  have "read_bytes m 0 (length (padded main_version b)) = padded main_version b" using d by simp
  then have "read_bytes m 0 19 = main_version @ [b]" if "b \<noteq> 0" using that by (simp add: padded_def)
  then have "read_bytes m 0 19 ! 18 = (main_version @ [b]) ! 18" if "b \<noteq> 0" using that by metis
  moreover have "(main_version @ [b]) ! 18 = b" "read_bytes m 0 19 ! 18 = m 18" by (simp_all add: nth_append)
  ultimately have "b \<noteq> 0 \<Longrightarrow> m 18 = b" by simp
  moreover have "b = 0 \<Longrightarrow> m 18 = 0" using d by (simp add: padded_def)
  ultimately show ?thesis by auto
qed

lemma credentials_queued:
  assumes "ext_event (conn c) = {NEW_CREDENTIALS}" and "creds_fit (conn c)"
    and "cnx_state (conn c) = CONNECTED_NO_CREDENTIALS"
  shows "\<exists>c1 m b1 b2 b3. handleExtEvents os c = (Inr (), c1)
    \<and> tx_fifo (sock c1) = tx_fifo (sock c) @ [msg_request (REGISTRATION_REQ, m, 192)]
    \<and> cstring m 8192 0 = Some (padded (ClientConnection.user_name (conn c)) b1)
    \<and> cstring m 8160 off_password = Some (padded (user_passwd (conn c)) b2)
    \<and> cstring m 8128 off_mail_address = Some (padded (ClientConnection.user_email (conn c)) b3)"
proof -
  define s1 where "s1 = c\<lparr>conn := (conn c)\<lparr>cnx_state := CONNECTED\<rparr>\<rparr>"
  have "creds_fit (conn s1)" using assms(2) by (simp add: s1_def creds_fit_def)
  from sendRegistrationReq_queues [OF this, of os] obtain k m r b where
    r: "sendRegistrationReq os s1 = (Inr (), s1\<lparr>kern := k, sock := sendMsg r (sock s1)\<rparr>)"
      "l2_payload_length r = 192" "nb_payload_bytes_sent r = 0" "kind r = MsgRequest REGISTRATION_REQ m" and
    m: "cstring m 8192 0 = Some (padded (ClientConnection.user_name (conn c)) (b (length (ClientConnection.user_name (conn c)))))"
      "cstring m 8160 off_password = Some (padded (user_passwd (conn c)) (b (off_password + length (user_passwd (conn c)))))"
      "cstring m 8128 off_mail_address = Some (padded (ClientConnection.user_email (conn c))
        (b (off_mail_address + length (ClientConnection.user_email (conn c)))))"
    by (auto simp: s1_def)
  from r(2-4) have "r = msg_request (REGISTRATION_REQ, m, 192)" by (cases r) (simp add: msg_request_def)
  moreover have "handleExtEvents os c = (Inr (), c\<lparr>kern := k, sock := sendMsg r (sock c),
      conn := (conn c)\<lparr>cnx_state := CnxState.REGISTERING, ext_event := {}\<rparr>\<rparr>)"
    using assms(1,3) r(1) by (simp add: handleExtEvents_def handleOneExtEvent_def set_cnx_state_simp s1_def)
  ultimately show ?thesis using m by (auto simp: sendMsg_def)
qed

section \<open>Properties across the wire\<close>

text \<open>
  C2. A client starts and its request reaches the server's fresh connection: the server accepts it and queues
  its confirmation exactly when the byte that the client's memory held after the version is 0, and refuses
  its own version otherwise.
\<close>

theorem connection_request_delivered:
  assumes "from_dir (sock c) = FROM_CLIENT" and "StartConnectionToServer cos c = (Inr (), c1)"
    and "tx_fifo (sock c1) = tx_fifo (sock c) @ [msg_request (i, m, n)]"
    and "own_descr s" and "cnx s fd = Some k" and "socket_descr (servSock k) = fd" and "fd_valid fd"
    and "state k = State.EMPTY" and "rx_fresh (servSock k)"
    and "stream_at sos fd (concat (msg_chunks FROM_CLIENT pad (i, m, n))) [] (kern s)"
  shows "\<exists>t k' pre r. socketDataRead sos fd s = Some (Inr (), t) \<and> cnx t fd = Some k'
    \<and> tx_fifo (servSock k') = pre @ [r]
    \<and> (if m (length main_version) = 0 then state k' = State.REGISTERING \<and> is_reply ConnectionCnfRep r
       else state k' = State.CONN_REJECTED \<and> is_reply (ConnectionRejRep BAD_CLIENT_VERSION) r)"
proof -
  from StartConnection_queues [OF assms(1,2)] assms(3) obtain b where
    p: "i = CONNECTION_REQ" "n = 32" and m: "cstring m 8192 0 = Some (padded main_version b)"
    by (auto simp: msg_request_inj)
  have ev: "decode_client_msg x = Some (ConnectionReqMsg (padded main_version b))" if "carries FROM_CLIENT x (i, m, n)" for x
    using that length_padded [of main_version b] by (intro decode_connection_req) (use p m in simp_all)
  have "\<exists>a rep. react (ConnectionReqMsg (padded main_version b)) (abs_of k) = Some (a, [rep])
      \<and> (if b = 0 then a_state a = State.REGISTERING \<and> rep = ConnectionCnfRep
         else a_state a = State.CONN_REJECTED \<and> rep = ConnectionRejRep BAD_CLIENT_VERSION)"
    using assms(8) by (cases "b = 0") (simp_all add: abs_of_def Let_def)
  then obtain a rep where re: "react (ConnectionReqMsg (padded main_version b)) (abs_of k) = Some (a, [rep])"
    and a: "if b = 0 then a_state a = State.REGISTERING \<and> rep = ConnectionCnfRep
      else a_state a = State.CONN_REJECTED \<and> rep = ConnectionRejRep BAD_CLIENT_VERSION" by blast
  from client_messages_arrive [where ps = "[(i, m, n)]" and ev = "\<lambda>_. ConnectionReqMsg (padded main_version b)"
      and os = sos and pad = pad and a = a and reps = "[rep]", OF assms(4-7) _ assms(9)]
  obtain t k' pre rs where t: "socketDataRead sos fd s = Some (Inr (), t)" "cnx t fd = Some k'" "abs_of k' = a"
    "tx_fifo (servSock k') = pre @ rs" "list_all2 is_reply [rep] rs"
    using assms(8,10) p ev re by (auto simp: msg_ok_def)
  from t(5) obtain r where "rs = [r]" "is_reply rep r" by (auto simp: list_all2_Cons1)
  with t a version_byte [OF m] show ?thesis by (auto simp: abs_of_def)
qed

text \<open>A server whose client 5 has sent the given bytes.\<close>

definition server_with_bytes :: "State \<Rightarrow> byte list \<Rightarrow> byte list server" where
  "server_with_bytes st bs = sample_server bs (sample_cnx st [])"

lemma sample_cnx_rx_fresh: "rx_fresh (servSock (sample_cnx st []))"
  by (simp add: rx_fresh_def sample_cnx_def new_ServerClientConnection_def new_MsgSocket_def rxReset_def)

lemma server_with_bytes_facts:
  "own_descr (server_with_bytes st bs)" "cnx (server_with_bytes st bs) 5 = Some (sample_cnx st [])"
  "stream_at buffer_os 5 bs [] (kern (server_with_bytes st bs))"
proof -
  show "own_descr (server_with_bytes st bs)" "cnx (server_with_bytes st bs) 5 = Some (sample_cnx st [])"
    unfolding server_with_bytes_def by (rule sample_server_facts)+
  have "kern (server_with_bytes st bs) = bs" by (simp add: server_with_bytes_def sample_server_def)
  then show "stream_at buffer_os 5 bs [] (kern (server_with_bytes st bs))" by (simp add: buffer_stream)
qed

lemma connection_request_delivered_witness:
  "\<exists>c1 m t k'. StartConnectionToServer (failing_os\<lparr>os_connect := \<lambda>fd a. Pair (Inl EINPROGRESS)\<rparr>)
       (sample_client () NO_SOCKET {}) = (Inr (), c1)
     \<and> tx_fifo (sock c1) = [msg_request (CONNECTION_REQ, m, 32)]
     \<and> socketDataRead buffer_os 5 (server_with_bytes State.EMPTY (concat (msg_chunks FROM_CLIENT 9 (CONNECTION_REQ, m, 32))))
         = Some (Inr (), t)
     \<and> cnx t 5 = Some k' \<and> state k' \<in> {State.REGISTERING, State.CONN_REJECTED}"
proof -
  let ?c = "sample_client () NO_SOCKET {}" and ?os = "failing_os\<lparr>os_connect := \<lambda>fd a. Pair (Inl EINPROGRESS)\<rparr>"
  have f: "from_dir (sock ?c) = FROM_CLIENT" by (rule sample_client_sel)
  have e: "tx_fifo (sock ?c) = []" by (simp add: sample_client_def new_MsgSocket_def rxReset_def)
  let ?d = "?c\<lparr>conn := (conn ?c)\<lparr>cnx_state := CONNECTING\<rparr>\<rparr>"
  have "fst (onSock (connect ?os) ?d) = Inr ()"
    by (subst connect_cases [of ?d ?os "Inl EINPROGRESS" "()"]) simp_all
  then obtain s2 where "onSock (connect ?os) ?d = (Inr (), s2)" by (cases "onSock (connect ?os) ?d") simp
  moreover from sendConnectionReq_queues [of ?os s2] obtain c1 where "sendConnectionReq ?os s2 = (Inr (), c1)" by blast
  moreover have "set_cnx_state CONNECTING ?c = (Inr (), ?d)" by (simp only: set_cnx_state_simp) simp
  ultimately have c1: "StartConnectionToServer ?os ?c = (Inr (), c1)"
    by (simp only: StartConnectionToServer_def andThen_Inr)
  from StartConnection_queues [OF f c1] e obtain m where m: "tx_fifo (sock c1) = [msg_request (CONNECTION_REQ, m, 32)]"
    by auto
  then have q: "tx_fifo (sock c1) = tx_fifo (sock ?c) @ [msg_request (CONNECTION_REQ, m, 32)]" using e by simp
  note s = server_with_bytes_facts [where st = State.EMPTY and bs = "concat (msg_chunks FROM_CLIENT 9 (CONNECTION_REQ, m, 32))"]
  from connection_request_delivered [OF f c1 q s(1,2) sample_server_facts(3,4,5) sample_cnx_rx_fresh s(3)] obtain t k'
    where "socketDataRead buffer_os 5 (server_with_bytes State.EMPTY (concat (msg_chunks FROM_CLIENT 9 (CONNECTION_REQ, m, 32))))
         = Some (Inr (), t)" "cnx t 5 = Some k'" "state k' \<in> {State.REGISTERING, State.CONN_REJECTED}"
    by (auto split: if_splits)
  with c1 m show ?thesis by blast
qed

text \<open>
  C8. The credentials a client sends reach a server that waits for them: the connection becomes registered and
  keeps the three strings, each followed by a byte of the client's memory unless that was 0. It supposes
  \<open>creds_fit\<close>: a name and a password of at most 30 characters and a mail address of at most 126, without zero
  bytes. The code lets one character more through in each, and then more than one stray byte can follow, because the NUL
  of the longer string is stored behind its field, where the next field or the end of the message is.
\<close>

theorem credentials_delivered:
  assumes "ext_event (conn c) = {NEW_CREDENTIALS}" and "creds_fit (conn c)"
    and "handleExtEvents cos c = (Inr (), c1)" and "tx_fifo (sock c1) = tx_fifo (sock c) @ [msg_request (i, m, n)]"
    and "own_descr s" and "cnx s fd = Some k" and "socket_descr (servSock k) = fd" and "fd_valid fd"
    and "state k = State.REGISTERING" and "rx_fresh (servSock k)"
    and "stream_at sos fd (concat (msg_chunks FROM_CLIENT pad (i, m, n))) [] (kern s)"
  shows "\<exists>t k' pre r b1 b2 b3. socketDataRead sos fd s = Some (Inr (), t) \<and> cnx t fd = Some k'
    \<and> state k' = State.REGISTERED
    \<and> ServerConnection.user_name k' = padded (ClientConnection.user_name (conn c)) b1
    \<and> user_pwd k' = padded (user_passwd (conn c)) b2
    \<and> ServerConnection.user_email k' = padded (ClientConnection.user_email (conn c)) b3
    \<and> tx_fifo (servSock k') = pre @ [r] \<and> is_reply RegistrationCnfRep r"
proof -
  let ?c = "conn c"
  have st: "cnx_state ?c = CONNECTED_NO_CREDENTIALS"
    using assms(1,3) by (auto simp: handleExtEvents_def handleOneExtEvent_def andThen_def set_cnx_state_simp split: if_splits)
  from credentials_queued [OF assms(1,2) st, of cos] assms(3,4) obtain b1 b2 b3
    where p: "i = REGISTRATION_REQ" "n = 192"
      and b: "cstring m 8192 0 = Some (padded (ClientConnection.user_name ?c) b1)"
      "cstring m 8160 off_password = Some (padded (user_passwd ?c) b2)"
      "cstring m 8128 off_mail_address = Some (padded (ClientConnection.user_email ?c) b3)"
    by (auto simp: msg_request_inj)
  let ?ev = "RegistrationReqMsg (padded (ClientConnection.user_name ?c) b1)
    (padded (ClientConnection.user_email ?c) b3) (padded (user_passwd ?c) b2)"
  have ev: "decode_client_msg x = Some ?ev" if "carries FROM_CLIENT x (i, m, n)" for x
    using that length_padded [of "ClientConnection.user_name ?c" b1] length_padded [of "user_passwd ?c" b2]
      length_padded [of "ClientConnection.user_email ?c" b3] assms(2)
    by (intro decode_registration_req) (use p b in \<open>simp_all add: creds_fit_def\<close>)
  obtain a where re: "react ?ev (abs_of k) = Some (a, [RegistrationCnfRep])"
    and a: "a_state a = State.REGISTERED" "a_name a = padded (ClientConnection.user_name ?c) b1"
      "a_email a = padded (ClientConnection.user_email ?c) b3" "a_pwd a = padded (user_passwd ?c) b2"
    using assms(9) by (simp add: abs_of_def)
  from client_messages_arrive [where ps = "[(i, m, n)]" and ev = "\<lambda>_. ?ev" and os = sos and pad = pad
      and a = a and reps = "[RegistrationCnfRep]", OF assms(5-8) _ assms(10)]
  obtain t k' pre rs where t: "socketDataRead sos fd s = Some (Inr (), t)" "cnx t fd = Some k'" "abs_of k' = a"
    "tx_fifo (servSock k') = pre @ rs" "list_all2 is_reply [RegistrationCnfRep] rs"
    using assms(9,11) p ev re by (auto simp: msg_ok_def)
  from t(5) obtain r' where "rs = [r']" "is_reply RegistrationCnfRep r'" by (auto simp: list_all2_Cons1)
  with t a show ?thesis by (intro exI [of _ t] exI [of _ k'] exI) (auto simp: abs_of_def)
qed

lemma credentials_delivered_witness:
  "\<exists>c1 m t k'. handleExtEvents failing_os (sample_client () CONNECTED_NO_CREDENTIALS {NEW_CREDENTIALS}) = (Inr (), c1)
     \<and> tx_fifo (sock c1) = [msg_request (REGISTRATION_REQ, m, 192)]
     \<and> socketDataRead buffer_os 5
         (server_with_bytes State.REGISTERING (concat (msg_chunks FROM_CLIENT 9 (REGISTRATION_REQ, m, 192)))) = Some (Inr (), t)
     \<and> cnx t 5 = Some k' \<and> state k' = State.REGISTERED"
proof -
  let ?c = "sample_client () CONNECTED_NO_CREDENTIALS {NEW_CREDENTIALS}"
  have e: "tx_fifo (sock ?c) = []" by (simp add: sample_client_def new_MsgSocket_def rxReset_def)
  from credentials_queued [where c = ?c and os = failing_os, OF sample_client_sel(3,6,2)] obtain c1 m where
    c1: "handleExtEvents failing_os ?c = (Inr (), c1)"
      "tx_fifo (sock c1) = tx_fifo (sock ?c) @ [msg_request (REGISTRATION_REQ, m, 192)]"
    by (elim exE conjE) (rule that)
  note s = server_with_bytes_facts [where st = State.REGISTERING and bs = "concat (msg_chunks FROM_CLIENT 9 (REGISTRATION_REQ, m, 192))"]
  from credentials_delivered [OF sample_client_sel(3,6) c1 s(1,2) sample_server_facts(3,4,5) sample_cnx_rx_fresh s(3)] c1 e
  show ?thesis by fastforce
qed

text \<open>
  C10. The replies of the server that arrive in one poll of the client: the poll takes the client through the
  protocol \<open>obey\<close> on exactly those replies, in their order, and aborts exactly where it has no reaction.
\<close>

theorem replies_delivered:
  assumes live: "cnx_state_val (cnx_state (conn c)) > cnx_state_val NO_CONNECTION" "ext_event (conn c) = {}"
    and p: "os_poll os (socket_descr (sock c)) (poll_events (sock c)) (kern c) = (Inr (Some POLLRDNORM), k)"
    and rx: "rx_fresh (sock c)" and ps: "ps \<noteq> []" "list_all2 (\<lambda>rep p. is_reply rep (msg_request p)) reps ps"
    and at: "stream_at os (socket_descr (sock c)) (concat (map (\<lambda>p. concat (msg_chunks FROM_SERVER pad p)) ps)) [] k"
  shows "case obey_all (map server_msg_of reps) (abs_client_of (conn c)) of
      None \<Rightarrow> \<exists>t. cnx_poll os c = Some (Inl AssertFailed, t)
    | Some (a, n, closed) \<Rightarrow> \<exists>t. cnx_poll os c = Some (Inr (), t) \<and> abs_client_of (conn t) = a"
proof -
  let ?x = "\<lparr>kern = kern c, errno = errno c, sock = sock c\<rparr>"
  have ok: "\<forall>p\<in>set ps. msg_ok p"
  proof
    fix p assume "p \<in> set ps"
    with ps(2) obtain rep where "is_reply rep (msg_request p)"
      by (metis in_set_conv_nth list_all2_conv_all_nth)
    then obtain i b n where "msg_request p = msg_request (i, b, n)" "msg_ok (i, b, n)" by (rule is_reply_request)
    then show "msg_ok p" by (cases p) (auto simp: msg_request_def msg_ok_def)
  qed
  have "rx_at os (?x\<lparr>kern := k\<rparr>) (concat (map (\<lambda>p. concat (msg_chunks FROM_SERVER pad p)) ps)) []"
    using at by (simp add: rx_at_def)
  moreover have "rx_fresh (sock (?x\<lparr>kern := k\<rparr>))" using rx by simp
  ultimately obtain y new where y: "recvNextData os (?x\<lparr>kern := k\<rparr>) = Some (Inr True, y)"
      "rx_fifo (sock y) = new" "list_all2 (carries FROM_SERVER) new ps"
    using delivered [OF ok _ _ ps(1)] by blast
  have "poll os ?x = Some (Inr True, y)"
    using poll_simps(2) [of os ?x POLLRDNORM k] p y(1) by (simp add: poll_read_def poll_write_def)
  then have ps': "poll_socket os c = Some (Inr True, c\<lparr>kern := kern y, errno := errno y, sock := sock y\<rparr>)"
    by (simp add: poll_socket_def)
  define c1 where "c1 = c\<lparr>kern := kern y, errno := errno y, sock := sock y\<rparr>"
  have dec: "map decode_server_msg (rx_fifo (sock c1)) = map server_msg_of reps"
    using decode_replies [OF y(3) ps(2)] y(2) by (simp add: c1_def)
  have "cnx_poll os c = (case dispatch nextFromServer (handle_server_message os) c1 of
      Some (Inl (SocketDisconnection e), t) \<Rightarrow> Some (set_cnx_state NO_CONNECTION t) | r \<Rightarrow> r)"
    using live ps' by (simp add: cnx_poll_eq poll_body_def handleExtEvents_def c1_def)
  moreover have "conn c1 = conn c" by (simp add: c1_def)
  ultimately show ?thesis
    using client_session_obeys [OF dec, of os] by (auto split: option.splits)
qed



definition readable_os :: "byte list os" where
  "readable_os = buffer_os\<lparr>os_poll := \<lambda>fd events. Pair (Inr (Some POLLRDNORM))\<rparr>"

lemma replies_delivered_witness:
  "\<exists>t. cnx_poll readable_os (sample_client (concat (msg_chunks FROM_SERVER 9 (CONNECTION_CNF, \<lambda>_. 0, 132))) CONNECTING {})
       = Some (Inr (), t)
     \<and> s_state (abs_client_of (conn t)) = CONNECTED_NO_CREDENTIALS"
proof -
  let ?p = "(CONNECTION_CNF, (\<lambda>_. 0) :: mem, 132)"
  let ?bs = "concat (msg_chunks FROM_SERVER 9 ?p)"
  let ?c = "sample_client ?bs CONNECTING {}"
  have "is_reply ConnectionCnfRep (msg_request ?p)"
    by (simp add: msg_of_request get_enum_def load32_def load16_def read_bytes_zero)
  then have r: "list_all2 (\<lambda>rep p. is_reply rep (msg_request p)) [ConnectionCnfRep] [?p]" by simp
  have rx: "rx_fresh (sock ?c)" by (simp add: rx_fresh_def sample_client_def new_MsgSocket_def rxReset_def)
  have p: "os_poll readable_os (socket_descr (sock ?c)) (poll_events (sock ?c)) (kern ?c) = (Inr (Some POLLRDNORM), ?bs)"
    by (simp add: readable_os_def)
  have "stream_at readable_os 5 ?bs [] ?bs"
    by (rule stream_at_cong [OF buffer_stream]) (simp_all add: readable_os_def)
  then have at: "stream_at readable_os (socket_descr (sock ?c)) (concat (map (\<lambda>p. concat (msg_chunks FROM_SERVER 9 p)) [?p])) [] ?bs"
    by simp
  from replies_delivered [OF _ _ p rx _ r at] show ?thesis
    by (auto simp: abs_client_of_def split: if_splits)
qed

section \<open>A connection registered over two readings\<close>

lemma nothing_pending:
  assumes "rx_inv os s arr fut [] []" shows "rx_msg (sock s) = None \<and> rx_lenght (sock s) = 0"
proof -
  have e: "bs = []" if "MsgSocket.frames bs = Some ([], [])" for bs
    using that by (subst (asm) MsgSocket.frames.simps) (auto simp: Let_def split: if_splits)
  from e [of "rx_partial (sock s) @ arr @ fut"] assms have "rx_partial (sock s) = []" "rx_ok (sock s)"
    by (simp_all add: rx_inv_def)
  then show ?thesis
    by (auto simp: rx_partial_def rx_ok_def split: option.splits dest!: arg_cong [where f = length])
qed

lemma reading_lives:
  fixes s :: "'k server"
  assumes life: "life fd log s" and o: "open_cnx s fd c" and st: "state c \<noteq> State.DISCONNECTING"
    and rx: "rx_fresh (servSock c)" and ok: "\<forall>p\<in>set ps. msg_ok p"
    and at: "stream_at os fd (concat (map (msg_wire FROM_CLIENT pad) ps)) [] (kern s)"
    and ev: "\<And>p m. p \<in> set ps \<Longrightarrow> carries FROM_CLIENT m p \<Longrightarrow> decode_client_msg m = Some (ev p)"
    and re: "react_all (map ev ps) (abs_of c) = Some (a, reps)"
  obtains t :: "'k server" and c' new where "life fd (log @ new) t" "list_all2 (carries FROM_CLIENT) new ps" "open_cnx t fd c'"
    "abs_of c' = a" "rx_fresh (servSock c')"
proof -
  have k: "cnx s fd = Some c" "socket_descr (servSock c) = fd" "fd_valid fd" using o by (simp_all add: open_cnx_def)
  have own: "own_descr s" using life_in_protocol [OF life] by blast
  have "rx_at os (enter_sock s c) (concat (map (msg_wire FROM_CLIENT pad) ps)) []"
    using at k(2) by (simp add: rx_at_def enter_sock_def)
  moreover have "rx_msg (sock (enter_sock s c)) = None" "rx_lenght (sock (enter_sock s c)) = 0"
      "rx_fifo (sock (enter_sock s c)) = []"
    using rx by (simp_all add: enter_sock_def rx_fresh_def)
  ultimately obtain x new arr fut where x: "recvNextData os (enter_sock s c) = Some (Inr (new \<noteq> []), x)"
      "rx_fifo (sock x) = new" "list_all2 (carries FROM_CLIENT) new ps" "rx_inv os x arr fut [] []"
    using recv_msgs [OF ok, of os "enter_sock s c" _ "[]" FROM_CLIENT pad] by fastforce
  define s1 where "s1 = leave_sock s fd c x"
  define c1 where "c1 = c\<lparr>servSock := sock x\<rparr>"
  have o1: "sockO fd (recvNextData os) s = Some (Inr (new \<noteq> []), s1)" using k(1) x(1) by (simp add: sockO_def s1_def)
  have f1: "frame fd s s1" by (rule sockO_frame [OF own o1]) (rule recvNextData_descr)
  have c1: "cnx s1 fd = Some c1" by (simp add: s1_def c1_def leave_sock_def cnx_def)
  have "map decode_client_msg new = map Some (map ev ps)"
    using x(3) ev by (induction rule: list_all2_induct) auto
  with x(2) have dec: "map decode_client_msg (rx_fifo (servSock c1)) = map Some (map ev ps)" by (simp add: c1_def)
  have d: "socket_descr (servSock c1) = fd"
    using recvNextData_descr [OF x(1)] k(2) by (simp add: c1_def enter_sock_def)
  have "state c1 \<noteq> State.DISCONNECTING" "abs_of c1 = abs_of c" using st by (simp_all add: c1_def abs_of_def)
  with session_reacts [OF frame_own [OF f1] c1 d k(3) _ dec, of os] re obtain t
    where t: "dispatch (nextReceived fd) (handle_client_message os fd) s1 = Some (Inr (), t)"
      "answered fd (drained [] c1) a reps t"
    by auto
  from t(2) obtain c' where c': "cnx t fd = Some c'" "abs_of c' = a" "rx_fifo (servSock c') = []"
      "socket_descr (servSock c') = fd" "rx_msg (servSock c') = rx_msg (sock x)"
      "rx_lenght (servSock c') = rx_lenght (sock x)"
    using d by (auto simp: answered_def c1_def)
  have read: "socketDataRead os fd s = Some (Inr (), t)" using o1 t(1) by (simp add: socketDataRead_def)
  have new: "new = (case Inr (new \<noteq> []) of Inr _ \<Rightarrow> received fd s1 | Inl _ \<Rightarrow> [])"
    using c1 x(2) by (simp add: received_def c1_def)
  have "life fd (log @ new) t" by (rule life.Reads [OF life o1 new read]) simp
  then show thesis
    by (rule that) (use x(3) c' k(3) nothing_pending [OF x(4)] in \<open>simp_all add: open_cnx_def rx_fresh_def\<close>)
qed

text \<open>A request with the given strings in its body, and the bytes of one message in the kernel's buffer.\<close>

definition body_with :: "(nat \<times> byte list) list \<Rightarrow> mem" where
  "body_with fs = fold (\<lambda>(p, v) m. write_bytes m p v) fs (\<lambda>_. 0)"

definition conn_req :: "ClientServerL1MessageId \<times> mem \<times> nat" where
  "conn_req = (CONNECTION_REQ, body_with [(0, main_version)], 32)"

definition reg_req :: "ClientServerL1MessageId \<times> mem \<times> nat" where
  "reg_req = (REGISTRATION_REQ, body_with [(0, [98, 111, 98]), (32, [112, 119]), (64, [98, 64, 99])], 192)"

lemma sample_requests_decode:
  "carries FROM_CLIENT m conn_req \<Longrightarrow> decode_client_msg m = Some (ConnectionReqMsg main_version)"
  "carries FROM_CLIENT m reg_req \<Longrightarrow> decode_client_msg m = Some (RegistrationReqMsg [98, 111, 98] [98, 64, 99] [112, 119])"
proof -
  have "cstring (body_with [(0, main_version)]) 8192 0 = Some main_version"
    by (intro cstring_eq_Some) (auto simp: body_with_def write_bytes_def read_bytes_eq_iff)
  then show "carries FROM_CLIENT m conn_req \<Longrightarrow> decode_client_msg m = Some (ConnectionReqMsg main_version)"
    unfolding conn_req_def by (rule decode_connection_req [rotated]) simp_all
  let ?b = "body_with [(0, [98, 111, 98]), (32, [112, 119]), (64, [98, 64, 99])]"
  have "cstring ?b 8192 0 = Some [98, 111, 98]" "cstring ?b 8160 32 = Some [112, 119]" "cstring ?b 8128 64 = Some [98, 64, 99]"
    by (intro cstring_eq_Some; auto simp: body_with_def write_bytes_def read_bytes_eq_iff less_Suc_eq)+
  then show "carries FROM_CLIENT m reg_req
      \<Longrightarrow> decode_client_msg m = Some (RegistrationReqMsg [98, 111, 98] [98, 64, 99] [112, 119])"
    unfolding reg_req_def by (rule_tac decode_registration_req) (simp_all add: off_password_def off_mail_address_def)
qed

lemma registration_requires_handshake_witness:
  "\<exists>m1 m2 t c. life 5 [m1, m2] (t :: byte list server) \<and> cnx t 5 = Some c \<and> state c = State.REGISTERED
     \<and> ServerConnection.user_name c = [98, 111, 98]"
proof -
  let ?wire = "msg_wire FROM_CLIENT 9"
  let ?c = "sample_cnx State.EMPTY []" and ?s = "server_with_bytes State.EMPTY (?wire conn_req)"
  note s = server_with_bytes_facts [where st = State.EMPTY and bs = "?wire conn_req"]
  have new: "?c = new_ServerClientConnection (servSock ?c)"
    by (simp add: sample_cnx_def new_ServerClientConnection_def)
  have n: "cnx ?s 5 = Some (new_ServerClientConnection (servSock ?c))" by (rule trans [OF s(2)]) (rule arg_cong [OF new])
  have born: "life 5 [] ?s"
    by (rule life.Born [OF s(1) _ n]) (simp_all add: sample_server_facts)
  have o: "open_cnx ?s 5 ?c" using s(2) by (simp add: open_cnx_def sample_server_facts)
  have ok: "\<forall>p\<in>set [conn_req]. msg_ok p" "\<forall>p\<in>set [reg_req]. msg_ok p"
    by (simp_all add: conn_req_def reg_req_def msg_ok_def)
  from s(3) have at: "stream_at buffer_os 5 (concat (map ?wire [conn_req])) [] (kern ?s)" by simp
  have a: "abs_of ?c = newborn" by (rule trans [OF arg_cong [OF new]]) (rule abs_of_new)
  obtain t1 :: "byte list server" and c1 new1 where 1: "life 5 ([] @ new1) t1" "list_all2 (carries FROM_CLIENT) new1 [conn_req]" "open_cnx t1 5 c1"
    "abs_of c1 = newborn\<lparr>a_state := State.REGISTERING\<rparr>" "rx_fresh (servSock c1)"
  proof (rule reading_lives [OF born o _ sample_cnx_rx_fresh ok(1) at, where ev = "\<lambda>_. ConnectionReqMsg main_version"
        and a = "newborn\<lparr>a_state := State.REGISTERING\<rparr>" and reps = "[ConnectionCnfRep]"])
    show "decode_client_msg m = Some (ConnectionReqMsg main_version)" if "p \<in> set [conn_req]" "carries FROM_CLIENT m p" for p m
      using that sample_requests_decode(1) by simp
  qed ((rule that; assumption) | simp add: a newborn_def sample_server_facts)+
  let ?t = "t1\<lparr>kern := ?wire reg_req\<rparr>"
  have own: "own_descr t1" using life_in_protocol [OF 1(1)] by blast
  then have life2: "life 5 ([] @ new1) ?t"
    by (intro life.Elsewhere [OF 1(1)]) (simp_all add: own_descr_def cnx_def)
  have o2: "open_cnx ?t 5 c1" using 1(3) by (simp add: open_cnx_def cnx_def)
  have at2: "stream_at buffer_os 5 (concat (map ?wire [reg_req])) [] (kern ?t)" using buffer_stream by simp
  have st: "state c1 = State.REGISTERING" using arg_cong [OF 1(4), of a_state] by (simp add: abs_of_def)
  let ?ev = "RegistrationReqMsg [98, 111, 98] [98, 64, 99] [112, 119]"
  have re: "\<exists>b reps. react_all (map (\<lambda>_. ?ev) [reg_req]) (abs_of c1) = Some (b, reps) \<and> a_state b = State.REGISTERED"
    unfolding 1(4) by (simp add: newborn_def)
  then obtain b reps where re: "react_all (map (\<lambda>_. ?ev) [reg_req]) (abs_of c1) = Some (b, reps)"
    and b: "a_state b = State.REGISTERED" by blast
  obtain t2 :: "byte list server" and c2 new2 where 2: "life 5 (([] @ new1) @ new2) t2" "list_all2 (carries FROM_CLIENT) new2 [reg_req]"
    "open_cnx t2 5 c2" "abs_of c2 = b"
  proof (rule reading_lives [OF life2 o2 _ 1(5) ok(2) at2 _ re])
    show "decode_client_msg m = Some ?ev" if "p \<in> set [reg_req]" "carries FROM_CLIENT m p" for p m
      using that sample_requests_decode(2) by simp
  qed ((rule that; assumption) | simp add: st)+
  from 1(2) 2(2) obtain m1 m2 where m: "new1 = [m1]" "carries FROM_CLIENT m1 conn_req" "new2 = [m2]" "carries FROM_CLIENT m2 reg_req"
    by (auto simp: list_all2_Cons2)
  with 2(1) have l: "life 5 [m1, m2] t2" by simp
  have c2: "cnx t2 5 = Some c2" "state c2 = State.REGISTERED" using 2(3,4) b by (auto simp: open_cnx_def abs_of_def)
  from registration_requires_handshake [OF l c2] sample_requests_decode(2) [OF m(4)]
  have "ServerConnection.user_name c2 = [98, 111, 98]" by (auto simp: Cons_eq_append_conv)
  with l c2 show ?thesis by blast
qed

end
