(* ===== verification/Link.thy ===== *)
theory Link
  imports Session
begin

text \<open>
  The ends of a connection that works: what the two kernels promise about the bytes under way, and what
  \<^verbatim>\<open>sendNextData\<close> and \<^verbatim>\<open>recvNextData\<close> do then. The kernel state is shared by the two programs and of any type; two
  functions on it say which bytes are on their way to each end.
\<close>

section \<open>One end of a connection\<close>

text \<open>
  The descriptor \<open>fd\<close> of a process is one end of a connection: \<open>inc\<close> has arrived for it and \<open>out\<close> is on its way to the
  other end; \<^verbatim>\<open>recv\<close> takes from the first, \<^verbatim>\<open>send\<close> appends to the second, and \<^verbatim>\<open>new\<close> touches neither.
\<close>

definition end_ok :: "'k os \<Rightarrow> int \<Rightarrow> ('k \<Rightarrow> byte list) \<Rightarrow> ('k \<Rightarrow> byte list) \<Rightarrow> bool" where
  "end_ok os fd inc out \<longleftrightarrow>
     (\<forall>n peek k. \<exists>k'. os_recv os fd n peek k
        = (if inc k = [] then Inl EWOULDBLOCK else Inr (take n (inc k)), k')
      \<and> inc k' = (if peek then inc k else drop n (inc k)) \<and> out k' = out k)
   \<and> (\<forall>bs k. \<exists>k'. os_send os fd bs k = (Inr (length bs), k') \<and> inc k' = inc k \<and> out k' = out k @ bs)
   \<and> (\<forall>k. inc (snd (os_new os k)) = inc k \<and> out (snd (os_new os k)) = out k)"

lemma end_okD:
  assumes "end_ok os fd inc out"
  obtains k' where "os_recv os fd n peek k = (if inc k = [] then Inl EWOULDBLOCK else Inr (take n (inc k)), k')"
      "inc k' = (if peek then inc k else drop n (inc k))" "out k' = out k"
  using assms unfolding end_ok_def by meson

lemma end_ok_recv: "end_ok os fd inc out \<Longrightarrow> os_recv os fd n peek k = (r, k') \<Longrightarrow> out k' = out k"
  by (erule end_okD [of os fd inc out n peek k]) simp

lemma end_ok_new: "end_ok os fd inc out \<Longrightarrow> os_new os k = (m, k') \<Longrightarrow> inc k' = inc k \<and> out k' = out k"
  unfolding end_ok_def by (metis snd_conv)

lemma end_ok_sent:
  assumes "end_ok os fd inc out"
  shows "\<exists>k'. sent_all os fd k cs k' \<and> inc k' = inc k \<and> out k' = out k @ concat cs"
proof (induction cs arbitrary: k)
  case (Cons c cs)
  from assms obtain k1 where "os_send os fd c k = (Inr (length c), k1)" "inc k1 = inc k" "out k1 = out k @ c"
    unfolding end_ok_def by meson
  with Cons.IH [of k1] show ?case by auto
qed simp

text \<open>What has arrived at such an end is a stream of which nothing is under way any more.\<close>

lemma end_ok_stream:
  assumes "end_ok os fd inc out" shows "stream_at os fd (inc k) [] k"
proof (rule stream_at.coinduct [where X = "\<lambda>arr fut k. arr = inc k \<and> fut = []"])
  show "inc k = inc k \<and> [] = []" by simp
next
  fix arr fut :: "byte list" and k assume k: "arr = inc k \<and> fut = []"
  have "\<exists>j k'. os_recv os fd n peek k
        = (if arr @ take j fut = [] then Inl EWOULDBLOCK else Inr (take n (arr @ take j fut)), k')
      \<and> ((if peek then arr @ take j fut else drop n (arr @ take j fut)) = inc k' \<and> drop j fut = []
         \<or> stream_at os fd (if peek then arr @ take j fut else drop n (arr @ take j fut)) (drop j fut) k')"
    for n peek
  proof -
    obtain k' where "os_recv os fd n peek k = (if inc k = [] then Inl EWOULDBLOCK else Inr (take n (inc k)), k')"
      "inc k' = (if peek then inc k else drop n (inc k))" by (rule end_okD [OF assms])
    with k show ?thesis by (intro exI [of _ 0] exI [of _ k']) simp
  qed
  moreover have "arr = inc (snd (os_new os k))" using k assms by (simp add: end_ok_def)
  ultimately show "\<exists>k' arr' fut'. arr = arr' \<and> fut = fut' \<and> k = k' \<and>
     (\<forall>n peek. 0 < n \<longrightarrow> (\<exists>j k''. os_recv os fd n peek k'
        = (if arr' @ take j fut' = [] then Inl EWOULDBLOCK else Inr (take n (arr' @ take j fut')), k'')
      \<and> ((if peek then arr' @ take j fut' else drop n (arr' @ take j fut')) = inc k'' \<and> drop j fut' = []
         \<or> stream_at os fd (if peek then arr' @ take j fut' else drop n (arr' @ take j fut')) (drop j fut') k'')))
     \<and> (arr' = inc (snd (os_new os k')) \<and> fut' = [] \<or> stream_at os fd arr' fut' (snd (os_new os k')))"
    using k by blast
qed

lemma stream_at_end:
  assumes "end_ok os fd inc out" "stream_at os fd [] [] k" shows "inc k = []"
proof -
  from stream_at_recv [OF assms(2), of 1 True] obtain k' where "os_recv os fd 1 True k = (Inl EWOULDBLOCK, k')" by auto
  moreover obtain k'' where "os_recv os fd 1 True k = (if inc k = [] then Inl EWOULDBLOCK else Inr (take 1 (inc k)), k'')"
    by (rule end_okD [OF assms(1)])
  ultimately show ?thesis by (simp split: if_splits)
qed

section \<open>What reception and emission leave alone\<close>

text \<open>The socket without the members of the reception.\<close>

definition tx_part :: "MsgSocket \<Rightarrow> MsgSocket" where
  "tx_part x = x\<lparr>rx_state := RX_INIT, rx_lenght := 0, rx_msg := None, rx_fifo := []\<rparr>"

lemma tx_part_updates [simp]:
  "tx_part (x\<lparr>rx_state := a\<rparr>) = tx_part x" "tx_part (x\<lparr>rx_lenght := n\<rparr>) = tx_part x"
  "tx_part (x\<lparr>rx_msg := m\<rparr>) = tx_part x" "tx_part (x\<lparr>rx_fifo := f\<rparr>) = tx_part x"
  by (simp_all add: tx_part_def)

lemma tx_partD:
  assumes "tx_part x = tx_part y"
  shows "tx_idle ps x = tx_idle ps y" "socket_descr x = socket_descr y" "from_dir x = from_dir y"
    "tx_header x = tx_header y" "tx_fifo x = tx_fifo y" "sock_state x = sock_state y"
proof -
  have "tx_length x = tx_length y" "tx_msg_length x = tx_msg_length y" "tx_msg x = tx_msg y"
    "tx_fifo x = tx_fifo y" "tx_req_ptr x = tx_req_ptr y" "socket_descr x = socket_descr y" "from_dir x = from_dir y"
    "tx_header x = tx_header y" "sock_state x = sock_state y"
    using arg_cong [OF assms, of tx_length] arg_cong [OF assms, of tx_msg_length] arg_cong [OF assms, of tx_msg]
      arg_cong [OF assms, of tx_fifo] arg_cong [OF assms, of tx_req_ptr] arg_cong [OF assms, of socket_descr]
      arg_cong [OF assms, of from_dir] arg_cong [OF assms, of tx_header] arg_cong [OF assms, of sock_state]
    by (simp_all add: tx_part_def)
  then show "tx_idle ps x = tx_idle ps y" "socket_descr x = socket_descr y" "from_dir x = from_dir y"
    "tx_header x = tx_header y" "tx_fifo x = tx_fifo y" "sock_state x = sock_state y"
    by (simp_all add: tx_idle_def tx_clear_def)
qed

definition receives_only :: "int \<Rightarrow> ('k \<Rightarrow> 'b) \<Rightarrow> ('k sock_ctx, 'a) stm \<Rightarrow> bool" where
  "receives_only fd g m \<longleftrightarrow> (\<forall>s r t. socket_descr (sock s) = fd \<longrightarrow> m s = (r, t) \<longrightarrow> tx_part (sock t) = tx_part (sock s) \<and> g (kern t) = g (kern s))"

named_theorems receives_rules

lemma receives_onlyD:
  "receives_only fd g m \<Longrightarrow> socket_descr (sock s) = fd \<Longrightarrow> m s = (r, t)
    \<Longrightarrow> tx_part (sock t) = tx_part (sock s) \<and> g (kern t) = g (kern s)"
  unfolding receives_only_def by blast

lemma receives_basic [receives_rules]:
  "receives_only fd g (retS x)" "receives_only fd g (failS e)" "receives_only fd g (assertS P)"
  "(\<And>x. tx_part (f x) = tx_part x) \<Longrightarrow> receives_only fd g (modSock f)"
  by (auto simp: receives_only_def assertS_def)

lemma receives_andThen [receives_rules]:
  assumes "receives_only fd g m" "\<And>x. receives_only fd g (k x)" shows "receives_only fd g (andThen m k)"
  unfolding receives_only_def
proof (intro allI impI)
  fix s r t assume d: "socket_descr (sock s) = fd" and a: "andThen m k s = (r, t)"
  obtain r1 s1 where m: "m s = (r1, s1)" by fastforce
  note s1 = receives_onlyD [OF assms(1) d m]
  from m a have "t = s1 \<or> (\<exists>x. k x s1 = (r, t))" by (cases r1) auto
  then show "tx_part (sock t) = tx_part (sock s) \<and> g (kern t) = g (kern s)"
    using s1 receives_onlyD [OF assms(2)] tx_partD(2) [OF conjunct1 [OF s1]] d by metis
qed

lemma receives_socketReceive:
  assumes "end_ok os fd inc out" shows "receives_only fd out (socketReceive os n peek)"
  unfolding receives_only_def
proof (intro allI impI)
  fix s r t assume d: "socket_descr (sock s) = fd" and a: "socketReceive os n peek s = (r, t)"
  obtain res k where r: "os_recv os fd n peek (kern s) = (res, k)" by fastforce
  from end_ok_recv [OF assms r] have "out k = out (kern s)" .
  moreover have "sock t = sock s \<and> kern t = k"
    using a r d by (auto simp: socketReceive_def andThen_def syscall_def split: sum.splits ErrorType.splits)
  ultimately show "tx_part (sock t) = tx_part (sock s) \<and> out (kern t) = out (kern s)" by simp
qed

lemma receives_new_mem: "end_ok os fd inc out \<Longrightarrow> receives_only fd out (new_mem os)"
  by (auto simp: receives_only_def new_mem_def dest: end_ok_new split: prod.splits)

lemma receives_recvBeginNewMsg:
  assumes "end_ok os fd inc out" shows "receives_only fd out (recvBeginNewMsg os)"
proof -
  note recv = receives_socketReceive [OF assms] receives_new_mem [OF assms]
  show ?thesis
    unfolding recvBeginNewMsg_def case_prod_unfold
    by (intro receives_andThen recv) (auto intro!: receives_andThen receives_basic recv)
qed

lemma receives_recvLoop_begin:
  assumes "end_ok os fd inc out" shows "receives_only fd out (recvLoop_begin os)"
proof -
  have "receives_only fd out (andThen (modSock (\<lambda>x. x\<lparr>rx_msg := None\<rparr>)) (\<lambda>_. andThen (recvBeginNewMsg os) (\<lambda>m.
       andThen (modSock (\<lambda>x. x\<lparr>rx_msg := m\<rparr>)) (\<lambda>_. retS (m \<noteq> None)))))"
    by (intro receives_andThen receives_recvBeginNewMsg [OF assms] receives_basic) simp_all
  then show ?thesis by (auto simp: receives_only_def recvLoop_begin_def split: if_splits)
qed

lemma receives_recvLoop_rest:
  assumes "end_ok os fd inc out" shows "receives_only fd out (recvLoop_rest os m)"
  unfolding receives_only_def
proof (intro allI impI)
  fix s r t assume d: "socket_descr (sock s) = fd" and a: "recvLoop_rest os m s = (r, t)"
  define nb where "nb = l1_lenght m - rx_lenght (sock s)"
  obtain res s' where v: "socketReceive os (nat nb) False s = (res, s')" by fastforce
  note same = receives_onlyD [OF receives_socketReceive [OF assms] d v]
  show "tx_part (sock t) = tx_part (sock s) \<and> out (kern t) = out (kern s)"
  proof (cases "nb > 0")
    case False
    with a show ?thesis
      unfolding recvLoop_rest_def Let_def nb_def [symmetric]
      by (auto simp: andThen_def assertS_def split: if_splits)
  next
    case True
    with a v have "tx_part (sock t) = tx_part (sock s') \<and> kern t = kern s'"
      unfolding recvLoop_rest_def Let_def nb_def [symmetric]
      by (auto simp: andThen_def assertS_def split: if_splits sum.splits)
    with same show ?thesis by simp
  qed
qed

lemma receives_recvLoop_step:
  assumes "end_ok os fd inc out" shows "receives_only fd out (recvLoop_step os)"
proof -
  have "receives_only fd out (\<lambda>s. if \<not> go then (Inr False, s)
      else (case rx_msg (sock s) of None \<Rightarrow> (Inl Undefined, s) | Some m \<Rightarrow> recvLoop_rest os m s))" for go
    using receives_onlyD [OF receives_recvLoop_rest [OF assms]]
    by (auto simp: receives_only_def split: option.splits if_splits)
  then show ?thesis
    unfolding recvLoop_step_def by (intro receives_andThen receives_recvLoop_begin [OF assms])
qed

lemma receives_recvLoop:
  assumes "end_ok os fd inc out" and "socket_descr (sock s) = fd" and "recvLoop os s = Some (r, t)"
  shows "tx_part (sock t) = tx_part (sock s) \<and> out (kern t) = out (kern s)"
proof -
  have "os = os' \<longrightarrow> socket_descr (sock s) = fd
      \<longrightarrow> tx_part (sock (snd y)) = tx_part (sock s) \<and> out (kern (snd y)) = out (kern s)"
    if "recvLoop os' s = Some y" for os' s y
  proof (rule recvLoop.raw_induct [where P = "\<lambda>os' s y. os = os' \<longrightarrow> socket_descr (sock s) = fd
      \<longrightarrow> tx_part (sock (snd y)) = tx_part (sock s) \<and> out (kern (snd y)) = out (kern s)", OF _ that], goal_cases)
    case (1 f os' s y)
    show ?case
    proof (intro impI)
      assume e: "os = os'" and d: "socket_descr (sock s) = fd"
      obtain r t where st: "recvLoop_step os' s = (r, t)" by fastforce
      note same = receives_onlyD [OF receives_recvLoop_step [OF assms(1)] d, unfolded e, OF st]
      have "socket_descr (sock t) = fd" using tx_partD(2) [OF conjunct1 [OF same]] d by simp
      then show "tx_part (sock (snd y)) = tx_part (sock s) \<and> out (kern (snd y)) = out (kern s)"
        using 1 st same e by (auto split: sum.splits if_splits)
    qed
  qed
  from this [OF assms(3)] assms(2) show ?thesis by simp
qed

lemma recvNextData_keeps:
  assumes "end_ok os fd inc out" and "socket_descr (sock s) = fd" and "recvNextData os s = Some (Inr b, t)"
  shows "tx_part (sock t) = tx_part (sock s)" "out (kern t) = out (kern s)"
proof -
  let ?s = "s\<lparr>sock := (sock s)\<lparr>rx_state := RX_DATA\<rparr>\<rparr>"
  from assms(3) obtain r where "recvLoop os ?s = Some (r, t)"
    by (auto simp: recvNextData_def split: option.splits prod.splits sum.splits exn.splits)
  from receives_recvLoop [OF assms(1) _ this] assms(2)
  show "tx_part (sock t) = tx_part (sock s)" "out (kern t) = out (kern s)" by simp_all
qed

text \<open>And conversely.\<close>

definition rx_part :: "MsgSocket \<Rightarrow> mem list \<times> mem option \<times> int" where
  "rx_part x = (rx_fifo x, rx_msg x, rx_lenght x)"

lemma sendLoop_step_rx: "sendLoop_step os r s = (res, t) \<Longrightarrow> rx_part (sock t) = rx_part (sock s)"
proof -
  have send: "rx_part (sock t) = rx_part (sock s)" if "socketSend os b s = (res, t)" for b s res t
    using socketSend_frame [OF that] by (auto simp: rx_part_def)
  have build: "rx_part (sock t) = rx_part (sock s)" if "sendLoop_build os r s = (res, t)" for s res t
    using that by (auto simp: sendLoop_build_def rx_part_def split: prod.splits sum.splits)
  have header: "rx_part (sock t) = rx_part (sock s)" if "sendLoop_header os s = (res, t)" for s res t
    using that by (auto simp: sendLoop_header_def andThen_def rx_part_def
        split: if_splits prod.splits sum.splits dest!: send)
  have rest: "rx_part (sock t) = rx_part (sock s)" if "sendLoop_rest os s = (res, t)" for s res t
    using that by (auto simp: sendLoop_rest_def andThen_def rx_part_def Let_def
        split: if_splits prod.splits sum.splits option.splits dest!: send)
  have compl: "rx_part (sendLoop_completed x) = rx_part x" "rx_part ((txPopNextRequest x)\<lparr>tx_l1_msg_id := i\<rparr>) = rx_part x"
    for x i by (auto simp: sendLoop_completed_def txReset_def txPopNextRequest_def rx_part_def split: list.split)
  assume "sendLoop_step os r s = (res, t)"
  then show ?thesis
    by (auto simp: sendLoop_step_def andThen_def assertS_def compl
        split: if_splits prod.splits sum.splits dest!: build header rest)
qed

lemma sendNextData_rx:
  assumes "sendNextData os s = Some (Inr a, t)" shows "rx_part (sock t) = rx_part (sock s)"
proof -
  have while: "rx_part (sock (snd y)) = rx_part (sock s)" if "sendLoop_while os s = Some y" for os :: "'a os" and s y
  proof (rule sendLoop_while.raw_induct [where P = "\<lambda>os s y. rx_part (sock (snd y)) = rx_part (sock s)", OF _ that], goal_cases)
    case (1 f os s y)
    obtain r t where "sendLoop_step os (the (tx_req_ptr (sock s))) s = (r, t)" by fastforce
    with 1 sendLoop_step_rx [OF this] show ?case by (auto split: if_splits sum.splits)
  qed
  have "rx_part (txPopNextRequest x) = rx_part x" "rx_part (x\<lparr>tx_state := st\<rparr>) = rx_part x" for x st
    by (auto simp: txPopNextRequest_def rx_part_def split: list.split)
  with assms show ?thesis
    by (auto simp: sendNextData_def sendLoop_def split: option.splits prod.splits sum.splits exn.splits if_splits
        dest!: while)
qed

section \<open>A message from end to end\<close>

lemma frames_nothing: "MsgSocket.frames bs = Some ([], rest) \<Longrightarrow> rest = bs"
  by (subst (asm) MsgSocket.frames.simps) (auto simp: Let_def apfst_def map_prod_def split: if_splits)

text \<open>The one message that has arrived is received, and nothing is left of it.\<close>

lemma end_receives:
  assumes "end_ok os fd inc out" and "socket_descr (sock s) = fd" and "rx_fresh (sock s)"
    and "inc (kern s) = msg_wire dir pad p" and "msg_ok p"
  obtains s' m where "recvNextData os s = Some (Inr True, s')" "rx_part (sock s') = ([m], None, 0)" "carries dir m p"
    "tx_part (sock s') = tx_part (sock s)" "inc (kern s') = []" "out (kern s') = out (kern s)"
proof -
  have "rx_at os s (inc (kern s)) []"
    using end_ok_stream [OF assms(1)] assms(2) by (simp add: rx_at_def)
  from recv_msgs [OF _ this, of "[p]" dir pad] assms(3-5) obtain s' m arr fut
    where r: "recvNextData os s = Some (Inr True, s')" "rx_fifo (sock s') = [m]" "carries dir m p"
      and inv: "rx_inv os s' arr fut [] []"
    by (auto simp: rx_fresh_def list_all2_Cons2 append_eq_Cons_conv)
  note keep = recvNextData_keeps [OF assms(1,2) r(1)]
  from inv have fr: "MsgSocket.frames (rx_partial (sock s') @ arr @ fut) = Some ([], [])" and at: "rx_at os s' arr fut"
    and ok: "rx_ok (sock s')" by (simp_all add: rx_inv_def)
  from frames_nothing [OF fr] have e: "rx_partial (sock s') = []" "arr = []" "fut = []" by simp_all
  have "rx_msg (sock s') = None"
  proof (cases "rx_msg (sock s')")
    case (Some x)
    with ok e(1) show ?thesis
      using length_rx_wire [of x "nat (rx_lenght (sock s'))"] by (simp add: rx_ok_def rx_partial_def)
  qed
  with ok r(2) have "rx_part (sock s') = ([m], None, 0)" by (simp add: rx_ok_def rx_part_def)
  moreover have "inc (kern s') = []"
    using stream_at_end [OF assms(1), of "kern s'"] at e tx_partD(2) [OF keep(1)] assms(2)
    by (simp add: rx_at_def)
  ultimately show thesis using r keep by (intro that)
qed

text \<open>An emission sends the next message, if there is one, and reports whether there was.\<close>

definition on_wire :: "TransferDirection \<Rightarrow> (ClientServerL1MessageId \<times> mem \<times> nat) list \<Rightarrow> byte list \<Rightarrow> bool" where
  "on_wire dir ps bs \<longleftrightarrow> (\<exists>pad. bs = concat (map (msg_wire dir pad) ps))"

lemma on_wire_simps [simp]:
  "on_wire dir [] bs \<longleftrightarrow> bs = []" "on_wire dir [p] bs \<longleftrightarrow> (\<exists>pad. bs = msg_wire dir pad p)"
  by (simp_all add: on_wire_def)

lemma end_sends:
  assumes "end_ok os fd inc out" and "socket_descr (sock s) = fd" and "tx_idle ps (sock s)"
    and "\<forall>p\<in>set ps. snd (snd p) \<noteq> 11"
  obtains s' where "sendNextData os s = Some (Inr (if ps = [] then 0 else 1), s')" "tx_idle (tl ps) (sock s')"
    "same_link (sock s) (sock s')" "rx_part (sock s') = rx_part (sock s)" "inc (kern s') = inc (kern s)"
    "out (kern s') = out (kern s) @ concat (map (msg_wire (from_dir (sock s)) (tx_header (sock s) 7)) (take 1 ps))"
proof (cases ps)
  case Nil
  with sendNextData_idle_empty [of s os] assms(3) obtain s' where
    "sendNextData os s = Some (Inr 0, s')" "tx_idle [] (sock s')" "same_link (sock s) (sock s')" "kern s' = kern s" by auto
  with Nil sendNextData_rx [of os s] show thesis by (intro that [of s']) simp_all
next
  case (Cons p qs)
  from end_ok_sent [OF assms(1), of "kern s" "msg_chunks (from_dir (sock s)) (tx_header (sock s) 7) p"] obtain k
    where k: "sent_all os fd (kern s) (msg_chunks (from_dir (sock s)) (tx_header (sock s) 7) p) k" "inc k = inc (kern s)"
      "out k = out (kern s) @ msg_wire (from_dir (sock s)) (tx_header (sock s) 7) p"
    unfolding msg_wire_def by blast
  from assms(2-4) Cons k(1) sendNextData_idle_Cons [of p qs s os k] obtain s' where
    s': "sendNextData os s = Some (Inr 1, s')" "tx_idle qs (sock s')" "same_link (sock s) (sock s')" "kern s' = k" by auto
  with Cons k sendNextData_rx [OF s'(1)] show thesis by (intro that [of s']) simp_all
qed

end
