(* ===== verification/ClientEnd.thy ===== *)
theory ClientEnd
  imports Link
begin

text \<open>
  The client's end of a connection that works: one call of \<^verbatim>\<open>ClientConnection::poll\<close> when at most one message has
  arrived and at most one is queued, with the handlers of the messages of the handshake evaluated.
\<close>

section \<open>Polling\<close>

text \<open>
  \<^verbatim>\<open>poll\<close> on this end: readable when something has arrived, always writable, never an error; the answer is within
  what was asked.
\<close>

definition polls :: "'k os \<Rightarrow> int \<Rightarrow> ('k \<Rightarrow> byte list) \<Rightarrow> ('k \<Rightarrow> byte list) \<Rightarrow> bool" where
  "polls os fd inc out \<longleftrightarrow> (\<forall>events k. \<exists>k'. os_poll os fd events k
     = (Inr (let revents = events AND (if inc k = [] then POLLWRNORM else POLLRDNORM OR POLLWRNORM)
             in if revents = 0 then None else Some revents), k')
     \<and> inc k' = inc k \<and> out k' = out k)"

lemma tx_idle_state [simp]: "tx_idle ps (x\<lparr>sock_state := st\<rparr>) = tx_idle ps x"
  by (simp add: tx_idle_def tx_clear_def)

lemma rx_part_state [simp]: "rx_part (x\<lparr>sock_state := st\<rparr>) = rx_part x"
  by (simp add: rx_part_def)

text \<open>What a client asks for and what it then does.\<close>

definition wants_out :: "MsgSocket \<Rightarrow> bool" where
  "wants_out x \<longleftrightarrow> tx_fifo x \<noteq> [] \<or> sock_state x = SOCK_CONNECTING"

definition connected :: "'k sock_ctx \<Rightarrow> 'k sock_ctx" where
  "connected s = (if sock_state (sock s) = SOCK_CONNECTING then s\<lparr>sock := setState SOCK_CONNECTED (sock s)\<rparr> else s)"

lemma connected_simps [simp]:
  "kern (connected s) = kern s" "socket_descr (sock (connected s)) = socket_descr (sock s)"
  "tx_idle ps (sock (connected s)) = tx_idle ps (sock s)" "rx_part (sock (connected s)) = rx_part (sock s)"
  "tx_header (sock (connected s)) = tx_header (sock s)" "from_dir (sock (connected s)) = from_dir (sock s)"
  by (simp_all add: connected_def setState_eq)

lemma poll_asks:
  assumes "polls os (socket_descr (sock x)) inc out"
  obtains k where "inc k = inc (kern x)" "out k = out (kern x)"
    "poll os x = (if inc (kern x) = [] \<and> \<not> wants_out (sock x) then Some (Inr False, x\<lparr>kern := k\<rparr>)
       else thenO (if inc (kern x) = [] then Some (Inr False, x\<lparr>kern := k\<rparr>) else recvNextData os (x\<lparr>kern := k\<rparr>))
         (\<lambda>incoming s1. thenO (if wants_out (sock x)
             then thenO (sendNextData os (connected s1)) (\<lambda>_ s'. Some (Inr (), s')) else Some (Inr (), s1))
         (\<lambda>_ s2. Some (Inr incoming, s2))))"
proof -
  let ?e = "poll_events (sock x)"
  obtain k where k: "os_poll os (socket_descr (sock x)) ?e (kern x)
     = (Inr (let revents = ?e AND (if inc (kern x) = [] then POLLWRNORM else POLLRDNORM OR POLLWRNORM)
             in if revents = 0 then None else Some revents), k)" "inc k = inc (kern x)" "out k = out (kern x)"
    using assms unfolding polls_def by meson
  have e: "?e = (if wants_out (sock x) then POLLRDNORM OR POLLWRNORM else POLLRDNORM)"
    by (simp add: poll_events_def wants_out_def)
  show thesis
    by (rule that [OF k(2,3)], cases "wants_out (sock x)"; cases "inc (kern x) = []")
      (use k(1) e in \<open>simp_all add: poll_def poll_read_def poll_write_def Let_def connected_def\<close>)
qed

text \<open>
  A poll receives the message that has arrived and then sends the one that is queued.
\<close>

lemma poll_exchanges:
  assumes ok: "end_ok os fd inc out" "polls os fd inc out" and d: "socket_descr (sock x) = fd"
    and rx: "rx_part (sock x) = ([], None, 0)" and tx: "tx_idle ps (sock x)" "\<forall>p\<in>set ps. snd (snd p) \<noteq> 11"
    and qs: "on_wire dir qs (inc (kern x))" "length qs \<le> 1" "\<forall>q\<in>set qs. msg_ok q"
  obtains y ms where "poll os x = Some (Inr (qs \<noteq> []), y)" "rx_part (sock y) = (ms, None, 0)"
    "list_all2 (carries dir) ms qs" "tx_idle (tl ps) (sock y)" "socket_descr (sock y) = fd"
    "from_dir (sock y) = from_dir (sock x)" "inc (kern y) = []"
    "out (kern y) = out (kern x) @ concat (map (msg_wire (from_dir (sock x)) (tx_header (sock x) 7)) (take 1 ps))"
proof -
  from poll_asks [of os x inc out] ok(2) d obtain k where k: "inc k = inc (kern x)" "out k = out (kern x)"
    "poll os x = (if inc (kern x) = [] \<and> \<not> wants_out (sock x) then Some (Inr False, x\<lparr>kern := k\<rparr>)
       else thenO (if inc (kern x) = [] then Some (Inr False, x\<lparr>kern := k\<rparr>) else recvNextData os (x\<lparr>kern := k\<rparr>))
         (\<lambda>incoming s1. thenO (if wants_out (sock x)
             then thenO (sendNextData os (connected s1)) (\<lambda>_ s'. Some (Inr (), s')) else Some (Inr (), s1))
         (\<lambda>_ s2. Some (Inr incoming, s2))))" by blast
  have empty: "inc (kern x) = [] \<longleftrightarrow> qs = []"
    using qs(1,2) by (cases qs) (auto simp: msg_wire_def msg_chunks_def header_bytes_def wire32_def split: prod.split)
  have wants: "ps = [] \<or> wants_out (sock x)" using tx(1) by (auto simp: wants_out_def tx_idle_def)
  obtain s1 ms where s1: "(if inc (kern x) = [] then Some (Inr False, x\<lparr>kern := k\<rparr>) else recvNextData os (x\<lparr>kern := k\<rparr>))
      = Some (Inr (qs \<noteq> []), s1)" "rx_part (sock s1) = (ms, None, 0)" "list_all2 (carries dir) ms qs"
    "tx_part (sock s1) = tx_part (sock x)" "inc (kern s1) = []" "out (kern s1) = out (kern x)"
  proof (cases qs)
    case Nil
    with empty k rx show ?thesis by (intro that [of "x\<lparr>kern := k\<rparr>" "[]"]) simp_all
  next
    case (Cons q qs')
    with qs obtain pad where q: "qs = [q]" "msg_ok q" "inc (kern (x\<lparr>kern := k\<rparr>)) = msg_wire dir pad q" using k by auto
    have "rx_fresh (sock (x\<lparr>kern := k\<rparr>))" "socket_descr (sock (x\<lparr>kern := k\<rparr>)) = fd"
      using rx d by (simp_all add: rx_fresh_def rx_part_def)
    from end_receives [OF ok(1) this(2,1) q(3,2)] obtain s' m where "recvNextData os (x\<lparr>kern := k\<rparr>) = Some (Inr True, s')"
      "rx_part (sock s') = ([m], None, 0)" "carries dir m q" "tx_part (sock s') = tx_part (sock x)" "inc (kern s') = []"
      "out (kern s') = out (kern x)" using k by auto
    with q empty show ?thesis by (intro that [of s' "[m]"]) simp_all
  qed
  note t1 = tx_partD [OF s1(4)]
  show thesis
  proof (cases "wants_out (sock x)")
    case True
    have "socket_descr (sock (connected s1)) = fd" "tx_idle ps (sock (connected s1))" using t1 d tx by simp_all
    from end_sends [OF ok(1) this tx(2)] obtain y a where "sendNextData os (connected s1) = Some (Inr a, y)"
      "tx_idle (tl ps) (sock y)" "same_link (sock (connected s1)) (sock y)" "rx_part (sock y) = rx_part (sock s1)"
      "inc (kern y) = inc (kern s1)"
      "out (kern y) = out (kern s1) @ concat (map (msg_wire (from_dir (sock s1)) (tx_header (sock s1) 7)) (take 1 ps))"
      by (metis connected_simps(1,4,5,6))
    then show thesis using k(3) s1 t1 d True by (intro that [of y ms]) (simp_all add: same_link_def)
  next
    case False
    with wants have "ps = []" by simp
    then show thesis using k(3) s1 t1 d tx False empty by (intro that [of s1 ms]) (auto split: if_splits)
  qed
qed

section \<open>A turn of the client\<close>

text \<open>The socket of the client between two turns.\<close>

definition client_sock :: "int \<Rightarrow> (ClientServerL1MessageId \<times> mem \<times> nat) list \<Rightarrow> MsgSocket \<Rightarrow> bool" where
  "client_sock fd ps x \<longleftrightarrow> socket_descr x = fd \<and> from_dir x = FROM_CLIENT \<and> rx_part x = ([], None, 0)
     \<and> tx_idle ps x \<and> (\<forall>p\<in>set ps. snd (snd p) \<noteq> 11)"

text \<open>What the handler does with the message is a parameter: it changes the connection to one with the property \<open>K\<close>.\<close>

lemma client_turn:
  assumes ok: "end_ok os fd inc out" "polls os fd inc out"
    and live: "cnx_state_val (cnx_state (conn c)) > cnx_state_val NO_CONNECTION"
    and ev: "handleExtEvents os c = (Inr (), c1)" and x: "client_sock fd ps (sock c1)"
    and qs: "on_wire FROM_SERVER qs (inc (kern c1))" "length qs \<le> 1" "\<forall>q\<in>set qs. msg_ok q"
    and h: "\<And>m q s. qs = [q] \<Longrightarrow> carries FROM_SERVER m q \<Longrightarrow> conn s = conn c1
      \<Longrightarrow> \<exists>cn. handle_server_message os m s = (Inr (), s\<lparr>conn := cn\<rparr>) \<and> K cn"
    and k: "qs = [] \<Longrightarrow> K (conn c1)"
  obtains t pad where "cnx_poll os c = Some (Inr (), t)" "K (conn t)" "client_sock fd (tl ps) (sock t)"
    "inc (kern t) = []" "out (kern t) = out (kern c1) @ concat (map (msg_wire FROM_CLIENT pad) (take 1 ps))"
proof -
  let ?x = "\<lparr>kern = kern c1, errno = errno c1, sock = sock c1\<rparr>"
  note f = x [unfolded client_sock_def]
  from poll_exchanges [OF ok, of ?x ps FROM_SERVER qs] f qs obtain y ms where
    y: "poll os ?x = Some (Inr (qs \<noteq> []), y)" "rx_part (sock y) = (ms, None, 0)"
    "list_all2 (carries FROM_SERVER) ms qs" "tx_idle (tl ps) (sock y)" "socket_descr (sock y) = fd"
    "from_dir (sock y) = FROM_CLIENT" "inc (kern y) = []"
    "out (kern y) = out (kern c1) @ concat (map (msg_wire FROM_CLIENT (tx_header (sock c1) 7)) (take 1 ps))"
    by auto
  define c2 where "c2 = c1\<lparr>kern := kern y, errno := errno y, sock := sock y\<rparr>"
  have p: "poll_socket os c1 = Some (Inr (qs \<noteq> []), c2)" using y(1) by (simp add: poll_socket_def c2_def)
  have sk: "sock c2 = sock y" "kern c2 = kern y" "conn c2 = conn c1" by (simp_all add: c2_def)
  have tl: "\<forall>p\<in>set (tl ps). snd (snd p) \<noteq> 11" using f by (cases ps) auto
  have body: "poll_body os c = (if qs \<noteq> [] then dispatch nextFromServer (handle_server_message os) c2 else Some (Inr (), c2))"
    using ev p by (simp add: poll_body_def)
  show thesis
  proof (cases qs)
    case Nil
    with body live have "cnx_poll os c = Some (Inr (), c2)" by (simp add: cnx_poll_eq)
    with Nil y f tl sk k show thesis
      by (intro that [of c2 "tx_header (sock c1) 7"]) (simp_all add: client_sock_def)
  next
    case (Cons q qs')
    with qs(2) y(3) obtain m where m: "qs = [q]" "ms = [m]" "carries FROM_SERVER m q" by (auto simp: list_all2_Cons2)
    let ?c3 = "c2\<lparr>sock := (sock c2)\<lparr>rx_fifo := []\<rparr>\<rparr>"
    from h [OF m(1,3), of ?c3] sk obtain cn where
      cn: "handle_server_message os m ?c3 = (Inr (), ?c3\<lparr>conn := cn\<rparr>)" "K cn" by auto
    have "rx_fifo (sock c2) = [m]" using y(2) m(2) sk by (simp add: rx_part_def)
    then have "nextFromServer c2 = (Some m, ?c3)" by (rule nextFromServer_simps)
    moreover have "dispatch nextFromServer (handle_server_message os) (?c3\<lparr>conn := cn\<rparr>)
        = Some (Inr (), ?c3\<lparr>conn := cn\<rparr>)"
      by (simp add: dispatch.simps [of _ _ "?c3\<lparr>conn := cn\<rparr>"] nextFromServer_simps)
    ultimately have "dispatch nextFromServer (handle_server_message os) c2 = Some (Inr (), ?c3\<lparr>conn := cn\<rparr>)"
      using cn(1) by (simp add: dispatch.simps [of _ _ c2])
    with body live m(1) have "cnx_poll os c = Some (Inr (), ?c3\<lparr>conn := cn\<rparr>)" by (simp add: cnx_poll_eq)
    with y f tl sk cn(2) show thesis
      by (intro that [of "?c3\<lparr>conn := cn\<rparr>" "tx_header (sock c1) 7"])
        (simp_all add: client_sock_def rx_part_def tx_idle_def tx_clear_def)
  qed
qed

section \<open>The messages of the handshake\<close>

definition login :: "ClientConnection \<Rightarrow> bool" where
  "login c \<longleftrightarrow> user_name c = name0 \<and> user_passwd c = passwd0 \<and> user_email c = email0"

lemma client_confirmed:
  assumes "id_of (l1_id m) = Some CONNECTION_CNF" "cnx_state (conn s) = CONNECTING" "ext_event (conn s) = {}"
  shows "\<exists>cn. handle_server_message os m s = (Inr (), s\<lparr>conn := cn\<rparr>)
    \<and> cnx_state cn = CONNECTED_NO_CREDENTIALS \<and> ext_event cn = {NEW_CREDENTIALS} \<and> login cn"
  by (rule exI [of _ "(conn s)\<lparr>cnx_state := CONNECTED_NO_CREDENTIALS,
      ciph_kea := cipheringKeyDataCopy (ciph_kea (conn s)) 0 (l1_body m) off_cnf_key,
      user_name := name0, user_passwd := passwd0, user_email := email0, ext_event := {NEW_CREDENTIALS}\<rparr>"])
    (use assms in \<open>simp add: handle_server_message_def handleConnectionCnf_def set_cnx_state_simp
      RegistrationDataFromUserInterface_def setExtEvent_def fit_def bytes_of_def login_def\<close>)

lemma client_refused:
  assumes "id_of (l1_id m) = Some CONNECTION_REJ" "get_enum (l1_body m) = connection_rej_val cause"
  shows "handle_server_message os m s = (Inr (), s\<lparr>conn := conn s\<rparr>)"
proof -
  have "connection_rej_of (connection_rej_val cause) = Some cause" by (cases cause) (simp_all add: connection_rej_of_def)
  with assms show ?thesis by (simp add: handle_server_message_def handleConnectionRej_def)
qed

lemma client_registered:
  assumes "id_of (l1_id m) = Some REGISTRATION_CNF" "cnx_state (conn s) = CnxState.REGISTERING"
  shows "handle_server_message os m s = (Inr (), s\<lparr>conn := (conn s)\<lparr>cnx_state := CnxState.REGISTERED\<rparr>\<rparr>)"
  using assms by (simp add: handle_server_message_def handleRegistrationCnf_def set_cnx_state_simp)

text \<open>The client sends its credentials at the first turn after the confirmation.\<close>

lemma credentials_queued_exactly:
  assumes "ext_event (conn c) = {NEW_CREDENTIALS}" and "login (conn c)"
    and "cnx_state (conn c) = CONNECTED_NO_CREDENTIALS"
  obtains k m b1 b2 b3 where "handleExtEvents os c = (Inr (), c\<lparr>kern := k,
      sock := sendMsg (msg_request (REGISTRATION_REQ, m, 192)) (sock c),
      conn := (conn c)\<lparr>cnx_state := CnxState.REGISTERING, ext_event := {}\<rparr>\<rparr>)" "k = snd (os_new os (kern c))"
    "cstring m 8192 0 = Some (padded name0 b1)" "cstring m 8160 off_password = Some (padded passwd0 b2)"
    "cstring m 8128 off_mail_address = Some (padded email0 b3)"
proof -
  define s1 where "s1 = c\<lparr>conn := (conn c)\<lparr>cnx_state := CONNECTED\<rparr>\<rparr>"
  have "creds_fit (conn s1)" using assms(2) by (simp add: s1_def creds_fit_def login_def bytes_of_def)
  from sendRegistrationReq_queues [OF this, of os] obtain k m r b where
    r: "os_new os (kern s1) = (b, k)" "sendRegistrationReq os s1 = (Inr (), s1\<lparr>kern := k, sock := sendMsg r (sock s1)\<rparr>)"
      "l2_payload_length r = 192" "nb_payload_bytes_sent r = 0" "kind r = MsgRequest REGISTRATION_REQ m" and
    m: "cstring m 8192 0 = Some (padded (user_name (conn s1)) (b (length (user_name (conn s1)))))"
      "cstring m 8160 off_password = Some (padded (user_passwd (conn s1)) (b (off_password + length (user_passwd (conn s1)))))"
      "cstring m 8128 off_mail_address = Some (padded (user_email (conn s1)) (b (off_mail_address + length (user_email (conn s1)))))"
    by auto
  from r(3-5) have q: "r = msg_request (REGISTRATION_REQ, m, 192)" by (cases r) (simp add: msg_request_def)
  have "handleExtEvents os c = (Inr (), c\<lparr>kern := k, sock := sendMsg r (sock c),
      conn := (conn c)\<lparr>cnx_state := CnxState.REGISTERING, ext_event := {}\<rparr>\<rparr>)"
    using assms(1,3) r(2) by (simp add: handleExtEvents_def handleOneExtEvent_def set_cnx_state_simp s1_def)
  moreover have "k = snd (os_new os (kern c))" using r(1) by (simp add: s1_def)
  moreover have "user_name (conn s1) = name0" "user_passwd (conn s1) = passwd0" "user_email (conn s1) = email0"
    using assms(2) by (simp_all add: s1_def login_def)
  ultimately show thesis using m q by (intro that) simp_all
qed

end
