(* ===== verification/ServerEnd.thy ===== *)
theory ServerEnd
  imports Link Router
begin

text \<open>
  The server's end of a connection that works: one round of \<^verbatim>\<open>ServeClientSockets\<close> for a server with this one client,
  when at most one message has arrived and at most one reply is queued.
\<close>

section \<open>The kernel around a round\<close>

text \<open>
  \<^verbatim>\<open>pselect\<close> on this end: readable when something has arrived, always writable, never an error; the clock works.
\<close>

definition selects :: "'k os \<Rightarrow> int \<Rightarrow> ('k \<Rightarrow> byte list) \<Rightarrow> ('k \<Rightarrow> byte list) \<Rightarrow> bool" where
  "selects os fd inc out \<longleftrightarrow> pselect_ok os
     \<and> (\<forall>nfds rd wr er k. \<exists>n rd' wr' er' k'. os_pselect os nfds (rd, wr, er) k = (Inr (n, rd', wr', er'), k')
        \<and> inc k' = inc k \<and> out k' = out k
        \<and> (fd_set_ok rd \<longrightarrow> fd_set_ok wr \<longrightarrow> fd_set_ok er \<longrightarrow>
             fds rd' = {x \<in> fds rd. x = fd \<and> x < nfds \<and> inc k \<noteq> []} \<and> fds wr' = {x \<in> fds wr. x = fd \<and> x < nfds}
             \<and> fds er' = {}))
     \<and> (\<forall>k. \<exists>now k'. os_clock_gettime os k = (Inr now, k') \<and> inc k' = inc k \<and> out k' = out k)"

text \<open>The server has one client, on the descriptor \<open>fd\<close>.\<close>

definition serves :: "int \<Rightarrow> ServerClientConnection \<Rightarrow> 'k server \<Rightarrow> bool" where
  "serves fd c s \<longleftrightarrow> router_ok s \<and> dead_list (router s) = [] \<and> clients s = {fd} \<and> cnx s fd = Some c
     \<and> socket_descr (servSock c) = fd"

lemma servesD:
  assumes "serves fd c s"
  shows "router_ok s" "table_ok s" "own_descr s" "dead_list (router s) = []" "clients s = {fd}" "cnx s fd = Some c"
    "socket_descr (servSock c) = fd" "fd_valid fd" "sets_ok (router s)" "fds (select_writefds (router s)) \<subseteq> {fd}"
    "clientsocks_nfds (router s) = fd + 1"
  using assms clients_valid [of fd s] table_okD [of s] router_ok_table [of s]
  by (auto simp: serves_def nfds_of_def)

lemma serves_cong:
  "serves fd c s \<Longrightarrow> router_ok t \<Longrightarrow> clients t = clients s \<Longrightarrow> dead_list (router t) = dead_list (router s)
    \<Longrightarrow> cnx t fd = Some c' \<Longrightarrow> socket_descr (servSock c') = fd \<Longrightarrow> serves fd c' t"
  by (simp add: serves_def)

text \<open>The first part of a round: which sets come back, and how many activities.\<close>

lemma select_one:
  assumes k: "selects os fd inc out" and s: "serves fd c s" and fd: "fd < 1023"
  obtains s1 where "select_phase os s = Some (Inr (int (card (fds (select_readfds (router s1)))
      + card (fds (select_writefds (router s1))))), s1)"
    "serves fd c s1" "fds (select_readfds (router s1)) = (if inc (kern s) = [] then {} else {fd})"
    "fds (select_errorfds (router s1)) = {}" "fds (select_writefds (router s1)) = fds (select_writefds (router s))"
    "inc (kern s1) = inc (kern s)" "out (kern s1) = out (kern s)"
proof -
  note sv = servesD [OF s]
  have n: "clientsocks_nfds (router s) < 1024" using sv(11) fd by simp
  from prepare_sets_ok [OF sv(2) n] obtain rd er
    where 1: "prepare_sets s = (Inr (), s\<lparr>router := (router s)\<lparr>select_readfds := rd, select_errorfds := er\<rparr>\<rparr>)"
      and s1: "fd_set_ok rd" "fd_set_ok er" "{x \<in> fds rd. x < clientsocks_nfds (router s)} = {fd}"
    using sv(5) by auto
  from k obtain now k1 where c: "os_clock_gettime os (kern s) = (Inr now, k1)" "inc k1 = inc (kern s)" "out k1 = out (kern s)"
    unfolding selects_def by meson
  have w: "fd_set_ok (select_writefds (router s))" using sv(9) by (simp add: sets_ok_def)
  have "\<exists>n rd' wr' er' k'. os_pselect os (clientsocks_nfds (router s)) (rd, select_writefds (router s), er) k1
        = (Inr (n, rd', wr', er'), k') \<and> inc k' = inc k1 \<and> out k' = out k1
      \<and> (fd_set_ok rd \<longrightarrow> fd_set_ok (select_writefds (router s)) \<longrightarrow> fd_set_ok er \<longrightarrow>
          fds rd' = {x \<in> fds rd. x = fd \<and> x < clientsocks_nfds (router s) \<and> inc k1 \<noteq> []}
          \<and> fds wr' = {x \<in> fds (select_writefds (router s)). x = fd \<and> x < clientsocks_nfds (router s)} \<and> fds er' = {})"
    using k unfolding selects_def by blast
  then obtain m rd' wr' er' k2 where p: "os_pselect os (clientsocks_nfds (router s)) (rd, select_writefds (router s), er) k1
      = (Inr (m, rd', wr', er'), k2)" "inc k2 = inc k1" "out k2 = out k1"
    "fds rd' = {x \<in> fds rd. x = fd \<and> x < clientsocks_nfds (router s) \<and> inc k1 \<noteq> []}"
    "fds wr' = {x \<in> fds (select_writefds (router s)). x = fd \<and> x < clientsocks_nfds (router s)}" "fds er' = {}"
    using s1(1,2) w by blast
  define t where "t = s\<lparr>kern := k2, router := (router s)\<lparr>select_readfds := rd', select_writefds := wr',
      select_errorfds := er'\<rparr>\<rparr>"
  have sel: "select_phase os s = Some (Inr m, t)"
    using 1 c(1) p(1) by (simp add: select_phase_def do_pselect_def modRouter_def t_def)
  have pk: "pselect_ok os" using k by (simp add: selects_def)
  from pk p(1) s1(1,2) w have "m = int (card (fds rd') + card (fds wr') + card (fds er'))"
    unfolding pselect_ok_def by blast
  then have "0 \<le> m" by simp
  note t = select_phase_ok [OF sv(1) pk sel this]
  have rd: "fds rd' = (if inc (kern s) = [] then {} else {fd})"
    using p(4) s1(3) c(2) by auto
  have wr: "fds wr' = fds (select_writefds (router s))" using p(5) sv(10,11) by auto
  have "serves fd c t" by (rule serves_cong [OF s]) (use t sv in auto)
  then show thesis
    using sel t rd wr p c by (intro that [of t]) (simp_all add: t_def)
qed

section \<open>A message of the client\<close>

text \<open>Handling a request of the handshake calls the kernel for fresh memory only.\<close>

definition quiet :: "('k \<Rightarrow> 'b) \<Rightarrow> ('k server, 'a) stm \<Rightarrow> bool" where
  "quiet g m \<longleftrightarrow> (\<forall>s. g (kern (snd (m s))) = g (kern s))"

named_theorems quiet_rules

lemma quietD: "quiet g m \<Longrightarrow> m s = (r, t) \<Longrightarrow> g (kern t) = g (kern s)"
  unfolding quiet_def by (metis snd_conv)

lemma quiet_basic [quiet_rules]: "quiet g (retS x)" "quiet g (failS e)" "quiet g (modRouter f)" "quiet g (modCnx fd h)"
  by (simp_all add: quiet_def modCnx_def modRouter_def)

lemma quiet_andThen [quiet_rules]:
  assumes "quiet g m" "\<And>x. quiet g (k x)" shows "quiet g (andThen m k)"
  unfolding quiet_def
proof
  fix s
  obtain r s1 where m: "m s = (r, s1)" by fastforce
  with quietD [OF assms(1) m] assms(2) show "g (kern (snd (andThen m k s))) = g (kern s)"
    by (cases r) (simp_all add: quiet_def)
qed

lemma quiet_this [quiet_rules]: "(\<And>c. quiet g (k c)) \<Longrightarrow> quiet g (this fd k)"
  by (auto simp: quiet_def this_def split: option.split)

lemma quiet_with_string [quiet_rules]: "(\<And>v. quiet g (k v)) \<Longrightarrow> quiet g (with_string m p k)"
  by (auto simp: with_string_def quiet_rules split: sum.split)

lemma quiet_sendBody [quiet_rules]: "quiet g (sendBody fd m n i)"
proof -
  have "quiet g (OutgoingDataForClient d)" for d
    by (simp add: quiet_def OutgoingDataForClient_def modRouter_def split: option.split)
  then have "quiet g (sendMsgToClient fd r)" for r unfolding sendMsgToClient_def by (intro quiet_rules)
  then show ?thesis by (auto simp: sendBody_def quiet_rules split: sum.split)
qed

lemma quiet_setCnxState [quiet_rules]: "quiet g (setCnxState fd st)"
  unfolding setCnxState_def by (intro quiet_rules)

lemma quiet_handshake:
  assumes "\<And>k. g (snd (os_new os k)) = g k" and "id_of (l1_id m) \<in> {Some CONNECTION_REQ, Some REGISTRATION_REQ}"
  shows "quiet g (handle_client_message os fd m)"
proof -
  have new: "quiet g (new_mem os)"
    using assms(1) by (auto simp: quiet_def new_mem_def split: prod.split) (metis snd_conv)
  have "quiet g (sendConnectionRej os fd cause)" for cause
    unfolding sendConnectionRej_def mainVersionString_eq sum.case
    by (intro quiet_andThen new) (auto intro: quiet_rules split: sum.split)
  moreover have "quiet g (sendConnectionCnf os fd ciph key)" "quiet g (sendRegistrationCnf os fd)"
    "quiet g (sendRegistrationRej os fd rcause)" for ciph key rcause
    unfolding send_defs by (intro quiet_rules new)+
  ultimately have "quiet g (handleConnectionReq os fd m)" "quiet g (handleRegistrationReq os fd m)"
    unfolding handleConnectionReq_def handleRegistrationReq_def mainVersionString_eq sum.case
    by (auto intro!: quiet_rules)
  with assms(2) show ?thesis by (auto simp: handle_client_message_def)
qed

definition server_sock :: "(ClientServerL1MessageId \<times> mem \<times> nat) list \<Rightarrow> MsgSocket \<Rightarrow> bool" where
  "server_sock ps x \<longleftrightarrow> from_dir x = FROM_SERVER \<and> rx_part x = ([], None, 0) \<and> tx_idle ps x
     \<and> (\<forall>p\<in>set ps. snd (snd p) \<noteq> 11)"

lemma is_reply_length: "is_reply rep (msg_request q) \<Longrightarrow> snd (snd q) \<noteq> 11"
  by (cases q; cases rep) (auto simp: msg_of_request)

lemma tx_idle_fifo: "tx_idle ps (x\<lparr>rx_fifo := ms\<rparr>) = tx_idle ps x"
  by (simp add: tx_idle_def tx_clear_def)

lemma tx_idle_snoc: "tx_idle ps x \<Longrightarrow> msg_ok q \<Longrightarrow> tx_idle (ps @ [q]) (x\<lparr>tx_fifo := tx_fifo x @ [msg_request q]\<rparr>)"
  by (auto simp: tx_idle_def)

text \<open>A request that has arrived is received and handled, and its reply is queued.\<close>

lemma server_receives:
  assumes ok: "end_ok os fd inc out" and own: "own_descr s" and c: "cnx s fd = Some c" "socket_descr (servSock c) = fd" "fd_valid fd"
    and x: "server_sock ps (servSock c)" and st: "state c \<noteq> State.DISCONNECTING"
    and p: "inc (kern s) = msg_wire FROM_CLIENT pad p" "msg_ok p" "fst p \<in> {CONNECTION_REQ, REGISTRATION_REQ}"
    and ev: "\<And>m. carries FROM_CLIENT m p \<Longrightarrow> decode_client_msg m = Some ev"
    and re: "react ev (abs_of c) = Some (a, [rep])"
  obtains t c' q where "socketDataRead os fd s = Some (Inr (), t)" "frame fd s t" "cnx t fd = Some c'" "abs_of c' = a"
    "is_reply rep (msg_request q)" "server_sock (ps @ [q]) (servSock c')" "socket_descr (servSock c') = fd"
    "fd_set_ok (select_writefds (router t)) \<Longrightarrow> FD_ISSET fd (select_writefds (router t))"
    "inc (kern t) = []" "out (kern t) = out (kern s)"
proof -
  note x' = x [unfolded server_sock_def]
  have e: "socket_descr (sock (enter_sock s c)) = fd" "rx_fresh (sock (enter_sock s c))"
    "inc (kern (enter_sock s c)) = msg_wire FROM_CLIENT pad p"
    using c x' p by (simp_all add: enter_sock_def rx_fresh_def rx_part_def)
  from end_receives [OF ok e p(2)] obtain y m where y: "recvNextData os (enter_sock s c) = Some (Inr True, y)"
    "rx_part (sock y) = ([m], None, 0)" "carries FROM_CLIENT m p" "tx_part (sock y) = tx_part (servSock c)"
    "inc (kern y) = []" "out (kern y) = out (kern s)"
    by (auto simp: enter_sock_def)
  define s1 where "s1 = leave_sock s fd c y"
  have o: "sockO fd (recvNextData os) s = Some (Inr True, s1)" using c(1) y(1) by (simp add: sockO_def s1_def)
  have f1: "frame fd s s1" by (rule sockO_frame [OF own o]) (rule recvNextData_descr)
  have "received fd s1 = [m]" using y(2) by (simp add: s1_def received_leave_sock rx_part_def)
  from nextReceived_some [OF this] obtain c1 where c1: "cnx s1 fd = Some c1"
    "nextReceived fd s1 = (Some m, put_cnx fd (drained [] c1) s1)" by (auto simp: drained_def)
  have c1': "c1 = c\<lparr>servSock := sock y\<rparr>" using c1(1) by (simp add: s1_def leave_sock_def cnx_def)
  define s2 where "s2 = put_cnx fd (drained [] c1) s1"
  note t1 = tx_partD [OF y(4)]
  have f2: "frame fd s1 s2"
    using nextReceived_frame [OF frame_own [OF f1] c1(2)] by (simp add: s2_def)
  have d: "cnx s2 fd = Some (drained [] c1)" "socket_descr (servSock (drained [] c1)) = fd"
    "state (drained [] c1) \<noteq> State.DISCONNECTING" "abs_of (drained [] c1) = abs_of c"
    using c t1 st by (simp_all add: s2_def c1' abs_of_def drained_def)
  from handle_client_message_reacts [OF d(1,2) c(3) d(3) ev [OF y(3)], of os] re d(4) obtain t
    where h: "handle_client_message os fd m s2 = (Inr (), t)" and ans: "answered fd (drained [] c1) a [rep] t" by auto
  from ans obtain c' r where t: "cnx t fd = Some c'" "abs_of c' = a" "is_reply rep r"
    "servSock c' = (servSock (drained [] c1))\<lparr>tx_fifo := tx_fifo (servSock (drained [] c1)) @ [r]\<rparr>"
    "fd_set_ok (select_writefds (router t)) \<longrightarrow> FD_ISSET fd (select_writefds (router t))"
    unfolding answered_def by (auto simp: list_all2_Cons1)
  from is_reply_request [OF t(3)] obtain q where q: "r = msg_request q" "msg_ok q" by metis
  have f3: "frame fd s2 t" by (rule handle_client_message_frame [OF frame_own [OF f2] h])
  have "received fd t = []" using t(1,4) by (simp add: received_def)
  then have "dispatch (nextReceived fd) (handle_client_message os fd) t = Some (Inr (), t)"
    by (simp add: dispatch.simps [of _ _ t] nextReceived_none)
  then have rd: "socketDataRead os fd s = Some (Inr (), t)"
    using o c1(2) h by (simp add: socketDataRead_def dispatch.simps [of _ _ s1] s2_def)
  have id: "id_of (l1_id m) \<in> {Some CONNECTION_REQ, Some REGISTRATION_REQ}"
    using p(3) y(3) carriesD(1) by (cases p) fastforce
  have new: "inc (snd (os_new os k)) = inc k" "out (snd (os_new os k)) = out k" for k
    using end_ok_new [OF ok] by (metis prod.collapse)+
  have "inc (kern t) = inc (kern s2)" "out (kern t) = out (kern s2)"
    using quiet_handshake [of inc os, OF new(1) id] quiet_handshake [of out os, OF new(2) id] h by (blast dest: quietD)+
  moreover have "kern s2 = kern y" by (simp add: s2_def s1_def leave_sock_def)
  moreover have "server_sock (ps @ [q]) (servSock c')"
  proof -
    have "tx_idle ps ((sock y)\<lparr>rx_fifo := []\<rparr>)" using x' t1(1) [of ps] by (simp add: tx_idle_fifo)
    from tx_idle_snoc [OF this q(2)] have "tx_idle (ps @ [q]) (servSock c')" by (simp add: t(4) c1' q(1) tx_idle_fifo)
    moreover have "snd (snd q) \<noteq> 11" by (rule is_reply_length [OF t(3) [unfolded q(1)]])
    moreover have "rx_part (servSock c') = ([], None, 0)" using y(2) by (simp add: t(4) c1' rx_part_def)
    moreover have "from_dir (servSock c') = FROM_SERVER" using x' t1(3) by (simp add: t(4) c1')
    ultimately show ?thesis using x' by (auto simp: server_sock_def)
  qed
  moreover have "socket_descr (servSock c') = fd" using t1 c by (simp add: t(4) c1')
  ultimately show thesis
    using rd t q y frame_trans [OF f1 frame_trans [OF f2 f3]] by (intro that [of t c' q]) simp_all
qed

section \<open>A round\<close>

text \<open>
  The skeleton of a round for one client: \<open>P\<close> is what the reception gives and \<open>Q\<close> what the emission gives, which takes
  place when the client was in the emission set before.
\<close>

lemma round_of_one:
  assumes k: "selects os fd inc out" and s: "serves fd c s" and fd: "fd < 1023"
    and rx: "\<And>s1. serves fd c s1 \<Longrightarrow> inc (kern s1) = inc (kern s) \<Longrightarrow> out (kern s1) = out (kern s)
      \<Longrightarrow> fds (select_writefds (router s1)) = fds (select_writefds (router s))
      \<Longrightarrow> \<exists>s2 c2. (if inc (kern s) = [] then s2 = s1 else serveSocketReceptions os [fd] 0 s1 = Some (Inr 1, s2))
        \<and> serves fd c2 s2 \<and> fds (select_writefds (router s)) \<subseteq> fds (select_writefds (router s2)) \<and> P c2 s2"
    and tx: "\<And>s2 c2. serves fd c2 s2 \<Longrightarrow> P c2 s2 \<Longrightarrow> if fd \<in> fds (select_writefds (router s))
      then \<exists>s3 c3. serveSocketEmissions os [fd] 0 s2 = Some (Inr 1, s3) \<and> serves fd c3 s3 \<and> Q c3 s3
      else Q c2 s2"
  obtains t c' where "ServeClientSockets os s = Some (Inr (), t)" "serves fd c' t" "Q c' t"
proof -
  let ?r = "inc (kern s) = []" and ?w = "fd \<in> fds (select_writefds (router s))"
  from select_one [OF k s fd] obtain s1 where
    sel: "select_phase os s = Some (Inr (int (card (fds (select_readfds (router s1))) + card (fds (select_writefds (router s1))))), s1)"
    and s1: "serves fd c s1" "fds (select_readfds (router s1)) = (if ?r then {} else {fd})"
      "fds (select_errorfds (router s1)) = {}" "fds (select_writefds (router s1)) = fds (select_writefds (router s))"
      "inc (kern s1) = inc (kern s)" "out (kern s1) = out (kern s)" by blast
  have w: "fds (select_writefds (router s)) = (if ?w then {fd} else {})" using servesD(10) [OF s] by auto
  define n where "n = (if ?r then 0 else 1) + (if ?w then 1 else 0 :: int)"
  have "card (fds (select_writefds (router s))) = (if ?w then 1 else 0)" by (subst w) simp
  then have n: "select_phase os s = Some (Inr n, s1)" using sel s1(2,4) by (simp add: n_def)
  have ex: "fdsExtractList (clientsocks_nfds (router u)) x = Inr (if fds x = {} then [] else [fd])"
    if "serves fd d u" "fds x \<subseteq> {fd}" for u d x
  proof -
    from that have "fds x = {} \<or> fds x = {fd}" by blast
    with extract_sorted [OF servesD(2) [OF that(1)], of x] servesD(5,11) [OF that(1)] that(2) fd show ?thesis by auto
  qed
  have 1: "phase select_errorfds (\<lambda>l s. Some (handleSocketErrors os l 0 s)) n s1 = Some (Inr n, s1)"
    using ex [OF s1(1), of "select_errorfds (router s1)"] s1(3) by (simp add: phase_def)
  from rx [OF s1(1,5,6,4)] obtain s2 c2 where
    s2: "if ?r then s2 = s1 else serveSocketReceptions os [fd] 0 s1 = Some (Inr 1, s2)" "serves fd c2 s2"
      "fds (select_writefds (router s)) \<subseteq> fds (select_writefds (router s2))" "P c2 s2" by blast
  have 2: "phase select_readfds (\<lambda>l. serveSocketReceptions os l 0) n s1 = Some (Inr (if ?w then 1 else 0), s2)"
    using ex [OF s1(1), of "select_readfds (router s1)"] s1(2) s2(1) by (cases ?r) (simp_all add: phase_def n_def)
  from tx [OF s2(2,4)] obtain t c' where t: "serves fd c' t" "Q c' t"
    "if ?w then serveSocketEmissions os [fd] 0 s2 = Some (Inr 1, t) else t = s2"
    using s2(2) by (auto split: if_splits)
  have 3: "phase select_writefds (\<lambda>l. serveSocketEmissions os l 0) (if ?w then 1 else 0) s2 = Some (Inr 0, t)"
    using ex [OF s2(2) servesD(10) [OF s2(2)]] s2(3) t(3) by (cases ?w) (auto simp: phase_def)
  have "t\<lparr>router := (router t)\<lparr>dead_list := []\<rparr>\<rparr> = t" using servesD(4) [OF t(1)] by simp
  then have "ServeClientSockets os s = Some (Inr (), t)"
    using n 1 2 3 servesD(4) [OF t(1)] by (simp add: ServeClientSockets_eq serve_phases_def)
  with t show thesis by (intro that)
qed

text \<open>What an emission does for a client of the emission set.\<close>

lemma server_emits:
  assumes ok: "end_ok os fd inc out" and s: "serves fd c s" and x: "server_sock ps (servSock c)"
  obtains t c' pad where "serveSocketEmissions os [fd] 0 s = Some (Inr 1, t)" "serves fd c' t" "abs_of c' = abs_of c"
    "server_sock (tl ps) (servSock c')" "inc (kern t) = inc (kern s)"
    "out (kern t) = out (kern s) @ concat (map (msg_wire FROM_SERVER pad) (take 1 ps))"
    "ps \<noteq> [] \<Longrightarrow> select_writefds (router t) = select_writefds (router s)"
proof -
  note x' = x [unfolded server_sock_def] and sv = servesD [OF s]
  have e: "socket_descr (sock (enter_sock s c)) = fd" "tx_idle ps (sock (enter_sock s c))" "\<forall>p\<in>set ps. snd (snd p) \<noteq> 11"
    using sv x' by (simp_all add: enter_sock_def)
  from end_sends [OF ok e] obtain y where y: "sendNextData os (enter_sock s c) = Some (Inr (if ps = [] then 0 else 1), y)"
    "tx_idle (tl ps) (sock y)" "same_link (servSock c) (sock y)" "rx_part (sock y) = rx_part (servSock c)"
    "inc (kern y) = inc (kern s)"
    "out (kern y) = out (kern s) @ concat (map (msg_wire (from_dir (servSock c)) (tx_header (servSock c) 7)) (take 1 ps))"
    by (auto simp: enter_sock_def)
  define t0 where "t0 = leave_sock s fd c y"
  define t where "t = (if ps = [] then t0\<lparr>router := (router t0)\<lparr>select_writefds := FD_CLR fd (select_writefds (router t0))\<rparr>\<rparr> else t0)"
  have em: "serveSocketEmissions os [fd] 0 s = Some (Inr 1, t)"
    using emission_step [OF sv(6) y(1), of "[]" 0] by (simp add: t_def t0_def)
  note ok' = serveSocketEmissions_ok [OF sv(1) em]
  let ?c = "c\<lparr>servSock := sock y\<rparr>"
  have c: "cnx t fd = Some ?c" "dead_list (router t) = dead_list (router s)" "kern t = kern y"
    "ps \<noteq> [] \<Longrightarrow> select_writefds (router t) = select_writefds (router s)"
    by (simp_all add: t_def t0_def leave_sock_def cnx_def)
  have "serves fd ?c t"
    by (rule serves_cong [OF s]) (use ok' c y(3) sv in \<open>simp_all add: same_link_def\<close>)
  moreover have "\<forall>p\<in>set (tl ps). snd (snd p) \<noteq> 11" using x' by (cases ps) auto
  ultimately show thesis
    using em c y x' by (intro that [of t ?c "tx_header (servSock c) 7"])
      (simp_all add: abs_of_def server_sock_def same_link_def)
qed

text \<open>A round in which nothing has arrived sends the reply that is queued.\<close>

lemma server_turn_idle:
  assumes ok: "end_ok os fd inc out" "selects os fd inc out" and s: "serves fd c s" "fd < 1023"
    and x: "server_sock ps (servSock c)" "length ps \<le> 1" "ps \<noteq> [] \<Longrightarrow> fd \<in> fds (select_writefds (router s))"
    and none: "inc (kern s) = []"
  obtains t c' pad where "ServeClientSockets os s = Some (Inr (), t)" "serves fd c' t" "abs_of c' = abs_of c"
    "server_sock [] (servSock c')" "inc (kern t) = []"
    "out (kern t) = out (kern s) @ concat (map (msg_wire FROM_SERVER pad) ps)"
proof -
  let ?P = "\<lambda>c2 s2. c2 = c \<and> inc (kern s2) = [] \<and> out (kern s2) = out (kern s)"
  let ?Q = "\<lambda>c' t. abs_of c' = abs_of c \<and> server_sock [] (servSock c') \<and> inc (kern t) = []
    \<and> (\<exists>pad. out (kern t) = out (kern s) @ concat (map (msg_wire FROM_SERVER pad) ps))"
  have ps: "tl ps = []" "take 1 ps = ps" using x(2) by (cases ps; simp)+
  have "\<exists>t c'. ServeClientSockets os s = Some (Inr (), t) \<and> serves fd c' t \<and> ?Q c' t"
  proof (rule round_of_one [OF ok(2) s, where P = ?P and Q = ?Q], goal_cases)
    case (1 s1)
    with none show ?case by (intro exI [of _ s1] exI [of _ c]) simp
  next
    case (2 s2 c2)
    show ?case
    proof (cases "fd \<in> fds (select_writefds (router s))")
      case True
      from server_emits [OF ok(1) 2(1), of ps] 2(2) x(1) obtain t c' pad where
        "serveSocketEmissions os [fd] 0 s2 = Some (Inr 1, t)" "serves fd c' t" "abs_of c' = abs_of c"
        "server_sock (tl ps) (servSock c')" "inc (kern t) = inc (kern s2)"
        "out (kern t) = out (kern s2) @ concat (map (msg_wire FROM_SERVER pad) (take 1 ps))" by metis
      with True 2 ps show ?thesis by auto
    next
      case False
      with x have "ps = []" by blast
      with False 2 x show ?thesis by simp
    qed
  next
    case (3 t c')
    then show ?case by blast
  qed
  then show thesis using that by blast
qed

text \<open>
  A round in which a request of the handshake has arrived queues its reply, and sends it too when the client was still in
  the emission set.
\<close>

lemma server_turn_request:
  assumes ok: "end_ok os fd inc out" "selects os fd inc out" and s: "serves fd c s" "fd < 1023"
    and x: "server_sock [] (servSock c)" and st: "state c \<noteq> State.DISCONNECTING"
    and p: "inc (kern s) = msg_wire FROM_CLIENT pad p" "msg_ok p" "fst p \<in> {CONNECTION_REQ, REGISTRATION_REQ}"
    and ev: "\<And>m. carries FROM_CLIENT m p \<Longrightarrow> decode_client_msg m = Some ev"
    and re: "react ev (abs_of c) = Some (a, [rep])"
  obtains t c' q where "ServeClientSockets os s = Some (Inr (), t)" "serves fd c' t" "abs_of c' = a"
    "is_reply rep (msg_request q)" "inc (kern t) = []"
    "server_sock [q] (servSock c') \<and> fd \<in> fds (select_writefds (router t)) \<and> out (kern t) = out (kern s)
      \<or> server_sock [] (servSock c') \<and> (\<exists>pad. out (kern t) = out (kern s) @ msg_wire FROM_SERVER pad q)"
proof -
  let ?P = "\<lambda>c2 s2. \<exists>q. abs_of c2 = a \<and> is_reply rep (msg_request q) \<and> server_sock [q] (servSock c2)
    \<and> fd \<in> fds (select_writefds (router s2)) \<and> inc (kern s2) = [] \<and> out (kern s2) = out (kern s)"
  let ?Q = "\<lambda>c' t. \<exists>q. abs_of c' = a \<and> is_reply rep (msg_request q) \<and> inc (kern t) = []
    \<and> (server_sock [q] (servSock c') \<and> fd \<in> fds (select_writefds (router t)) \<and> out (kern t) = out (kern s)
      \<or> server_sock [] (servSock c') \<and> (\<exists>pad. out (kern t) = out (kern s) @ msg_wire FROM_SERVER pad q))"
  have some: "inc (kern s) \<noteq> []"
    using p(1) by (cases p) (auto simp: msg_wire_def msg_chunks_def header_bytes_def wire32_def)
  have "\<exists>t c'. ServeClientSockets os s = Some (Inr (), t) \<and> serves fd c' t \<and> ?Q c' t"
  proof (rule round_of_one [OF ok(2) s, where P = ?P and Q = ?Q], goal_cases)
    case (1 s1)
    note sv = servesD [OF 1(1)]
    have "inc (kern s1) = msg_wire FROM_CLIENT pad p" using 1(2) p(1) by simp
    from server_receives [OF ok(1) sv(3,6,7,8) x st this p(2,3) ev re] obtain t c' q where
      t: "socketDataRead os fd s1 = Some (Inr (), t)" "frame fd s1 t" "cnx t fd = Some c'" "abs_of c' = a"
      "is_reply rep (msg_request q)" "server_sock [q] (servSock c')" "socket_descr (servSock c') = fd"
      "fd_set_ok (select_writefds (router t)) \<longrightarrow> FD_ISSET fd (select_writefds (router t))"
      "inc (kern t) = []" "out (kern t) = out (kern s1)"
      by (metis append_Nil)
    have fd: "fd \<in> clients s1" using sv(5) by simp
    note f = frame_round [OF sv(1) t(2) fd]
    have sv': "serves fd c' t" by (rule serves_cong [OF 1(1) f(1-3) t(3,7)])
    have "fd \<in> fds (select_writefds (router t))"
      using t(8) servesD(8,9) [OF sv'] by (simp add: in_fds sets_ok_def)
    note w = this
    then have "?P c' t" using t 1(3) by (intro exI [of _ q]) simp
    moreover have "fds (select_writefds (router s)) \<subseteq> fds (select_writefds (router t))"
      using w servesD(10) [OF s(1)] by blast
    moreover have "serveSocketReceptions os [fd] 0 s1 = Some (Inr 1, t)" using t(1) sv(6) by simp
    ultimately show ?case using some sv' by (intro exI [of _ t] exI [of _ c'] conjI) (simp, blast+)
  next
    case (2 s2 c2)
    then obtain q where q: "abs_of c2 = a" "is_reply rep (msg_request q)" "server_sock [q] (servSock c2)"
      "fd \<in> fds (select_writefds (router s2))" "inc (kern s2) = []" "out (kern s2) = out (kern s)" by blast
    from server_emits [OF ok(1) 2(1) q(3)] obtain t c' pad where
      t: "serveSocketEmissions os [fd] 0 s2 = Some (Inr 1, t)" "serves fd c' t" "abs_of c' = abs_of c2"
      "server_sock (tl [q]) (servSock c')" "inc (kern t) = inc (kern s2)"
      "out (kern t) = out (kern s2) @ concat (map (msg_wire FROM_SERVER pad) (take 1 [q]))" by metis
    have Q: "?Q c' t" using t(3-6) q by (intro exI [of _ q]) auto
    show ?case
    proof (cases "fd \<in> fds (select_writefds (router s))")
      case True
      show ?thesis unfolding if_P [OF True] by (rule exI [of _ t], rule exI [of _ c'], intro conjI t(1,2) Q)
    next
      case False
      show ?thesis unfolding if_not_P [OF False] using q by (intro exI [of _ q]) simp
    qed
  next
    case (3 t c')
    then show ?case by blast
  qed
  then show thesis using that by blast
qed

end
