(* ===== verification/EndToEnd.thy ===== *)
theory EndToEnd
  imports ClientEnd ServerEnd
begin

text \<open>
  The two programs, joined by a connection that works: client and server take turns in any order, each a call of
  \<^verbatim>\<open>ClientConnection::poll\<close> or a round of \<^verbatim>\<open>ServeClientSockets\<close> on the kernel that they share. The handshake is followed from
  the construction of both ends to the registration.
\<close>

section \<open>Taking turns\<close>

datatype turn = Client_turn | Server_turn

text \<open>\<open>None\<close> when a program does not come out of its turn normally. The kernel state goes to the other program.\<close>

fun take_turn :: "'k os \<Rightarrow> 'k os \<Rightarrow> turn \<Rightarrow> 'k client \<times> 'k server \<Rightarrow> ('k client \<times> 'k server) option" where
  "take_turn cos sos Client_turn (c, s) = (case cnx_poll cos c of
      Some (Inr _, c') \<Rightarrow> Some (c', s\<lparr>kern := kern c'\<rparr>) | _ \<Rightarrow> None)"
| "take_turn cos sos Server_turn (c, s) = (case ServeClientSockets sos s of
      Some (Inr _, s') \<Rightarrow> Some (c\<lparr>kern := kern s'\<rparr>, s') | _ \<Rightarrow> None)"

fun take_turns :: "'k os \<Rightarrow> 'k os \<Rightarrow> turn list \<Rightarrow> 'k client \<times> 'k server \<Rightarrow> ('k client \<times> 'k server) option" where
  "take_turns cos sos [] x = Some x"
| "take_turns cos sos (t # ts) x = Option.bind (take_turn cos sos t x) (take_turns cos sos ts)"

lemma take_turns_append:
  "take_turns cos sos (ts @ us) x = Option.bind (take_turns cos sos ts x) (take_turns cos sos us)"
proof (induction ts arbitrary: x)
  case (Cons t ts)
  then show ?case by (cases "take_turn cos sos t x") simp_all
qed simp

text \<open>The connection between the two: \<open>U\<close> and \<open>D\<close> are the bytes on their way to the server and to the client.\<close>

definition link_ok :: "'k os \<Rightarrow> 'k os \<Rightarrow> int \<Rightarrow> int \<Rightarrow> ('k \<Rightarrow> byte list) \<Rightarrow> ('k \<Rightarrow> byte list) \<Rightarrow> bool" where
  "link_ok cos sos cfd sfd U D \<longleftrightarrow> end_ok cos cfd D U \<and> polls cos cfd D U \<and> end_ok sos sfd U D \<and> selects sos sfd U D"

lemma link_okD:
  assumes "link_ok cos sos cfd sfd U D"
  shows "end_ok cos cfd D U" "polls cos cfd D U" "end_ok sos sfd U D" "selects sos sfd U D"
  using assms by (simp_all add: link_ok_def)

section \<open>What a turn does\<close>

text \<open>
  The situation between two turns: \<open>K\<close> is a property of the client's connection, \<open>a\<close> the state of the server's, \<open>ps\<close> and \<open>qs\<close>
  are queued at the client and at the server, \<open>us\<close> and \<open>ds\<close> under way.
\<close>

type_synonym msg = "ClientServerL1MessageId \<times> mem \<times> nat"

definition standing :: "('k \<Rightarrow> byte list) \<Rightarrow> ('k \<Rightarrow> byte list) \<Rightarrow> int \<Rightarrow> int \<Rightarrow> (ClientConnection \<Rightarrow> bool)
    \<Rightarrow> msg list \<Rightarrow> abs_cnx \<Rightarrow> msg list \<Rightarrow> msg list \<Rightarrow> msg list \<Rightarrow> 'k client \<times> 'k server \<Rightarrow> bool" where
  "standing U D cfd sfd K ps a qs us ds x \<longleftrightarrow> (case x of (c, s) \<Rightarrow> kern c = kern s \<and> K (conn c)
     \<and> client_sock cfd ps (sock c)
     \<and> (\<exists>k. serves sfd k s \<and> abs_of k = a \<and> server_sock qs (servSock k))
     \<and> (qs \<noteq> [] \<longrightarrow> sfd \<in> fds (select_writefds (router s)))
     \<and> on_wire FROM_CLIENT us (U (kern s)) \<and> on_wire FROM_SERVER ds (D (kern s)))"

lemma serves_kern [simp]: "serves fd c (s\<lparr>kern := k\<rparr>) = serves fd c s"
  by (simp add: serves_def router_ok_def table_ok_def own_descr_def clients_def)

lemma on_wire_join: "on_wire dir us bs \<Longrightarrow> us = [] \<or> ps = [] \<Longrightarrow> on_wire dir (us @ ps) (bs @ concat (map (msg_wire dir pad) ps))"
  by (auto simp: on_wire_def)

text \<open>A turn of the client without an event of its user interface.\<close>

lemma client_moves:
  assumes link: "link_ok cos sos cfd sfd U D" and x: "standing U D cfd sfd K ps a qs us ds x"
    and sizes: "length ps \<le> 1" "length ds \<le> 1" "us = [] \<or> ps = []" "\<forall>q\<in>set ds. msg_ok q"
    and live: "\<And>cn. K cn \<Longrightarrow> cnx_state_val (cnx_state cn) > cnx_state_val NO_CONNECTION \<and> ext_event cn = {}"
    and h: "\<And>m q s. ds = [q] \<Longrightarrow> carries FROM_SERVER m q \<Longrightarrow> K (conn s)
      \<Longrightarrow> \<exists>cn. handle_server_message cos m s = (Inr (), s\<lparr>conn := cn\<rparr>) \<and> K' cn"
    and k: "\<And>cn. ds = [] \<Longrightarrow> K cn \<Longrightarrow> K' cn"
  obtains y where "take_turn cos sos Client_turn x = Some y" "standing U D cfd sfd K' [] a qs (us @ ps) [] y"
proof -
  obtain c s where cs: "x = (c, s)" by (cases x)
  note x' = x [unfolded standing_def cs prod.case]
  note l = link_okD [OF link]
  from x' live have lv: "cnx_state_val (cnx_state (conn c)) > cnx_state_val NO_CONNECTION" "ext_event (conn c) = {}" by auto
  then have ev: "handleExtEvents cos c = (Inr (), c)" by (simp add: handleExtEvents_def)
  have "client_sock cfd ps (sock c)" "on_wire FROM_SERVER ds (D (kern c))" using x' by simp_all
  from client_turn [OF l(1,2) lv(1) ev this(1,2) sizes(2,4), where K = K'] h k x' obtain t pad where
    t: "cnx_poll cos c = Some (Inr (), t)" "K' (conn t)" "client_sock cfd (tl ps) (sock t)" "D (kern t) = []"
      "U (kern t) = U (kern c) @ concat (map (msg_wire FROM_CLIENT pad) (take 1 ps))" by metis
  have "tl ps = []" "take 1 ps = ps" using sizes(1) by (cases ps; simp)+
  then have "standing U D cfd sfd K' [] a qs (us @ ps) [] (t, s\<lparr>kern := kern t\<rparr>)"
    using t x' on_wire_join [OF _ sizes(3)] by (auto simp: standing_def)
  with t(1) cs show thesis by (intro that) simp_all
qed

lemma client_hears:
  assumes link: "link_ok cos sos cfd sfd U D" and x: "standing U D cfd sfd K [] a qs [] [q] x" and q: "msg_ok q"
    and live: "\<And>cn. K cn \<Longrightarrow> cnx_state_val (cnx_state cn) > cnx_state_val NO_CONNECTION \<and> ext_event cn = {}"
    and h: "\<And>m s. carries FROM_SERVER m q \<Longrightarrow> K (conn s)
      \<Longrightarrow> \<exists>cn. handle_server_message cos m s = (Inr (), s\<lparr>conn := cn\<rparr>) \<and> K' cn"
  shows "\<exists>y. take_turn cos sos Client_turn x = Some y \<and> standing U D cfd sfd K' [] a qs [] [] y"
proof (rule client_moves [OF link x, where K' = K'], goal_cases)
  case (6 m q' s)
  from 6(1) have "q' = q" by simp
  with h 6(2,3) show ?case by blast
next
  case (8 y)
  then show ?case by (intro exI [of _ y]) simp
qed (use q live in simp_all)

text \<open>A turn of the server when nothing has arrived.\<close>

lemma server_moves_idle:
  assumes link: "link_ok cos sos cfd sfd U D" and fd: "sfd < 1023" and x: "standing U D cfd sfd K ps a qs [] ds x"
    and sizes: "length qs \<le> 1" "ds = [] \<or> qs = []"
  obtains y where "take_turn cos sos Server_turn x = Some y" "standing U D cfd sfd K ps a [] [] (ds @ qs) y"
proof -
  obtain c s where cs: "x = (c, s)" by (cases x)
  from x obtain k where x': "kern c = kern s" "K (conn c)" "client_sock cfd ps (sock c)" "serves sfd k s" "abs_of k = a"
    "server_sock qs (servSock k)" "qs \<noteq> [] \<Longrightarrow> sfd \<in> fds (select_writefds (router s))" "U (kern s) = []"
    "on_wire FROM_SERVER ds (D (kern s))" by (auto simp: standing_def cs)
  from server_turn_idle [OF link_okD(3,4) [OF link] x'(4) fd x'(6) sizes(1) x'(7,8)] obtain t k' pad where
    t: "ServeClientSockets sos s = Some (Inr (), t)" "serves sfd k' t" "abs_of k' = abs_of k" "server_sock [] (servSock k')"
      "U (kern t) = []" "D (kern t) = D (kern s) @ concat (map (msg_wire FROM_SERVER pad) qs)" by metis
  have "standing U D cfd sfd K ps a [] [] (ds @ qs) (c\<lparr>kern := kern t\<rparr>, t)"
    using t x' on_wire_join [OF x'(9) sizes(2), of pad] by (auto simp: standing_def)
  with t(1) cs show thesis by (intro that) simp_all
qed

text \<open>A turn of the server when a request of the handshake has arrived.\<close>

lemma server_moves_request:
  assumes link: "link_ok cos sos cfd sfd U D" and fd: "sfd < 1023" and x: "standing U D cfd sfd K ps a [] [p] [] x"
    and st: "a_state a \<noteq> State.DISCONNECTING" and p: "msg_ok p" "fst p \<in> {CONNECTION_REQ, REGISTRATION_REQ}"
    and ev: "\<And>m. carries FROM_CLIENT m p \<Longrightarrow> decode_client_msg m = Some ev"
    and re: "react ev a = Some (a', [rep])"
  obtains y q where "take_turn cos sos Server_turn x = Some y" "is_reply rep (msg_request q)"
    "standing U D cfd sfd K ps a' [q] [] [] y \<or> standing U D cfd sfd K ps a' [] [] [q] y"
proof -
  obtain c s where cs: "x = (c, s)" by (cases x)
  from x obtain k pad where x': "kern c = kern s" "K (conn c)" "client_sock cfd ps (sock c)" "serves sfd k s" "abs_of k = a"
    "server_sock [] (servSock k)" "U (kern s) = msg_wire FROM_CLIENT pad p" "D (kern s) = []"
    by (auto simp: standing_def cs)
  have st': "state k \<noteq> State.DISCONNECTING" and re': "react ev (abs_of k) = Some (a', [rep])"
    using st re x'(5) by (auto simp: abs_of_def)
  from server_turn_request [OF link_okD(3,4) [OF link] x'(4) fd x'(6) st' x'(7) p ev re'] obtain t k' q where
    t: "ServeClientSockets sos s = Some (Inr (), t)" "serves sfd k' t" "abs_of k' = a'"
      "is_reply rep (msg_request q)" "U (kern t) = []"
      "server_sock [q] (servSock k') \<and> sfd \<in> fds (select_writefds (router t)) \<and> D (kern t) = D (kern s)
        \<or> server_sock [] (servSock k') \<and> (\<exists>pad. D (kern t) = D (kern s) @ msg_wire FROM_SERVER pad q)" by metis
  have "standing U D cfd sfd K ps a' [q] [] [] (c\<lparr>kern := kern t\<rparr>, t)
      \<or> standing U D cfd sfd K ps a' [] [] [q] (c\<lparr>kern := kern t\<rparr>, t)"
    using t x' by (auto simp: standing_def)
  with t(1,4) cs show thesis by (intro that [of "(c\<lparr>kern := kern t\<rparr>, t)" q]) simp_all
qed

section \<open>The handshake, leg by leg\<close>

text \<open>The states of the client's connection.\<close>

definition waiting :: "ClientConnection \<Rightarrow> bool" where
  "waiting c \<longleftrightarrow> cnx_state c = CONNECTING \<and> ext_event c = {}"

definition pending :: "ClientConnection \<Rightarrow> bool" where
  "pending c \<longleftrightarrow> cnx_state c = CONNECTED_NO_CREDENTIALS \<and> ext_event c = {NEW_CREDENTIALS} \<and> login c"

definition submitted :: "ClientConnection \<Rightarrow> bool" where
  "submitted c \<longleftrightarrow> cnx_state c = CnxState.REGISTERING \<and> ext_event c = {} \<and> login c"

definition accepted :: "ClientConnection \<Rightarrow> bool" where
  "accepted c \<longleftrightarrow> cnx_state c = CnxState.REGISTERED \<and> ext_event c = {} \<and> login c"

text \<open>The two requests, with the bytes of fresh memory that go with them.\<close>

definition conn_req :: "byte \<Rightarrow> msg \<Rightarrow> bool" where
  "conn_req b p \<longleftrightarrow> msg_ok p \<and> fst p = CONNECTION_REQ
     \<and> (\<forall>m. carries FROM_CLIENT m p \<longrightarrow> decode_client_msg m = Some (ConnectionReqMsg (padded main_version b)))"

definition reg_req :: "byte \<times> byte \<times> byte \<Rightarrow> msg \<Rightarrow> bool" where
  "reg_req bs p \<longleftrightarrow> (case bs of (b1, b2, b3) \<Rightarrow> msg_ok p \<and> fst p = REGISTRATION_REQ
     \<and> (\<forall>m. carries FROM_CLIENT m p \<longrightarrow>
          decode_client_msg m = Some (RegistrationReqMsg (padded name0 b1) (padded email0 b3) (padded passwd0 b2))))"

definition verdict :: "byte \<Rightarrow> abs_cnx" where
  "verdict b = (if b = 0 then fresh_server\<lparr>a_state := State.REGISTERING\<rparr>
     else fresh_server\<lparr>a_state := State.CONN_REJECTED, a_cause := BAD_CLIENT_VERSION\<rparr>)"

definition verdict_reply :: "byte \<Rightarrow> reply" where
  "verdict_reply b = (if b = 0 then ConnectionCnfRep else ConnectionRejRep BAD_CLIENT_VERSION)"

definition enrolled :: "byte \<times> byte \<times> byte \<Rightarrow> abs_cnx" where
  "enrolled bs = (case bs of (b1, b2, b3) \<Rightarrow> server_with b1 b2 b3)"

lemma server_verdict: "react (ConnectionReqMsg (padded main_version b)) fresh_server = Some (verdict b, [verdict_reply b])"
  by (simp add: verdict_def verdict_reply_def fresh_server_def)

lemma server_enrolls:
  "react (RegistrationReqMsg (padded name0 b1) (padded email0 b3) (padded passwd0 b2)) (verdict 0)
    = Some (enrolled (b1, b2, b3), [RegistrationCnfRep])"
  by (simp add: verdict_def enrolled_def fresh_server_def server_with_def)

text \<open>
  The nine legs of the handshake: request queued, under way; reply queued, under way; credentials known; credentials
  under way; reply queued, under way; registered. With a byte \<open>b\<close> that is not 0 the fifth is the last: the client has
  been refused.
\<close>

inductive leg :: "('k \<Rightarrow> byte list) \<Rightarrow> ('k \<Rightarrow> byte list) \<Rightarrow> int \<Rightarrow> int \<Rightarrow> byte \<Rightarrow> nat \<Rightarrow> 'k client \<times> 'k server \<Rightarrow> bool"
  for U D cfd sfd b where
  Leg0: "standing U D cfd sfd waiting [p] fresh_server [] [] [] x \<Longrightarrow> conn_req b p \<Longrightarrow> leg U D cfd sfd b 0 x"
| Leg1: "standing U D cfd sfd waiting [] fresh_server [] [p] [] x \<Longrightarrow> conn_req b p \<Longrightarrow> leg U D cfd sfd b 1 x"
| Leg2: "standing U D cfd sfd waiting [] (verdict b) [q] [] [] x \<Longrightarrow> is_reply (verdict_reply b) (msg_request q)
    \<Longrightarrow> leg U D cfd sfd b 2 x"
| Leg3: "standing U D cfd sfd waiting [] (verdict b) [] [] [q] x \<Longrightarrow> is_reply (verdict_reply b) (msg_request q)
    \<Longrightarrow> leg U D cfd sfd b 3 x"
| Leg4: "standing U D cfd sfd (if b = 0 then pending else waiting) [] (verdict b) [] [] [] x \<Longrightarrow> leg U D cfd sfd b 4 x"
| Leg5: "standing U D cfd sfd submitted [] (verdict 0) [] [p] [] x \<Longrightarrow> b = 0 \<Longrightarrow> reg_req bs p \<Longrightarrow> leg U D cfd sfd b 5 x"
| Leg6: "standing U D cfd sfd submitted [] (enrolled bs) [q] [] [] x \<Longrightarrow> b = 0
    \<Longrightarrow> is_reply RegistrationCnfRep (msg_request q) \<Longrightarrow> leg U D cfd sfd b 6 x"
| Leg7: "standing U D cfd sfd submitted [] (enrolled bs) [] [] [q] x \<Longrightarrow> b = 0
    \<Longrightarrow> is_reply RegistrationCnfRep (msg_request q) \<Longrightarrow> leg U D cfd sfd b 7 x"
| Leg8: "standing U D cfd sfd accepted [] (enrolled bs) [] [] [] x \<Longrightarrow> b = 0 \<Longrightarrow> leg U D cfd sfd b 8 x"

text \<open>Whose turn takes the handshake on, and where it ends.\<close>

definition owner :: "nat \<Rightarrow> turn" where
  "owner r = (if r \<in> {0, 3, 4, 7} then Client_turn else Server_turn)"

definition last_leg :: "byte \<Rightarrow> nat" where
  "last_leg b = (if b = 0 then 8 else 4)"

text \<open>The client reads the replies.\<close>

lemma reply_ok: "is_reply rep (msg_request q) \<Longrightarrow> msg_ok q"
  by (erule is_reply_request) (simp add: msg_request_inj)

lemma verdict_read:
  assumes "is_reply (verdict_reply b) (msg_request q)" "carries FROM_SERVER m q" "waiting (conn s)"
  shows "\<exists>cn. handle_server_message os m s = (Inr (), s\<lparr>conn := cn\<rparr>) \<and> (if b = 0 then pending else waiting) cn"
proof -
  obtain i d n where q: "q = (i, d, n)" by (cases q)
  note c = assms(2) [unfolded q]
  note id = carriesD(1) [OF c]
  show ?thesis
  proof (cases "b = 0")
    case True
    with assms(1) q id have "id_of (l1_id m) = Some CONNECTION_CNF" by (simp add: verdict_reply_def msg_of_request)
    from client_confirmed [OF this, of s] assms(3) True show ?thesis by (auto simp: waiting_def pending_def)
  next
    case False
    with assms(1) q id carried_enum [OF c] have "id_of (l1_id m) = Some CONNECTION_REJ"
      "get_enum (l1_body m) = connection_rej_val BAD_CLIENT_VERSION"
      by (simp_all add: verdict_reply_def msg_of_request)
    from client_refused [OF this, of os s] False assms(3) show ?thesis by (intro exI [of _ "conn s"]) simp
  qed
qed

lemma registration_read:
  assumes "is_reply RegistrationCnfRep (msg_request q)" "carries FROM_SERVER m q" "submitted (conn s)"
  shows "\<exists>cn. handle_server_message os m s = (Inr (), s\<lparr>conn := cn\<rparr>) \<and> accepted cn"
proof -
  obtain i d n where q: "q = (i, d, n)" by (cases q)
  have "id_of (l1_id m) = Some REGISTRATION_CNF"
    using assms(1) q carriesD(1) [OF assms(2) [unfolded q]] by (simp add: msg_of_request)
  from client_registered [OF this, of s os] assms(3) show ?thesis
    by (intro exI [of _ "(conn s)\<lparr>cnx_state := CnxState.REGISTERED\<rparr>"]) (simp add: submitted_def accepted_def login_def)
qed

text \<open>The client sends its credentials.\<close>

lemma client_submits:
  assumes link: "link_ok cos sos cfd sfd U D" and x: "standing U D cfd sfd pending [] a [] [] [] x"
  obtains y p bs where "take_turn cos sos Client_turn x = Some y" "reg_req bs p"
    "standing U D cfd sfd submitted [] a [] [p] [] y"
proof -
  obtain c s where cs: "x = (c, s)" by (cases x)
  note x' = x [unfolded standing_def cs prod.case]
  note l = link_okD [OF link]
  from x' have pd: "ext_event (conn c) = {NEW_CREDENTIALS}" "login (conn c)" "cnx_state (conn c) = CONNECTED_NO_CREDENTIALS"
    by (simp_all add: pending_def)
  from credentials_queued_exactly [OF pd, of cos] obtain k m b1 b2 b3 where
    ev: "handleExtEvents cos c = (Inr (), c\<lparr>kern := k, sock := sendMsg (msg_request (REGISTRATION_REQ, m, 192)) (sock c),
      conn := (conn c)\<lparr>cnx_state := CnxState.REGISTERING, ext_event := {}\<rparr>\<rparr>)" and k: "k = snd (os_new cos (kern c))"
    and str: "cstring m 8192 0 = Some (padded name0 b1)" "cstring m 8160 off_password = Some (padded passwd0 b2)"
      "cstring m 8128 off_mail_address = Some (padded email0 b3)" .
  let ?p = "(REGISTRATION_REQ, m, 192)"
  let ?c1 = "c\<lparr>kern := k, sock := sendMsg (msg_request ?p) (sock c),
      conn := (conn c)\<lparr>cnx_state := CnxState.REGISTERING, ext_event := {}\<rparr>\<rparr>"
  have new: "D k = D (kern c)" "U k = U (kern c)" using end_ok_new [OF l(1)] k by (metis prod.collapse)+
  have sk: "client_sock cfd [?p] (sock ?c1)"
    using x' tx_idle_snoc [of "[]" "sock c" ?p]
    by (simp add: client_sock_def sendMsg_def msg_ok_def rx_part_def)
  have ds: "on_wire FROM_SERVER [] (D (kern ?c1))" using x' new by simp
  have lv: "cnx_state_val (cnx_state (conn c)) > cnx_state_val NO_CONNECTION" using pd by simp
  have sub: "submitted (conn ?c1)" using pd by (simp add: submitted_def login_def)
  from client_turn [OF l(1,2) lv ev sk ds, where K = submitted] sub obtain t pad where
    t: "cnx_poll cos c = Some (Inr (), t)" "submitted (conn t)" "client_sock cfd [] (sock t)" "D (kern t) = []"
      "U (kern t) = U k @ msg_wire FROM_CLIENT pad ?p" by auto
  have "reg_req (b1, b2, b3) ?p"
    using decode_registration_req [OF _ str] length_padded [of name0 b1] length_padded [of passwd0 b2]
      length_padded [of email0 b3]
    by (simp add: reg_req_def msg_ok_def bytes_of_def)
  moreover have "standing U D cfd sfd submitted [] a [] [?p] [] (t, s\<lparr>kern := kern t\<rparr>)"
    using t x' new by (auto simp: standing_def)
  ultimately show thesis using t(1) cs by (intro that) simp_all
qed

section \<open>Progress\<close>

text \<open>Every turn keeps the leg or takes the handshake on, and the turn of the owner of the leg takes it on.\<close>

lemma client_leg:
  assumes link: "link_ok cos sos cfd sfd U D" and x: "leg U D cfd sfd b r x"
  shows "\<exists>y r'. take_turn cos sos Client_turn x = Some y \<and> leg U D cfd sfd b r' y
    \<and> (if owner r = Client_turn \<and> r < last_leg b then r < r' else r \<le> r')"
  using x
proof cases
  case (Leg0 p)
  from client_moves [OF link Leg0(2), of waiting] obtain y where
    "take_turn cos sos Client_turn x = Some y" "standing U D cfd sfd waiting [] fresh_server [] [p] [] y"
    by (auto simp: waiting_def)
  with leg.Leg1 [OF this(2) Leg0(3)] Leg0(1) show ?thesis by (intro exI [of _ y] exI [of _ 1]) (simp del: One_nat_def)
next
  case (Leg1 p)
  from client_moves [OF link Leg1(2), of waiting] obtain y where
    "take_turn cos sos Client_turn x = Some y" "standing U D cfd sfd waiting [] fresh_server [] [p] [] y"
    by (auto simp: waiting_def)
  with leg.Leg1 [OF this(2) Leg1(3)] Leg1(1) show ?thesis by (intro exI [of _ y] exI [of _ 1]) (simp add: owner_def)
next
  case (Leg2 q)
  from client_moves [OF link Leg2(2), of waiting] obtain y where
    "take_turn cos sos Client_turn x = Some y" "standing U D cfd sfd waiting [] (verdict b) [q] [] [] y"
    by (auto simp: waiting_def)
  with leg.Leg2 [OF this(2) Leg2(3)] Leg2(1) show ?thesis by (intro exI [of _ y] exI [of _ 2]) (simp add: owner_def)
next
  case (Leg3 q)
  have "\<exists>y. take_turn cos sos Client_turn x = Some y
      \<and> standing U D cfd sfd (if b = 0 then pending else waiting) [] (verdict b) [] [] [] y"
    by (rule client_hears [OF link Leg3(2) reply_ok [OF Leg3(3)] _ verdict_read [OF Leg3(3)]])
      (simp_all add: waiting_def)
  then obtain y where "take_turn cos sos Client_turn x = Some y"
    "standing U D cfd sfd (if b = 0 then pending else waiting) [] (verdict b) [] [] [] y" by blast
  with leg.Leg4 [OF this(2)] Leg3(1) show ?thesis by (intro exI [of _ y] exI [of _ 4]) simp
next
  case Leg4
  show ?thesis
  proof (cases "b = 0")
    case True
    with Leg4 have "standing U D cfd sfd pending [] (verdict 0) [] [] [] x" by simp
    from client_submits [OF link this] obtain y p bs where "take_turn cos sos Client_turn x = Some y" "reg_req bs p"
      "standing U D cfd sfd submitted [] (verdict 0) [] [p] [] y" .
    with leg.Leg5 [OF this(3) True this(2)] Leg4(1) show ?thesis by (intro exI [of _ y] exI [of _ 5]) simp
  next
    case False
    with Leg4 have "standing U D cfd sfd waiting [] (verdict b) [] [] [] x" by simp
    from client_moves [OF link this, of waiting] obtain y where
      "take_turn cos sos Client_turn x = Some y" "standing U D cfd sfd waiting [] (verdict b) [] [] [] y"
      by (auto simp: waiting_def)
    with leg.Leg4 [of U D cfd sfd b y] False Leg4(1) show ?thesis
      by (intro exI [of _ y] exI [of _ 4]) (simp add: last_leg_def)
  qed
next
  case (Leg5 p bs)
  from client_moves [OF link Leg5(2), of submitted] obtain y where
    "take_turn cos sos Client_turn x = Some y" "standing U D cfd sfd submitted [] (verdict 0) [] [p] [] y"
    by (auto simp: submitted_def)
  with leg.Leg5 [OF this(2) Leg5(3,4)] Leg5(1) show ?thesis by (intro exI [of _ y] exI [of _ 5]) (simp add: owner_def)
next
  case (Leg6 bs q)
  from client_moves [OF link Leg6(2), of submitted] obtain y where
    "take_turn cos sos Client_turn x = Some y" "standing U D cfd sfd submitted [] (enrolled bs) [q] [] [] y"
    by (auto simp: submitted_def)
  with leg.Leg6 [OF this(2) Leg6(3,4)] Leg6(1) show ?thesis by (intro exI [of _ y] exI [of _ 6]) (simp add: owner_def)
next
  case (Leg7 bs q)
  have "\<exists>y. take_turn cos sos Client_turn x = Some y \<and> standing U D cfd sfd accepted [] (enrolled bs) [] [] [] y"
    by (rule client_hears [OF link Leg7(2) reply_ok [OF Leg7(4)] _ registration_read [OF Leg7(4)]])
      (simp_all add: submitted_def)
  then obtain y where "take_turn cos sos Client_turn x = Some y"
    "standing U D cfd sfd accepted [] (enrolled bs) [] [] [] y" by blast
  with leg.Leg8 [OF this(2) Leg7(3)] Leg7(1) show ?thesis by (intro exI [of _ y] exI [of _ 8]) simp
next
  case (Leg8 bs)
  from client_moves [OF link Leg8(2), of accepted] obtain y where
    "take_turn cos sos Client_turn x = Some y" "standing U D cfd sfd accepted [] (enrolled bs) [] [] [] y"
    by (auto simp: accepted_def)
  with leg.Leg8 [OF this(2) Leg8(3)] Leg8(1,3) show ?thesis by (intro exI [of _ y] exI [of _ 8]) (simp add: last_leg_def)
qed

lemma server_leg:
  assumes link: "link_ok cos sos cfd sfd U D" and fd: "sfd < 1023" and x: "leg U D cfd sfd b r x"
  shows "\<exists>y r'. take_turn cos sos Server_turn x = Some y \<and> leg U D cfd sfd b r' y
    \<and> (if owner r = Server_turn \<and> r < last_leg b then r < r' else r \<le> r')"
  using x
proof cases
  case (Leg0 p)
  from server_moves_idle [OF link fd Leg0(2)] obtain y where
    "take_turn cos sos Server_turn x = Some y" "standing U D cfd sfd waiting [p] fresh_server [] [] [] y" by auto
  with leg.Leg0 [OF this(2) Leg0(3)] Leg0(1) show ?thesis by (intro exI [of _ y] exI [of _ 0]) (simp add: owner_def)
next
  case (Leg1 p)
  from Leg1(3) have p: "msg_ok p" "fst p \<in> {CONNECTION_REQ, REGISTRATION_REQ}"
    "\<And>m. carries FROM_CLIENT m p \<Longrightarrow> decode_client_msg m = Some (ConnectionReqMsg (padded main_version b))"
    by (simp_all add: conn_req_def)
  have st: "a_state fresh_server \<noteq> State.DISCONNECTING" by (simp add: fresh_server_def)
  from server_moves_request [OF link fd Leg1(2) st p server_verdict] obtain y q where
    y: "take_turn cos sos Server_turn x = Some y" "is_reply (verdict_reply b) (msg_request q)"
    "standing U D cfd sfd waiting [] (verdict b) [q] [] [] y \<or> standing U D cfd sfd waiting [] (verdict b) [] [] [q] y" .
  from y(3) show ?thesis
  proof
    assume "standing U D cfd sfd waiting [] (verdict b) [q] [] [] y"
    from leg.Leg2 [OF this y(2)] y(1) Leg1(1) show ?thesis by (intro exI [of _ y] exI [of _ 2]) simp
  next
    assume "standing U D cfd sfd waiting [] (verdict b) [] [] [q] y"
    from leg.Leg3 [OF this y(2)] y(1) Leg1(1) show ?thesis by (intro exI [of _ y] exI [of _ 3]) simp
  qed
next
  case (Leg2 q)
  from server_moves_idle [OF link fd Leg2(2)] obtain y where
    "take_turn cos sos Server_turn x = Some y" "standing U D cfd sfd waiting [] (verdict b) [] [] [q] y" by auto
  with leg.Leg3 [OF this(2) Leg2(3)] Leg2(1) show ?thesis by (intro exI [of _ y] exI [of _ 3]) simp
next
  case (Leg3 q)
  from server_moves_idle [OF link fd Leg3(2)] obtain y where
    "take_turn cos sos Server_turn x = Some y" "standing U D cfd sfd waiting [] (verdict b) [] [] [q] y" by auto
  with leg.Leg3 [OF this(2) Leg3(3)] Leg3(1) show ?thesis by (intro exI [of _ y] exI [of _ 3]) (simp add: owner_def)
next
  case Leg4
  from server_moves_idle [OF link fd Leg4(2)] obtain y where
    "take_turn cos sos Server_turn x = Some y"
    "standing U D cfd sfd (if b = 0 then pending else waiting) [] (verdict b) [] [] [] y" by auto
  with leg.Leg4 [OF this(2)] Leg4(1) show ?thesis by (intro exI [of _ y] exI [of _ 4]) (simp add: owner_def)
next
  case (Leg5 p bs)
  obtain b1 b2 b3 where bs: "bs = (b1, b2, b3)" by (cases bs)
  from Leg5(4) have p: "msg_ok p" "fst p \<in> {CONNECTION_REQ, REGISTRATION_REQ}"
    "\<And>m. carries FROM_CLIENT m p
      \<Longrightarrow> decode_client_msg m = Some (RegistrationReqMsg (padded name0 b1) (padded email0 b3) (padded passwd0 b2))"
    by (simp_all add: reg_req_def bs)
  have st: "a_state (verdict 0) \<noteq> State.DISCONNECTING" by (simp add: verdict_def)
  from server_moves_request [OF link fd Leg5(2) st p server_enrolls] obtain y q where
    y: "take_turn cos sos Server_turn x = Some y" "is_reply RegistrationCnfRep (msg_request q)"
    "standing U D cfd sfd submitted [] (enrolled (b1, b2, b3)) [q] [] [] y
      \<or> standing U D cfd sfd submitted [] (enrolled (b1, b2, b3)) [] [] [q] y" .
  from y(3) show ?thesis
  proof
    assume "standing U D cfd sfd submitted [] (enrolled (b1, b2, b3)) [q] [] [] y"
    from leg.Leg6 [OF this Leg5(3) y(2)] y(1) Leg5(1) show ?thesis by (intro exI [of _ y] exI [of _ 6]) simp
  next
    assume "standing U D cfd sfd submitted [] (enrolled (b1, b2, b3)) [] [] [q] y"
    from leg.Leg7 [OF this Leg5(3) y(2)] y(1) Leg5(1) show ?thesis by (intro exI [of _ y] exI [of _ 7]) simp
  qed
next
  case (Leg6 bs q)
  from server_moves_idle [OF link fd Leg6(2)] obtain y where
    "take_turn cos sos Server_turn x = Some y" "standing U D cfd sfd submitted [] (enrolled bs) [] [] [q] y" by auto
  with leg.Leg7 [OF this(2) Leg6(3,4)] Leg6(1) show ?thesis by (intro exI [of _ y] exI [of _ 7]) simp
next
  case (Leg7 bs q)
  from server_moves_idle [OF link fd Leg7(2)] obtain y where
    "take_turn cos sos Server_turn x = Some y" "standing U D cfd sfd submitted [] (enrolled bs) [] [] [q] y" by auto
  with leg.Leg7 [OF this(2) Leg7(3,4)] Leg7(1) show ?thesis by (intro exI [of _ y] exI [of _ 7]) (simp add: owner_def)
next
  case (Leg8 bs)
  from server_moves_idle [OF link fd Leg8(2)] obtain y where
    "take_turn cos sos Server_turn x = Some y" "standing U D cfd sfd accepted [] (enrolled bs) [] [] [] y" by auto
  with leg.Leg8 [OF this(2) Leg8(3)] Leg8(1,3) show ?thesis by (intro exI [of _ y] exI [of _ 8]) (simp add: last_leg_def)
qed

lemma leg_turn:
  assumes "link_ok cos sos cfd sfd U D" "sfd < 1023" "leg U D cfd sfd b r x"
  shows "\<exists>y r'. take_turn cos sos t x = Some y \<and> leg U D cfd sfd b r' y
    \<and> (if owner r = t \<and> r < last_leg b then r < r' else r \<le> r')"
  using client_leg [OF assms(1,3)] server_leg [OF assms] by (cases t) simp_all

lemma leg_turns:
  assumes "link_ok cos sos cfd sfd U D" "sfd < 1023" "leg U D cfd sfd b r x"
  shows "\<exists>y r'. take_turns cos sos ts x = Some y \<and> leg U D cfd sfd b r' y
    \<and> r \<le> r' \<and> (owner r \<in> set ts \<longrightarrow> r < last_leg b \<longrightarrow> r < r')"
  using assms(3)
proof (induction ts arbitrary: r x)
  case (Cons t ts)
  from leg_turn [OF assms(1,2) Cons.prems, of t] obtain y r1 where
    y: "take_turn cos sos t x = Some y" "leg U D cfd sfd b r1 y" "if owner r = t \<and> r < last_leg b then r < r1 else r \<le> r1"
    by blast
  from Cons.IH [OF y(2)] obtain z r2 where
    z: "take_turns cos sos ts y = Some z" "leg U D cfd sfd b r2 z" "r1 \<le> r2" "owner r1 \<in> set ts \<longrightarrow> r1 < last_leg b \<longrightarrow> r1 < r2"
    by blast
  have "r \<le> r2" "owner r \<in> set (t # ts) \<longrightarrow> r < last_leg b \<longrightarrow> r < r2"
    using y(3) z(3,4) by (cases "r1 = r"; auto split: if_splits)+
  with y z show ?case by auto
qed auto

text \<open>A round gives each program a turn at least; after as many rounds as there are legs the handshake has ended.\<close>

lemma leg_bound: "leg U D cfd sfd b r x \<Longrightarrow> r \<le> last_leg b"
  by (auto elim!: leg.cases simp: last_leg_def)

lemma leg_rounds:
  assumes "link_ok cos sos cfd sfd U D" "sfd < 1023" "leg U D cfd sfd b r x"
    and "\<forall>ts\<in>set rounds. {Client_turn, Server_turn} \<subseteq> set ts"
  shows "\<exists>y r'. take_turns cos sos (concat rounds) x = Some y \<and> leg U D cfd sfd b r' y
    \<and> min (r + length rounds) (last_leg b) \<le> r'"
  using assms(3,4)
proof (induction rounds arbitrary: r x)
  case (Cons ts rounds)
  from leg_turns [OF assms(1,2) Cons.prems(1), of ts] obtain y r1 where
    y: "take_turns cos sos ts x = Some y" "leg U D cfd sfd b r1 y" "r \<le> r1" "owner r \<in> set ts \<longrightarrow> r < last_leg b \<longrightarrow> r < r1"
    by blast
  have "owner r \<in> set ts" using Cons.prems(2) by (cases "owner r") auto
  with y(4) have "r < last_leg b \<longrightarrow> r < r1" by simp
  moreover from Cons.IH [OF y(2)] Cons.prems(2) obtain z r2 where
    "take_turns cos sos (concat rounds) y = Some z" "leg U D cfd sfd b r2 z" "min (r1 + length rounds) (last_leg b) \<le> r2" by auto
  ultimately show ?case using y leg_bound [OF y(2)]
    by (intro exI [of _ z] exI [of _ r2]) (auto simp: take_turns_append)
next
  case Nil
  with leg_bound [OF Nil(1)] show ?case by (intro exI [of _ x] exI [of _ r]) simp
qed

section \<open>The start\<close>

lemma client_started:
  assumes "new_ClientConnection os addr ifname k0 = Inr c0" and "StartConnectionToServer os c0 = (Inr (), c)"
  obtains m b where "client_sock (socket_descr (sock c)) [(CONNECTION_REQ, m, 32)] (sock c)" "waiting (conn c)"
    "cstring m 8192 0 = Some (padded main_version b)" "\<exists>k. b = fst (os_new os k) (length main_version)"
proof -
  from assms(1) obtain k fd y where y: "new_ClientSocket os addr fd (k0\<lparr>kern := k\<rparr>) = (Inr (), y)"
    and c0: "sock c0 = sock y" "cnx_state (conn c0) = NO_SOCKET" "ext_event (conn c0) = {}"
    by (auto simp: new_ClientConnection_eq split: prod.splits sum.splits)
  from y obtain m k' where "andThen (socketConfiguration os) (\<lambda>_. connect os)
       \<lparr>kern = k', errno = errno k0, sock = new_MsgSocket ClientSocket_class addr fd FROM_CLIENT m\<rparr> = (Inr (), y)"
    by (auto simp: new_ClientSocket_def split: prod.splits)
  then obtain u z where z': "socketConfiguration os \<lparr>kern = k', errno = errno k0,
      sock = new_MsgSocket ClientSocket_class addr fd FROM_CLIENT m\<rparr> = (Inr u, z)" and cn: "connect os z = (Inr (), y)"
    by (rule andThen_InrE)
  have "sock z = new_MsgSocket ClientSocket_class addr fd FROM_CLIENT m"
    using z' by (auto simp: socketConfiguration_def syscall_def andThen_def split: prod.splits sum.splits)
  note z = this cn
  have "from_dir (sock z) = FROM_CLIENT" by (simp add: z(1) new_MsgSocket_def rxReset_def)
  from connect_state [OF this z(2)] z(1) c0(1)
  have sk: "sock c0 = (new_MsgSocket ClientSocket_class addr fd FROM_CLIENT m)\<lparr>sock_state := SOCK_CONNECTING\<rparr>" by simp
  then have dir: "from_dir (sock c0) = FROM_CLIENT" by (simp add: new_MsgSocket_def rxReset_def)
  from assms(2) obtain x s1 where s1: "set_cnx_state CONNECTING c0 = (Inr x, s1)"
    "andThen (onSock (connect os)) (\<lambda>_. sendConnectionReq os) s1 = (Inr (), c)"
    unfolding StartConnectionToServer_def by (rule andThen_InrE)
  from s1(2) obtain w s2 where s2: "onSock (connect os) s1 = (Inr w, s2)" "sendConnectionReq os s2 = (Inr (), c)"
    by (rule andThen_InrE)
  have e1: "s1 = c0\<lparr>conn := (conn c0)\<lparr>cnx_state := CONNECTING\<rparr>\<rparr>" using s1(1) by (auto simp: set_cnx_state_simp split: if_splits)
  obtain r k1 where "os_connect os (socket_descr (sock s1)) (peer_ip_addr (sock s1)) (kern s1) = (r, k1)" by fastforce
  from connect_cases [OF _ this] dir e1 s2(1) have e2: "sock s2 = (sock c0)\<lparr>sock_state := SOCK_CONNECTING\<rparr>" "conn s2 = conn s1"
    by auto
  from sendConnectionReq_queues [of os s2] s2(2) obtain k2 m' q where
    q: "c = s2\<lparr>kern := k2, sock := sendMsg q (sock s2)\<rparr>" "l2_payload_length q = 32" "nb_payload_bytes_sent q = 0"
      "kind q = MsgRequest CONNECTION_REQ m'"
      "cstring m' 8192 0 = Some (padded main_version (fst (os_new os (kern s2)) (length main_version)))"
    by auto
  from q(2-4) have "q = msg_request (CONNECTION_REQ, m', 32)" by (cases q) (simp add: msg_request_def)
  then have "client_sock (socket_descr (sock c)) [(CONNECTION_REQ, m', 32)] (sock c)"
    by (simp add: client_sock_def q(1) e2 sk sendMsg_def new_MsgSocket_def rxReset_def rx_part_def tx_idle_def tx_clear_def
        msg_ok_def)
  moreover have "waiting (conn c)" using c0 by (simp add: q(1) e2 e1 waiting_def)
  ultimately show thesis using q(5) by (intro that [of m' "fst (os_new os (kern s2)) (length main_version)"]) blast+
qed

lemma server_created:
  assumes ok: "router_ok s0" "clients s0 = {}" "dead_list (router s0) = []" and fd: "fd_valid sfd" "sfd \<noteq> 0"
    and r: "CreateClientConnection os peer sfd s0 = (Inr (), s)"
  obtains k where "serves sfd k s" "abs_of k = fresh_server" "server_sock [] (servSock k)"
proof -
  have "sfd \<notin> clients s0" using ok(2) by simp
  from CreateClientConnection_registers [OF router_ok_table [OF ok(1)] fd this r] ok(2)
  have t: "table_ok s" "clients s = {sfd}" by simp_all
  obtain x where x: "new_ServerSocket os peer sfd \<lparr>kern = kern s0, errno = errno s0\<rparr> = (Inr (), x)"
    and c: "cnx s sfd = Some (new_ServerClientConnection (sock x))" "dead_list (router s) = []"
    using r fd ok(3) by (auto simp: CreateClientConnection_def Let_def cnx_def split: if_splits prod.splits sum.splits)
  from x obtain m where m: "sock x = new_MsgSocket ServerSocket_class peer sfd FROM_SERVER m"
    by (auto simp: new_ServerSocket_def socketConfiguration_def syscall_def andThen_def split: prod.splits sum.splits)
  let ?k = "new_ServerClientConnection (sock x)"
  have "serves sfd ?k s"
    using t c by (simp add: serves_def router_ok_def m new_ServerClientConnection_def new_MsgSocket_def rxReset_def)
  moreover have "abs_of ?k = fresh_server" by (simp add: abs_of_def fresh_server_def new_ServerClientConnection_def)
  moreover have "server_sock [] (servSock ?k)"
    by (simp add: server_sock_def m new_ServerClientConnection_def new_MsgSocket_def rxReset_def rx_part_def tx_idle_def
        tx_clear_def)
  ultimately show thesis by (rule that)
qed

section \<open>Properties\<close>

text \<open>
  C1. A client is constructed and started, and a server without clients registers a connection for it, over a kernel that
  delivers what is sent, on channels that are empty at first. Then whatever the order of their turns, both programs
  always come out of them normally, and after eight rounds of at least one turn each the handshake has ended: both ends
  are registered and the server has the credentials of the client, each followed by at most one stray byte, exactly when
  the byte of the client's memory that follows the version is 0. Otherwise the server has refused the client, which waits
  for ever. (That the client could be started is supposed: \<^verbatim>\<open>StartConnectionToServer\<close> repeats the \<^verbatim>\<open>connect\<close> of the
  constructor, and a kernel that answers \<^verbatim>\<open>EALREADY\<close> to it makes the client abort, \<open>client_program_starts\<close>.)
\<close>

theorem client_registers:
  assumes "new_ClientConnection cos addr ifname k0 = Inr c0" and "StartConnectionToServer cos c0 = (Inr (), c)"
    and "tx_fifo (sock c) = [msg_request (i, m, n)]"
    and "router_ok s0" and "clients s0 = {}" and "dead_list (router s0) = []"
    and "0 < sfd" and "sfd < 1023"
    and "CreateClientConnection sos peer sfd (s0\<lparr>kern := kern c\<rparr>) = (Inr (), s)"
    and "link_ok cos sos (socket_descr (sock c)) sfd U D" and "U (kern s) = []" and "D (kern s) = []"
    and "8 \<le> length rounds" and "\<forall>ts\<in>set rounds. {Client_turn, Server_turn} \<subseteq> set ts"
  shows "\<exists>c' s' k. take_turns cos sos (concat rounds) (c\<lparr>kern := kern s\<rparr>, s) = Some (c', s') \<and> cnx s' sfd = Some k
    \<and> (if m (length main_version) = 0
       then cnx_state (conn c') = CnxState.REGISTERED \<and> state k = State.REGISTERED
         \<and> (\<exists>b1 b2 b3. ServerConnection.user_name k = padded (ClientConnection.user_name (conn c')) b1
             \<and> user_pwd k = padded (user_passwd (conn c')) b2
             \<and> ServerConnection.user_email k = padded (ClientConnection.user_email (conn c')) b3)
       else cnx_state (conn c') = CONNECTING \<and> state k = State.CONN_REJECTED)"
proof -
  let ?cfd = "socket_descr (sock c)"
  from client_started [OF assms(1,2)] obtain m' b where
    c: "client_sock ?cfd [(CONNECTION_REQ, m', 32)] (sock c)" "waiting (conn c)" "cstring m' 8192 0 = Some (padded main_version b)" .
  from c(1) assms(3) have m: "m' = m" by (simp add: client_sock_def tx_idle_def msg_request_inj)
  have "router_ok (s0\<lparr>kern := kern c\<rparr>)"
    using assms(4) by (simp add: router_ok_def table_ok_def own_descr_def clients_def)
  moreover have "clients (s0\<lparr>kern := kern c\<rparr>) = {}" using assms(5) by (simp add: clients_def)
  ultimately obtain k where k: "serves sfd k s" "abs_of k = fresh_server" "server_sock [] (servSock k)"
    using server_created [OF _ _ _ _ _ assms(9)] assms(6-8) by (auto simp: fd_valid_def)
  have req: "conn_req b (CONNECTION_REQ, m', 32)"
    using decode_connection_req [OF _ c(3)] length_padded [of main_version b] by (simp add: conn_req_def msg_ok_def)
  have "standing U D ?cfd sfd waiting [(CONNECTION_REQ, m', 32)] fresh_server [] [] [] (c\<lparr>kern := kern s\<rparr>, s)"
    using c k assms(11,12) by (auto simp: standing_def)
  from leg_rounds [OF assms(10,8) leg.Leg0 [OF this req] assms(14)] obtain c' s' r where
    run: "take_turns cos sos (concat rounds) (c\<lparr>kern := kern s\<rparr>, s) = Some (c', s')" "leg U D ?cfd sfd b r (c', s')"
      "min (0 + length rounds) (last_leg b) \<le> r" by auto
  have "last_leg b \<le> 8" by (simp add: last_leg_def)
  with run(3) assms(13) leg_bound [OF run(2)] have r: "r = last_leg b" by simp
  show ?thesis
  proof (cases "b = 0")
    case True
    with run(2) r obtain bs where "standing U D ?cfd sfd accepted [] (enrolled bs) [] [] [] (c', s')"
      by (auto elim!: leg.cases simp: last_leg_def)
    then obtain k' where k': "cnx s' sfd = Some k'" "abs_of k' = enrolled bs" "accepted (conn c')"
      by (auto simp: standing_def serves_def)
    obtain b1 b2 b3 where bs: "bs = (b1, b2, b3)" by (cases bs)
    from k' have "state k' = State.REGISTERED" "ServerConnection.user_name k' = padded name0 b1"
      "user_pwd k' = padded passwd0 b2" "ServerConnection.user_email k' = padded email0 b3"
      by (auto simp: enrolled_def bs server_with_def abs_of_def)
    moreover have "m (length main_version) = 0" using version_byte [OF c(3)] True m by simp
    ultimately show ?thesis using run(1) k'(1,3) unfolding accepted_def login_def by auto
  next
    case False
    with run(2) r have "standing U D ?cfd sfd waiting [] (verdict b) [] [] [] (c', s')"
      by (auto elim!: leg.cases simp: last_leg_def)
    then obtain k' where k': "cnx s' sfd = Some k'" "abs_of k' = verdict b" "waiting (conn c')"
      by (auto simp: standing_def serves_def)
    from arg_cong [OF k'(2), of a_state] have "state k' = State.CONN_REJECTED"
      using False by (simp add: verdict_def abs_of_def)
    moreover have "m (length main_version) \<noteq> 0" using version_byte [OF c(3)] False m by simp
    ultimately show ?thesis using run(1) k'(1,3) by (simp add: waiting_def)
  qed
qed

text \<open>A kernel that is a pair of queues: the bytes on their way to the server and to the client.\<close>

definition client_wire :: "(byte list \<times> byte list) os" where
  "client_wire = failing_os\<lparr>os_socket := Pair (Inr 4), os_nonblock := \<lambda>fd. Pair (Inr ()),
     os_connect := \<lambda>fd addr. Pair (Inl EINPROGRESS),
     os_send := \<lambda>fd bs (u, d). (Inr (length bs), (u @ bs, d)),
     os_recv := \<lambda>fd n peek (u, d). (if d = [] then Inl EWOULDBLOCK else Inr (take n d), (u, if peek then d else drop n d)),
     os_poll := \<lambda>fd events (u, d). (Inr (let revents = events AND (if d = [] then POLLWRNORM else POLLRDNORM OR POLLWRNORM)
       in if revents = 0 then None else Some revents), (u, d))\<rparr>"

definition server_wire :: "(byte list \<times> byte list) os" where
  "server_wire = failing_os\<lparr>os_nonblock := \<lambda>fd. Pair (Inr ()), os_clock_gettime := Pair (Inr 0),
     os_send := \<lambda>fd bs (u, d). (Inr (length bs), (u, d @ bs)),
     os_recv := \<lambda>fd n peek (u, d). (if u = [] then Inl EWOULDBLOCK else Inr (take n u), (if peek then u else drop n u, d)),
     os_pselect := \<lambda>nfds (rd, wr, er) (u, d). (let rd' = (if u = [] then FD_ZERO else only 5 nfds rd); wr' = only 5 nfds wr
       in (Inr (int (card (fds rd') + card (fds wr')), rd', wr', FD_ZERO), (u, d)))\<rparr>"

lemma wire_ok: "link_ok client_wire server_wire cfd 5 fst snd"
proof -
  have v: "fd_valid 5" by (simp add: fd_valid_def)
  have o: "fd_set_ok x \<Longrightarrow> fds (only 5 nfds x) = {y \<in> fds x. y = 5 \<and> y < nfds}" "fd_set_ok (only 5 nfds x)" for x nfds
    using v by (auto simp: only_def in_fds)
  have "end_ok client_wire cfd snd fst" "polls client_wire cfd snd fst" "end_ok server_wire 5 fst snd"
    by (simp_all add: end_ok_def polls_def client_wire_def server_wire_def failing_os_def split_paired_All)
  moreover have "pselect_ok server_wire"
    unfolding pselect_ok_def using o by (auto simp: server_wire_def Let_def split: if_splits)
  moreover have "selects server_wire 5 fst snd"
    unfolding selects_def using o calculation by (auto simp: server_wire_def Let_def)
  ultimately show ?thesis by (simp add: link_ok_def)
qed

lemma sendConnectionReq_kern: "sendConnectionReq os s = (r, t) \<Longrightarrow> kern t = snd (os_new os (kern s))"
  by (auto simp: sendConnectionReq_def mainVersionString_eq new_mem_def sendBodyToServer_def sendMsgToServer_def andThen_def
      split: prod.splits sum.splits)

lemma client_registers_witness:
  "\<exists>c0 c s c' s' k. new_ClientConnection client_wire \<lparr>s_addr = 0, sin_port = 0\<rparr> [] \<lparr>kern = ([], []), errno = 0\<rparr> = Inr c0
     \<and> StartConnectionToServer client_wire c0 = (Inr (), c)
     \<and> CreateClientConnection server_wire \<lparr>s_addr = 0, sin_port = 0\<rparr> 5
         \<lparr>kern = kern c, errno = 0, router = new_Router FD_ZERO FD_ZERO FD_ZERO\<rparr> = (Inr (), s)
     \<and> take_turns client_wire server_wire (concat (replicate 8 [Server_turn, Client_turn])) (c\<lparr>kern := kern s\<rparr>, s) = Some (c', s')
     \<and> cnx_state (conn c') = CnxState.REGISTERED \<and> cnx s' 5 = Some k \<and> state k = State.REGISTERED"
proof -
  let ?a = "\<lparr>s_addr = 0, sin_port = 0\<rparr>" and ?k0 = "\<lparr>kern = ([], []), errno = 0\<rparr>"
  note os = client_wire_def server_wire_def failing_os_def
  define c0 where "c0 = (case new_ClientConnection client_wire ?a [] ?k0 of Inr c \<Rightarrow> c)"
  have c0: "new_ClientConnection client_wire ?a [] ?k0 = Inr c0" "kern c0 = ([], [])" "cnx_state (conn c0) = NO_SOCKET"
    "from_dir (sock c0) = FROM_CLIENT"
    by (simp_all add: c0_def new_ClientConnection_eq new_ClientSocket_def os socketConfiguration_def syscall_def
        connect_eq assertS_def andThen_def new_MsgSocket_def rxReset_def)
  let ?c1 = "c0\<lparr>conn := (conn c0)\<lparr>cnx_state := CONNECTING\<rparr>\<rparr>"
  have con: "os_connect client_wire (socket_descr (sock ?c1)) (peer_ip_addr (sock ?c1)) (kern ?c1) = (Inl EINPROGRESS, ([], []))"
    using c0(2) by (simp add: os)
  have "onSock (connect client_wire) ?c1 = (Inr (), ?c1\<lparr>kern := ([], []), errno := EINPROGRESS,
      sock := (sock c0)\<lparr>sock_state := SOCK_CONNECTING\<rparr>\<rparr>)"
    using c0(4) by (subst connect_cases [OF _ con]) simp_all
  moreover have "set_cnx_state CONNECTING c0 = (Inr (), ?c1)" using c0(3) by (simp add: set_cnx_state_simp)
  moreover define c2 where "c2 = ?c1\<lparr>kern := ([], []), errno := EINPROGRESS,
      sock := (sock c0)\<lparr>sock_state := SOCK_CONNECTING\<rparr>\<rparr>"
  moreover from sendConnectionReq_queues [of client_wire c2] obtain c where send: "sendConnectionReq client_wire c2 = (Inr (), c)"
    by (elim exE conjE) (rule that)
  ultimately have c: "StartConnectionToServer client_wire c0 = (Inr (), c)"
    by (simp only: StartConnectionToServer_def andThen_Inr)
  have kc: "kern c = ([], [])" using sendConnectionReq_kern [OF send] by (simp add: c2_def os)
  from client_started [OF c0(1) c] obtain m b where
    m: "client_sock (socket_descr (sock c)) [(CONNECTION_REQ, m, 32)] (sock c)"
      "cstring m 8192 0 = Some (padded main_version b)" "\<exists>k. b = fst (os_new client_wire k) (length main_version)" by metis
  then have q: "tx_fifo (sock c) = [msg_request (CONNECTION_REQ, m, 32)]" by (simp add: client_sock_def tx_idle_def)
  have "b = 0" using m(3) by (auto simp: os)
  with version_byte [OF m(2)] have m0: "m (length main_version) = 0" by simp
  let ?s0 = "\<lparr>kern = kern c, errno = 0, router = new_Router FD_ZERO FD_ZERO FD_ZERO\<rparr>"
  have v: "fd_valid 5" by (simp add: fd_valid_def)
  have s0: "router_ok ?s0" "clients ?s0 = {}" "dead_list (router ?s0) = []"
    using new_Router_ok [of "kern c" 0] by (simp_all add: router_ok_def clients_def new_Router_def)
  have "\<exists>s. CreateClientConnection server_wire ?a 5 ?s0 = (Inr (), s) \<and> kern s = ([], [])"
    using v FD_ISSET_ZERO [OF v] kc by (simp add: CreateClientConnection_def new_Router_def new_ServerSocket_def os
        socketConfiguration_def syscall_def andThen_def)
  then obtain s where s: "CreateClientConnection server_wire ?a 5 ?s0 = (Inr (), s)" "kern s = ([], [])" by blast
  from s(1) have s1: "CreateClientConnection server_wire ?a 5 (?s0\<lparr>kern := kern c\<rparr>) = (Inr (), s)" by simp
  have rounds: "8 \<le> length (replicate 8 [Server_turn, Client_turn])"
    "\<forall>ts\<in>set (replicate 8 [Server_turn, Client_turn]). {Client_turn, Server_turn} \<subseteq> set ts" by simp_all
  have e: "(0 :: int) < 5" "(5 :: int) < 1023" "fst (kern s) = []" "snd (kern s) = []" using s(2) by simp_all
  from client_registers [OF c0(1) c q s0 e(1,2) s1 wire_ok e(3,4) rounds, unfolded if_P [OF m0]]
  obtain c' s' k where "take_turns client_wire server_wire (concat (replicate 8 [Server_turn, Client_turn]))
      (c\<lparr>kern := kern s\<rparr>, s) = Some (c', s')" "cnx s' 5 = Some k" "cnx_state (conn c') = CnxState.REGISTERED"
    "state k = State.REGISTERED" by blast
  with c0(1) c s(1) show ?thesis by blast
qed

end
