(* ===== verification/SocketTyping.thy ===== *)
theory SocketTyping
  imports ClientSocket
begin

text \<open>
  Types for the message socket. The C++ types of the counters of a \<^verbatim>\<open>MsgSocket\<close> say nothing of the buffers
  they index; \<open>sock_typed\<close> does: what is under emission fits its body, what is under reception fits its
  message object, a partial message has an object. Every operation that ends in defined behaviour keeps it for any
  kernel that does not return more bytes than it was asked for, and the undefined behaviour left to a typed socket
  is the one of a length received from the peer, \<open>rx_rogue\<close>, and the one of a request of more than 8184 bytes whose
  header is sent in part, \<open>tx_rogue\<close>. \<open>ClientTyping\<close> and \<open>ServerTyping\<close> carry the types to
  the two programs.
\<close>

section \<open>The kernel\<close>

text \<open>
  The documented behaviour of \<^verbatim>\<open>send\<close> and \<^verbatim>\<open>recv\<close>: the count returned is not larger than the one asked for,
  an error number is positive.
\<close>

definition counts_ok :: "'k os \<Rightarrow> bool" where
  "counts_ok os \<longleftrightarrow>
     (\<forall>fd b k n k'. os_send os fd b k = (Inr n, k') \<longrightarrow> n \<le> length b)
   \<and> (\<forall>fd b k e k'. os_send os fd b k = (Inl e, k') \<longrightarrow> 0 < e)
   \<and> (\<forall>fd n peek k bs k'. os_recv os fd n peek k = (Inr bs, k') \<longrightarrow> length bs \<le> n)"

lemma counts_okD:
  assumes "counts_ok os"
  shows "os_send os fd b k = (Inr n, k') \<Longrightarrow> n \<le> length b"
    and "os_send os fd b k = (Inl e, k') \<Longrightarrow> 0 < e"
    and "os_recv os fd n peek k = (Inr bs, k') \<Longrightarrow> length bs \<le> n"
  using assms unfolding counts_ok_def by blast+

section \<open>Types\<close>

text \<open>
  A request for one message of at most \<open>L\<close> bytes; the constructor of the requests asserts that it is below 8192. Its
  header and body together fit a message object when \<open>L\<close> is not over 8184.
\<close>

definition request_typed :: "int \<Rightarrow> request \<Rightarrow> bool" where
  "request_typed L r \<longleftrightarrow> (\<exists>i m. kind r = MsgRequest i m) \<and> 0 \<le> nb_payload_bytes_sent r
     \<and> l2_payload_length r \<le> L \<and> l2_payload_length r < 8192"

definition tx_typed :: "int \<Rightarrow> MsgSocket \<Rightarrow> bool" where
  "tx_typed L x \<longleftrightarrow> (\<forall>r \<in> set (tx_fifo x). request_typed L r)
     \<and> (\<forall>r. tx_req_ptr x = Some r \<longrightarrow> request_typed L r \<and> (tx_msg x \<noteq> None \<longrightarrow> \<not> someDataToSend r))
     \<and> (tx_msg x = None \<longrightarrow> tx_length x = 0 \<and> tx_msg_length x = 0)
     \<and> (tx_msg x \<noteq> None \<longrightarrow> tx_req_ptr x \<noteq> None \<and> tx_length x < tx_msg_length x \<and> tx_msg_length x \<le> L + 8)"

definition rx_typed :: "MsgSocket \<Rightarrow> bool" where
  "rx_typed x \<longleftrightarrow> rx_lenght x \<le> 8200 \<and> (rx_lenght x \<noteq> 0 \<longrightarrow> 4 \<le> rx_lenght x \<and> rx_msg x \<noteq> None)"

definition sock_typed :: "int \<Rightarrow> MsgSocket \<Rightarrow> bool" where
  "sock_typed L x \<longleftrightarrow> tx_typed L x \<and> rx_typed x"

text \<open>The length announced by the message under reception is negative or larger than a message object.\<close>

definition rx_rogue :: "MsgSocket \<Rightarrow> bool" where
  "rx_rogue x \<longleftrightarrow> (\<exists>m. rx_msg x = Some m \<and> (l1_lenght m < 0 \<or> 8200 < l1_lenght m))"

text \<open>Header and body of the message under emission are together longer than a body.\<close>

definition tx_rogue :: "MsgSocket \<Rightarrow> bool" where
  "tx_rogue x \<longleftrightarrow> 8192 < tx_msg_length x"

text \<open>
  How an operation of a typed socket leaves it: typed, unless the operation ran into the undefined behaviour of
  one of the two.
\<close>

definition sock_outcome :: "int \<Rightarrow> 'a result \<Rightarrow> MsgSocket \<Rightarrow> bool" where
  "sock_outcome L r x \<longleftrightarrow>
    (if r = Inl Undefined then rx_rogue x \<or> 8184 < L \<and> tx_rogue x else sock_typed L x)"

lemma sock_outcome_typed: "sock_typed L x \<Longrightarrow> r \<noteq> Inl Undefined \<Longrightarrow> sock_outcome L r x"
  by (simp add: sock_outcome_def)

text \<open>The members of the two directions, which do not touch each other.\<close>

definition tx_view :: "MsgSocket \<Rightarrow> request list \<times> request option \<times> mem option \<times> int \<times> int" where
  "tx_view x = (tx_fifo x, tx_req_ptr x, tx_msg x, tx_length x, tx_msg_length x)"

definition rx_view :: "MsgSocket \<Rightarrow> mem option \<times> int" where
  "rx_view x = (rx_msg x, rx_lenght x)"

lemma tx_view_typed: "tx_view x = tx_view y \<Longrightarrow> tx_typed L x = tx_typed L y"
  by (simp add: tx_view_def tx_typed_def)

lemma rx_view_typed: "rx_view x = rx_view y \<Longrightarrow> rx_typed x = rx_typed y"
  by (simp add: rx_view_def rx_typed_def)

section \<open>Emission\<close>

lemma socketSend_typed:
  assumes "counts_ok os" and "socketSend os b s = (r, t)"
  obtains st where "sock t = (sock s)\<lparr>tx_state := st\<rparr>" and "r \<noteq> Inl Undefined"
    and "\<forall>n. r = Inr n \<longrightarrow> n \<le> int (length b)"
proof -
  obtain st where st: "sock t = (sock s)\<lparr>tx_state := st\<rparr>" using socketSend_frame [OF assms(2)] by blast
  obtain o1 k where o1: "os_send os (socket_descr (sock s)) b (kern s) = (o1, k)" by fastforce
  have "r \<noteq> Inl Undefined \<and> (\<forall>n. r = Inr n \<longrightarrow> n \<le> int (length b))"
  proof (cases o1)
    case (Inl e)
    with o1 have "0 < e" using counts_okD(2) [OF assms(1)] by blast
    with assms(2) o1 Inl show ?thesis
      by (auto simp: socketSend_def andThen_def split: if_splits)
  next
    case (Inr n)
    with o1 have "n \<le> length b" using counts_okD(1) [OF assms(1)] by blast
    with assms(2) o1 Inr show ?thesis by (auto simp: socketSend_def)
  qed
  with st show thesis by (intro that) auto
qed

lemma sendLoop_header_typed:
  assumes c: "counts_ok os" and h: "sendLoop_header os s = (r, t)" and "tx_length (sock s) = 0"
  obtains st n where "sock t = (sock s)\<lparr>tx_state := st, tx_length := n\<rparr>" and "r \<noteq> Inl Undefined"
    and "0 \<le> n" and "n \<le> 8" and "r \<noteq> Inr True \<Longrightarrow> n = 0"
proof -
  obtain r1 s1 where s1: "socketSend os (read_bytes (tx_header (sock s)) 0 8) s = (r1, s1)" by fastforce
  then obtain st where st: "sock s1 = (sock s)\<lparr>tx_state := st\<rparr>" "r1 \<noteq> Inl Undefined"
    "\<forall>n. r1 = Inr n \<longrightarrow> n \<le> int (length (read_bytes (tx_header (sock s)) 0 8))"
    by (rule socketSend_typed [OF c])
  have same: "sock s1 = (sock s)\<lparr>tx_state := st, tx_length := 0\<rparr>" using st(1) assms(3) by simp
  show thesis
  proof (cases r1)
    case (Inl e)
    with h assms(3) s1 st same show thesis by (intro that [where st = st and n = 0]) (auto simp: sendLoop_header_def)
  next
    case (Inr n)
    show thesis
    proof (cases "n < 0")
      case True
      with h assms(3) s1 same Inr show thesis by (intro that [where st = st and n = 0]) (auto simp: sendLoop_header_def)
    next
      case False
      with h assms(3) s1 st Inr show thesis
        by (intro that [where st = st and n = n]) (auto simp: sendLoop_header_def)
    qed
  qed
qed

lemma sendLoop_rest_typed:
  assumes c: "counts_ok os" and h: "sendLoop_rest os s = (r, t)"
    and m: "tx_msg (sock s) = Some m" and l: "0 \<le> tx_length (sock s)" "tx_length (sock s) < tx_msg_length (sock s)"
  obtains st n where "sock t = (sock s)\<lparr>tx_state := st, tx_length := n\<rparr>" and "r = Inl Undefined \<Longrightarrow> tx_rogue (sock s)"
    and "n \<le> tx_msg_length (sock s)" and "r \<noteq> Inr True \<Longrightarrow> n < tx_msg_length (sock s)"
proof (cases "tx_msg_length (sock s) - tx_length (sock s) \<le> 8192")
  case False
  with h m l have "t = s" "r = Inl Undefined" by (simp_all add: sendLoop_rest_def Let_def)
  with False l show thesis
    by (intro that [where st = "tx_state (sock s)" and n = "tx_length (sock s)"]) (simp_all add: tx_rogue_def)
next
  case fits: True
  let ?n = "tx_msg_length (sock s) - tx_length (sock s)"
  obtain r1 s1 where s1: "socketSend os (read_bytes m 0 (nat ?n)) s = (r1, s1)" by fastforce
  then obtain st where st: "sock s1 = (sock s)\<lparr>tx_state := st\<rparr>" "r1 \<noteq> Inl Undefined"
    "\<forall>n. r1 = Inr n \<longrightarrow> n \<le> int (length (read_bytes m 0 (nat ?n)))"
    by (rule socketSend_typed [OF c])
  have eq: "sendLoop_rest os s = andThen (socketSend os (read_bytes m 0 (nat ?n))) (\<lambda>nb_sent.
                if nb_sent = EWOULDBLOCK
                then andThen (modSock (\<lambda>x. x\<lparr>tx_state := TX_BUSY\<rparr>)) (\<lambda>_. retS False)
                else andThen (modSock (\<lambda>x. x\<lparr>tx_length := tx_length x + nb_sent\<rparr>)) (\<lambda>_. retS True)) s"
    using m l fits by (simp add: sendLoop_rest_def Let_def)
  have same: "sock s1 = (sock s)\<lparr>tx_state := st, tx_length := tx_length (sock s)\<rparr>" using st(1) by simp
  show thesis
  proof (cases r1)
    case (Inl e)
    with h eq s1 st same l show thesis by (intro that [where st = st and n = "tx_length (sock s)"]) auto
  next
    case (Inr n)
    show thesis
    proof (cases "n = EWOULDBLOCK")
      case True
      with h eq s1 same Inr l show thesis by (intro that [where st = TX_BUSY and n = "tx_length (sock s)"]) auto
    next
      case False
      have "n \<le> ?n" using st(3) Inr l by simp
      with False h eq s1 st Inr show thesis
        by (intro that [where st = st and n = "tx_length (sock s) + n"]) auto
    qed
  qed
qed

lemma sendLoop_build_typed:
  assumes "request_typed L r" and "someDataToSend r"
  obtains r' m i n h where "sendLoop_build os r s = (Inr (), s\<lparr>sock := (sock s)\<lparr>tx_req_ptr := Some r',
      tx_msg := Some m, tx_l1_msg_id := i, tx_msg_length := n, tx_header := h\<rparr>\<rparr>)"
    and "request_typed L r'" and "\<not> someDataToSend r'" and "8 < n" and "n \<le> L + 8"
proof -
  obtain i m where k: "kind r = MsgRequest i m" and l: "0 \<le> nb_payload_bytes_sent r"
    "l2_payload_length r \<le> L" "l2_payload_length r < 8192"
    using assms(1) by (auto simp: request_typed_def)
  from l assms(2) have p: "0 < l2_payload_length r" by (simp add: someDataToSend_def)
  let ?r = "r\<lparr>nb_payload_bytes_sent := nb_payload_bytes_sent r + l2_payload_length r\<rparr>"
  let ?n = "l2_payload_length r + 8"
  show thesis
    by (rule that [where r' = ?r and m = m and i = i and n = ?n and h = "fill_header i ?n (from_dir (sock s)) (tx_header (sock s))"])
      (use assms k l p in \<open>auto simp: sendLoop_build_def buildNextL2Msg_def build_MsgRequest_def int_cast32
        request_typed_def someDataToSend_def\<close>)
qed

lemma sendLoop_step_typed:
  assumes c: "counts_ok os" and typed: "tx_typed L (sock s)" and r: "tx_req_ptr (sock s) = Some r"
    and step: "sendLoop_step os r s = (res, t)"
  shows "tx_typed L (sock t) \<and> rx_view (sock t) = rx_view (sock s) \<and> (res = Inl Undefined \<longrightarrow> tx_rogue (sock t))"
proof (cases "someDataToSend r")
  case False
  from step False typed r show ?thesis
    by (auto simp: sendLoop_step_def andThen_def assertS_def tx_typed_def rx_view_def
        txPopNextRequest_def split: if_splits list.splits)
next
  case True
  with typed r have rt: "request_typed L r" and none: "tx_msg (sock s) = None" "tx_length (sock s) = 0"
    and fifo: "\<forall>q \<in> set (tx_fifo (sock s)). request_typed L q"
    by (auto simp: tx_typed_def)
  obtain r' m i n h where b: "sendLoop_build os r s = (Inr (), s\<lparr>sock := (sock s)\<lparr>tx_req_ptr := Some r',
      tx_msg := Some m, tx_l1_msg_id := i, tx_msg_length := n, tx_header := h\<rparr>\<rparr>)"
    and r': "request_typed L r'" "\<not> someDataToSend r'" and n: "8 < n" "n \<le> L + 8"
    by (rule sendLoop_build_typed [OF rt True])
  define s1 where "s1 = s\<lparr>sock := (sock s)\<lparr>tx_req_ptr := Some r', tx_msg := Some m, tx_l1_msg_id := i,
    tx_msg_length := n, tx_header := h\<rparr>\<rparr>"
  have s1: "tx_msg (sock s1) = Some m" "tx_length (sock s1) = 0" "tx_msg_length (sock s1) = n"
    "tx_req_ptr (sock s1) = Some r'" "tx_fifo (sock s1) = tx_fifo (sock s)" "rx_view (sock s1) = rx_view (sock s)"
    using none by (simp_all add: s1_def rx_view_def)
  have typed_at: "tx_typed L (sock u) \<and> rx_view (sock u) = rx_view (sock s)"
    if "sock u = (sock s1)\<lparr>tx_state := st, tx_length := j\<rparr>" and "j < n" for u :: "'a sock_ctx" and st j
    using that s1 r' n fifo
    by (auto simp: tx_typed_def rx_view_def request_typed_def)
  obtain g s2 where hd: "sendLoop_header os s1 = (g, s2)" by fastforce
  then obtain st j where s2: "sock s2 = (sock s1)\<lparr>tx_state := st, tx_length := j\<rparr>" "g \<noteq> Inl Undefined"
    "0 \<le> j" "j \<le> 8" "g \<noteq> Inr True \<Longrightarrow> j = 0"
    by (rule sendLoop_header_typed [OF c _ s1(2)]) blast+
  show ?thesis
  proof (cases "g = Inr True")
    case False
    then have "res = (case g of Inl e \<Rightarrow> Inl e | Inr _ \<Rightarrow> Inr False)" "t = s2"
      using step True none b hd
      by (cases g; auto simp: sendLoop_step_def s1_def [symmetric] split: if_splits)+
    with typed_at [OF s2(1)] s2(2,5) False n show ?thesis by (auto split: sum.splits)
  next
    case True': True
    have pre: "tx_msg (sock s2) = Some m" "0 \<le> tx_length (sock s2)"
      "tx_length (sock s2) < tx_msg_length (sock s2)"
      using s2 s1 n by simp_all
    obtain g' s3 where rs: "sendLoop_rest os s2 = (g', s3)" by fastforce
    then obtain st' j' where s3: "sock s3 = (sock s2)\<lparr>tx_state := st', tx_length := j'\<rparr>" "g' = Inl Undefined \<Longrightarrow> tx_rogue (sock s2)"
      "j' \<le> n" "g' \<noteq> Inr True \<Longrightarrow> j' < n"
      using s2(1) s1(3) by (elim sendLoop_rest_typed [OF c _ pre]) simp
    have rogue: "tx_rogue (sock s3) = tx_rogue (sock s2)" using s3(1) by (simp add: tx_rogue_def)
    have s3': "sock s3 = (sock s1)\<lparr>tx_state := st', tx_length := j'\<rparr>" using s3(1) s2(1) by simp
    show ?thesis
    proof (cases "g' = Inr True")
      case False
      then have "res = (case g' of Inl e \<Rightarrow> Inl e | Inr _ \<Rightarrow> Inr False)" "t = s3"
        using step True none b hd True' rs
        by (cases g'; auto simp: sendLoop_step_def s1_def [symmetric] split: if_splits)+
      with typed_at [OF s3'] s3(2,4) rogue False show ?thesis by (auto split: sum.splits)
    next
      case go: True
      then have t: "res = Inr True" "t = s3\<lparr>sock := sendLoop_completed (sock s3)\<rparr>"
        using step True none b hd True' rs by (auto simp: sendLoop_step_def s1_def [symmetric])
      show ?thesis
      proof (cases "j' = n")
        case True
        with t s3' s1 r' fifo show ?thesis
          by (auto simp: sendLoop_completed_def txReset_def tx_typed_def rx_view_def request_typed_def)
      next
        case False
        with t s3' s1 s3(3) typed_at [OF s3'] show ?thesis by (simp add: sendLoop_completed_def)
      qed
    qed
  qed
qed

lemma sendLoop_while_typed:
  assumes c: "counts_ok os" and "sendLoop_while os s = Some y" and "tx_typed L (sock s)"
  shows "tx_typed L (sock (snd y)) \<and> rx_view (sock (snd y)) = rx_view (sock s) \<and> (fst y = Inl Undefined \<longrightarrow> tx_rogue (sock (snd y)))"
proof -
  have "counts_ok os \<longrightarrow> tx_typed L (sock s) \<longrightarrow> tx_typed L (sock (snd y))
      \<and> rx_view (sock (snd y)) = rx_view (sock s) \<and> (fst y = Inl Undefined \<longrightarrow> tx_rogue (sock (snd y)))"
  proof (rule sendLoop_while.raw_induct [where P = "\<lambda>os s y. counts_ok os \<longrightarrow> tx_typed L (sock s) \<longrightarrow>
      tx_typed L (sock (snd y)) \<and> rx_view (sock (snd y)) = rx_view (sock s) \<and> (fst y = Inl Undefined \<longrightarrow> tx_rogue (sock (snd y)))",
      OF _ assms(2)], goal_cases)
    case (1 f os s y)
    show ?case
    proof (intro impI)
      assume c: "counts_ok os" and typed: "tx_typed L (sock s)"
      show "tx_typed L (sock (snd y)) \<and> rx_view (sock (snd y)) = rx_view (sock s) \<and> (fst y = Inl Undefined \<longrightarrow> tx_rogue (sock (snd y)))"
      proof (cases "tx_state (sock s) = TX_READY \<and> tx_req_ptr (sock s) \<noteq> None")
        case False
        with 1(2) typed show ?thesis by auto
      next
        case True
        then obtain r where r: "tx_req_ptr (sock s) = Some r" by blast
        obtain res t where st: "sendLoop_step os r s = (res, t)" by fastforce
        note t = sendLoop_step_typed [OF c typed r st]
        show ?thesis
        proof (cases "res = Inr True")
          case go: True
          with 1(2) True r st have "f os t = Some y" by simp
          from 1(1) [OF this] c t show ?thesis by simp
        next
          case False
          with 1(2) True r st have "y = (case res of Inl e \<Rightarrow> Inl e | Inr _ \<Rightarrow> Inr (), t)"
            by (auto split: sum.splits)
          with t show ?thesis by (auto split: sum.splits)
        qed
      qed
    qed
  qed
  with c assms(3) show ?thesis by blast
qed

lemma tx_typed_pop:
  "tx_typed L x \<Longrightarrow> tx_req_ptr x = None \<Longrightarrow> tx_typed L (txPopNextRequest x)"
  by (auto simp: txPopNextRequest_def tx_typed_def split: list.split)

lemma typed_cleanup:
  "tx_typed L x \<Longrightarrow> sock_typed L (disconnection_cleanup x)"
  by (auto simp: disconnection_cleanup_def discardDataBuffers_def rxReset_def txReset_def sock_typed_def
      tx_typed_def rx_typed_def)

lemma sendNextData_typed:
  assumes c: "counts_ok os" and typed: "sock_typed L (sock s)" and run: "sendNextData os s = Some (r, t)"
  shows "sock_typed L (sock t) \<and> (r = Inl Undefined \<longrightarrow> tx_rogue (sock t))"
proof -
  define s1 where "s1 = s\<lparr>sock := (sock s)\<lparr>tx_state := TX_READY\<rparr>\<rparr>"
  define s2 where "s2 = (if tx_req_ptr (sock s1) = None then s1\<lparr>sock := txPopNextRequest (sock s1)\<rparr> else s1)"
  have "tx_view (sock s1) = tx_view (sock s)" "rx_view (sock s1) = rx_view (sock s)"
    by (simp_all add: s1_def tx_view_def rx_view_def)
  then have s1: "tx_typed L (sock s1)" "rx_view (sock s1) = rx_view (sock s)"
    using typed tx_view_typed [of "sock s1" "sock s"] by (simp_all add: sock_typed_def)
  then have s2: "tx_typed L (sock s2)" "rx_view (sock s2) = rx_view (sock s)"
    by (auto simp: s2_def tx_typed_pop) (auto simp: txPopNextRequest_def rx_view_def split: list.split)
  have "sendLoop os s1 = sendLoop_while os s2" by (simp add: sendLoop_def s2_def)
  with run obtain r1 t1 where w: "sendLoop_while os s2 = Some (r1, t1)"
    by (auto simp: sendNextData_def s1_def [symmetric] split: option.splits)
  from sendLoop_while_typed [OF c w s2(1)] s2(2)
  have t1: "tx_typed L (sock t1)" "rx_view (sock t1) = rx_view (sock s)" "r1 = Inl Undefined \<longrightarrow> tx_rogue (sock t1)" by simp_all
  then have st1: "sock_typed L (sock t1)" using typed rx_view_typed [of "sock t1" "sock s"] by (simp add: sock_typed_def)
  have "sendNextData os s = (case r1 of
      Inl (SocketDisconnection e) \<Rightarrow>
         Some (Inl (SocketDisconnection e), t1\<lparr>sock := disconnection_cleanup (sock t1)\<rparr>)
    | Inl e \<Rightarrow> Some (Inl e, t1)
    | Inr _ \<Rightarrow> Some (Inr (if tx_req_ptr (sock t1) = None then 0 else 1), t1))"
    using w \<open>sendLoop os s1 = _\<close> by (auto simp: sendNextData_def s1_def [symmetric] split: sum.split exn.split)
  with run t1 st1 typed_cleanup [OF t1(1)] show ?thesis by (auto split: sum.splits exn.splits)
qed

section \<open>Reception\<close>

lemma getRxErrorType_defined: "getRxErrorType x e \<noteq> Inl Undefined"
  by (auto simp: getRxErrorType_defs split: sock_class.split)

lemma getRxErrorType_ignored: "getRxErrorType x e = Inr IGNORE \<Longrightarrow> 0 < e"
  by (auto simp: getRxErrorType_defs split: sock_class.splits if_splits)

lemma socketReceive_typed:
  assumes c: "counts_ok os" and r: "socketReceive os n peek s = (res, t)"
  shows "sock t = sock s \<and> res \<noteq> Inl Undefined \<and> (\<forall>nb bs. res = Inr (nb, bs) \<longrightarrow> nb \<le> int n)"
proof -
  obtain o1 k where o1: "os_recv os (socket_descr (sock s)) n peek (kern s) = (o1, k)" by fastforce
  show ?thesis
  proof (cases o1)
    case (Inl e)
    obtain et where et: "getRxErrorType (sock s) e = et" by simp
    have eq: "socketReceive os n peek s = (case et of
            Inl ex \<Rightarrow> (Inl ex, s\<lparr>kern := k, errno := e\<rparr>)
          | Inr IGNORE \<Rightarrow> (Inr (- e, []), s\<lparr>kern := k, errno := e\<rparr>)
          | Inr ERR_DISCONNECTED \<Rightarrow> (Inl (SocketDisconnection e), s\<lparr>kern := k, errno := e\<rparr>)
          | Inr _ \<Rightarrow> (Inr (-1, []), s\<lparr>kern := k, errno := e\<rparr>))"
      using o1 Inl et by (simp add: socketReceive_def)
    have "et \<noteq> Inl Undefined" "et = Inr IGNORE \<Longrightarrow> 0 < e"
      using getRxErrorType_defined [of "sock s" e] getRxErrorType_ignored [of "sock s" e] et by simp_all
    with r show ?thesis unfolding eq by (auto split: sum.splits ErrorType.splits)
  next
    case (Inr bs)
    with counts_okD(3) [OF c] o1 have "length bs \<le> n" by blast
    with r o1 Inr show ?thesis by (auto simp: socketReceive_def)
  qed
qed

lemma recvBeginNewMsg_typed:
  assumes c: "counts_ok os" and r: "recvBeginNewMsg os s = (res, t)"
  shows "\<exists>st n. sock t = (sock s)\<lparr>rx_state := st, rx_lenght := n\<rparr> \<and> res \<noteq> Inl Undefined
    \<and> ((\<exists>m. res = Inr (Some m)) \<longrightarrow> n = 4) \<and> ((\<forall>m. res \<noteq> Inr (Some m)) \<longrightarrow> n = rx_lenght (sock s))"
proof -
  have id: "\<exists>st n. x = x\<lparr>rx_state := st, rx_lenght := n\<rparr> \<and> n = rx_lenght x" for x :: MsgSocket
    by (intro exI [of _ "rx_state x"] exI [of _ "rx_lenght x"]) simp
  obtain r1 s1 where s1: "socketReceive os 4 True s = (r1, s1)" by fastforce
  note t1 = socketReceive_typed [OF c s1]
  show ?thesis
  proof (cases r1)
    case (Inl e)
    with r s1 t1 id [of "sock s"] show ?thesis by (auto simp: recvBeginNewMsg_def)
  next
    case (Inr p)
    obtain nb bs where p: "p = (nb, bs)" by fastforce
    show ?thesis
    proof (cases "nb = 4")
      case False
      with r s1 t1 Inr p show ?thesis
        by (intro exI [of _ RX_IDLE] exI [of _ "rx_lenght (sock s)"]) (auto simp: recvBeginNewMsg_def)
    next
      case True
      obtain r2 s2 where s2: "socketReceive os 4 False s1 = (r2, s2)" by fastforce
      note t2 = socketReceive_typed [OF c s2]
      show ?thesis
      proof (cases r2)
        case (Inl e)
        with r s1 t1 s2 t2 \<open>r1 = _\<close> p True id [of "sock s"] show ?thesis by (auto simp: recvBeginNewMsg_def)
      next
        case (Inr q)
        obtain nb' bs' where q: "q = (nb', bs')" by fastforce
        obtain m k where m: "os_new os (kern s2) = (m, k)" by fastforce
        show ?thesis
        proof (cases "nb' = 4")
          case False
          with r s1 t1 s2 t2 \<open>r1 = _\<close> p True Inr q id [of "sock s"] show ?thesis
            by (auto simp: recvBeginNewMsg_def)
        next
          case True
          with r s1 t1 s2 t2 \<open>r1 = _\<close> p \<open>nb = 4\<close> Inr q m show ?thesis
            by (intro exI [of _ "rx_state (sock s)"] exI [of _ 4]) (auto simp: recvBeginNewMsg_def)
        qed
      qed
    qed
  qed
qed

lemma tx_view_rx_upd [simp]:
  "tx_view (x\<lparr>rx_state := a\<rparr>) = tx_view x" "tx_view (x\<lparr>rx_lenght := n\<rparr>) = tx_view x"
  "tx_view (x\<lparr>rx_msg := m\<rparr>) = tx_view x" "tx_view (x\<lparr>rx_fifo := ms\<rparr>) = tx_view x"
  by (simp_all add: tx_view_def)

lemma recvLoop_begin_typed:
  assumes c: "counts_ok os" and typed: "rx_typed (sock s)" and r: "recvLoop_begin os s = (res, t)"
  shows "rx_typed (sock t) \<and> tx_view (sock t) = tx_view (sock s) \<and> res \<noteq> Inl Undefined
    \<and> (res = Inr True \<longrightarrow> rx_msg (sock t) \<noteq> None \<and> 4 \<le> rx_lenght (sock t))"
proof (cases "rx_lenght (sock s) = 0")
  case False
  with r typed show ?thesis by (auto simp: recvLoop_begin_def rx_typed_def)
next
  case True
  let ?s = "s\<lparr>sock := (sock s)\<lparr>rx_msg := None\<rparr>\<rparr>"
  obtain r1 s1 where b: "recvBeginNewMsg os ?s = (r1, s1)" by fastforce
  from recvBeginNewMsg_typed [OF c b] obtain st n where s1:
    "sock s1 = (sock s)\<lparr>rx_msg := None, rx_state := st, rx_lenght := n\<rparr>" "r1 \<noteq> Inl Undefined"
    "(\<exists>m. r1 = Inr (Some m)) \<longrightarrow> n = 4" "(\<forall>m. r1 \<noteq> Inr (Some m)) \<longrightarrow> n = 0"
    using True by auto
  show ?thesis
  proof (cases r1)
    case (Inl e)
    with r True b s1 show ?thesis by (auto simp: recvLoop_begin_def rx_typed_def)
  next
    case (Inr m)
    with r True b s1 have t: "t = s1\<lparr>sock := (sock s1)\<lparr>rx_msg := m\<rparr>\<rparr>" "res = Inr (m \<noteq> None)"
      by (auto simp: recvLoop_begin_def)
    with s1 Inr show ?thesis by (cases m) (auto simp: rx_typed_def)
  qed
qed

lemma recvLoop_rest_typed:
  assumes c: "counts_ok os" and typed: "rx_typed (sock s)" and m: "rx_msg (sock s) = Some m"
    and l: "4 \<le> rx_lenght (sock s)" and r: "recvLoop_rest os m s = (res, t)"
  shows "tx_view (sock t) = tx_view (sock s)
    \<and> (if res = Inl Undefined then rx_rogue (sock t) else rx_typed (sock t))"
proof -
  define nb where "nb = l1_lenght m - rx_lenght (sock s)"
  have len: "rx_lenght (sock s) \<le> 8200" using typed by (simp add: rx_typed_def)
  show ?thesis
  proof (cases "nb > 0")
    case False
    show ?thesis
    proof (cases "nb < - (2 ^ 31)")
      case True
      with len have "l1_lenght m < 0" by (simp add: nb_def)
      with True r m typed show ?thesis
        unfolding recvLoop_rest_def Let_def nb_def [symmetric] by (auto simp: rx_rogue_def)
    next
      case nob: False
      show ?thesis
      proof (cases "nb = 0")
        case True
        with r nob show ?thesis
          unfolding recvLoop_rest_def Let_def nb_def [symmetric] by (auto simp: rx_typed_def)
      next
        case False
        with r nob \<open>\<not> nb > 0\<close> typed show ?thesis
          unfolding recvLoop_rest_def Let_def nb_def [symmetric] by auto
      qed
    qed
  next
    case True
    obtain r1 s1 where s1: "socketReceive os (nat nb) False s = (r1, s1)" by fastforce
    note t1 = socketReceive_typed [OF c s1]
    note unf = recvLoop_rest_def Let_def nb_def [symmetric]
    show ?thesis
    proof (cases r1)
      case (Inl e)
      with r True s1 t1 typed show ?thesis unfolding unf by auto
    next
      case (Inr p)
      obtain j bs where p: "p = (j, bs)" by fastforce
      with t1 Inr True have j: "j \<le> nb" by auto
      show ?thesis
      proof (cases "j > 0")
        case False
        with r True s1 t1 Inr p typed show ?thesis
          unfolding unf by (cases "errno s1 = EWOULDBLOCK") auto
      next
        case pos: True
        show ?thesis
        proof (cases "rx_lenght (sock s) + j \<le> 8200")
          case True
          with r \<open>nb > 0\<close> s1 t1 Inr p pos l show ?thesis unfolding unf by (auto simp: rx_typed_def)
        next
          case False
          then have "8200 < l1_lenght m" using j by (simp add: nb_def)
          with False r \<open>nb > 0\<close> s1 t1 Inr p pos m typed show ?thesis
            unfolding unf by (auto simp: rx_rogue_def)
        qed
      qed
    qed
  qed
qed

lemma recvLoop_step_typed:
  assumes c: "counts_ok os" and typed: "rx_typed (sock s)" and r: "recvLoop_step os s = (res, t)"
  shows "tx_view (sock t) = tx_view (sock s)
    \<and> (if res = Inl Undefined then rx_rogue (sock t) else rx_typed (sock t))"
proof -
  obtain r1 s1 where b: "recvLoop_begin os s = (r1, s1)" by fastforce
  note t1 = recvLoop_begin_typed [OF c typed b]
  show ?thesis
  proof (cases "r1 = Inr True")
    case False
    with r b t1 show ?thesis by (cases r1; auto simp: recvLoop_step_def)
  next
    case True
    with t1 obtain m where m: "rx_msg (sock s1) = Some m" "4 \<le> rx_lenght (sock s1)" by auto
    with r b True have "recvLoop_rest os m s1 = (res, t)" by (simp add: recvLoop_step_def)
    from recvLoop_rest_typed [OF c _ m this] t1 show ?thesis by auto
  qed
qed

lemma recvLoop_typed:
  assumes c: "counts_ok os" and "recvLoop os s = Some y" and "rx_typed (sock s)"
  shows "tx_view (sock (snd y)) = tx_view (sock s)
    \<and> (if fst y = Inl Undefined then rx_rogue (sock (snd y)) else rx_typed (sock (snd y)))"
proof -
  have "counts_ok os \<longrightarrow> rx_typed (sock s) \<longrightarrow> tx_view (sock (snd y)) = tx_view (sock s)
      \<and> (if fst y = Inl Undefined then rx_rogue (sock (snd y)) else rx_typed (sock (snd y)))"
  proof (rule recvLoop.raw_induct [where P = "\<lambda>os s y. counts_ok os \<longrightarrow> rx_typed (sock s) \<longrightarrow>
      tx_view (sock (snd y)) = tx_view (sock s)
      \<and> (if fst y = Inl Undefined then rx_rogue (sock (snd y)) else rx_typed (sock (snd y)))",
      OF _ assms(2)], goal_cases)
    case (1 f os s y)
    show ?case
    proof (intro impI)
      assume c: "counts_ok os" and typed: "rx_typed (sock s)"
      show "tx_view (sock (snd y)) = tx_view (sock s)
        \<and> (if fst y = Inl Undefined then rx_rogue (sock (snd y)) else rx_typed (sock (snd y)))"
      proof (cases "rx_state (sock s) = RX_DATA")
        case False
        with 1(2) typed show ?thesis by auto
      next
        case True
        obtain res t where st: "recvLoop_step os s = (res, t)" by fastforce
        note t = recvLoop_step_typed [OF c typed st]
        show ?thesis
        proof (cases "res = Inr True")
          case go: True
          with 1(2) True st have "f os t = Some y" by simp
          from 1(1) [OF this] c t go show ?thesis by simp
        next
          case False
          with 1(2) True st have "y = (case res of Inl e \<Rightarrow> Inl e | Inr _ \<Rightarrow> Inr (), t)"
            by (auto split: sum.splits)
          with t show ?thesis by (auto split: sum.splits)
        qed
      qed
    qed
  qed
  with c assms(3) show ?thesis by blast
qed

lemma recvNextData_typed:
  assumes c: "counts_ok os" and typed: "sock_typed L (sock s)" and run: "recvNextData os s = Some (r, t)"
  shows "if r = Inl Undefined then rx_rogue (sock t) else sock_typed L (sock t)"
proof -
  define s1 where "s1 = s\<lparr>sock := (sock s)\<lparr>rx_state := RX_DATA\<rparr>\<rparr>"
  have s1: "rx_typed (sock s1)" "tx_view (sock s1) = tx_view (sock s)"
    using typed by (simp_all add: s1_def sock_typed_def rx_typed_def)
  from run obtain r1 t1 where w: "recvLoop os s1 = Some (r1, t1)"
    by (auto simp: recvNextData_def s1_def [symmetric] split: option.splits)
  from recvLoop_typed [OF c w s1(1)] s1(2)
  have t1: "tx_view (sock t1) = tx_view (sock s)"
    "if r1 = Inl Undefined then rx_rogue (sock t1) else rx_typed (sock t1)" by (simp_all split: if_splits)
  then have tx: "tx_typed L (sock t1)"
    using typed tx_view_typed [of "sock t1" "sock s"] by (simp add: sock_typed_def)
  have "recvNextData os s = (case r1 of
      Inl (SocketDisconnection e) \<Rightarrow>
         Some (Inl (SocketDisconnection e), t1\<lparr>sock := disconnection_cleanup (sock t1)\<rparr>)
    | Inl e \<Rightarrow> Some (Inl e, t1)
    | Inr _ \<Rightarrow> Some (Inr (rx_fifo (sock t1) \<noteq> []), t1))"
    using w by (auto simp: recvNextData_def s1_def [symmetric] split: sum.split exn.split)
  with run t1(2) tx typed_cleanup [OF tx] show ?thesis
    by (auto simp: sock_typed_def split: sum.splits exn.splits if_splits)
qed

section \<open>The other operations of a socket\<close>

lemma sock_typed_upd [simp]:
  "sock_typed L (x\<lparr>sock_state := a\<rparr>) = sock_typed L x" "sock_typed L (x\<lparr>rx_fifo := ms\<rparr>) = sock_typed L x"
  "sock_typed L (x\<lparr>socket_descr := d\<rparr>) = sock_typed L x"
  by (simp_all add: sock_typed_def tx_typed_def rx_typed_def)

lemma new_MsgSocket_typed: "sock_typed L (new_MsgSocket cls addr fd dir h)"
  by (simp add: new_MsgSocket_def sock_typed_def tx_typed_def rx_typed_def rxReset_def)

lemma sendMsg_typed: "sock_typed L x \<Longrightarrow> request_typed L r \<Longrightarrow> sock_typed L (sendMsg r x)"
  by (auto simp: sendMsg_def sock_typed_def tx_typed_def rx_typed_def request_typed_def)

lemma reset_typed: "sock_typed L x \<Longrightarrow> sock_typed L (setState st (rxReset (txReset (discardDataBuffers x))))"
  by (auto simp: setState_eq discardDataBuffers_def rxReset_def txReset_def sock_typed_def
      tx_typed_def rx_typed_def)

lemma discard_typed: "sock_typed L x \<Longrightarrow> sock_typed L (discardDataBuffers x)"
  by (auto simp: discardDataBuffers_def sock_typed_def tx_typed_def rx_typed_def)

lemma stop_typed:
  assumes "sock_typed L (sock s)" and "stop os s = (r, t)"
  shows "sock_typed L (sock t) \<and> r = Inr ()"
  using assms by (auto simp: stop_def andThen_def syscall_def reset_typed split: prod.splits sum.splits)

lemma connect_typed:
  assumes "sock_typed L (sock s)" and "connect os s = (r, t)"
  shows "sock_typed L (sock t) \<and> r \<noteq> Inl Undefined"
  using assms by (auto simp: connect_eq andThen_def assertS_def syscall_def
      split: prod.splits sum.splits if_splits)

lemma determineErrorType_typed:
  assumes "sock_typed L (sock s)" and "determineErrorType os s = (r, t)"
  shows "sock_typed L (sock t) \<and> r \<noteq> Inl Undefined"
  using assms getRxErrorType_defined
  by (auto simp: determineErrorType_def andThen_def syscall_def split: prod.splits sum.splits if_splits)

text \<open>Short requests never make the message under emission too long.\<close>

lemma typed_not_rogue: "sock_typed L x \<Longrightarrow> tx_rogue x \<Longrightarrow> 0 \<le> L \<Longrightarrow> 8184 < L"
  by (cases "tx_msg x") (auto simp: sock_typed_def tx_typed_def tx_rogue_def)

lemma poll_typed:
  assumes c: "counts_ok os" and typed: "sock_typed L (sock s)" and run: "poll os s = Some (r, t)"
    and L: "0 \<le> L"
  shows "sock_outcome L r (sock t)"
proof -
  obtain o1 k where o1: "os_poll os (socket_descr (sock s)) (poll_events (sock s)) (kern s) = (o1, k)" by fastforce
  consider (quiet) "\<not> (\<exists>ev. o1 = Inr (Some ev))" | (ev) ev where "o1 = Inr (Some ev)" by blast
  then show ?thesis
  proof cases
    case quiet
    with run o1 typed show ?thesis
      by (auto simp: poll_def syscall_def sock_outcome_def split: sum.splits option.splits if_splits)
  next
    case ev
    let ?s = "s\<lparr>kern := k\<rparr>"
    consider (hup) "ev AND POLLHUP \<noteq> 0" | (err) "ev AND POLLHUP = 0" "ev AND POLLERR \<noteq> 0"
      | (data) "ev AND POLLHUP = 0" "ev AND POLLERR = 0" by blast
    then show ?thesis
    proof cases
      case hup
      with run o1 ev typed show ?thesis by (auto simp: poll_def setState_eq sock_outcome_def)
    next
      case err
      obtain r1 s1 where d: "determineErrorType os ?s = (r1, s1)" by fastforce
      with determineErrorType_typed [of L ?s os] typed run o1 ev err show ?thesis
        by (cases r1; auto simp: poll_def sock_outcome_def)
    next
      case data
      with run o1 ev obtain r1 s1 where rd: "poll_read os ev ?s = Some (r1, s1)"
        and p: "thenO (Some (r1, s1)) (\<lambda>incoming s1. thenO (poll_write os ev s1) (\<lambda>_ s2. Some (Inr incoming, s2)))
          = Some (r, t)"
        by (cases "poll_read os ev ?s") (auto simp: poll_simps)
      have s1: "if r1 = Inl Undefined then rx_rogue (sock s1) else sock_typed L (sock s1)"
        using rd typed recvNextData_typed [OF c, of L ?s] by (auto simp: poll_read_def split: if_splits)
      show ?thesis
      proof (cases r1)
        case (Inl e)
        with p s1 show ?thesis by (auto simp: sock_outcome_def split: if_splits)
      next
        case (Inr incoming)
        with p obtain r2 s2 where wr: "poll_write os ev s1 = Some (r2, s2)" and t: "t = s2"
          "r = (case r2 of Inl e \<Rightarrow> Inl e | Inr _ \<Rightarrow> Inr incoming)"
          by (cases "poll_write os ev s1"; auto split: sum.splits) (auto simp: thenO_def split: sum.splits)
        let ?u = "if sock_state (sock s1) = SOCK_CONNECTING
          then s1\<lparr>sock := setState SOCK_CONNECTED (sock s1)\<rparr> else s1"
        have ts1: "sock_typed L (sock s1)" using s1 Inr by simp
        then have "sock_typed L (sock ?u)" by (simp add: setState_eq)
        then have "sock_typed L (sock s2)" "r2 = Inl Undefined \<longrightarrow> tx_rogue (sock s2)"
          using wr ts1 sendNextData_typed [OF c, of L ?u]
          by (auto simp: poll_write_def thenO_def split: if_splits option.splits prod.splits sum.splits)
        with t typed_not_rogue [of L "sock s2"] L show ?thesis
          by (auto simp: sock_outcome_def split: sum.splits)
      qed
    qed
  qed
qed

lemma socketConfiguration_sock: "socketConfiguration os s = (r, t) \<Longrightarrow> sock t = sock s"
  by (auto simp: socketConfiguration_def andThen_def syscall_def split: prod.splits sum.splits)

lemma new_ClientSocket_typed:
  assumes "new_ClientSocket os addr fd u = (r, t)" shows "sock_typed L (sock t)"
proof -
  obtain m k where m: "os_new os (kern u) = (m, k)" by fastforce
  let ?s = "\<lparr>kern = k, errno = errno u, sock = new_MsgSocket ClientSocket_class addr fd FROM_CLIENT m\<rparr>"
  obtain r1 s1 where c: "socketConfiguration os ?s = (r1, s1)" by fastforce
  from socketConfiguration_sock [OF this] have s1: "sock_typed L (sock s1)" by (simp add: new_MsgSocket_typed)
  show ?thesis
  proof (cases r1)
    case (Inl e)
    with assms m c s1 show ?thesis by (auto simp: new_ClientSocket_def)
  next
    case (Inr x)
    with assms m c have "connect os s1 = (r, t)" by (simp add: new_ClientSocket_def)
    from connect_typed [OF s1 this] show ?thesis ..
  qed
qed

end
