(* ===== verification/ClientTyping.thy ===== *)
theory ClientTyping
  imports ClientConnection SocketTyping
begin

text \<open>
  The types of \<open>SocketTyping\<close> for the client: its socket is typed and its credentials fit the fields they are
  sent in, whatever sequence of its public operations is called, whatever the server sends and whatever
  the kernel answers.
\<close>

section \<open>The client\<close>

definition names_fit :: "ClientConnection \<Rightarrow> bool" where
  "names_fit c \<longleftrightarrow> length (user_name c) < CLIENTSERVER_USER_NAME_LENGTH
     \<and> length (user_passwd c) < CLIENTSERVER_USER_PASSWD_STRING_LENGTH
     \<and> length (user_email c) < CLIENTSERVER_USER_MAIL_STRING_LENGTH"

definition client_typed :: "int \<Rightarrow> 'k client \<Rightarrow> bool" where
  "client_typed L s \<longleftrightarrow> sock_typed L (sock s) \<and> names_fit (conn s)"

text \<open>
  A statement of the client that keeps its types and has defined behaviour, when requests of 8184 bytes are
  admitted at least.
\<close>

definition client_safe :: "int \<Rightarrow> ('k client, 'a) stm \<Rightarrow> bool" where
  "client_safe L m \<longleftrightarrow> 8184 \<le> L \<longrightarrow> (\<forall>s r t. client_typed L s \<longrightarrow> m s = (r, t) \<longrightarrow> client_typed L t \<and> r \<noteq> Inl Undefined)"

named_theorems safe_rules

lemma client_safeD:
  "client_safe L m \<Longrightarrow> 8184 \<le> L \<Longrightarrow> client_typed L s \<Longrightarrow> m s = (r, t) \<Longrightarrow> client_typed L t \<and> r \<noteq> Inl Undefined"
  unfolding client_safe_def by blast

lemma client_safe_basic [safe_rules]:
  "client_safe L (retS x)" "e \<noteq> Undefined \<Longrightarrow> client_safe L (failS e)" "client_safe L (assertS P)"
  "client_safe L (new_mem os)" "client_safe L m \<Longrightarrow> client_safe L n \<Longrightarrow> client_safe L (if b then m else n)"
proof -
  show "client_safe L (retS x)" "e \<noteq> Undefined \<Longrightarrow> client_safe L (failS e)" "client_safe L (assertS P)"
    by (auto simp: client_safe_def assertS_def)
  show "client_safe L (new_mem os)"
    by (auto simp: client_safe_def new_mem_def client_typed_def split: prod.splits)
  show "client_safe L m \<Longrightarrow> client_safe L n \<Longrightarrow> client_safe L (if b then m else n)" by simp
qed

lemma client_safe_andThen [safe_rules]:
  assumes "client_safe L m" "\<And>x. client_safe L (k x)" shows "client_safe L (andThen m k)"
  unfolding client_safe_def
proof (intro allI impI)
  fix s r t assume L: "8184 \<le> L" and s: "client_typed L s" "andThen m k s = (r, t)"
  obtain r1 s1 where m: "m s = (r1, s1)" by fastforce
  note s1 = client_safeD [OF assms(1) L s(1) m]
  show "client_typed L t \<and> r \<noteq> Inl Undefined"
  proof (cases r1)
    case (Inl e)
    with s m s1 show ?thesis by auto
  next
    case (Inr x)
    with s m have "k x s1 = (r, t)" by simp
    from client_safeD [OF assms(2) L _ this] s1 show ?thesis by blast
  qed
qed

lemma client_safe_modConn [safe_rules]:
  "(\<And>c. names_fit c \<Longrightarrow> names_fit (f c)) \<Longrightarrow> client_safe L (modConn f)"
  by (auto simp: client_safe_def client_typed_def)

lemma client_safe_set_cnx_state [safe_rules]: "client_safe L (set_cnx_state st)"
  unfolding set_cnx_state_def by (intro safe_rules) (simp add: names_fit_def)

lemma client_safe_send:
  assumes "n \<le> L" shows "client_safe L (sendBodyToServer m n i)"
  using assms
  by (auto simp: sendBodyToServer_def new_MsgRequest_def check_assert_def client_safe_def client_typed_def
      sendMsgToServer_def request_typed_def intro!: sendMsg_typed split: sum.splits if_splits)

lemma client_safe_sendBody [safe_rules]: "n \<le> 8184 \<Longrightarrow> client_safe L (sendBodyToServer m n i)"
proof (cases "8184 \<le> L")
  case True
  assume "n \<le> 8184"
  with True show ?thesis by (intro client_safe_send) simp
qed (simp add: client_safe_def)

lemma put_string_defined:
  "p + n \<le> 8192 \<Longrightarrow> p + length v + 1 < 8192 \<Longrightarrow> \<exists>m'. put_string v p n m = Inr m'"
  by (auto simp: put_string_def string_copy_def put_char_def min_def)

lemma put_credentials_defined: "names_fit c \<Longrightarrow> \<exists>m'. put_credentials c m = Inr m'"
proof -
  assume fit: "names_fit c"
  obtain m1 where 1: "put_string (user_name c) 0 (length (user_name c)) m = Inr m1"
    using put_string_defined [of 0 "length (user_name c)" "user_name c" m] fit
    by (auto simp: names_fit_def)
  obtain m2 where 2: "put_string (user_passwd c) off_password (length (user_passwd c)) m1 = Inr m2"
    using put_string_defined [of off_password "length (user_passwd c)" "user_passwd c" m1] fit
    by (auto simp: names_fit_def off_password_def)
  obtain m3 where "put_string (user_email c) off_mail_address 128 m2 = Inr m3"
    using put_string_defined [of off_mail_address 128 "user_email c" m2] fit
    by (auto simp: names_fit_def off_mail_address_def)
  with 1 2 show ?thesis by (simp add: put_credentials_def)
qed

lemma client_safe_sendRegistrationReq [safe_rules]: "client_safe L (sendRegistrationReq os)"
proof -
  have "client_safe L (\<lambda>s :: 'a client. case put_credentials (conn s) m of
       Inl e \<Rightarrow> (Inl e, s)
     | Inr m' \<Rightarrow> sendBodyToServer m' sizeof_RegistrationReq REGISTRATION_REQ s)" for m
    unfolding client_safe_def
  proof (intro allI impI)
    fix s :: "'a client" and r t
    assume L: "8184 \<le> L" and s: "client_typed L s" and run: "(case put_credentials (conn s) m of
       Inl e \<Rightarrow> (Inl e, s)
     | Inr m' \<Rightarrow> sendBodyToServer m' sizeof_RegistrationReq REGISTRATION_REQ s) = (r, t)"
    obtain m' where "put_credentials (conn s) m = Inr m'"
      using put_credentials_defined [of "conn s" m] s by (auto simp: client_typed_def)
    with run have "sendBodyToServer m' sizeof_RegistrationReq REGISTRATION_REQ s = (r, t)" by simp
    from client_safeD [OF client_safe_sendBody L s this] show "client_typed L t \<and> r \<noteq> Inl Undefined" by simp
  qed
  then show ?thesis unfolding sendRegistrationReq_def by (intro safe_rules)
qed

lemma client_safe_sendDisconnection [safe_rules]:
  "client_safe L (sendDisconnectionCnf os)" "client_safe L (sendDisconnectionReq os)"
  unfolding sendDisconnectionCnf_def sendDisconnectionReq_def by (intro safe_rules; simp)+

lemma length_main_version: "length main_version < 32" "mainVersionString = Inr main_version"
  by (simp_all add: mainVersionString_def main_version_def bytes_of_def)

lemma client_safe_sendConnectionReq [safe_rules]: "client_safe L (sendConnectionReq os)"
proof -
  have "client_safe L (case put_string main_version 0 (length main_version) m of
      Inl e \<Rightarrow> failS e | Inr m' \<Rightarrow> sendBodyToServer m' sizeof_ConnectionReq CONNECTION_REQ)" for m
    using put_string_defined [of 0 "length main_version" main_version m] length_main_version
    by (auto intro!: client_safe_sendBody)
  then show ?thesis
    unfolding sendConnectionReq_def length_main_version by (auto intro!: safe_rules)
qed

lemma length_fit: "0 < n \<Longrightarrow> length (fit n v) < n"
  by (auto simp: fit_def)

lemma client_safe_RegistrationData [safe_rules]: "client_safe L (RegistrationDataFromUserInterface n p e)"
  unfolding RegistrationDataFromUserInterface_def setExtEvent_def
  by (intro safe_rules) (auto simp: names_fit_def length_fit)

lemma client_safe_onSock [safe_rules]:
  "client_safe L (onSock (stop os))" "client_safe L (onSock (connect os))"
  by (auto simp: client_safe_def onSock_def client_typed_def split: prod.splits
      dest!: stop_typed [rotated] connect_typed [rotated])

lemma client_safe_events [safe_rules]: "client_safe L (handle_events os evs)"
proof (induction evs)
  case (Cons ev evs)
  have "client_safe L (handleOneExtEvent os ev)"
    unfolding handleOneExtEvent_def by (cases ev) (auto intro!: safe_rules)
  with Cons show ?case by (simp add: client_safe_andThen)
next
  case Nil
  show ?case unfolding handle_events.simps by (intro safe_rules)
qed

lemma client_safe_handleExtEvents: "client_safe L (handleExtEvents os)"
proof -
  have "client_safe L (andThen (handle_events os evs) (\<lambda>_. modConn (\<lambda>c. c\<lparr>ext_event := {}\<rparr>)))" for evs
    by (intro safe_rules) (simp add: names_fit_def)
  then show ?thesis unfolding handleExtEvents_def client_safe_def by auto
qed

lemma client_safe_handle_server_message: "client_safe L (handle_server_message os m)"
proof -
  have "client_safe L (handleConnectionCnf os m)"
    unfolding handleConnectionCnf_def by (intro safe_rules) (simp add: names_fit_def)
  moreover have "client_safe L (handleConnectionRej m)"
    unfolding handleConnectionRej_def by (auto intro!: safe_rules split: option.split)
  moreover have "client_safe L handleRegistrationCnf" "client_safe L handleRegistrationRej"
    "client_safe L handleUserLoginCnf" "client_safe L handleUserLoginRej"
    unfolding handleRegistrationCnf_def handleRegistrationRej_def handleUserLoginCnf_def handleUserLoginRej_def
    by (intro safe_rules)+
  moreover have "client_safe L (handleDisconnectionReq os m)" "client_safe L (handleDisconnectionCnf os)"
    unfolding handleDisconnectionReq_def handleDisconnectionCnf_def by (intro safe_rules)+
  ultimately show ?thesis
    unfolding handle_server_message_def
    by (auto intro!: safe_rules split: option.split ClientServerL1MessageId.split)
qed

lemma nextFromServer_typed: "nextFromServer s = (m, t) \<Longrightarrow> client_typed L s \<Longrightarrow> client_typed L t"
  by (auto simp: nextFromServer_def getNextReceivedMsg_def client_typed_def split: prod.splits list.splits)

interpretation typed_msgs: message_handler nextFromServer "handle_server_message os"
    "\<lambda>s. rx_fifo (sock s)" "\<lambda>s. 8184 \<le> L \<and> client_typed L s" for os L
proof
  fix s s' t :: "'a client" and m r
  assume s: "8184 \<le> L \<and> client_typed L s" "nextFromServer s = (Some m, s')"
    and h: "handle_server_message os m s' = (r, t)"
  from tameD [OF tame_handle_server_message h] show "rx_fifo (sock t) = rx_fifo (sock s') \<or> rx_fifo (sock t) = []"
    by simp
  from s client_safeD [OF client_safe_handle_server_message _ nextFromServer_typed [OF s(2)] h]
  show "8184 \<le> L \<and> client_typed L t" by blast
qed (simp_all add: nextFromServer_simps)

lemma dispatch_typed:
  assumes "8184 \<le> L" and "client_typed L s" and "dispatch nextFromServer (handle_server_message os) s = Some (r, t)"
  shows "client_typed L t \<and> r \<noteq> Inl Undefined"
proof -
  from typed_msgs.dispatch_outcome [of L s os r t] assms consider "r = Inr ()"
    | s1 m s2 where "client_typed L s1" "nextFromServer s1 = (Some m, s2)" "handle_server_message os m s2 = (r, t)"
    by blast
  then have "r \<noteq> Inl Undefined"
  proof cases
    case 2
    from client_safeD [OF client_safe_handle_server_message assms(1) nextFromServer_typed [OF 2(2,1)] 2(3)]
    show ?thesis ..
  qed simp
  with typed_msgs.dispatch_keeps [of L s os r t] assms show ?thesis by blast
qed

text \<open>How an operation of the client leaves it.\<close>

definition client_outcome :: "int \<Rightarrow> 'a result \<Rightarrow> 'k client \<Rightarrow> bool" where
  "client_outcome L r t \<longleftrightarrow>
    (if r = Inl Undefined then rx_rogue (sock t) \<or> 8184 < L \<and> tx_rogue (sock t) else client_typed L t)"

lemma client_safe_outcome:
  "client_safe L m \<Longrightarrow> 8184 \<le> L \<Longrightarrow> client_typed L s \<Longrightarrow> m s = (r, t) \<Longrightarrow> client_outcome L r t"
  using client_safeD [of L m s r t] by (simp add: client_outcome_def)

lemma cnx_poll_typed:
  assumes c: "counts_ok os" and L: "8184 \<le> L" and typed: "client_typed L s" and run: "cnx_poll os s = Some (r, t)"
  shows "client_outcome L r t"
proof (cases "cnx_state_val (cnx_state (conn s)) \<le> cnx_state_val NO_CONNECTION")
  case True
  with run typed show ?thesis by (auto simp: cnx_poll_eq client_outcome_def)
next
  case live: False
  with run obtain r1 t1 where b: "poll_body os s = Some (r1, t1)"
    by (auto simp: cnx_poll_eq split: option.splits)
  obtain r2 s2 where e: "handleExtEvents os s = (r2, s2)" by fastforce
  note s2 = client_safeD [OF client_safe_handleExtEvents L typed e]
  have body: "client_outcome L r1 t1"
  proof (cases r2)
    case (Inl x)
    with b e s2 show ?thesis by (auto simp: poll_body_def client_outcome_def)
  next
    case (Inr u)
    with b e obtain r3 s3 where p: "poll_socket os s2 = Some (r3, s3)"
      by (cases "poll_socket os s2") (auto simp: poll_body_def)
    then obtain t3 where t3: "poll os \<lparr>kern = kern s2, errno = errno s2, sock = sock s2\<rparr> = Some (r3, t3)"
      "s3 = s2\<lparr>kern := kern t3, errno := errno t3, sock := sock t3\<rparr>"
      by (auto simp: poll_socket_def)
    have "sock_outcome L r3 (sock t3)"
      by (rule poll_typed [OF c _ t3(1)]) (use s2 L in \<open>simp_all add: client_typed_def\<close>)
    then have s3: "client_outcome L r3 s3"
      using s2 t3(2) by (simp add: client_outcome_def sock_outcome_def client_typed_def)
    show ?thesis
    proof (cases "r3 = Inr True")
      case True
      with b e Inr p have "dispatch nextFromServer (handle_server_message os) s3 = Some (r1, t1)"
        by (simp add: poll_body_def)
      from dispatch_typed [OF L _ this] s3 True show ?thesis by (simp add: client_outcome_def)
    next
      case False
      with b e Inr p s3 show ?thesis by (cases r3) (auto simp: poll_body_def client_outcome_def split: if_splits)
    qed
  qed
  show ?thesis
  proof (cases "\<exists>e. r1 = Inl (SocketDisconnection e)")
    case True
    with run live b have "set_cnx_state NO_CONNECTION t1 = (r, t)" by (auto simp: cnx_poll_eq)
    from client_safe_outcome [OF client_safe_set_cnx_state L _ this] body True show ?thesis
      by (auto simp: client_outcome_def)
  next
    case False
    with run live b have "r = r1" "t = t1" by (cases r1; auto simp: cnx_poll_eq split: exn.splits)+
    with body show ?thesis by simp
  qed
qed

section \<open>The interface of the client\<close>

text \<open>
  The member functions the program and the user interface can call, in any order. A request for \<^verbatim>\<open>sendMsgToServer\<close>
  is given by the arguments of its constructor, which the caller runs: a body, a length and an identity.
  \<^verbatim>\<open>receiveMsgFromServer\<close> is declared but defined nowhere, so that no program that calls it links.
\<close>

datatype client_call =
    Start
  | Stop bool
  | Register "byte list" "byte list" "byte list"
  | Send mem int ClientServerL1MessageId
  | Poll

fun client_op :: "'k os \<Rightarrow> client_call \<Rightarrow> 'k client \<Rightarrow> (unit result \<times> 'k client) option" where
  "client_op os Start s = Some (StartConnectionToServer os s)"
| "client_op os (Stop flush) s = Some (StopConnectionToServer os flush s)"
| "client_op os (Register n p e) s = Some (RegistrationDataFromUserInterface n p e s)"
| "client_op os (Send m n i) s = Some (sendBodyToServer m n i s)"
| "client_op os Poll s = cnx_poll os s"

fun client_ops :: "'k os \<Rightarrow> client_call list \<Rightarrow> 'k client \<Rightarrow> (unit result \<times> 'k client) option" where
  "client_ops os [] s = Some (Inr (), s)"
| "client_ops os (c # cs) s = thenO (client_op os c s) (\<lambda>_. client_ops os cs)"

text \<open>The length of the longest request, 8184 at least: what a body can hold behind a header that is sent in part.\<close>

fun longest :: "client_call list \<Rightarrow> int" where
  "longest [] = 8184"
| "longest (Send m n i # cs) = max n (longest cs)"
| "longest (_ # cs) = longest cs"

lemma longest_facts:
  "8184 \<le> longest cs" "Send m n i \<in> set cs \<Longrightarrow> n \<le> longest cs"
  by (induction cs rule: longest.induct) auto

lemma client_safe_Start: "client_safe L (StartConnectionToServer os)"
  unfolding StartConnectionToServer_def by (intro safe_rules)

lemma client_safe_Stop: "client_safe L (StopConnectionToServer os flush)"
proof -
  have "client_safe L (modS (\<lambda>s :: 'a client. s\<lparr>sock := discardDataBuffers (sock s)\<rparr>))"
    by (simp add: client_safe_def client_typed_def discard_typed)
  then show ?thesis unfolding StopConnectionToServer_def by (intro safe_rules)
qed

lemma client_op_typed:
  assumes "counts_ok os" and L: "8184 \<le> L" and s: "client_typed L s" and c: "client_op os c s = Some (r, t)"
    and n: "\<And>m n i. c = Send m n i \<Longrightarrow> n \<le> L"
  shows "client_outcome L r t"
proof (cases c)
  case Poll
  with c cnx_poll_typed [OF assms(1-3)] show ?thesis by simp
next
  case Start
  with c client_safe_outcome [OF client_safe_Start L s] show ?thesis by simp
next
  case (Stop flush)
  with c client_safe_outcome [OF client_safe_Stop L s] show ?thesis by simp
next
  case (Register nm p e)
  with c client_safe_outcome [OF client_safe_RegistrationData L s] show ?thesis by simp
next
  case (Send m k i)
  with c client_safe_outcome [OF client_safe_send [OF n [OF Send]] L s] show ?thesis by simp
qed

lemma client_ops_typed:
  "counts_ok os \<Longrightarrow> 8184 \<le> L \<Longrightarrow> client_typed L s \<Longrightarrow> client_ops os cs s = Some (r, t)
   \<Longrightarrow> (\<And>m n i. Send m n i \<in> set cs \<Longrightarrow> n \<le> L) \<Longrightarrow> client_outcome L r t"
proof (induction cs arbitrary: s)
  case (Cons c cs)
  from Cons.prems(4) obtain r1 s1 where s1: "client_op os c s = Some (r1, s1)"
    by (cases "client_op os c s") auto
  have t1: "client_outcome L r1 s1"
    by (rule client_op_typed [OF Cons.prems(1-3) s1]) (use Cons.prems(5) in \<open>meson list.set_intros(1)\<close>)
  show ?case
  proof (cases r1)
    case (Inl e)
    with Cons.prems(4) s1 t1 show ?thesis by (auto simp: client_outcome_def)
  next
    case (Inr u)
    with Cons.prems(4) s1 have run: "client_ops os cs s1 = Some (r, t)" by simp
    from t1 Inr have "client_typed L s1" by (simp add: client_outcome_def)
    from Cons.IH [OF Cons.prems(1,2) this run] Cons.prems(5) show ?thesis by (meson list.set_intros(2))
  qed
qed (auto simp: client_outcome_def)

lemma new_ClientConnection_typed:
  assumes "new_ClientConnection os addr ip s = Inr c" shows "client_typed L c"
  using assms
  by (auto simp: new_ClientConnection_eq client_typed_def names_fit_def split: prod.splits sum.splits
      dest: new_ClientSocket_typed)

text \<open>
  C6. Type soundness of the client: a sequence of calls of its public operations, with any arguments, that ends in
  defined behaviour (normally, by an exception or at an assertion) leaves the counters of its socket within the
  messages they index and its credentials within their fields. Undefined behaviour is reached in two ways only:
  a message under reception announces a length that is negative or larger than a message object; or a request of
  more than 8184 bytes, handed to \<^verbatim>\<open>sendMsgToServer\<close>, is under emission, whose body is read past its end when the
  kernel takes its header in part. The kernel is supposed not to return more bytes than it was asked for.
\<close>

theorem client_type_sound:
  assumes "counts_ok os" and "new_ClientConnection os addr ip s = Inr c"
    and "client_ops os cs c = Some (r, t)"
  shows "if r = Inl Undefined
    then rx_rogue (sock t) \<or> (\<exists>m n i. Send m n i \<in> set cs \<and> 8184 < n) \<and> tx_rogue (sock t)
    else client_typed (longest cs) t"
proof -
  have "client_outcome (longest cs) r t"
    by (rule client_ops_typed [OF assms(1) longest_facts(1) new_ClientConnection_typed [OF assms(2)] assms(3)])
      (rule longest_facts(2))
  moreover have "\<exists>m n i. Send m n i \<in> set cs \<and> 8184 < n" if "8184 < longest cs"
    using that by (induction cs rule: longest.induct) (auto simp: less_max_iff_disj)
  ultimately show ?thesis by (auto simp: client_outcome_def split: if_splits)
qed

definition silent_os :: "unit os" where
  "silent_os = failing_os\<lparr>os_socket := Pair (Inr 5), os_nonblock := \<lambda>fd. Pair (Inr ()),
     os_connect := \<lambda>fd a. Pair (Inl EINPROGRESS), os_poll := \<lambda>fd ev. Pair (Inr None)\<rparr>"

lemma client_type_sound_witness:
  "\<exists>c r t. new_ClientConnection silent_os \<lparr>s_addr = 0, sin_port = 0\<rparr> [] \<lparr>kern = (), errno = 0\<rparr> = Inr c
     \<and> client_ops silent_os [Start, Poll, Register [1] [2] (replicate 200 3), Send (\<lambda>_. 0) 8190 POLL_REQ, Poll] c
         = Some (r, t)
     \<and> (if r = Inl Undefined then rx_rogue (sock t) \<or> tx_rogue (sock t) else client_typed 8190 t)"
proof -
  let ?ops = "[Start, Poll, Register [1] [2] (replicate 200 3), Send (\<lambda>_. 0) 8190 POLL_REQ, Poll]"
  obtain c where c: "new_ClientConnection silent_os \<lparr>s_addr = 0, sin_port = 0\<rparr> [] \<lparr>kern = (), errno = 0\<rparr> = Inr c"
    by (simp add: new_ClientConnection_eq new_ClientSocket_def silent_os_def failing_os_def
        socketConfiguration_def connect_eq andThen_def assertS_def syscall_def new_MsgSocket_def rxReset_def)
  have ok: "counts_ok silent_os" by (simp add: counts_ok_def silent_os_def failing_os_def)
  have poll: "poll silent_os u = Some (Inr False, u)" for u :: "unit sock_ctx"
    by (simp add: poll_def silent_os_def syscall_def)
  have ends: "client_op silent_os x u \<noteq> None" for x u
    by (cases x) (auto simp: cnx_poll_eq poll_body_def poll_socket_def poll thenO_def
        split: option.splits prod.splits sum.splits exn.splits)
  have "client_ops silent_os xs u \<noteq> None" for xs u
    by (induction xs arbitrary: u) (use ends in \<open>auto simp: thenO_def split: option.splits prod.splits sum.splits\<close>)
  then obtain r t where r: "client_ops silent_os ?ops c = Some (r, t)" by fastforce
  have "longest ?ops = 8190" by simp
  with client_type_sound [OF ok c r] c r show ?thesis by (auto split: if_splits)
qed

end
