(* ===== verification/ServerTyping.thy ===== *)
theory ServerTyping
  imports GameServer SocketTyping
begin

text \<open>
  The types of \<open>SocketTyping\<close> for the server: every connection of the router has a typed socket, and all the
  operations of a connection, of the router and of the loop keep it so, whatever their outcome, except that an
  undefined behaviour may leave a socket whose reception counter is outside its message object (\<open>server_rogue\<close>).
\<close>

section \<open>Statements that keep the types\<close>

definition server_typed :: "'k server \<Rightarrow> bool" where
  "server_typed s \<longleftrightarrow> (\<forall>fd c. cnx s fd = Some c \<longrightarrow> sock_typed 8184 (servSock c))"

definition server_keeps :: "('k server, 'a) stm \<Rightarrow> bool" where
  "server_keeps m \<longleftrightarrow> (\<forall>s r t. server_typed s \<longrightarrow> m s = (r, t) \<longrightarrow> server_typed t)"

named_theorems typed_rules

lemma server_keepsD: "server_keeps m \<Longrightarrow> server_typed s \<Longrightarrow> m s = (r, t) \<Longrightarrow> server_typed t"
  unfolding server_keeps_def by blast

lemma server_typedD: "server_typed s \<Longrightarrow> cnx s fd = Some c \<Longrightarrow> sock_typed 8184 (servSock c)"
  unfolding server_typed_def by blast

lemma server_typed_same: "socket_map (router t) = socket_map (router s) \<Longrightarrow> server_typed t = server_typed s"
  by (simp add: server_typed_def cnx_def)

lemma server_keeps_basic [typed_rules]:
  "server_keeps (retS x)" "server_keeps (failS e)" "server_keeps (assertS P)"
  "server_keeps m \<Longrightarrow> server_keeps n \<Longrightarrow> server_keeps (if b then m else n)"
proof -
  show "server_keeps (retS x)" "server_keeps (failS e)" "server_keeps (assertS P)"
    by (simp_all add: server_keeps_def assertS_def)
  show "server_keeps m \<Longrightarrow> server_keeps n \<Longrightarrow> server_keeps (if b then m else n)" by simp
qed

lemma server_keeps_same:
  "(\<And>s r t. m s = (r, t) \<Longrightarrow> socket_map (router t) = socket_map (router s)) \<Longrightarrow> server_keeps m"
  unfolding server_keeps_def by (metis server_typed_same)

lemma server_keeps_new_mem [typed_rules]: "server_keeps (new_mem os)"
  by (rule server_keeps_same) (auto simp: new_mem_def split: prod.splits)

lemma server_keeps_syscall [typed_rules]: "server_keeps (syscall f)"
  by (rule server_keeps_same) (auto simp: syscall_def split: prod.splits sum.splits)

lemma server_keeps_modRouter [typed_rules]:
  "(\<And>r. socket_map (f r) = socket_map r) \<Longrightarrow> server_keeps (modRouter f)"
  by (rule server_keeps_same) (auto simp: modRouter_def)

lemma server_keeps_andThen [typed_rules]:
  assumes "server_keeps m" "\<And>x. server_keeps (k x)" shows "server_keeps (andThen m k)"
  unfolding server_keeps_def
proof (intro allI impI)
  fix s r t assume s: "server_typed s" "andThen m k s = (r, t)"
  show "server_typed t"
    by (rule andThen_keeps [OF _ _ s(2), where I = server_typed])
      (use s(1) assms server_keepsD in \<open>blast+\<close>)
qed

lemma server_keeps_this [typed_rules]: "(\<And>c. server_keeps (k c)) \<Longrightarrow> server_keeps (this fd k)"
  by (auto simp: server_keeps_def this_def split: option.splits)

lemma server_keeps_with_string [typed_rules]:
  "(\<And>v. server_keeps (k v)) \<Longrightarrow> server_keeps (with_string m p k)"
  by (auto simp: with_string_def typed_rules split: sum.splits)

lemma server_keeps_modCnx [typed_rules]:
  assumes "\<And>c. sock_typed 8184 (servSock c) \<Longrightarrow> sock_typed 8184 (servSock (f c))" shows "server_keeps (modCnx fd f)"
  unfolding server_keeps_def
proof (intro allI impI)
  fix s r t assume s: "server_typed s" and "modCnx fd f s = (r, t)"
  then have t: "t = snd (modCnx fd f s)" by simp
  show "server_typed t"
    unfolding server_typed_def t cnx_modCnx using s assms by (auto dest: server_typedD)
qed

lemma server_typed_leave: "server_typed s \<Longrightarrow> sock_typed 8184 (sock t) \<Longrightarrow> server_typed (leave_sock s fd c t)"
  by (auto simp: server_typed_def leave_sock_def cnx_def)

lemma server_keeps_sockS:
  assumes "\<And>x r t. sock_typed 8184 (sock x) \<Longrightarrow> m x = (r, t) \<Longrightarrow> sock_typed 8184 (sock t)"
  shows "server_keeps (sockS fd m)"
  unfolding server_keeps_def
proof (intro allI impI)
  fix s r t assume s: "server_typed s" and run: "sockS fd m s = (r, t)"
  show "server_typed t"
  proof (cases "cnx s fd")
    case None
    with s run show ?thesis by (simp add: sockS_def this_def)
  next
    case (Some c)
    obtain r1 u where m: "m (enter_sock s c) = (r1, u)" by fastforce
    have "sock_typed 8184 (sock (enter_sock s c))" using server_typedD [OF s Some] by (simp add: enter_sock_def)
    from server_typed_leave [OF s assms [OF this m]] run Some m show ?thesis
      by (auto simp: sockS_def this_def)
  qed
qed

lemma sockO_typed:
  assumes m: "\<And>x r t. sock_typed 8184 (sock x) \<Longrightarrow> m x = Some (r, t) \<Longrightarrow> sock_typed 8184 (sock t)"
    and s: "server_typed s" and run: "sockO fd m s = Some (r, t)"
  shows "server_typed t"
proof (cases "cnx s fd")
  case None
  with s run show ?thesis by (simp add: sockO_def)
next
  case (Some c)
  with run obtain u where u: "m (enter_sock s c) = Some (r, u)" "t = leave_sock s fd c u"
    by (auto simp: sockO_def)
  have "sock_typed 8184 (sock (enter_sock s c))" using server_typedD [OF s Some] by (simp add: enter_sock_def)
  from server_typed_leave [OF s m [OF this u(1)]] u(2) show ?thesis by simp
qed

lemma server_keeps_stop [typed_rules]: "server_keeps (sockS fd (stop os))"
  by (rule server_keeps_sockS) (simp add: stop_typed)

lemma server_keeps_determine [typed_rules]: "server_keeps (sockS fd (determineErrorType os))"
  by (rule server_keeps_sockS) (simp add: determineErrorType_typed)

lemma server_keeps_setCnxState [typed_rules]: "server_keeps (setCnxState fd st)"
  unfolding setCnxState_def by (intro typed_rules) simp

lemma server_keeps_Outgoing [typed_rules]: "server_keeps (OutgoingDataForClient fd)"
  by (rule server_keeps_same) (auto simp: OutgoingDataForClient_def modRouter_def split: option.splits if_splits)

lemma server_keeps_sendBody [typed_rules]: "n \<le> 8184 \<Longrightarrow> server_keeps (sendBody fd m n i)"
  by (auto simp: sendBody_def new_MsgRequest_def check_assert_def sendMsgToClient_def
      intro!: typed_rules sendMsg_typed simp: request_typed_def)

section \<open>Connections\<close>

lemma server_keeps_sends [typed_rules]:
  "server_keeps (sendConnectionCnf os fd ciph key)" "server_keeps (sendRegistrationRej os fd c1)"
  "server_keeps (sendRegistrationCnf os fd)" "server_keeps (sendUserLoginRej os fd c2)"
  "server_keeps (sendUserLoginCnf os fd)" "server_keeps (sendDisconnectionCnf os fd)"
  "server_keeps (sendDisconnectionReq os fd)"
  unfolding sendConnectionCnf_def sendRegistrationRej_def sendRegistrationCnf_def sendUserLoginRej_def
    sendUserLoginCnf_def sendDisconnectionCnf_def sendDisconnectionReq_def
  by (intro typed_rules; simp)+

lemma server_keeps_sendConnectionRej [typed_rules]: "server_keeps (sendConnectionRej os fd cause)"
proof -
  have "server_keeps (case put_string v off_rej_version (length v) (put_enum (connection_rej_val cause) m) of
           Inl e \<Rightarrow> failS e | Inr m' \<Rightarrow> sendBody fd m' sizeof_ConnectionRej CONNECTION_REJ)" for v m
    by (auto intro!: typed_rules split: sum.split)
  then show ?thesis
    unfolding sendConnectionRej_def by (auto intro!: typed_rules split: sum.split)
qed

lemma server_keeps_handlers [typed_rules]:
  "server_keeps (handleConnectionReq os fd m)" "server_keeps (handleRegistrationReq os fd m)"
  "server_keeps (handleUserLoginReq os fd m)" "server_keeps (handleDisconnectionReq os fd m)"
  "server_keeps (handleDisconnectionCnf os fd m)" "server_keeps (socketDisconnected os fd)"
  "server_keeps (fatalCnxError os fd)"
proof -
  show "server_keeps (handleConnectionReq os fd m)"
    unfolding handleConnectionReq_def by (auto intro!: typed_rules split: sum.split)
  show "server_keeps (handleRegistrationReq os fd m)" "server_keeps (handleUserLoginReq os fd m)"
    "server_keeps (handleDisconnectionReq os fd m)" "server_keeps (handleDisconnectionCnf os fd m)"
    "server_keeps (socketDisconnected os fd)" "server_keeps (fatalCnxError os fd)"
    unfolding handleRegistrationReq_def handleUserLoginReq_def handleDisconnectionReq_def
      handleDisconnectionCnf_def socketDisconnected_def fatalCnxError_def
    by (intro typed_rules; simp)+
qed

lemma server_keeps_handle: "server_keeps (handle_client_message os fd m)"
  unfolding handle_client_message_def
  by (auto intro!: typed_rules split: option.split ClientServerL1MessageId.split)

lemma server_keeps_socketError [typed_rules]: "server_keeps (socketError os fd)"
proof -
  have "server_keeps (case e of
      IGNORE \<Rightarrow> retS False
    | ERR_DISCONNECTED \<Rightarrow> andThen (socketDisconnected os fd) (\<lambda>_. retS True)
    | FATAL \<Rightarrow> andThen (fatalCnxError os fd) (\<lambda>_. retS True)
    | CONNECTION_TROUBLES \<Rightarrow> failS Undefined)" for e
    by (cases e) (auto intro!: typed_rules)
  then show ?thesis unfolding socketError_def by (intro typed_rules)
qed

lemma nextReceived_typed:
  assumes "server_typed s" and "nextReceived fd s = (m, s')" shows "server_typed s'"
proof (cases "cnx s fd")
  case None
  with assms show ?thesis by (simp add: nextReceived_def)
next
  case (Some c)
  obtain m' x where x: "getNextReceivedMsg (servSock c) = (m', x)" by fastforce
  with server_typedD [OF assms(1) Some] have "sock_typed 8184 x"
    by (auto simp: getNextReceivedMsg_def split: list.splits)
  with assms Some x show ?thesis by (auto simp: nextReceived_def intro!: server_typed_leave)
qed

text \<open>
  How a longer operation leaves the server: with typed sockets, unless it was ended by the undefined behaviour of a
  socket that receives a message with an impossible length.
\<close>

definition server_rogue :: "'k server \<Rightarrow> bool" where
  "server_rogue s \<longleftrightarrow> (\<exists>fd c. cnx s fd = Some c \<and> rx_rogue (servSock c))"

definition server_outcome :: "'a result \<Rightarrow> 'k server \<Rightarrow> bool" where
  "server_outcome r t \<longleftrightarrow> server_typed t \<or> r = Inl Undefined \<and> server_rogue t"

lemma server_outcome_typed: "server_typed t \<Longrightarrow> server_outcome r t"
  by (simp add: server_outcome_def)

lemma server_outcome_Inr [simp]: "server_outcome (Inr x) t = server_typed t"
  by (simp add: server_outcome_def)

lemma server_outcome_Inl: "server_outcome (Inl e :: 'a result) t \<Longrightarrow> server_outcome (Inl e :: 'b result) t"
  by (simp add: server_outcome_def)

lemma socketDataRead_typed:
  assumes c: "counts_ok os" and s: "server_typed s" and run: "socketDataRead os fd s = Some (r, t)"
  shows "server_outcome r t"
proof -
  from run obtain r1 s1 where rd: "sockO fd (recvNextData os) s = Some (r1, s1)"
    by (cases "sockO fd (recvNextData os) s") (auto simp: socketDataRead_def)
  have s1: "server_outcome r1 s1"
  proof (cases "cnx s fd")
    case None
    with rd s show ?thesis by (auto simp: sockO_def server_outcome_def)
  next
    case (Some c)
    with rd obtain u where u: "recvNextData os (enter_sock s c) = Some (r1, u)" "s1 = leave_sock s fd c u"
      by (auto simp: sockO_def)
    have "sock_typed 8184 (sock (enter_sock s c))" using server_typedD [OF s Some] by (simp add: enter_sock_def)
    from recvNextData_typed [OF assms(1) this u(1)] show ?thesis
    proof (cases "r1 = Inl Undefined")
      case True
      moreover from this recvNextData_typed [OF assms(1) \<open>sock_typed 8184 _\<close> u(1)] have "server_rogue s1"
        unfolding server_rogue_def u(2) by (intro exI [of _ fd]) (simp add: leave_sock_def cnx_def)
      ultimately show ?thesis by (simp add: server_outcome_def)
    next
      case False
      with recvNextData_typed [OF assms(1) \<open>sock_typed 8184 _\<close> u(1)] server_typed_leave [OF s] u(2)
      show ?thesis by (simp add: server_outcome_typed)
    qed
  qed
  show ?thesis
  proof (cases r1)
    case (Inl e)
    with run rd s1 show ?thesis by (auto simp: socketDataRead_def intro: server_outcome_Inl)
  next
    case (Inr x)
    with run rd have d: "dispatch (nextReceived fd) (handle_client_message os fd) s1 = Some (r, t)"
      by (simp add: socketDataRead_def)
    have "server_typed s1" using s1 Inr by simp
    have "server_typed (snd (r, t))"
      by (rule dispatch_invariant [where I = server_typed, OF d \<open>server_typed s1\<close>])
        (use nextReceived_typed server_keepsD [OF server_keeps_handle] in \<open>blast+\<close>)
    then show ?thesis by (simp add: server_outcome_typed)
  qed
qed

lemma socketDataWrite_typed:
  assumes "counts_ok os" and "server_typed s" and "socketDataWrite os fd s = Some (r, t)"
  shows "server_typed t"
  by (rule sockO_typed [OF _ assms(2) assms(3) [unfolded socketDataWrite_def]])
    (use sendNextData_typed [OF assms(1)] in blast)

section \<open>The router and the loop\<close>

lemma server_keeps_ReleaseClientConnection [typed_rules]: "server_keeps (ReleaseClientConnection fd)"
  unfolding server_keeps_def
proof (intro allI impI)
  fix s r t assume s: "server_typed s" and run: "ReleaseClientConnection fd s = (r, t)"
  have "\<forall>fd' c. cnx t fd' = Some c \<longrightarrow> cnx s fd' = Some c"
    using run by (auto simp: ReleaseClientConnection_def modRouter_def andThen_def assertS_def cnx_def
        split: if_splits)
  with s show "server_typed t" unfolding server_typed_def by blast
qed

lemma new_ServerSocket_typed:
  "new_ServerSocket os addr fd z = (r, u) \<Longrightarrow> sock_typed 8184 (sock u)"
  by (auto simp: new_ServerSocket_def new_MsgSocket_typed split: prod.splits dest!: socketConfiguration_sock)

lemma server_keeps_CreateClientConnection [typed_rules]: "server_keeps (CreateClientConnection os addr fd)"
  unfolding server_keeps_def
proof (intro allI impI)
  fix s :: "'a server" and r t assume s: "server_typed s" and run: "CreateClientConnection os addr fd s = (r, t)"
  obtain r1 u where u: "new_ServerSocket os addr fd \<lparr>kern = kern s, errno = errno s\<rparr> = (r1, u)" by fastforce
  have "socket_map (router t) = socket_map (router s)
    \<or> socket_map (router t) = (socket_map (router s))(fd \<mapsto> new_ServerClientConnection (sock u))"
    using run u by (auto simp: CreateClientConnection_def Let_def split: if_splits sum.splits)
  with s new_ServerSocket_typed [OF u] show "server_typed t"
    by (auto simp: server_typed_def cnx_def new_ServerClientConnection_def split: if_splits)
qed

lemma server_keeps_handleSocketErrors: "server_keeps (handleSocketErrors os l nb)"
proof (induction l arbitrary: nb)
  case Nil
  show ?case by (simp add: server_keeps_def)
next
  case (Cons fd l)
  have cl: "server_typed (s\<lparr>router := r\<rparr>) = server_typed s" if "clear_indicators fd (router s) = (n, r)"
    for s :: "'a server" and n r
    by (rule server_typed_same) (use that in \<open>auto simp: clear_indicators_def Let_def split: if_splits\<close>)
  have "server_keeps (\<lambda>s1. if broken then
           (case clear_indicators fd (router s1) of
              (n, r) \<Rightarrow> handleSocketErrors os l (nb + n + 1) (s1\<lparr>router := r\<rparr>))
         else handleSocketErrors os l (nb + 1) s1)" for broken
    unfolding server_keeps_def
  proof (intro allI impI)
    fix s r t
    assume s: "server_typed s" and run: "(if broken then
           (case clear_indicators fd (router s) of
              (n, r) \<Rightarrow> handleSocketErrors os l (nb + n + 1) (s\<lparr>router := r\<rparr>))
         else handleSocketErrors os l (nb + 1) s) = (r, t)"
    obtain n q where c: "clear_indicators fd (router s) = (n, q)" by fastforce
    show "server_typed t"
    proof (cases broken)
      case True
      with run c have "handleSocketErrors os l (nb + n + 1) (s\<lparr>router := q\<rparr>) = (r, t)" by simp
      from server_keepsD [OF Cons _ this] cl [OF c] s show ?thesis by simp
    next
      case False
      with run server_keepsD [OF Cons s] show ?thesis by simp
    qed
  qed
  then have "server_keeps (andThen (socketError os fd) (\<lambda>broken s1.
         if broken then
           (case clear_indicators fd (router s1) of
              (n, r) \<Rightarrow> handleSocketErrors os l (nb + n + 1) (s1\<lparr>router := r\<rparr>))
         else handleSocketErrors os l (nb + 1) s1))"
    by (intro typed_rules)
  then show ?case unfolding server_keeps_def by (auto split: if_splits)
qed

lemma serveSocketReceptions_typed:
  assumes c: "counts_ok os"
  shows "server_typed s \<Longrightarrow> serveSocketReceptions os l nb s = Some (r, t) \<Longrightarrow> server_outcome r t"
proof (induction l arbitrary: nb s)
  case (Cons fd l)
  show ?case
  proof (cases "cnx s fd = None")
    case False
    with Cons.prems(2) obtain r1 s1 where m: "socketDataRead os fd s = Some (r1, s1)"
      by (auto split: option.splits)
    note s1 = socketDataRead_typed [OF c Cons.prems(1) m]
    show ?thesis
    proof (cases "\<exists>en. r1 = Inl (SocketDisconnection en)")
      case True
      then have "server_typed s1" using s1 by (auto simp: server_outcome_def)
      obtain r2 s2 where d: "socketDisconnected os fd s1 = (r2, s2)" by fastforce
      note s2 = server_keepsD [OF server_keeps_handlers(6) \<open>server_typed s1\<close> d]
      have "server_typed (bury fd s2)"
        using s2 server_typed_same [of "bury fd s2" s2] by (simp add: bury_def)
      with Cons.prems(2) False m True d s2 Cons.IH [of "bury fd s2" "nb + 1"] show ?thesis
        by (cases r2) (auto simp: server_outcome_typed)
    next
      case ne: False
      show ?thesis
      proof (cases r1)
        case (Inl e)
        with ne Cons.prems(2) False m s1 show ?thesis by (cases e) (auto simp: server_outcome_def)
      next
        case (Inr u)
        with Cons.prems(2) False m s1 Cons.IH show ?thesis by auto
      qed
    qed
  qed (use Cons.prems in \<open>simp add: server_outcome_typed\<close>)
qed (auto simp: server_outcome_typed)

lemma serveSocketEmissions_typed:
  assumes c: "counts_ok os"
  shows "server_typed s \<Longrightarrow> serveSocketEmissions os l nb s = Some (r, t) \<Longrightarrow> server_typed t"
proof (induction l arbitrary: nb s)
  case (Cons fd l)
  show ?case
  proof (cases "cnx s fd = None")
    case False
    with Cons.prems(2) obtain r1 s1 where m: "socketDataWrite os fd s = Some (r1, s1)"
      by (auto split: option.splits)
    note s1 = socketDataWrite_typed [OF c Cons.prems(1) m]
    show ?thesis
    proof (cases r1)
      case (Inl e)
      with Cons.prems(2) False m s1 show ?thesis by (cases e) auto
    next
      case (Inr again)
      let ?s2 = "s1\<lparr>router := (router s1)\<lparr>select_writefds := FD_CLR fd (select_writefds (router s1))\<rparr>\<rparr>"
      have "server_typed ?s2" using s1 server_typed_same [of ?s2 s1] by simp
      with Cons.prems(2) False m Inr s1 Cons.IH [of ?s2 "nb + 1"] Cons.IH [of s1 "nb + 1"] show ?thesis
        by (auto split: if_splits)
    qed
  qed (use Cons.prems in simp)
qed simp

lemma server_keeps_releaseAll: "server_keeps (releaseAll l)"
proof (induction l)
  case Nil
  show ?case by (simp add: server_keeps_def)
next
  case (Cons fd l)
  show ?case unfolding releaseAll.simps by (intro typed_rules Cons)
qed

lemma server_keeps_prepare: "server_keeps (prepare_sets)" "server_keeps (do_pselect os)"
proof -
  show "server_keeps (prepare_sets)"
    by (rule server_keeps_same) (auto simp: prepare_sets_def split: sum.splits)
  show "server_keeps (do_pselect os)"
    by (rule server_keeps_same)
      (auto simp: do_pselect_def andThen_def syscall_def modRouter_def split: sum.splits prod.splits)
qed

text \<open>A statement that may not end, followed by another one.\<close>

definition server_keepsO :: "('k server \<Rightarrow> ('a result \<times> 'k server) option) \<Rightarrow> bool" where
  "server_keepsO m \<longleftrightarrow> (\<forall>s r t. server_typed s \<longrightarrow> m s = Some (r, t) \<longrightarrow> server_outcome r t)"

lemma server_keepsO_D: "server_keepsO m \<Longrightarrow> server_typed s \<Longrightarrow> m s = Some (r, t) \<Longrightarrow> server_outcome r t"
  unfolding server_keepsO_def by blast

lemma server_keepsO_thenO:
  assumes "server_keepsO m" "\<And>x. server_keepsO (k x)" shows "server_keepsO (\<lambda>s. thenO (m s) k)"
  unfolding server_keepsO_def
proof (intro allI impI)
  fix s r t assume s: "server_typed s" "thenO (m s) k = Some (r, t)"
  then obtain r1 s1 where m: "m s = Some (r1, s1)" by (cases "m s") auto
  note s1 = server_keepsO_D [OF assms(1) s(1) m]
  show "server_outcome r t"
  proof (cases r1)
    case (Inl e)
    with s m s1 show ?thesis by (auto intro: server_outcome_Inl)
  next
    case (Inr x)
    with s m have "k x s1 = Some (r, t)" by simp
    from server_keepsO_D [OF assms(2) _ this] s1 Inr show ?thesis by simp
  qed
qed

lemma server_keepsO_stm: "server_keeps m \<Longrightarrow> server_keepsO (\<lambda>s. Some (m s))"
  by (auto simp: server_keepsO_def intro: server_outcome_typed dest: server_keepsD)

lemma server_keepsO_phase:
  assumes "\<And>l. server_keepsO (run l)" shows "server_keepsO (phase sel run nb)"
  unfolding server_keepsO_def
proof (intro allI impI)
  fix s r t assume s: "server_typed s" "phase sel run nb s = Some (r, t)"
  show "server_outcome r t"
  proof (cases "nb > 0 \<and> (\<exists>l. fdsExtractList (clientsocks_nfds (router s)) (sel (router s)) = Inr l)")
    case False
    with s show ?thesis by (auto simp: phase_def server_outcome_typed split: if_splits sum.splits)
  next
    case True
    then obtain l where "fdsExtractList (clientsocks_nfds (router s)) (sel (router s)) = Inr l" by blast
    with s True have "thenO (run l s) (\<lambda>n s'. Some (Inr (nb - n), s')) = Some (r, t)" by (simp add: phase_def)
    moreover have "server_keepsO (\<lambda>s. thenO (run l s) (\<lambda>n s'. Some (Inr (nb - n), s')))"
      by (rule server_keepsO_thenO [OF assms]) (simp add: server_keepsO_def)
    ultimately show ?thesis using s(1) server_keepsO_D by blast
  qed
qed

lemma ServeClientSockets_typed:
  assumes c: "counts_ok os" shows "server_keepsO (ServeClientSockets os)"
proof -
  have errors: "server_keepsO (\<lambda>s. Some (handleSocketErrors os l 0 s))" for l
    by (rule server_keepsO_stm [OF server_keeps_handleSocketErrors])
  have reads: "server_keepsO (serveSocketReceptions os l 0)" for l
    unfolding server_keepsO_def using serveSocketReceptions_typed [OF c] by blast
  have writes: "server_keepsO (serveSocketEmissions os l 0)" for l
    unfolding server_keepsO_def using serveSocketEmissions_typed [OF c] server_outcome_typed by blast
  have release: "server_keepsO (\<lambda>s. Some (releaseAll (dead_list (router s)) s))"
    unfolding server_keepsO_def using server_keepsD [OF server_keeps_releaseAll] server_outcome_typed by blast
  have clear: "server_keepsO (\<lambda>s. Some (Inr (), s\<lparr>router := (router s)\<lparr>dead_list := []\<rparr>\<rparr>))"
    by (auto simp: server_keepsO_def server_typed_def cnx_def)
  have clock: "server_keepsO (\<lambda>s. case p of Inl _ \<Rightarrow> Some (Inl AssertFailed, s) | Inr _ \<Rightarrow> m s)"
    if "server_keepsO m" for p :: "int + int" and m :: "'a server \<Rightarrow> (unit result \<times> 'a server) option"
    using that by (auto simp: server_keepsO_def server_outcome_typed split: sum.splits)
  show ?thesis
    unfolding ServeClientSockets_def
    by (intro server_keepsO_thenO server_keepsO_stm server_keepsO_phase server_keeps_prepare
        server_keeps_syscall server_keeps_basic errors reads writes release clear clock)
qed

lemma waitUsec_typed: "server_keepsO (waitUsec os n)"
  unfolding server_keepsO_def
proof (intro allI impI)
  fix s t :: "'a server" and r assume s: "server_typed s" and w: "waitUsec os n s = Some (r, t)"
  from nanosleep_loop_rest [OF w [unfolded waitUsec_def]] have "router t = router s" by (cases s; cases t) simp
  with s show "server_outcome r t" using server_typed_same [of t s] by (simp add: server_outcome_typed)
qed

lemma server_iteration_typed:
  assumes c: "counts_ok os" shows "server_keepsO (server_iteration os gs)"
proof -
  have "server_keeps (accept_client os gs)"
    unfolding accept_client_def IncomingConnectionRequest_def
    by (intro typed_rules) (auto intro!: typed_rules split: sum.split option.split)
  then have body: "server_keepsO (server_body os gs)"
    unfolding server_body_def
    by (intro server_keepsO_thenO server_keepsO_stm ServeClientSockets_typed c waitUsec_typed)
  show ?thesis
    unfolding server_keepsO_def
  proof (intro allI impI)
    fix s r t assume s: "server_typed s" "server_iteration os gs s = Some (r, t)"
    then obtain r1 where r1: "server_body os gs s = Some (r1, t)" "r = r1 \<or> (\<exists>e. r1 = Inl e \<and> is_exception e)"
      by (auto simp: server_iteration_def split: option.splits sum.splits if_splits)
    from server_keepsO_D [OF body s(1) r1(1)] r1(2) show "server_outcome r t"
      by (auto simp: server_outcome_def)
  qed
qed


lemma new_GameServer_typed:
  assumes "new_GameServer os held addr prt s0 = (r, s)" shows "server_typed s"
proof -
  obtain rd wr er where h: "held = (rd, wr, er)" by (rule prod.exhaust [of held, OF prod.exhaust]) blast
  with assms have "router s = new_Router rd wr er"
    by (auto simp: new_GameServer_def andThen_def dest!: SetupListenSocket_router split: prod.splits sum.splits)
  then show ?thesis by (simp add: server_typed_def cnx_def new_Router_def)
qed

section \<open>Property\<close>

text \<open>
  C11. Every message socket of the server is typed at the head of every turn of its loop, and still is after the turn,
  whether it ends normally, throws or aborts: no counter of bytes sent or received exceeds the message it indexes,
  and no queued message exceeds a body, whatever the clients send. The one exception is a turn that ends in
  undefined behaviour with a client whose message announces a length that is negative or larger than a message
  object: C39 shows that the counter then leaves the object. The kernel is supposed not to return more bytes than
  it was asked for.
\<close>

theorem server_sockets_typed:
  assumes "counts_ok os" and "new_GameServer os held addr prt s0 = (Inr gs, s)"
    and "at_head os gs s t" and "server_iteration os gs t = Some (r, u)"
  shows "server_typed t \<and> (server_typed u \<or> r = Inl Undefined \<and> server_rogue u)"
proof -
  note keeps = server_keepsO_D [OF server_iteration_typed [OF assms(1)]]
  have "server_typed t"
    using assms(3) new_GameServer_typed [OF assms(2)]
    by (rule at_head_invariant) (use keeps in \<open>force simp: server_outcome_def\<close>)
  with keeps [OF _ assms(4)] show ?thesis by (simp add: server_outcome_def)
qed

lemma server_sockets_typed_witness:
  "\<exists>gs s t. new_GameServer insistent_os (FD_ZERO, FD_ZERO, FD_ZERO) \<lparr>s_addr = 0, sin_port = 0\<rparr> 1
       \<lparr>kern = (), errno = 0\<rparr> = (Inr gs, s)
     \<and> server_iteration insistent_os gs s = Some (Inr (), t) \<and> server_typed s \<and> server_typed t"
proof -
  obtain gs s t where g: "new_GameServer insistent_os (FD_ZERO, FD_ZERO, FD_ZERO) \<lparr>s_addr = 0, sin_port = 0\<rparr> 1
       \<lparr>kern = (), errno = 0\<rparr> = (Inr gs, s)" and t: "server_iteration insistent_os gs s = Some (Inr (), t)"
    by (rule insistent_turn)
  have "counts_ok insistent_os"
    by (simp add: counts_ok_def insistent_os_def idle_os_def accepting_os_def failing_os_def)
  from server_sockets_typed [OF this g at_head.Start t] g t show ?thesis by blast
qed

end
