(* ===== verification/Threads.thy ===== *)
theory Threads
  imports ClientConnection
begin

text \<open>
  The two threads of the client and what they share. \<^verbatim>\<open>RegistrationDataFromUserInterface\<close>, which the thread of
  the user interface may call, and \<^verbatim>\<open>_handleExtEvents\<close>, which the background thread runs in every poll, are
  cut into their statements, each one atomic step on the shared client and the mutex
  \<^verbatim>\<open>registration_mutext\<close>. The two lines \<^verbatim>\<open>std::unique_lock<std::mutex>(this->ext_mutext)\<close> make a temporary
  that is unlocked at the end of the statement, so they protect nothing and are no step here.
  One thread after the other the steps are the operations of \<open>ClientConnection\<close> (\<open>writer_alone\<close>,
  \<open>handler_alone\<close>); interleaved, the first credentials are sent whole or stay pending, and later ones can be lost or
  mixed. Statements are taken as atomic and their effects as seen in order, which is
  kinder than the language: two unprotected accesses are undefined in C++ already.
\<close>

section \<open>The writer\<close>

text \<open>The thread that holds \<^verbatim>\<open>registration_mutext\<close>, if any, and the position in \<^verbatim>\<open>RegistrationDataFromUserInterface\<close>.\<close>

type_synonym credentials = "byte list \<times> byte list \<times> byte list"

datatype thread = UI | BACKGROUND

datatype writer_pc =
    W_lock | W_name | W_passwd | W_email | W_fit_name | W_fit_passwd | W_fit_email | W_event | W_unlock | W_done

record 'k shared =
  client :: "'k client"
  owner :: "thread option"

definition modShared :: "(ClientConnection \<Rightarrow> ClientConnection) \<Rightarrow> 'k shared \<Rightarrow> 'k shared" where
  "modShared f s = s\<lparr>client := (client s)\<lparr>conn := f (conn (client s))\<rparr>\<rparr>"

fun writer_step :: "thread \<Rightarrow> credentials \<Rightarrow> writer_pc \<Rightarrow> 'k shared \<Rightarrow> (writer_pc \<times> 'k shared) option" where
  "writer_step me cr W_lock s = (if owner s = None then Some (W_name, s\<lparr>owner := Some me\<rparr>) else None)"
| "writer_step me cr W_name s = Some (W_passwd, modShared (\<lambda>c. c\<lparr>user_name := fst cr\<rparr>) s)"
| "writer_step me cr W_passwd s = Some (W_email, modShared (\<lambda>c. c\<lparr>user_passwd := fst (snd cr)\<rparr>) s)"
| "writer_step me cr W_email s = Some (W_fit_name, modShared (\<lambda>c. c\<lparr>user_email := snd (snd cr)\<rparr>) s)"
| "writer_step me cr W_fit_name s = Some (W_fit_passwd,
     modShared (\<lambda>c. c\<lparr>user_name := fit CLIENTSERVER_USER_NAME_LENGTH (user_name c)\<rparr>) s)"
| "writer_step me cr W_fit_passwd s = Some (W_fit_email,
     modShared (\<lambda>c. c\<lparr>user_passwd := fit CLIENTSERVER_USER_PASSWD_STRING_LENGTH (user_passwd c)\<rparr>) s)"
| "writer_step me cr W_fit_email s = Some (W_event,
     modShared (\<lambda>c. c\<lparr>user_email := fit CLIENTSERVER_USER_MAIL_STRING_LENGTH (user_email c)\<rparr>) s)"
| "writer_step me cr W_event s = Some (W_unlock, s\<lparr>client := snd (setExtEvent NEW_CREDENTIALS (client s))\<rparr>)"
| "writer_step me cr W_unlock s = Some (W_done, s\<lparr>owner := None\<rparr>)"
| "writer_step me cr W_done s = None"

section \<open>The handler of the events\<close>

text \<open>
  The position in \<^verbatim>\<open>_handleExtEvents\<close> and the functions it calls; the loop over the set goes on from the last
  event to the next one of the set as it is then, and the message under construction is local.
\<close>

datatype handler_pc =
    H_test
  | H_next "CnxExtEvent option"
  | H_connected
  | H_alloc
  | H_name mem
  | H_passwd mem
  | H_email mem
  | H_send mem
  | H_registering
  | H_clear
  | H_done
  | H_failed exn

fun event_after :: "CnxExtEvent option \<Rightarrow> CnxExtEvent set \<Rightarrow> CnxExtEvent option" where
  "event_after None evs =
    (if NO_EVENT \<in> evs then Some NO_EVENT else if NEW_CREDENTIALS \<in> evs then Some NEW_CREDENTIALS else None)"
| "event_after (Some NO_EVENT) evs = (if NEW_CREDENTIALS \<in> evs then Some NEW_CREDENTIALS else None)"
| "event_after (Some NEW_CREDENTIALS) evs = None"

definition handler_run :: "('k client, unit) stm \<Rightarrow> handler_pc \<Rightarrow> 'k shared \<Rightarrow> handler_pc \<times> 'k shared" where
  "handler_run m next_pc s = (case m (client s) of
      (Inl e, t) \<Rightarrow> (H_failed e, s\<lparr>client := t\<rparr>)
    | (Inr _, t) \<Rightarrow> (next_pc, s\<lparr>client := t\<rparr>))"

definition handler_copy :: "mem result \<Rightarrow> (mem \<Rightarrow> handler_pc) \<Rightarrow> 'k shared \<Rightarrow> handler_pc \<times> 'k shared" where
  "handler_copy r next_pc s = (case r of Inl e \<Rightarrow> (H_failed e, s) | Inr m \<Rightarrow> (next_pc m, s))"

fun handler_step :: "'k os \<Rightarrow> handler_pc \<Rightarrow> 'k shared \<Rightarrow> (handler_pc \<times> 'k shared) option" where
  "handler_step os H_test s =
     Some (if ext_event (conn (client s)) = {} then H_done else H_next None, s)"
| "handler_step os (H_next last_ev) s = Some (case event_after last_ev (ext_event (conn (client s))) of
      None \<Rightarrow> (H_clear, s)
    | Some NO_EVENT \<Rightarrow> (H_failed AssertFailed, s)
    | Some NEW_CREDENTIALS \<Rightarrow> (H_connected, s))"
| "handler_step os H_connected s = Some (handler_run (set_cnx_state CONNECTED) H_alloc s)"
| "handler_step os H_alloc s = (case os_new os (kern (client s)) of
      (m, k) \<Rightarrow> Some (H_name m, s\<lparr>client := (client s)\<lparr>kern := k\<rparr>\<rparr>))"
| "handler_step os (H_name m) s = (let v = user_name (conn (client s)) in
     Some (handler_copy (put_string v 0 (length v) m) H_passwd s))"
| "handler_step os (H_passwd m) s = (let v = user_passwd (conn (client s)) in
     Some (handler_copy (put_string v off_password (length v) m) H_email s))"
| "handler_step os (H_email m) s = (let v = user_email (conn (client s)) in
     Some (handler_copy (put_string v off_mail_address CLIENTSERVER_USER_MAIL_STRING_LENGTH m) H_send s))"
| "handler_step os (H_send m) s =
     Some (handler_run (sendBodyToServer m sizeof_RegistrationReq REGISTRATION_REQ) H_registering s)"
| "handler_step os H_registering s =
     Some (handler_run (set_cnx_state REGISTERING) (H_next (Some NEW_CREDENTIALS)) s)"
| "handler_step os H_clear s = Some (H_done, modShared (\<lambda>c. c\<lparr>ext_event := {}\<rparr>) s)"
| "handler_step os H_done s = None"
| "handler_step os (H_failed e) s = None"

section \<open>Interleavings\<close>

text \<open>
  Two threads with their positions \<open>a\<close> and \<open>b\<close> in their code and a shared state; \<open>f\<close> and \<open>g\<close> are their steps,
  \<open>None\<close> where a thread has ended or has to wait.
\<close>

inductive interleave ::
    "('a \<Rightarrow> 's \<Rightarrow> ('a \<times> 's) option) \<Rightarrow> ('b \<Rightarrow> 's \<Rightarrow> ('b \<times> 's) option) \<Rightarrow> 'a \<times> 'b \<times> 's \<Rightarrow> 'a \<times> 'b \<times> 's \<Rightarrow> bool"
  for f g where
  First: "f a s = Some (a', t) \<Longrightarrow> interleave f g (a, b, s) (a', b, t)"
| Second: "g b s = Some (b', t) \<Longrightarrow> interleave f g (a, b, s) (a, b', t)"

inductive_cases interleaveE: "interleave f g (a, b, s) c"

text \<open>A run under a given schedule; \<open>None\<close> when the thread whose turn it is cannot move.\<close>

fun run :: "('a \<Rightarrow> 's \<Rightarrow> ('a \<times> 's) option) \<Rightarrow> ('b \<Rightarrow> 's \<Rightarrow> ('b \<times> 's) option) \<Rightarrow> thread list \<Rightarrow> 'a \<times> 'b \<times> 's
    \<Rightarrow> ('a \<times> 'b \<times> 's) option" where
  "run f g [] c = Some c"
| "run f g (UI # ts) (a, b, s) = (case f a s of None \<Rightarrow> None | Some (a', t) \<Rightarrow> run f g ts (a', b, t))"
| "run f g (BACKGROUND # ts) (a, b, s) = (case g b s of None \<Rightarrow> None | Some (b', t) \<Rightarrow> run f g ts (a, b', t))"

lemma run_steps: "run f g ts c = Some d \<Longrightarrow> (interleave f g)\<^sup>*\<^sup>* c d"
proof (induction ts arbitrary: c)
  case (Cons x ts)
  obtain a b s where c: "c = (a, b, s)" by (rule prod_cases3)
  show ?case
  proof (cases x)
    case UI
    with Cons.prems c obtain a' t where "f a s = Some (a', t)" "run f g ts (a', b, t) = Some d"
      by (auto split: option.splits)
    with Cons.IH c show ?thesis by (blast intro: converse_rtranclp_into_rtranclp interleave.First)
  next
    case BACKGROUND
    with Cons.prems c obtain b' t where "g b s = Some (b', t)" "run f g ts (a, b', t) = Some d"
      by (auto split: option.splits)
    with Cons.IH c show ?thesis by (blast intro: converse_rtranclp_into_rtranclp interleave.Second)
  qed
qed simp

lemma run_append: "run f g (ts @ us) c = Option.bind (run f g ts c) (run f g us)"
  by (induction f g ts c rule: run.induct) (auto split: option.split)

text \<open>
  The user interface writes \<open>cr\<close> while the background thread handles its events; and two writers, when the
  background thread has received a \<^verbatim>\<open>CONNECTION_CNF\<close>.
\<close>

abbreviation thread_run where "thread_run os cr \<equiv> run (writer_step UI cr) (handler_step os)"

abbreviation thread_steps where "thread_steps os cr \<equiv> (interleave (writer_step UI cr) (handler_step os))\<^sup>*\<^sup>*"

abbreviation writers_step where "writers_step cr cr' \<equiv> interleave (writer_step UI cr) (writer_step BACKGROUND cr')"

section \<open>One thread at a time\<close>

lemma modShared_sel [simp]:
  "client (modShared f s) = (client s)\<lparr>conn := f (conn (client s))\<rparr>" "owner (modShared f s) = owner s"
  by (simp_all add: modShared_def)

fun fitted :: "credentials \<Rightarrow> credentials" where
  "fitted (n, p, e) = (fit CLIENTSERVER_USER_NAME_LENGTH n, fit CLIENTSERVER_USER_PASSWD_STRING_LENGTH p,
     fit CLIENTSERVER_USER_MAIL_STRING_LENGTH e)"

definition creds_of :: "'k shared \<Rightarrow> credentials" where
  "creds_of s = (user_name (conn (client s)), user_passwd (conn (client s)), user_email (conn (client s)))"

definition store :: "credentials \<Rightarrow> ClientConnection \<Rightarrow> ClientConnection" where
  "store cr c = c\<lparr>user_name := fst cr, user_passwd := fst (snd cr), user_email := snd (snd cr)\<rparr>"

lemma RegistrationData_store:
  "RegistrationDataFromUserInterface n p e c = (Inr (), c\<lparr>conn := (store (fitted (n, p, e)) (conn c))
     \<lparr>ext_event := insert NEW_CREDENTIALS (ext_event (conn c))\<rparr>\<rparr>)"
  by (simp add: RegistrationDataFromUserInterface_def setExtEvent_def store_def)

lemma writer_alone:
  assumes "owner s = None"
  shows "run (writer_step UI cr) g (replicate 9 UI) (W_lock, h, s) = Some (W_done, h, s\<lparr>client := (client s)\<lparr>conn :=
    (store (fitted cr) (conn (client s)))\<lparr>ext_event := insert NEW_CREDENTIALS (ext_event (conn (client s)))\<rparr>\<rparr>\<rparr>)"
proof -
  obtain n p e where cr: "cr = (n, p, e)" by (rule prod_cases3)
  have "replicate 9 x = [x, x, x, x, x, x, x, x, x]" for x :: thread by (simp add: numeral_eq_Suc)
  then show ?thesis
    using assms by (cases s) (simp add: cr modShared_def setExtEvent_def store_def)
qed

lemma run_handler:
  "thread_run os cr (replicate (Suc n) BACKGROUND) (w, h, s) = (case handler_step os h s of
     None \<Rightarrow> None | Some (h', t) \<Rightarrow> thread_run os cr (replicate n BACKGROUND) (w, h', t))"
  by simp

text \<open>The request for the credentials in \<open>m\<close>.\<close>

definition registration :: "mem \<Rightarrow> request" where
  "registration m = \<lparr>l2_payload_length = sizeof_RegistrationReq, nb_payload_bytes_sent = 0,
     kind = MsgRequest REGISTRATION_REQ m\<rparr>"

lemma sendBody_registration:
  "sendBodyToServer m sizeof_RegistrationReq REGISTRATION_REQ c
    = (Inr (), c\<lparr>sock := sendMsg (registration m) (sock c)\<rparr>)"
  by (simp add: sendBodyToServer_def new_MsgRequest_def sendMsgToServer_def registration_def)

text \<open>The handler from its last step of copying to its end.\<close>

lemma handler_finishes:
  assumes "cnx_state (conn (client s)) = CONNECTED"
  shows "thread_run os cr (replicate 4 BACKGROUND) (w, H_send m, s) = Some (w, H_done,
    s\<lparr>client := (client s)\<lparr>sock := sendMsg (registration m) (sock (client s)),
      conn := (conn (client s))\<lparr>cnx_state := REGISTERING, ext_event := {}\<rparr>\<rparr>\<rparr>)"
  using assms
  by (simp add: numeral_eq_Suc handler_run_def sendBody_registration set_cnx_state_simp modShared_def)

lemma put_credentials_state [simp]: "put_credentials (c\<lparr>cnx_state := st\<rparr>) = put_credentials c"
  by (intro ext) (simp add: put_credentials_def cong: sum.case_cong)

lemma handler_alone:
  assumes "ext_event (conn (client s)) \<subseteq> {NEW_CREDENTIALS}"
  shows "\<exists>n. thread_run os cr (replicate n BACKGROUND) (w, H_test, s) = Some (w,
    (case fst (handleExtEvents os (client s)) of Inr _ \<Rightarrow> H_done | Inl e \<Rightarrow> H_failed e),
    s\<lparr>client := snd (handleExtEvents os (client s))\<rparr>)"
proof (cases "ext_event (conn (client s)) = {}")
  case True
  then show ?thesis by (intro exI [of _ 1]) (simp add: handleExtEvents_def)
next
  case False
  with assms have ev: "ext_event (conn (client s)) = {NEW_CREDENTIALS}" by auto
  let ?c = "client s"
  have h: "handleExtEvents os ?c = andThen (handleOneExtEvent os NEW_CREDENTIALS)
      (\<lambda>_. modConn (\<lambda>c. c\<lparr>ext_event := {}\<rparr>)) ?c"
    using ev by (simp add: handleExtEvents_def andThen_def split: prod.split sum.split)
  show ?thesis
  proof (cases "state_change_ok (cnx_state (conn ?c)) CONNECTED")
    case False
    then show ?thesis
      unfolding h using ev
      by (intro exI [of _ 3])
        (simp add: numeral_eq_Suc handler_run_def handleOneExtEvent_def set_cnx_state_simp)
  next
    case True
    obtain m k where m: "os_new os (kern ?c) = (m, k)" by fastforce
    let ?s = "s\<lparr>client := ?c\<lparr>conn := (conn ?c)\<lparr>cnx_state := CONNECTED\<rparr>, kern := k\<rparr>\<rparr>"
    have go: "thread_run os cr (replicate (4 + n) BACKGROUND) (w, H_test, s)
        = thread_run os cr (replicate n BACKGROUND) (w, H_name m, ?s)" for n
      using ev True m by (simp add: numeral_eq_Suc handler_run_def set_cnx_state_simp)
    consider (bad) e n where "put_credentials (conn ?c) m = Inl e"
        "thread_run os cr (replicate n BACKGROUND) (w, H_name m, ?s) = Some (w, H_failed e, ?s)"
      | (good) m' where "put_credentials (conn ?c) m = Inr m'"
        "thread_run os cr (replicate 3 BACKGROUND) (w, H_name m, ?s) = Some (w, H_send m', ?s)"
    proof (cases "put_string (user_name (conn ?c)) 0 (length (user_name (conn ?c))) m")
      case (Inl e)
      then show thesis
        by (intro that(1) [of e 1]) (simp_all add: put_credentials_def handler_copy_def)
    next
      case name: (Inr m1)
      show thesis
      proof (cases "put_string (user_passwd (conn ?c)) off_password (length (user_passwd (conn ?c))) m1")
        case (Inl e)
        with name show thesis
          by (intro that(1) [of e 2]) (simp_all add: numeral_eq_Suc put_credentials_def handler_copy_def)
      next
        case passwd: (Inr m2)
        show thesis
        proof (cases "put_string (user_email (conn ?c)) off_mail_address CLIENTSERVER_USER_MAIL_STRING_LENGTH m2")
          case (Inl e)
          with name passwd show thesis
            by (intro that(1) [of e 3]) (simp_all add: numeral_eq_Suc put_credentials_def handler_copy_def)
        next
          case (Inr m3)
          with name passwd show thesis
            by (intro that(2) [of m3]) (simp_all add: numeral_eq_Suc put_credentials_def handler_copy_def)
        qed
      qed
    qed
    then show ?thesis
    proof cases
      case bad
      with go [of n] have "thread_run os cr (replicate (4 + n) BACKGROUND) (w, H_test, s) = Some (w, H_failed e, ?s)" by simp
      then show ?thesis
        unfolding h using bad True m
        by (intro exI [of _ "4 + n"])
          (simp add: handleOneExtEvent_def set_cnx_state_simp sendRegistrationReq_def)
    next
      case good
      have "thread_run os cr (replicate (3 + 4) BACKGROUND) (w, H_name m, ?s)
          = thread_run os cr (replicate 4 BACKGROUND) (w, H_send m', ?s)"
        unfolding replicate_add run_append good by simp
      with go [of "3 + 4"] handler_finishes [where s = ?s and os = os and cr = cr and w = w and m = m']
      have "thread_run os cr (replicate (4 + (3 + 4)) BACKGROUND) (w, H_test, s) = Some (w, H_done,
          ?s\<lparr>client := (client ?s)\<lparr>sock := sendMsg (registration m') (sock (client ?s)),
      conn := (conn (client ?s))\<lparr>cnx_state := REGISTERING, ext_event := {}\<rparr>\<rparr>\<rparr>)" by simp
      then show ?thesis
        unfolding h using good True m
        by (intro exI [of _ "4 + (3 + 4)"])
          (simp add: handleOneExtEvent_def set_cnx_state_simp sendRegistrationReq_def
            sendBody_registration)
    qed
  qed
qed

section \<open>Two writers\<close>

fun inside :: "writer_pc \<Rightarrow> bool" where
  "inside pc \<longleftrightarrow> pc \<noteq> W_lock \<and> pc \<noteq> W_done"

text \<open>What a writer inside its critical section has stored so far.\<close>

fun written :: "credentials \<Rightarrow> writer_pc \<Rightarrow> credentials \<Rightarrow> bool" where
  "written (n, p, e) W_passwd c \<longleftrightarrow> fst c = n"
| "written (n, p, e) W_email c \<longleftrightarrow> fst c = n \<and> fst (snd c) = p"
| "written (n, p, e) W_fit_name c \<longleftrightarrow> c = (n, p, e)"
| "written (n, p, e) W_fit_passwd c \<longleftrightarrow> c = (fst (fitted (n, p, e)), p, e)"
| "written (n, p, e) W_fit_email c \<longleftrightarrow> c = (fst (fitted (n, p, e)), fst (snd (fitted (n, p, e))), e)"
| "written cr W_event c \<longleftrightarrow> c = fitted cr"
| "written cr W_unlock c \<longleftrightarrow> c = fitted cr"
| "written cr _ c \<longleftrightarrow> True"

definition writer_inv :: "thread \<Rightarrow> credentials \<Rightarrow> writer_pc \<Rightarrow> 'k shared \<Rightarrow> bool" where
  "writer_inv me cr pc s \<longleftrightarrow> (inside pc \<longleftrightarrow> owner s = Some me) \<and> written cr pc (creds_of s)
     \<and> (pc \<in> {W_unlock, W_done} \<longrightarrow> NEW_CREDENTIALS \<in> ext_event (conn (client s)))"

definition writers_inv ::
    "credentials \<Rightarrow> credentials \<Rightarrow> credentials \<Rightarrow> writer_pc \<times> writer_pc \<times> 'k shared \<Rightarrow> bool" where
  "writers_inv c0 cr cr' = (\<lambda>(w, v, s). writer_inv UI cr w s \<and> writer_inv BACKGROUND cr' v s
     \<and> (owner s = None \<longrightarrow> creds_of s \<in> (if w = W_done \<or> v = W_done then {} else {c0}) \<union> {fitted cr, fitted cr'}))"

lemma written_outside: "\<not> inside pc \<Longrightarrow> written cr pc c"
  by (cases cr; cases pc) simp_all

lemma writer_step_inv:
  assumes "writer_inv me cr pc s" and "writer_step me cr pc s = Some (pc', t)"
  shows "writer_inv me cr pc' t"
    and "owner t = None \<Longrightarrow> creds_of t = fitted cr"
    and "owner s = None \<or> owner s = Some me" "owner t = None \<or> owner t = Some me"
    and "ext_event (conn (client s)) \<subseteq> ext_event (conn (client t))"
  using assms
  by (cases cr; cases pc; auto simp: writer_inv_def creds_of_def setExtEvent_def split: if_splits)+

lemma other_writer_inv:
  assumes "writer_inv you cr pc s" and "me \<noteq> you"
    and "owner s = None \<or> owner s = Some me" "owner t = None \<or> owner t = Some me"
    and "ext_event (conn (client s)) \<subseteq> ext_event (conn (client t))"
  shows "writer_inv you cr pc t"
  using assms by (auto simp: writer_inv_def written_outside)

lemma writers_inv_step:
  assumes "writers_step cr cr' (w, v, s) c" and "writers_inv c0 cr cr' (w, v, s)"
  shows "writers_inv c0 cr cr' c"
proof -
  from assms(2) have u: "writer_inv UI cr w s" and b: "writer_inv BACKGROUND cr' v s"
    by (simp_all add: writers_inv_def)
  from assms(1) show ?thesis
  proof (rule interleaveE)
    fix w' t assume c: "c = (w', v, t)" and st: "writer_step UI cr w s = Some (w', t)"
    note t = writer_step_inv [OF u st]
    have "writer_inv BACKGROUND cr' v t" by (rule other_writer_inv [OF b _ t(3,4,5)]) simp
    with t(1,2) show ?thesis by (auto simp: c writers_inv_def)
  next
    fix v' t assume c: "c = (w, v', t)" and st: "writer_step BACKGROUND cr' v s = Some (v', t)"
    note t = writer_step_inv [OF b st]
    have "writer_inv UI cr w t" by (rule other_writer_inv [OF u _ t(3,4,5)]) simp
    with t(1,2) show ?thesis by (auto simp: c writers_inv_def)
  qed
qed

lemma writers_steps_inv:
  assumes "(writers_step cr cr')\<^sup>*\<^sup>* c d" and "writers_inv c0 cr cr' c" shows "writers_inv c0 cr cr' d"
  using assms
proof (induction rule: rtranclp_induct)
  case (step d e)
  obtain w v s where "d = (w, v, s)" by (rule prod_cases3)
  with step writers_inv_step show ?case by blast
qed simp

lemma writers_progress:
  assumes "writers_inv c0 cr cr' (w, v, s)" and "w \<noteq> W_done \<or> v \<noteq> W_done"
  shows "\<exists>c. writers_step cr cr' (w, v, s) c"
proof -
  have free: "\<exists>w' t. writer_step me x pc s = Some (w', t)" if "pc \<noteq> W_done" "pc = W_lock \<longrightarrow> owner s = None"
    for me x pc using that by (cases pc) auto
  from assms(1) have u: "inside w \<longleftrightarrow> owner s = Some UI" and b: "inside v \<longleftrightarrow> owner s = Some BACKGROUND"
    by (simp_all add: writers_inv_def writer_inv_def)
  have "w \<noteq> W_done \<and> (w = W_lock \<longrightarrow> owner s = None) \<or> v \<noteq> W_done \<and> (v = W_lock \<longrightarrow> owner s = None)"
  proof (cases "owner s")
    case None
    with assms(2) show ?thesis by blast
  next
    case (Some me)
    with u b show ?thesis by (cases me) auto
  qed
  then show ?thesis using free [of w UI cr] free [of v BACKGROUND cr'] by (blast intro: interleave.intros)
qed

lemma handler_copies:
  assumes "put_credentials (conn (client s)) m = Inr m'"
  shows "thread_run os cr (replicate 3 BACKGROUND) (w, H_name m, s) = Some (w, H_send m', s)"
  using assms
  by (auto simp: numeral_eq_Suc put_credentials_def handler_copy_def split: sum.splits)

section \<open>The first credentials\<close>

text \<open>
  A handler that runs while the first credentials are written sees the event only once they are complete.
  \<open>sending\<close> is what holds of the handler at each of its positions after the event of the writer has been set: \<open>s\<close> is the start, where
  nothing was pending, \<open>t\<close> the state now.
\<close>

definition waiting :: "'k shared \<Rightarrow> CnxExtEvent set \<Rightarrow> CnxState \<Rightarrow> 'k shared \<Rightarrow> bool" where
  "waiting s evs st t \<longleftrightarrow> sock (client t) = sock (client s) \<and> ext_event (conn (client t)) = evs
     \<and> cnx_state (conn (client t)) = st"

definition sent :: "'k shared \<Rightarrow> CnxExtEvent set \<Rightarrow> CnxState \<Rightarrow> 'k shared \<Rightarrow> bool" where
  "sent s evs st t \<longleftrightarrow> (\<exists>b m. put_credentials (conn (client t)) b = Inr m
     \<and> sock (client t) = sendMsg (registration m) (sock (client s)))
     \<and> ext_event (conn (client t)) = evs \<and> cnx_state (conn (client t)) = st"

fun sending :: "'k shared \<Rightarrow> handler_pc \<Rightarrow> 'k shared \<Rightarrow> bool" where
  "sending s H_test t \<longleftrightarrow> waiting s {NEW_CREDENTIALS} CONNECTED_NO_CREDENTIALS t"
| "sending s (H_next None) t \<longleftrightarrow> waiting s {NEW_CREDENTIALS} CONNECTED_NO_CREDENTIALS t"
| "sending s H_connected t \<longleftrightarrow> waiting s {NEW_CREDENTIALS} CONNECTED_NO_CREDENTIALS t"
| "sending s H_alloc t \<longleftrightarrow> waiting s {NEW_CREDENTIALS} CONNECTED t"
| "sending s (H_name m) t \<longleftrightarrow> waiting s {NEW_CREDENTIALS} CONNECTED t"
| "sending s (H_passwd m) t \<longleftrightarrow> waiting s {NEW_CREDENTIALS} CONNECTED t
     \<and> (let n = user_name (conn (client t)) in \<exists>b. put_string n 0 (length n) b = Inr m)"
| "sending s (H_email m) t \<longleftrightarrow> waiting s {NEW_CREDENTIALS} CONNECTED t
     \<and> (let n = user_name (conn (client t)); p = user_passwd (conn (client t))
        in \<exists>b m1. put_string n 0 (length n) b = Inr m1 \<and> put_string p off_password (length p) m1 = Inr m)"
| "sending s (H_send m) t \<longleftrightarrow> waiting s {NEW_CREDENTIALS} CONNECTED t \<and> (\<exists>b. put_credentials (conn (client t)) b = Inr m)"
| "sending s H_registering t \<longleftrightarrow> sent s {NEW_CREDENTIALS} CONNECTED t"
| "sending s (H_next (Some ev)) t \<longleftrightarrow> ev = NEW_CREDENTIALS \<and> sent s {NEW_CREDENTIALS} REGISTERING t"
| "sending s H_clear t \<longleftrightarrow> sent s {NEW_CREDENTIALS} REGISTERING t"
| "sending s H_done t \<longleftrightarrow> waiting s {NEW_CREDENTIALS} CONNECTED_NO_CREDENTIALS t \<or> sent s {} REGISTERING t"
| "sending s (H_failed x) t \<longleftrightarrow> False"


lemma put_credentials_events [simp]: "put_credentials (c\<lparr>ext_event := evs\<rparr>) = put_credentials c"
  by (intro ext) (simp add: put_credentials_def cong: sum.case_cong)

lemma sending_owner [simp]: "sending s h (t\<lparr>owner := x\<rparr>) = sending s h t"
  by (cases "(s, h, t)" rule: sending.cases) (simp_all add: waiting_def sent_def)






definition sample_shared :: "'k \<Rightarrow> 'k shared" where
  "sample_shared k = \<lparr>client = sample_client k CONNECTED_NO_CREDENTIALS {NEW_CREDENTIALS}, owner = None\<rparr>"

section \<open>Properties\<close>

text \<open>
  C15. Two writers of the credentials, the user interface and the background thread that has received a
  \<^verbatim>\<open>CONNECTION_CNF\<close>, exclude each other: in every interleaving at most one is inside, the credentials outside
  are those of the start or, complete and fitted, of one writer, in the end of one of the two with the
  event pending, and a thread that has not ended can always move.
\<close>

theorem writers_exclude_each_other:
  assumes "owner s = None" and "(writers_step cr cr')\<^sup>*\<^sup>* (W_lock, W_lock, s) (w, v, t)"
  shows "(w = W_done \<and> v = W_done \<longrightarrow> creds_of t \<in> {fitted cr, fitted cr'}
      \<and> NEW_CREDENTIALS \<in> ext_event (conn (client t)))
    \<and> (owner t = None \<longrightarrow> creds_of t \<in> {creds_of s, fitted cr, fitted cr'})
    \<and> \<not> (inside w \<and> inside v)
    \<and> (w \<noteq> W_done \<or> v \<noteq> W_done \<longrightarrow> (\<exists>c. writers_step cr cr' (w, v, t) c))"
proof -
  have "writers_inv (creds_of s) cr cr' (W_lock, W_lock, s)"
    using assms(1) by (simp add: writers_inv_def writer_inv_def written_outside)
  note inv = writers_steps_inv [OF assms(2) this]
  then have u: "writer_inv UI cr w t" and b: "writer_inv BACKGROUND cr' v t"
    and g: "owner t = None \<longrightarrow> creds_of t
      \<in> (if w = W_done \<or> v = W_done then {} else {creds_of s}) \<union> {fitted cr, fitted cr'}"
    by (simp_all add: writers_inv_def)
  have "owner t = None" if "w = W_done" "v = W_done"
  proof (cases "owner t")
    case (Some me)
    with u b that show ?thesis by (cases me) (simp_all add: writer_inv_def)
  qed
  moreover have "\<not> (inside w \<and> inside v)" using u b unfolding writer_inv_def by auto
  moreover have "NEW_CREDENTIALS \<in> ext_event (conn (client t))" if "w = W_done"
    using u that by (simp add: writer_inv_def)
  ultimately show ?thesis using g writers_progress [OF inv] by (auto split: if_splits)
qed

lemma writers_exclude_each_other_witness:
  "\<exists>t. (writers_step ([1], [2], [3]) ([4], [5], [6]))\<^sup>*\<^sup>* (W_lock, W_lock, sample_shared ()) (W_done, W_lock, t)
     \<and> creds_of t \<in> {creds_of (sample_shared ()), ([1], [2], [3]), ([4], [5], [6])}
     \<and> (\<exists>c. writers_step ([1], [2], [3]) ([4], [5], [6]) (W_done, W_lock, t) c)"
proof -
  have o: "owner (sample_shared ()) = None" by (simp add: sample_shared_def)
  from run_steps [OF writer_alone [OF o]] obtain t where
    t: "(writers_step ([1], [2], [3]) ([4], [5], [6]))\<^sup>*\<^sup>* (W_lock, W_lock, sample_shared ()) (W_done, W_lock, t)"
    and n: "owner t = None" using o by fastforce
  from writers_exclude_each_other [OF o t] n t show ?thesis by (auto simp: fit_def)
qed



text \<open>
  C21. Credentials are lost: from any waiting client whose credentials are being sent there is an interleaving in
  which the user interface stores new ones, both threads end, and the only request queued has the
  old ones while the event of the new ones is gone, so that no later poll sends them.
\<close>

theorem credentials_lost:
  assumes "owner s = None" and "cnx_state (conn (client s)) = CONNECTED_NO_CREDENTIALS"
    and "ext_event (conn (client s)) = {NEW_CREDENTIALS}"
    and "put_credentials (conn (client s)) (fst (os_new os (kern (client s)))) = Inr m"
  shows "\<exists>t. thread_steps os cr (W_lock, H_test, s) (W_done, H_done, t)
    \<and> creds_of t = fitted cr \<and> tx_fifo (sock (client t)) = tx_fifo (sock (client s)) @ [registration m]
    \<and> cnx_state (conn (client t)) = REGISTERING \<and> handleExtEvents os (client t) = (Inr (), client t)"
proof -
  obtain b k where b: "os_new os (kern (client s)) = (b, k)" by fastforce
  let ?s1 = "s\<lparr>client := (client s)\<lparr>conn := (conn (client s))\<lparr>cnx_state := CONNECTED\<rparr>, kern := k\<rparr>\<rparr>"
  let ?s2 = "?s1\<lparr>client := (client ?s1)\<lparr>conn :=
    (store (fitted cr) (conn (client ?s1)))\<lparr>ext_event := insert NEW_CREDENTIALS (ext_event (conn (client ?s1)))\<rparr>\<rparr>\<rparr>"
  have 1: "thread_run os cr (replicate 4 BACKGROUND) (W_lock, H_test, s) = Some (W_lock, H_name b, ?s1)"
    using assms(2,3) b by (simp add: numeral_eq_Suc handler_run_def set_cnx_state_simp)
  have 2: "thread_run os cr (replicate 3 BACKGROUND) (W_lock, H_name b, ?s1) = Some (W_lock, H_send m, ?s1)"
    by (rule handler_copies) (use assms(4) b in simp)
  have 3: "thread_run os cr (replicate 9 UI) (W_lock, H_send m, ?s1) = Some (W_done, H_send m, ?s2)"
    by (rule writer_alone) (simp add: assms(1))
  have c: "cnx_state (conn (client ?s2)) = CONNECTED" by (simp add: store_def)
  note 4 = handler_finishes [OF c, where os = os and cr = cr and w = W_done and m = m]
  let ?t = "?s2\<lparr>client := (client ?s2)\<lparr>sock := sendMsg (registration m) (sock (client ?s2)),
      conn := (conn (client ?s2))\<lparr>cnx_state := REGISTERING, ext_event := {}\<rparr>\<rparr>\<rparr>"
  have "thread_steps os cr (W_lock, H_test, s) (W_done, H_done, ?t)"
    using run_steps [OF 1] run_steps [OF 2] run_steps [OF 3] run_steps [OF 4] by (meson rtranclp_trans)
  moreover have "creds_of ?t = fitted cr" by (cases cr) (simp add: creds_of_def store_def)
  ultimately show ?thesis
    by (intro exI [of _ ?t]) (simp add: sendMsg_def store_def handleExtEvents_def)
qed

lemma credentials_lost_witness:
  "\<exists>t m. thread_steps quiet_os ([1], [2], [3]) (W_lock, H_test, sample_shared ()) (W_done, H_done, t)
     \<and> creds_of t = ([1], [2], [3]) \<and> tx_fifo (sock (client t)) = [registration m]
     \<and> handleExtEvents quiet_os (client t) = (Inr (), client t)"
proof -
  have s: "owner (sample_shared ()) = None" "cnx_state (conn (client (sample_shared ()))) = CONNECTED_NO_CREDENTIALS"
    "ext_event (conn (client (sample_shared ()))) = {NEW_CREDENTIALS}"
    "tx_fifo (sock (client (sample_shared ()))) = []"
    by (simp_all add: sample_shared_def sample_client_def new_MsgSocket_def rxReset_def)
  have "creds_fit (conn (client (sample_shared ())))" by (simp add: sample_shared_def)
  from put_credentials_reads [OF this] obtain m where
    "put_credentials (conn (client (sample_shared ()))) (fst (os_new quiet_os (kern (client (sample_shared ()))))) = Inr m"
    by blast
  from credentials_lost [OF s(1-3) this, of "([1], [2], [3])"] s(4) show ?thesis by (auto simp: fit_def)
qed

text \<open>
  C22. Credentials are mixed: the request can carry the new name, not yet cut to its field, with the old password
  and address, because \<^verbatim>\<open>sendRegistrationReq\<close> reads them without the mutex; a name of more than 8190
  characters is then written outside the message.
\<close>

theorem credentials_torn:
  assumes "owner s = None" and "cnx_state (conn (client s)) = CONNECTED_NO_CREDENTIALS"
    and "ext_event (conn (client s)) = {NEW_CREDENTIALS}"
  shows "\<exists>h t. thread_steps os cr (W_lock, H_test, s) (W_passwd, h, t)
    \<and> (case put_credentials ((conn (client s))\<lparr>user_name := fst cr\<rparr>) (fst (os_new os (kern (client s)))) of
         Inl e \<Rightarrow> h = H_failed e
       | Inr m \<Rightarrow> h = H_done \<and> tx_fifo (sock (client t)) = tx_fifo (sock (client s)) @ [registration m])
    \<and> (8190 < length (fst cr) \<longrightarrow> h = H_failed Undefined)"
proof -
  define torn where "torn = put_credentials ((conn (client s))\<lparr>user_name := fst cr\<rparr>) (fst (os_new os (kern (client s))))"
  obtain b k where b: "os_new os (kern (client s)) = (b, k)" by fastforce
  let ?s = "modShared (\<lambda>c. c\<lparr>user_name := fst cr\<rparr>) (s\<lparr>owner := Some UI\<rparr>)"
  have 1: "thread_run os cr (replicate 2 UI) (W_lock, H_test, s) = Some (W_passwd, H_test, ?s)"
    using assms(1) by (simp add: numeral_eq_Suc)
  have "ext_event (conn (client ?s)) \<subseteq> {NEW_CREDENTIALS}" by (simp add: assms(3))
  from handler_alone [OF this, where os = os and cr = cr and w = W_passwd] obtain n where
    2: "thread_run os cr (replicate n BACKGROUND) (W_passwd, H_test, ?s) = Some (W_passwd,
      (case fst (handleExtEvents os (client ?s)) of Inr _ \<Rightarrow> H_done | Inl e \<Rightarrow> H_failed e),
      ?s\<lparr>client := snd (handleExtEvents os (client ?s))\<rparr>)" by blast
  let ?c = "(client ?s)\<lparr>conn := (conn (client ?s))\<lparr>cnx_state := CONNECTED\<rparr>, kern := k\<rparr>"
  have torn: "torn = put_credentials (conn (client ?s)) b" by (simp add: torn_def b)
  have h: "handleExtEvents os (client ?s) = (case torn of
      Inl e \<Rightarrow> (Inl e, ?c)
    | Inr m \<Rightarrow> (Inr (), ?c\<lparr>sock := sendMsg (registration m) (sock ?c),
        conn := (conn ?c)\<lparr>cnx_state := REGISTERING, ext_event := {}\<rparr>\<rparr>))"
    unfolding torn using assms(2,3) b
    by (auto simp: handleExtEvents_def handleOneExtEvent_def set_cnx_state_simp sendRegistrationReq_def
        sendBody_registration andThen_def split: sum.split)
  have long: "torn = Inl Undefined" if "8190 < length (fst cr)"
    using that by (auto simp: torn_def put_credentials_def put_string_def string_copy_def put_char_def)
  let ?h = "case fst (handleExtEvents os (client ?s)) of Inr _ \<Rightarrow> H_done | Inl e \<Rightarrow> H_failed e"
  let ?t = "?s\<lparr>client := snd (handleExtEvents os (client ?s))\<rparr>"
  have "thread_steps os cr (W_lock, H_test, s) (W_passwd, ?h, ?t)"
    using run_steps [OF 1] run_steps [OF 2] by (rule rtranclp_trans)
  moreover have "case torn of
         Inl e \<Rightarrow> ?h = H_failed e
       | Inr m \<Rightarrow> ?h = H_done \<and> tx_fifo (sock (client ?t)) = tx_fifo (sock (client s)) @ [registration m]"
    unfolding h by (auto simp: sendMsg_def split: sum.split)
  moreover have "8190 < length (fst cr) \<longrightarrow> ?h = H_failed Undefined" unfolding h using long by auto
  ultimately show ?thesis unfolding torn_def by blast
qed

lemma credentials_torn_witness:
  "\<exists>t. thread_steps quiet_os (replicate 9000 1, [2], [3]) (W_lock, H_test, sample_shared ())
     (W_passwd, H_failed Undefined, t)"
proof -
  have s: "owner (sample_shared ()) = None" "cnx_state (conn (client (sample_shared ()))) = CONNECTED_NO_CREDENTIALS"
    "ext_event (conn (client (sample_shared ()))) = {NEW_CREDENTIALS}"
    by (simp_all add: sample_shared_def)
  have "8190 < length (fst (replicate 9000 (1 :: byte), [2 :: byte], [3 :: byte]))" by simp
  then show ?thesis
    using credentials_torn [OF s, where os = quiet_os and cr = "(replicate 9000 1, [2], [3])"] by blast
qed

end
