(* ===== verification/ConnectionLife.thy ===== *)
theory ConnectionLife
  imports GameServer
begin

text \<open>
  The server as a whole gives each of its connections a \<open>life\<close>, the relation of \<open>ServerConnection\<close> in which a property
  over the whole history of a connection is stated: every step of the server's loop, with whatever answers
  of the kernel and exceptions, reads, writes, looks after or leaves alone each connection, or creates or
  removes it. So what holds over every life holds of every connection the server ever has.
\<close>

section \<open>Every connection has a life\<close>

definition all_live :: "'k server \<Rightarrow> bool" where
  "all_live s \<longleftrightarrow> own_descr s \<and> (\<forall>fd c. cnx s fd = Some c \<longrightarrow> (\<exists>log. life fd log s))"

lemma all_live_frame:
  assumes "all_live s" and f: "frame fd s t" and l: "\<And>log. life fd log s \<Longrightarrow> \<exists>log'. life fd log' t"
  shows "all_live t"
  unfolding all_live_def
proof (intro conjI allI impI)
  show o: "own_descr t" using f by (rule frame_own)
  fix fd' c assume c: "cnx t fd' = Some c"
  with f have "cnx s fd' \<noteq> None" unfolding frame_def by (metis option.distinct(1))
  then obtain log where log: "life fd' log s" using assms(1) by (auto simp: all_live_def)
  show "\<exists>log. life fd' log t"
  proof (cases "fd' = fd")
    case False
    with f have e: "cnx t fd' = cnx s fd'" by (auto simp: frame_def)
    show ?thesis by (rule exI, rule life.Elsewhere [OF log o e])
  qed (use log l in blast)
qed

text \<open>An update that only removes connections.\<close>

lemma all_live_fewer:
  fixes s t :: "'k server"
  assumes "all_live s" and "\<And>fd. cnx t fd = cnx s fd \<or> cnx t fd = None"
  shows "all_live t"
proof -
  have o: "own_descr t" using assms unfolding all_live_def own_descr_def by (metis option.distinct(1))
  have "\<exists>log. life fd log t" if "cnx t fd = Some c" for fd c
  proof -
    from that assms(2) [of fd] have e: "cnx t fd = cnx s fd" by auto
    with that assms(1) obtain log where l: "life fd log s" by (auto simp: all_live_def)
    show ?thesis by (rule exI, rule life.Elsewhere [OF l o e])
  qed
  with o show ?thesis by (simp add: all_live_def)
qed

lemma clear_indicators_map: "clear_indicators fd r = (n, r') \<Longrightarrow> socket_map r' = socket_map r"
  by (auto simp: clear_indicators_def Let_def split: if_splits)

lemma handleSocketErrors_live:
  "all_live s \<Longrightarrow> handleSocketErrors os l nb s = (r, t) \<Longrightarrow> all_live t"
proof (induction l arbitrary: s nb)
  case (Cons fd l)
  show ?case
  proof (cases "cnx s fd = None")
    case True
    with Cons.prems show ?thesis by simp
  next
    case False
    obtain q s1 where e: "socketError os fd s = (q, s1)" by fastforce
    have "frame fd s s1"
      using e Cons.prems(1) frames_socketError [of fd os] unfolding frames_def all_live_def by blast
    from all_live_frame [OF Cons.prems(1) this] e have l1: "all_live s1" by (blast intro: life.Errs)
    show ?thesis
    proof (cases q)
      case (Inl x)
      with Cons.prems(2) False e l1 show ?thesis by simp
    next
      case (Inr b)
      obtain n r' where c: "clear_indicators fd (router s1) = (n, r')" by fastforce
      have "all_live (s1\<lparr>router := r'\<rparr>)"
        by (rule all_live_fewer [OF l1]) (simp add: cnx_def clear_indicators_map [OF c])
      with Cons.IH Cons.prems(2) False e Inr c l1 show ?thesis by (auto split: if_splits)
    qed
  qed
qed simp

lemma serveSocketReceptions_live:
  "all_live s \<Longrightarrow> serveSocketReceptions os l nb s = Some (r, t) \<Longrightarrow> goes_on r \<Longrightarrow> all_live t"
proof (induction l arbitrary: s nb)
  case (Cons fd l)
  show ?case
  proof (cases "cnx s fd = None")
    case True
    with Cons.prems show ?thesis by simp
  next
    case False
    with Cons.prems(2) obtain q s1 where e: "socketDataRead os fd s = Some (q, s1)"
      by (cases "socketDataRead os fd s") auto
    have own: "own_descr s" using Cons.prems(1) by (simp add: all_live_def)
    have l1: "all_live s1" if "goes_on q"
    proof (rule all_live_frame [OF Cons.prems(1) socketDataRead_frame [OF own e]])
      fix log assume "life fd log s"
      moreover obtain r1 t1 where "sockO fd (recvNextData os) s = Some (r1, t1)"
        using e by (cases "sockO fd (recvNextData os) s") (auto simp: socketDataRead_def)
      ultimately show "\<exists>log'. life fd log' s1" using e that by (blast intro: life.Reads)
    qed
    show ?thesis
    proof (cases q)
      case (Inr x)
      with Cons.IH [OF l1] Cons.prems(2,3) False e show ?thesis by auto
    next
      case (Inl x)
      show ?thesis
      proof (cases "\<exists>n. x = SocketDisconnection n")
        case False
        with Inl Cons.prems(2,3) \<open>cnx s fd \<noteq> None\<close> e l1 show ?thesis by (cases x) auto
      next
        case True
        with Inl l1 have l1: "all_live s1" by auto
        obtain q2 s2 where d: "socketDisconnected os fd s1 = (q2, s2)" by fastforce
        have "frame fd s1 s2" using d l1 frames_handlers(6) [of fd os] unfolding frames_def all_live_def by blast
        from all_live_frame [OF l1 this] d have l2: "all_live s2" by (blast intro: life.Hangs_up)
        have "all_live (bury fd s2)" by (rule all_live_fewer [OF l2]) (simp add: bury_def cnx_def)
        from Cons.IH [OF this] l2 True Inl d e Cons.prems(2,3) False \<open>cnx s fd \<noteq> None\<close> show ?thesis
          by (cases q2) auto
      qed
    qed
  qed
qed simp

lemma serveSocketEmissions_live:
  "all_live s \<Longrightarrow> serveSocketEmissions os l nb s = Some (r, t) \<Longrightarrow> all_live t"
proof (induction l arbitrary: s nb)
  case (Cons fd l)
  show ?case
  proof (cases "cnx s fd = None")
    case True
    with Cons.prems show ?thesis by simp
  next
    case False
    with Cons.prems(2) obtain q s1 where e: "socketDataWrite os fd s = Some (q, s1)"
      by (cases "socketDataWrite os fd s") auto
    have own: "own_descr s" using Cons.prems(1) by (simp add: all_live_def)
    from all_live_frame [OF Cons.prems(1) socketDataWrite_frame [OF own e]] e have l1: "all_live s1"
      by (blast intro: life.Writes)
    have "all_live (s1\<lparr>router := (router s1)\<lparr>select_writefds := w\<rparr>\<rparr>)" for w
      by (rule all_live_fewer [OF l1]) (simp add: cnx_def)
    with Cons.IH l1 e Cons.prems(2) False show ?thesis
      by (cases q) (auto split: exn.splits if_splits)
  qed
qed simp

lemma releaseAll_live: "all_live s \<Longrightarrow> releaseAll l s = (r, t) \<Longrightarrow> all_live t"
proof (induction l arbitrary: s)
  case (Cons fd l)
  obtain q s1 where e: "ReleaseClientConnection fd s = (q, s1)" by fastforce
  have "all_live s1"
    by (rule all_live_fewer [OF Cons.prems(1)])
      (use e in \<open>auto simp: ReleaseClientConnection_def modRouter_def cnx_def assertS_def andThen_def split: if_splits\<close>)
  with Cons.IH e Cons.prems(2) show ?case by (cases q) auto
qed simp

lemma thenO_goes:
  assumes "thenO m k = Some (r, t)" and "goes_on r" and "\<And>q u. m = Some (q, u) \<Longrightarrow> goes_on q \<Longrightarrow> I u"
    and "\<And>x u. I u \<Longrightarrow> k x u = Some (r, t) \<Longrightarrow> I t"
  shows "I t"
  using assms(1)
proof (rule thenO_cases)
  fix e assume "m = Some (Inl e, t)" "r = Inl e"
  with assms(2,3) show ?thesis by auto
qed (use assms(3,4) in auto)

lemma phase_goes:
  assumes "phase sel run n s = Some (r, t)" and "goes_on r" and "I s"
    and "\<And>l q u. run l s = Some (q, u) \<Longrightarrow> goes_on q \<Longrightarrow> I u"
  shows "I t"
proof (cases "n > 0")
  case True
  show ?thesis
  proof (cases "fdsExtractList (clientsocks_nfds (router s)) (sel (router s))")
    case (Inl e)
    with True assms(1,3) show ?thesis by (simp add: phase_def)
  next
    case (Inr l)
    with True assms(1) have "thenO (run l s) (\<lambda>nb s'. Some (Inr (n - nb), s')) = Some (r, t)" by (simp add: phase_def)
    then show ?thesis using assms(2) by (rule thenO_goes) (use assms(4) in auto)
  qed
qed (use assms in \<open>simp add: phase_def\<close>)

lemma serve_phases_live:
  assumes ok: "all_live s" and r: "serve_phases os n s = Some (r, t)" and g: "goes_on r"
  shows "all_live t"
  using r [unfolded serve_phases_def] g
proof (rule thenO_goes)
  show "all_live u" if "phase select_errorfds (\<lambda>l s. Some (handleSocketErrors os l 0 s)) n s = Some (q, u)" "goes_on q" for q u
    using that ok by (rule phase_goes) (use handleSocketErrors_live [OF ok] in auto)
next
  fix n1 s1 assume ok1: "all_live s1" and "thenO (phase select_readfds (\<lambda>l. serveSocketReceptions os l 0) n1 s1) (\<lambda>nb_act s.
    thenO (phase select_writefds (\<lambda>l. serveSocketEmissions os l 0) nb_act s) (\<lambda>nb_act s.
    thenO (Some (assertS (\<lambda>_. nb_act = 0) s)) (\<lambda>_ s.
    thenO (Some (releaseAll (dead_list (router s)) s)) (\<lambda>_ s.
    Some (Inr (), s\<lparr>router := (router s)\<lparr>dead_list := []\<rparr>\<rparr>))))) = Some (r, t)"
  from this(2) g show "all_live t"
  proof (rule thenO_goes)
    show "all_live u" if "phase select_readfds (\<lambda>l. serveSocketReceptions os l 0) n1 s1 = Some (q, u)" "goes_on q" for q u
      using that ok1 by (rule phase_goes) (use serveSocketReceptions_live [OF ok1] in auto)
  next
    fix n2 s2 assume ok2: "all_live s2" and "thenO (phase select_writefds (\<lambda>l. serveSocketEmissions os l 0) n2 s2) (\<lambda>nb_act s.
      thenO (Some (assertS (\<lambda>_. nb_act = 0) s)) (\<lambda>_ s.
      thenO (Some (releaseAll (dead_list (router s)) s)) (\<lambda>_ s.
      Some (Inr (), s\<lparr>router := (router s)\<lparr>dead_list := []\<rparr>\<rparr>)))) = Some (r, t)"
    from this(2) g show "all_live t"
    proof (rule thenO_goes)
      show "all_live u" if "phase select_writefds (\<lambda>l. serveSocketEmissions os l 0) n2 s2 = Some (q, u)" "goes_on q" for q u
        using that ok2 by (rule phase_goes) (use serveSocketEmissions_live [OF ok2] in auto)
    next
      fix n3 :: int and s3 assume ok3: "all_live s3" and "thenO (Some (assertS (\<lambda>_. n3 = 0) s3)) (\<lambda>_ s.
        thenO (Some (releaseAll (dead_list (router s)) s)) (\<lambda>_ s.
        Some (Inr (), s\<lparr>router := (router s)\<lparr>dead_list := []\<rparr>\<rparr>))) = Some (r, t)"
      moreover obtain q s4 where e: "releaseAll (dead_list (router s3)) s3 = (q, s4)" by fastforce
      moreover have "all_live (s4\<lparr>router := (router s4)\<lparr>dead_list := []\<rparr>\<rparr>)"
        by (rule all_live_fewer [OF releaseAll_live [OF ok3 e]]) (simp add: cnx_def)
      ultimately show "all_live t" using g releaseAll_live [OF ok3 e] by (cases "n3 = 0"; cases q) auto
    qed
  qed
qed

lemma select_phase_map: "select_phase os s = Some (r, t) \<Longrightarrow> socket_map (router t) = socket_map (router s)"
  by (auto simp: select_phase_def prepare_sets_def do_pselect_def modRouter_def andThen_def thenO_def syscall_def
      split: prod.splits sum.splits option.splits)

lemma ServeClientSockets_live:
  assumes "all_live s" and "ServeClientSockets os s = Some (r, t)" and "goes_on r"
  shows "all_live t"
  using assms(2) [unfolded ServeClientSockets_eq] assms(3)
proof (rule thenO_goes)
  show "all_live u" if "select_phase os s = Some (q, u)" for q u
    by (rule all_live_fewer [OF assms(1)]) (simp add: cnx_def select_phase_map [OF that])
qed (use serve_phases_live assms(3) in blast)

text \<open>An acceptance adds at most one connection, a new one.\<close>

lemma accept_client_live:
  fixes s :: "'k server"
  assumes l: "all_live s" and r: "accept_client os gs s = (r, t)"
  shows "all_live t"
proof -
  have same: "all_live u" if "router u = router s" for u :: "'k server"
    by (rule all_live_fewer [OF l]) (simp add: cnx_def that)
  obtain a k where a: "os_accept os (server_socket gs) (kern s) = (a, k)" by fastforce
  show ?thesis
  proof (cases a)
    case (Inl e)
    then show ?thesis using a r
      by (intro same) (auto simp: accept_client_def IncomingConnectionRequest_def andThen_def split: if_splits)
  next
    case (Inr p)
    obtain fd addr where p: "p = (fd, addr)" by fastforce
    let ?s = "s\<lparr>kern := k\<rparr>"
    have c: "CreateClientConnection os addr fd ?s = (r, t)"
      using a r Inr p by (simp add: accept_client_def IncomingConnectionRequest_def andThen_def)
    obtain q x where x: "new_ServerSocket os addr fd \<lparr>kern = kern ?s, errno = errno ?s\<rparr> = (q, x)" by fastforce
    have cn: "cnx t fd' = (if fd' = fd \<and> r = Inr () then Some (new_ServerClientConnection (sock x)) else cnx s fd')"
      and v: "r = Inr () \<Longrightarrow> fd_valid fd" for fd'
      using c x by (auto simp: CreateClientConnection_def Let_def cnx_def split: if_splits sum.splits)
    have d: "socket_descr (sock x) = fd" by (rule new_ServerSocket_descr [OF x])
    have f: "rx_fifo (sock x) = []"
      using x by (auto simp: new_ServerSocket_def socketConfiguration_def syscall_def andThen_def new_MsgSocket_def
          rxReset_def split: prod.splits sum.splits)
    have own: "own_descr t"
      using l v d unfolding own_descr_def all_live_def cn
      by (auto simp: new_ServerClientConnection_def fd_valid_def)
    have "\<exists>log. life fd' log t" if "cnx t fd' = Some c'" for fd' c'
    proof (cases "fd' = fd \<and> r = Inr ()")
      case True
      with life.Born [OF own v _ d f] cn show ?thesis by auto
    next
      case False
      with cn that have e: "cnx t fd' = cnx s fd'" by auto
      with that l obtain log where "life fd' log s" by (auto simp: all_live_def)
      from life.Elsewhere [OF this own e] show ?thesis by blast
    qed
    with own show ?thesis by (simp add: all_live_def)
  qed
qed

lemma server_body_live:
  assumes l: "all_live s" and r: "server_body os gs s = Some (r, t)" and g: "goes_on r"
  shows "all_live t"
  using r [unfolded server_body_def] g
proof (rule thenO_goes)
  show "all_live u" if "Some (accept_client os gs s) = Some (q, u)" for q u
    using that accept_client_live [OF l] by simp
next
  fix x u assume l1: "all_live u" and "thenO (ServeClientSockets os u) (\<lambda>_. waitUsec os 500000) = Some (r, t)"
  from this(2) g show "all_live t"
  proof (rule thenO_goes)
    show "all_live v" if "ServeClientSockets os u = Some (q, v)" "goes_on q" for q v
      using ServeClientSockets_live [OF l1 that] .
  next
    fix y v assume l2: "all_live v" and w: "waitUsec os 500000 v = Some (r, t)"
    have "sys.more t = sys.more v" using nanosleep_loop_rest [OF w [unfolded waitUsec_def]] by blast
    then have "router t = router v" by (cases t; cases v) simp
    then show "all_live t" by (intro all_live_fewer [OF l2]) (simp add: cnx_def)
  qed
qed

text \<open>Whatever the kernel answers, every connection there is at the head of the loop has a life.\<close>

theorem server_connections_live:
  assumes "new_GameServer os held addr prt s0 = (Inr gs, s)" and "at_head os gs s t" and "cnx t fd = Some c"
  shows "\<exists>log. life fd log t"
proof -
  obtain rd wr er where h: "held = (rd, wr, er)" by (cases held)
  have "router s = new_Router rd wr er"
    using assms(1) h by (auto simp: new_GameServer_def andThen_def dest!: SetupListenSocket_router
        split: prod.splits sum.splits)
  then have "all_live s" by (simp add: all_live_def own_descr_def cnx_def new_Router_def)
  with assms(2) have "all_live t"
  proof (rule at_head_invariant)
    fix u v assume "all_live u" "server_iteration os gs u = Some (Inr (), v)"
    moreover from this(2) obtain r where "server_body os gs u = Some (r, v)" "goes_on r"
      by (auto simp: server_iteration_def split: option.splits sum.splits if_splits)
    ultimately show "all_live v" by (blast intro: server_body_live)
  qed
  with assms(3) show ?thesis by (auto simp: all_live_def)
qed

end
