(* ===== verification/Spec2Isabelle.thy ===== *)
theory Spec2Isabelle
  imports DbleList Program ForkTrial EndToEnd ClientTyping ServerTyping Threads ConnectionLife
begin

text \<open>
  hex1 is the skeleton of a networked game in C++: a hexagonal map, a list container, and a client and a
  server that exchange framed messages over non-blocking TCP sockets. This development models the
  program's own code and proves what its parts guarantee, and where the code falls short of what its
  comments promise it proves that too.

  \<^bold>\<open>The program and its theories.\<close>
  \<^item> \<open>Prelude\<close>: the failures of a C++ operation (\<^verbatim>\<open>assert\<close>, exceptions, undefined behaviour, \<^verbatim>\<open>exit\<close>) as values,
    operations that keep the state they reached when they fail (\<open>stm\<close>, \<open>andThen\<close>), and which failures a
    \<^verbatim>\<open>catch(...)\<close> gets (\<open>is_exception\<close>).
  \<^item> \<open>Console\<close>: how numbers are written, and the exception class \<^verbatim>\<open>socket_disconnection\<close> of \<^verbatim>\<open>MsgSocket.h\<close>.
  \<^item> \<open>Hexmap\<close>: \<^verbatim>\<open>core/hexmap.h\<close> and \<^verbatim>\<open>core/hexmap.cpp\<close>. \<open>HexTests\<close>: \<^verbatim>\<open>core/hexmap_tests.cpp\<close>, the module test, as a program.
  \<^item> \<open>CircList\<close>: \<^verbatim>\<open>util/circList.h\<close>, the intrusive circular list, over an explicit heap of elements.
    \<open>ListTests\<close>: its looping macros and the two module tests as programs. \<open>DbleList\<close>: \<^verbatim>\<open>util/dbleList.h\<close>, which the
    preprocessor disables, as it is written.
  \<^item> \<open>Bytes\<close>, \<open>Protocol\<close>: memory as bytes at their offsets, byte order, and the identities, layouts and
    strings of \<^verbatim>\<open>ClientServerPrtcl.h\<close>.
  \<^item> \<open>FdSet\<close>, \<open>System_Calls\<close>: the descriptor sets with the two word loops of the server over them, and the
    record of the system calls. The kernel is not part of the repository: it is an argument \<open>os\<close> of every
    definition, over a kernel state of any type. \<open>Utilities\<close> has the directory \<^verbatim>\<open>util\<close>: \<^verbatim>\<open>waitUsec\<close>,
    \<^verbatim>\<open>display_network_addresses\<close> and \<^verbatim>\<open>get_ipv4_address\<close>.
  \<^item> \<open>Request\<close>: the requests a socket sends, \<^verbatim>\<open>ClientServerRequest\<close> and the two transfers of
    \<^verbatim>\<open>ClientServerFileTransferRequest.cpp\<close>.
  \<^item> \<open>MsgSocket\<close>: the framing of messages, \<^verbatim>\<open>MsgSocket.cpp\<close>. \<open>ClientSocket\<close>: \<^verbatim>\<open>ClientSocket.cpp\<close> and
    \<^verbatim>\<open>ServerSocket.cpp\<close>, with \<^verbatim>\<open>connect\<close> and \<^verbatim>\<open>poll\<close>.
  \<^item> \<open>Dispatch\<close>: the loop that both ends run over the received messages, with the locale
    \<open>message_handler\<close> that says what a handler must keep; it is interpreted on the handlers of the server
    (in \<open>ServerConnection\<close>) and of the client (in \<open>ClientConnection\<close>).
  \<^item> \<open>ServerConnection\<close>, \<open>Router\<close>: \<^verbatim>\<open>ServerClientConnection.cpp\<close>, one connection and the router that serves all
    of them with \<^verbatim>\<open>pselect\<close>. \<open>GameServer\<close>: \<^verbatim>\<open>gameServer.cpp\<close>, the listening socket and the endless loop.
    \<open>ConnectionLife\<close>: every connection of the running server has the \<open>life\<close> that \<open>ServerConnection\<close> reasons about.
  \<^item> \<open>ClientConnection\<close>: \<^verbatim>\<open>ClientConnection.cpp\<close>, the state machine of the client. \<open>GameClient\<close>: \<^verbatim>\<open>gameClient.cpp\<close>
    and the command line. \<open>Program\<close>: \<^verbatim>\<open>main.cpp\<close> as a whole, client, server or tests.
  \<^item> \<open>ForkTrial\<close>: \<^verbatim>\<open>ww2navalwg/mp.cc\<close>, a small program of its own that starts a second process.
  \<^item> \<open>Session\<close>: client and server together, protocol by protocol and message by message. \<open>Link\<close>, \<open>ClientEnd\<close>, \<open>ServerEnd\<close>,
    \<open>EndToEnd\<close>: the two programs in turns over a connection that works, from their construction to the registration.
  \<^item> \<open>SocketTyping\<close>, \<open>ClientTyping\<close>, \<open>ServerTyping\<close>: the types of the counters, queues and credentials as an
    invariant of the sockets, of the client under any sequence of calls and of the loop of the server.
  \<^item> \<open>Threads\<close>: the threads of the client, statement by statement, with the mutex \<^verbatim>\<open>registration_mutext\<close>.

  \<^bold>\<open>State.\<close> Each class is a record with the members of the class; a component that calls the kernel extends
  \<open>sys\<close>, the kernel state and \<^verbatim>\<open>errno\<close>. The operations of a socket run on \<open>sock_ctx\<close>, those of the server on
  \<open>server\<close>, whose router has the map from descriptors to connections, those of the client on \<open>client\<close>. An
  operation on the socket of a connection is lifted by \<open>sockS\<close> and \<open>onSock\<close>. Fresh memory is whatever
  \<open>os_new\<close> returns: the bytes that the code sends without having written them are visible in the theorems.

  \<^bold>\<open>Loops.\<close> A loop whose end depends on the kernel is a \<open>partial_function\<close> into \<open>option\<close>, and \<open>None\<close> means that it
  does not end; no fuel is used. That a loop does end is proved where it is claimed: the emission on single
  messages for any kernel, the reception on a framed stream, the dispatch of messages, the pause under
  signals. That the loop of the server never ends is proved as well, where \<^verbatim>\<open>accept\<close> keeps failing.

  \<^bold>\<open>Specifications.\<close> Lists of the heap are related to sequences. The byte stream of a socket is decoded by the
  reference function \<open>frames\<close>, and \<open>stream_at\<close> says of a kernel that it delivers a given stream in arbitrary
  pieces. Each end of the protocol has an abstract automaton, \<open>react\<close> for the server and \<open>obey\<close> for the
  client, which the handlers refine message by message and session by session; \<open>session_step\<close> joins them by
  two queues. The distance of the map is compared with the length of a shortest walk.

  \<^bold>\<open>What is shown, by groups of lemmas.\<close>
  \<^item> Sockets: emission and reception are inverse; nothing is lost, duplicated or reordered; the failures of
    both directions, among them an out-of-bounds write on an unchecked length.
  \<^item> One connection of the server (\<open>frames\<close>, \<open>replies\<close>, \<open>answered\<close>): handlers touch only their connection,
    refine \<open>react\<close>, and over the whole \<open>life\<close> of a connection its client is registered only after the handshake.
  \<^item> Router (\<open>table_ok\<close>, \<open>router_ok\<close>): the descriptor set, the map, the count and \<^verbatim>\<open>nfds\<close> agree after every
    registration, release and round, and at every turn of the server's loop, after the exceptions it has swallowed too,
    except a failed \<^verbatim>\<open>fcntl\<close> on an accepted socket; the rounds that abort are characterised, and what happens to a
    client that rounds pass over (\<open>passed_over\<close>).
  \<^item> Client (\<open>tame\<close>, \<open>client_step\<close>): a poll follows the state machine for any input; what is sent at the start
    and with the credentials; what a lost connection leads to.
  \<^item> Both: a request queued by the client's code is decoded by the server's code as what was meant up to the
    stray byte after each string, and replies conversely; the handshake ends in at most five steps.
  \<^item> Both in turns (\<open>leg\<close>, \<open>standing\<close>): a poll of the client and a round of the server keep the leg of the handshake or take
    it on, so that in any order of turns it ends, with both ends registered unless the byte after the version is in the way.
  \<^item> Requests, map and lists: the blocks of a file carry exactly the file, those of a memory block the block with 256
    bytes too many in the first; metric and walks; refinement of sequence operations; the module tests of the list pass for any addresses and any content of deleted
    memory; the outcome of the test of the map for any random generator.
  \<^item> Program: how \<^verbatim>\<open>main\<close> ends for each command; called as a server or for its tests it never returns.
  \<^item> Typing (\<open>sock_typed\<close>, \<open>client_typed\<close>, \<open>server_typed\<close>): every operation keeps the counters within the messages
    they index; the undefined behaviours left are the write that an unchecked length leads to (\<open>rx_rogue\<close>) and the
    emission of a request of more than 8184 bytes (\<open>tx_rogue\<close>).
  \<^item> Threads (\<open>writers_inv\<close>, \<open>first_inv\<close>): two writers exclude each other; the first credentials are sent whole or stay
    pending in every interleaving of writer and handler; later ones can be lost or mixed.

  \<^bold>\<open>Suppositions about the kernel\<close> are stated in the theorems that need them: \<open>pselect_ok\<close> (the sets and count of
  \<^verbatim>\<open>pselect\<close>), \<open>kernel_ok\<close> (also: \<^verbatim>\<open>accept\<close> never gives descriptor 0 and making a socket non-blocking
  succeeds), \<open>counts_ok\<close> (a transfer reports at most the bytes it was offered), \<open>sent_all\<close> (every chunk is taken whole), \<open>nanosleep_ok\<close> (remaining times),
  \<open>stream_at\<close>, \<open>link_ok\<close> (the two ends of a connection that delivers what is sent and always accepts more). Every one is instantiated by a sample kernel in a
  witness.

  \<^bold>\<open>Not modelled.\<close> Signals: \<^verbatim>\<open>EPIPE\<close> is an error number like the others here, while the \<^verbatim>\<open>SIGPIPE\<close> that comes with it would
  end the process first, which the texts of the properties about emission say; statements of threads are atomic. The progress messages of client and server on the console (what the exception class, the display of
  the interfaces, the thread of the user interface and the module tests write is modelled); the mutex \<^verbatim>\<open>tx_fifo_mutex\<close>,
  which protects single operations of a queue; \<^verbatim>\<open>transferFile\<close>, an empty stub; the time-out the router computes and
  does not use; the constructor of \<^verbatim>\<open>ClientServerMsgTransferRequest\<close>, which is declared and not defined;
  \<^verbatim>\<open>MessageDescr\<close>, an empty class; \<^verbatim>\<open>hex1DbgUtils.h\<close>, which nothing uses. Memory is not exhausted, and the destructors
  of shared pointers have no effect on the model but the removal from the map.
\<close>

end
